(* ===== verification/Prelude.thy ===== *)
theory Prelude
  imports Main "HOL-Library.Word" "HOL-Library.Signed_Division"
begin

text \<open>
  Shared vocabulary of the development: names for the machine integers of the Rust source,
  the Rust standard-library operations on them that several components use, the collections
  the component proofs extend, and generic lemmas on lists and words.

  Rust's \<^verbatim>\<open>u8 .. u128\<close> and \<^verbatim>\<open>i8 .. i128\<close> are both modelled by \<open>'n word\<close>: the bit pattern is
  the value, \<^const>\<open>unat\<close> and \<^const>\<open>uint\<close> read it as unsigned and \<^const>\<open>sint\<close> as two's
  complement, so that an \<^verbatim>\<open>as\<close> cast between the two readings of one width is the identity,
  a widening cast is \<^const>\<open>ucast\<close> or \<^const>\<open>scast\<close> according to the source type and a narrowing
  cast is \<^const>\<open>ucast\<close>. The shipped build is Cargo's release profile, which leaves overflow
  checks off: plain \<^verbatim>\<open>+\<close>, \<^verbatim>\<open>-\<close> and \<^verbatim>\<open>*\<close> wrap, as they do on words.
\<close>

unbundle bit_operations_syntax

type_synonym u8 = "8 word"
type_synonym u16 = "16 word"
type_synonym u32 = "32 word"
type_synonym u64 = "64 word"
type_synonym u128 = "128 word"
type_synonym i8 = "8 word"
type_synonym i16 = "16 word"
type_synonym i32 = "32 word"
type_synonym i64 = "64 word"
type_synonym i128 = "128 word"

text \<open>A fallible Rust function \<^verbatim>\<open>Result<T, E>\<close>: \<^const>\<open>Inl\<close> is \<^verbatim>\<open>Err\<close>, \<^const>\<open>Inr\<close> is \<^verbatim>\<open>Ok\<close>.\<close>

type_synonym ('e, 'a) result = "'e + 'a"

named_theorems word_norm "facts that move word goals to naturals"

subsection \<open>Operations of the Rust standard library\<close>

definition saturating_sub :: "'a::len word \<Rightarrow> 'a word \<Rightarrow> 'a word" where
  "saturating_sub a b = (if a < b then 0 else a - b)"

text \<open>\<^verbatim>\<open>to_le_bytes\<close> at \<open>n\<close> bytes, and its inverse.\<close>

fun to_le_bytes :: "nat \<Rightarrow> 'a::len word \<Rightarrow> u8 list" where
  "to_le_bytes 0 w = []"
| "to_le_bytes (Suc n) w = ucast w # to_le_bytes n (drop_bit 8 w)"

fun from_le_bytes :: "u8 list \<Rightarrow> 'a::len word" where
  "from_le_bytes [] = 0"
| "from_le_bytes (b # bs) = ucast b OR push_bit 8 (from_le_bytes bs)"

subsection \<open>Lists\<close>

lemma sorted_wrt_less_set_eq:
  fixes xs ys :: "'a::linorder list"
  assumes "sorted_wrt (<) xs" and "sorted_wrt (<) ys" and "set xs = set ys"
  shows "xs = ys"
  using assms by (simp add: strict_sorted_equal)

lemma sorted_wrt_map_mono:
  assumes "sorted_wrt R xs" and "\<And>x y. x \<in> set xs \<Longrightarrow> y \<in> set xs \<Longrightarrow> R x y \<Longrightarrow> S (f x) (f y)"
  shows "sorted_wrt S (map f xs)"
  using assms by (induction xs) auto

subsection \<open>Words\<close>

lemma unat_saturating_sub [simp, word_norm]:
  "unat (saturating_sub a b) = unat a - unat b"
  by (auto simp: saturating_sub_def unat_sub_if_size word_less_nat_alt)

lemma length_to_le_bytes [simp]: "length (to_le_bytes n w) = n"
  by (induction n arbitrary: w) auto

lemma bit_nonzero_word: "w \<noteq> 0 \<longleftrightarrow> (\<exists>i. bit w i)" for w :: "'a::len word"
  by (auto simp: bit_eq_iff dest: bit_imp_le_length)

lemma unat_add_below:
  fixes a b c :: "'a::len word"
  assumes "unat a + unat b \<le> unat c"
  shows "unat (a + b) = unat a + unat b"
proof -
  have "unat a + unat b < 2 ^ LENGTH('a)"
    using assms unsigned_less [of c] by (rule le_less_trans)
  then show ?thesis
    by (simp add: unat_word_ariths)
qed

lemma even_unat_iff: "even (unat w) \<longleftrightarrow> \<not> bit w 0" for w :: "'a::len word"
  using bit_0 [of "unat w"] by (simp add: bit_unsigned_iff)

lemma and_one_eq_0_iff_bit: "w AND 1 = 0 \<longleftrightarrow> \<not> bit w 0" for w :: "'a::len word"
  by (simp add: and_one_eq bit_0 mod_2_eq_odd)

lemma drop_bit_and_one_iff_bit: "drop_bit k w AND 1 \<noteq> 0 \<longleftrightarrow> bit w k" for w :: "'a::len word"
  by (simp add: and_one_eq bit_iff_odd_drop_bit mod_2_eq_odd)

lemma uint_word_of_int_range:
  "0 \<le> d \<Longrightarrow> d < 2 ^ LENGTH('a) \<Longrightarrow> uint (word_of_int d :: 'a::len word) = d"
  by (simp add: uint_word_of_int_eq take_bit_int_eq_self)

lemma drop_bit_eq_0_iff_unat: "drop_bit k v = 0 \<longleftrightarrow> unat v < 2 ^ k" for v :: "'a::len word"
proof -
  have "drop_bit k v = 0 \<longleftrightarrow> unat (drop_bit k v) = 0"
    by (simp only: unat_eq_zero)
  also have "\<dots> \<longleftrightarrow> unat v div 2 ^ k = 0"
    by (simp only: unat_drop_bit_eq drop_bit_eq_div [of k "unat v"])
  finally show ?thesis
    by (simp add: div_eq_0_iff)
qed

lemma drop_bit_eq_0_iff_uint: "drop_bit k v = 0 \<longleftrightarrow> uint v < 2 ^ k" for v :: "'a::len word"
  by (simp only: drop_bit_eq_0_iff_unat uint_nat of_nat_less_numeral_power_cancel_iff)

lemma unat_ucast_up:
  "LENGTH('a) \<le> LENGTH('b) \<Longrightarrow> unat (ucast (w :: 'a::len word) :: 'b::len word) = unat w"
  by (simp add: unsigned_ucast_eq take_bit_nat_eq_self_iff less_le_trans [OF unsigned_less])

lemma uint_ucast_up:
  "LENGTH('a) \<le> LENGTH('b) \<Longrightarrow> uint (ucast (w :: 'a::len word) :: 'b::len word) = uint w"
  by (simp only: uint_nat unat_ucast_up)

lemma from_to_le_bytes:
  "from_le_bytes (to_le_bytes n w) = (take_bit (8 * n) w :: 'a::len word)"
proof (induction n arbitrary: w)
  case (Suc n)
  show ?case
    by (rule bit_word_eqI)
      (auto simp: Suc bit_or_iff bit_push_bit_iff bit_take_bit_iff bit_drop_bit_eq bit_ucast_iff
        not_less dest: bit_imp_le_length)
qed simp

lemma bit_from_le_bytes:
  "bit (from_le_bytes bs :: 'a::len word) i \<longleftrightarrow>
     i < LENGTH('a) \<and> i div 8 < length bs \<and> bit (bs ! (i div 8)) (i mod 8)"
proof (induction bs arbitrary: i)
  case (Cons b bs)
  show ?case
  proof (cases "i < 8")
    case True
    then show ?thesis
      by (auto simp: bit_simps)
  next
    case False
    then have "i div 8 = Suc ((i - 8) div 8)" "i mod 8 = (i - 8) mod 8" "\<not> bit b i"
      by (auto simp: le_div_geq le_mod_geq dest: bit_imp_le_length)
    then show ?thesis
      using False by (auto simp: bit_simps Cons.IH)
  qed
qed simp

lemma nth_to_le_bytes: "k < n \<Longrightarrow> to_le_bytes n w ! k = ucast (drop_bit (8 * k) w)"
proof (induction n arbitrary: k w)
  case (Suc n)
  then show ?case
    by (cases k) (auto simp: drop_bit_drop_bit algebra_simps)
qed simp

lemma unat_take_bit_less: "unat (take_bit n w) < 2 ^ n" for w :: "'a::len word"
  by (simp add: unsigned_take_bit_eq)

lemma unat_push_bit_exact: "unat (push_bit n w) = unat w * 2 ^ n"
  if "unat w * 2 ^ n < 2 ^ LENGTH('a)" for w :: "'a::len word"
  using that by (simp add: unsigned_push_bit_eq push_bit_eq_mult [of n "unat w"] take_bit_nat_eq_self del: push_bit_eq_mult)

lemma unat_drop_bit_div: "unat (drop_bit n w) = unat w div 2 ^ n" for w :: "'a::len word"
  by (simp add: unat_drop_bit_eq drop_bit_eq_div [of n "unat w"])

lemma unat_take_bit_mod: "unat (take_bit n w) = unat w mod 2 ^ n" for w :: "'a::len word"
  by (simp add: unsigned_take_bit_eq take_bit_eq_mod [of n "unat w"])

lemma nonneg_sdiv: "0 \<le> x \<Longrightarrow> 0 \<le> y \<Longrightarrow> x sdiv y = x div y" "0 \<le> x \<Longrightarrow> x smod y = x mod \<bar>y\<bar>" for x y :: int
  by (cases "x = 0"; cases "y = 0"; simp add: signed_divide_int_def signed_modulo_int_def)+

end
