(* ===== verification/Relr.thy ===== *)
theory Relr
  imports Prelude
begin

text \<open>
  The compact relative-relocation encoder of the linker,
  \<^verbatim>\<open>src/src/backend/linker_common/relr.rs\<close>: partitioning the relative relocations of an output
  into RELR addresses and leftovers, and packing sorted addresses into address and bitmap words.
  The 64-bit and the 32-bit encoder are the same loop at two word sizes, so the loop is defined
  once over the width, with the slot size and the window as arguments, and the two entry points
  instantiate it. The decoder is the loop a dynamic loader runs (the source keeps it for its tests).
\<close>

subsection \<open>Partitioning\<close>

definition dedup :: "'a list \<Rightarrow> 'a list" where
  "dedup xs = remdups_adj xs"

definition partition_relative_64 :: "(u64 \<times> u64) list \<Rightarrow> u64 list \<times> (u64 \<times> u64) list" where
  "partition_relative_64 entries =
     (dedup (sort (map fst (filter (\<lambda>(addr, addend). addr AND 7 = 0) entries))),
      filter (\<lambda>(addr, addend). addr AND 7 \<noteq> 0) entries)"

definition partition_relative_32 :: "u32 list \<Rightarrow> u32 list \<times> u32 list" where
  "partition_relative_32 addrs =
     (dedup (sort (filter (\<lambda>addr. addr AND 3 = 0) addrs)),
      filter (\<lambda>addr. addr AND 3 \<noteq> 0) addrs)"

subsection \<open>Encoding\<close>

text \<open>The innermost loop: bits of one bitmap word, from the cursor on.\<close>

definition relr_in_window :: "'a::len word \<Rightarrow> 'a word \<Rightarrow> 'a word \<Rightarrow> 'a word \<Rightarrow> bool" where
  "relr_in_window ws win cur a \<longleftrightarrow>
     \<not> (win \<le> saturating_sub a cur \<or> saturating_sub a cur mod ws \<noteq> 0)"

fun relr_bitmap ::
  "'a::len word \<Rightarrow> 'a word \<Rightarrow> 'a word \<Rightarrow> 'a word list \<Rightarrow> 'a word \<Rightarrow> 'a word \<times> 'a word list" where
  "relr_bitmap ws win cur [] bm = (bm, [])"
| "relr_bitmap ws win cur (a # as) bm =
     (if relr_in_window ws win cur a
      then relr_bitmap ws win cur as
             (bm OR push_bit (unat (saturating_sub a cur div ws + 1)) 1)
      else (bm, a # as))"

lemma relr_bitmap_rest_length: "length (snd (relr_bitmap ws win cur as bm)) \<le> length as"
  by (induction as arbitrary: bm) (auto simp: le_SucI)

text \<open>The middle loop: bitmap words as long as the next address falls into the next window.\<close>

function relr_windows ::
  "'a::len word \<Rightarrow> 'a word \<Rightarrow> 'a word \<Rightarrow> 'a word list \<Rightarrow> 'a word list \<times> 'a word list" where
  "relr_windows ws win cur [] = ([], [])"
| "relr_windows ws win cur (a # as) =
     (if relr_in_window ws win cur a
      then let (bm, rest) = relr_bitmap ws win cur (a # as) 1;
               (bms, rest') = relr_windows ws win (cur + win) rest
           in (bm # bms, rest')
      else ([], a # as))"
  by pat_completeness auto
termination
proof (relation "measure (\<lambda>(ws, win, cur, as). length as)", goal_cases)
  case (2 ws win cur a as x bm rest)
  then have "rest = snd (relr_bitmap ws win cur as
      (1 OR push_bit (unat (saturating_sub a cur div ws + 1)) 1))"
    by (auto dest: arg_cong [where f = snd])
  then show ?case
    using relr_bitmap_rest_length [of ws win cur as] by (simp add: le_imp_less_Suc)
qed simp

lemma relr_windows_rest_length: "length (snd (relr_windows ws win cur as)) \<le> length as"
proof (induction ws win cur as rule: relr_windows.induct)
  case (2 ws win cur a as)
  show ?case
  proof (cases "relr_in_window ws win cur a")
    case True
    obtain bm rest where b: "relr_bitmap ws win cur (a # as) 1 = (bm, rest)"
      by fastforce
    have "length rest \<le> length (a # as)"
      using relr_bitmap_rest_length [of ws win cur "a # as" 1] b by simp
    moreover have "length (snd (relr_windows ws win (cur + win) rest)) \<le> length rest"
      using 2 True b by simp
    ultimately show ?thesis
      using True b by (simp add: case_prod_beta)
  qed simp
qed simp

text \<open>The outer loop: one address word per run.\<close>

function relr_encode :: "'a::len word \<Rightarrow> 'a word \<Rightarrow> 'a word list \<Rightarrow> 'a word list" where
  "relr_encode ws win [] = []"
| "relr_encode ws win (a # as) =
     (let (bms, rest) = relr_windows ws win (a + ws) as
      in a # bms @ relr_encode ws win rest)"
  by pat_completeness auto
termination
proof (relation "measure (\<lambda>(ws, win, as). length as)", goal_cases)
  case (2 ws win a as x bms rest)
  then show ?case
    using relr_windows_rest_length [of ws win "a + ws" as] by (cases "relr_windows ws win (a + ws) as") auto
qed simp

definition encode_relr_64_words :: "u64 list \<Rightarrow> u64 list" where
  "encode_relr_64_words addrs = relr_encode 8 (8 * 63) addrs"

definition encode_relr_64_bytes :: "u64 list \<Rightarrow> u8 list" where
  "encode_relr_64_bytes addrs = concat (map (to_le_bytes 8) (encode_relr_64_words addrs))"

definition encode_relr_32_words :: "u32 list \<Rightarrow> u32 list" where
  "encode_relr_32_words addrs = relr_encode 4 (4 * 31) addrs"

definition encode_relr_32_bytes :: "u32 list \<Rightarrow> u8 list" where
  "encode_relr_32_bytes addrs = concat (map (to_le_bytes 4) (encode_relr_32_words addrs))"

subsection \<open>Decoding\<close>

fun relr_decode :: "'a::len word \<Rightarrow> nat \<Rightarrow> 'a word \<Rightarrow> 'a word list \<Rightarrow> 'a word list" where
  "relr_decode ws bits cur [] = []"
| "relr_decode ws bits cur (w # words) =
     (if w AND 1 = 0
      then w # relr_decode ws bits (w + ws) words
      else map (\<lambda>k. cur + (of_nat k - 1) * ws) (filter (\<lambda>k. drop_bit k w AND 1 \<noteq> 0) [1..<bits])
           @ relr_decode ws bits (cur + (of_nat bits - 1) * ws) words)"

definition decode_relr_64_words :: "u64 list \<Rightarrow> u64 list" where
  "decode_relr_64_words words = relr_decode 8 64 0 words"

definition decode_relr_32_words :: "u32 list \<Rightarrow> u32 list" where
  "decode_relr_32_words words = relr_decode 4 32 0 words"

subsection \<open>The geometry both classes share\<close>

text \<open>
  What the encoding relies on: the slot size divides the address space and is even (so an address
  word is never mistaken for a bitmap), and a bitmap covers one slot per bit above bit 0.
\<close>

locale relr_geometry =
  fixes ws win :: "'a::len word" and bits :: nat
  assumes bits: "bits = LENGTH('a)"
    and ws_dvd: "unat ws dvd 2 ^ LENGTH('a)"
    and ws_even: "even (unat ws)"
    and win: "unat win = unat ws * (bits - 1)"
    and win_word: "win = ws * (of_nat bits - 1)"
begin

definition aligned :: "'a word \<Rightarrow> bool" where
  "aligned a \<longleftrightarrow> unat ws dvd unat a"

definition slot :: "'a word \<Rightarrow> 'a word \<Rightarrow> nat" where
  "slot cur a = (unat a - unat cur) div unat ws + 1"

definition reaches :: "'a word \<Rightarrow> 'a word \<Rightarrow> bool" where
  "reaches cur a \<longleftrightarrow> unat a < unat cur + unat win"

lemma ws_pos: "0 < unat ws"
  using ws_dvd by (auto intro!: gr0I)

lemma in_window_iff:
  assumes "aligned cur" "aligned a" "cur \<le> a"
  shows "relr_in_window ws win cur a \<longleftrightarrow> reaches cur a"
proof -
  have "unat ws dvd unat a - unat cur"
    using assms by (simp add: aligned_def)
  then have "saturating_sub a cur mod ws = 0"
    by (simp add: unat_mod flip: unat_eq_zero)
  then show ?thesis
    using assms by (auto simp: relr_in_window_def reaches_def word_le_nat_alt)
qed

lemma slot_bounds:
  assumes "reaches cur a" "cur \<le> a"
  shows "0 < slot cur a" "slot cur a < bits"
proof -
  have "unat a - unat cur < unat ws * (bits - 1)"
    using assms by (simp add: reaches_def win word_le_nat_alt)
  then have "(unat a - unat cur) div unat ws < bits - 1"
    using ws_pos by (simp add: less_mult_imp_div_less mult.commute)
  then show "slot cur a < bits"
    by (simp add: slot_def)
qed (simp add: slot_def)

lemma unat_slot:
  assumes "reaches cur a" "cur \<le> a"
  shows "unat (saturating_sub a cur div ws + 1) = slot cur a"
proof -
  have "slot cur a < 2 ^ LENGTH('a)"
    using slot_bounds(2) [OF assms] bits less_exp [of "LENGTH('a)"] by linarith
  then show ?thesis
    by (simp add: slot_def unat_word_ariths unat_div)
qed

lemma slot_inverse:
  assumes "reaches cur a" "cur \<le> a" "aligned cur" "aligned a"
  shows "cur + (of_nat (slot cur a) - 1) * ws = a"
proof -
  have "unat ws dvd unat a - unat cur"
    using assms by (simp add: aligned_def)
  then have *: "(unat a - unat cur) div unat ws * unat ws = unat a - unat cur"
    by simp
  have "(of_nat (slot cur a) - 1) * ws = of_nat ((unat a - unat cur) div unat ws) * of_nat (unat ws)"
    by (simp add: slot_def)
  also have "\<dots> = of_nat (unat a - unat cur)"
    by (metis * of_nat_mult)
  also have "\<dots> = a - cur"
    using assms(2) by (simp add: of_nat_diff word_le_nat_alt)
  finally show ?thesis by simp
qed

lemma slot_mono:
  assumes "cur \<le> a" "a < b" "aligned cur" "aligned a" "aligned b"
  shows "slot cur a < slot cur b"
proof -
  have "unat a - unat cur < unat b - unat cur"
    using assms by (simp add: word_le_nat_alt word_less_nat_alt)
  moreover have "unat ws dvd unat a - unat cur" "unat ws dvd unat b - unat cur"
    using assms by (simp_all add: aligned_def)
  ultimately show ?thesis
    by (simp add: slot_def div_less_mono ws_pos dvd_imp_mod_0)
qed

lemma bitmap_spec:
  assumes "aligned cur" "\<forall>a \<in> set as. aligned a \<and> cur \<le> a" "sorted_wrt (<) as"
  shows "snd (relr_bitmap ws win cur as bm) = dropWhile (reaches cur) as"
    and "k < bits \<Longrightarrow> bit (fst (relr_bitmap ws win cur as bm)) k \<longleftrightarrow>
           bit bm k \<or> k \<in> slot cur ` set (takeWhile (reaches cur) as)"
  using assms
proof (induction as arbitrary: bm)
  case (Cons a as)
  {
    case 1
    then show ?case using Cons.IH by (simp add: in_window_iff)
  next
    case 2
    then show ?case
      using Cons.IH(2) bits by (auto simp: in_window_iff unat_slot bit_or_iff bit_push_bit_iff bit_1_iff bit_exp_iff)
  }
qed simp_all

lemma bitmap_decode:
  assumes "aligned cur" "\<forall>a \<in> set as. aligned a \<and> cur \<le> a" "sorted_wrt (<) as"
  shows "map (\<lambda>k. cur + (of_nat k - 1) * ws)
           (filter (bit (fst (relr_bitmap ws win cur as 1))) [1..<bits])
         = takeWhile (reaches cur) as" (is "map ?f ?ks = ?ps")
proof -
  let ?ss = "map (slot cur) ?ps"
  have ps: "a \<in> set ?ps \<Longrightarrow> reaches cur a \<and> cur \<le> a \<and> aligned a" for a
    using assms(2) by (auto dest: set_takeWhileD)
  have "sorted_wrt (<) ?ps"
    using assms(3) by (metis sorted_wrt_append takeWhile_dropWhile_id)
  then have "sorted_wrt (<) ?ss"
    by (rule sorted_wrt_map_mono) (use assms(1) ps slot_mono in blast)
  moreover have "sorted_wrt (<) ?ks"
    by (simp add: sorted_wrt_filter)
  moreover have "set ?ks = set ?ss"
    using bitmap_spec(2) [OF assms, of _ 1] slot_bounds ps
    by (fastforce simp: bit_1_iff)
  ultimately have "?ks = ?ss"
    by (intro sorted_wrt_less_set_eq)
  then have "map ?f ?ks = map (\<lambda>a. cur + (of_nat (slot cur a) - 1) * ws) ?ps"
    by simp
  also have "\<dots> = map (\<lambda>a. a) ?ps"
    using ps assms(1) slot_inverse by (intro map_cong) auto
  finally show ?thesis by simp
qed

lemma decode_bitmap_word:
  assumes "bit w 0"
  shows "relr_decode ws bits cur (w # words) =
    map (\<lambda>k. cur + (of_nat k - 1) * ws) (filter (bit w) [1..<bits])
    @ relr_decode ws bits (cur + win) words"
  using assms by (simp only: relr_decode.simps drop_bit_and_one_iff_bit) (simp add: and_one_eq_0_iff_bit win_word mult.commute)

lemma next_window:
  assumes "aligned cur" "\<forall>a \<in> set as. aligned a \<and> cur \<le> a" "sorted_wrt (<) as"
    and "rest = dropWhile (reaches cur) as"
  shows "aligned (cur + win)" "\<forall>a \<in> set rest. aligned a \<and> cur + win \<le> a" "sorted_wrt (<) rest"
proof -
  show "aligned (cur + win)"
    using assms(1) ws_dvd by (simp add: aligned_def unat_word_ariths win dvd_mod)
  show "sorted_wrt (<) rest"
    using assms(3,4) by (metis sorted_wrt_append takeWhile_dropWhile_id)
  show "\<forall>a \<in> set rest. aligned a \<and> cur + win \<le> a"
  proof
    fix a assume a: "a \<in> set rest"
    then have "a \<in> set as"
      using assms(4) by (auto dest: set_dropWhileD)
    obtain b rest' where r: "rest = b # rest'"
      using a by (cases rest) auto
    then have "\<not> reaches cur b"
      using assms(4) by (metis dropWhile_eq_Cons_conv)
    moreover have "b \<le> a"
      using a r \<open>sorted_wrt (<) rest\<close> by auto
    ultimately have *: "unat cur + unat win \<le> unat a"
      by (simp add: reaches_def word_le_nat_alt)
    then have "unat (cur + win) = unat cur + unat win"
      by (rule unat_add_below)
    then show "aligned a \<and> cur + win \<le> a"
      using * \<open>a \<in> set as\<close> assms(2) by (simp add: word_le_nat_alt)
  qed
qed

lemma windows_decode:
  assumes "aligned cur" "\<forall>a \<in> set as. aligned a \<and> cur \<le> a" "sorted_wrt (<) as"
    and "relr_windows ws win cur as = (bms, rest)"
  shows "\<exists>ps cur'. as = ps @ rest \<and>
    (\<forall>words. relr_decode ws bits cur (bms @ words) = ps @ relr_decode ws bits cur' words)"
  using assms
proof (induction "length as" arbitrary: cur as bms rest rule: less_induct)
  case less
  show ?case
  proof (cases "as \<noteq> [] \<and> relr_in_window ws win cur (hd as)")
    case True
    then obtain a as' where as: "as = a # as'" and a: "relr_in_window ws win cur a"
      by (cases as) auto
    define rest1 where "rest1 = dropWhile (reaches cur) as"
    let ?bm = "fst (relr_bitmap ws win cur as 1)"
    have bm: "relr_bitmap ws win cur as 1 = (?bm, rest1)"
      using bitmap_spec(1) [OF less.prems(1-3)] by (simp add: rest1_def prod_eq_iff)
    obtain bms1 where bms: "bms = ?bm # bms1" and rec: "relr_windows ws win (cur + win) rest1 = (bms1, rest)"
      using less.prems(4) a bm by (auto simp: as split: prod.splits)
    note nxt = next_window [OF less.prems(1-3) rest1_def]
    have "reaches cur a"
      using a less.prems(1,2) by (simp add: as in_window_iff)
    then have "length rest1 < length as"
      by (simp add: rest1_def as le_imp_less_Suc length_dropWhile_le)
    then obtain ps cur' where ps: "rest1 = ps @ rest"
      "\<And>words. relr_decode ws bits (cur + win) (bms1 @ words) = ps @ relr_decode ws bits cur' words"
      using less.hyps [OF _ nxt rec] by blast
    have "bit ?bm 0"
      using bitmap_spec(2) [OF less.prems(1-3), of 0 1] bits by simp
    then have "relr_decode ws bits cur (bms @ words) =
        (takeWhile (reaches cur) as @ ps) @ relr_decode ws bits cur' words" for words
      using ps(2) bitmap_decode [OF less.prems(1-3)] by (simp add: bms decode_bitmap_word del: relr_decode.simps)
    moreover have "as = (takeWhile (reaches cur) as @ ps) @ rest"
      using ps(1) unfolding rest1_def by (metis append_assoc takeWhile_dropWhile_id)
    ultimately show ?thesis by blast
  next
    case False
    then have "bms = []" "rest = as"
      using less.prems(4) by (cases as; auto)+
    then show ?thesis by auto
  qed
qed

theorem decode_encode:
  assumes "\<forall>a \<in> set as. aligned a" "sorted_wrt (<) as"
  shows "relr_decode ws bits cur (relr_encode ws win as) = as"
  using assms
proof (induction "length as" arbitrary: as cur rule: less_induct)
  case less
  show ?case
  proof (cases as)
    case (Cons a as')
    obtain bms rest where w: "relr_windows ws win (a + ws) as' = (bms, rest)"
      by fastforce
    have "aligned (a + ws)"
      using less.prems(1) ws_dvd by (simp add: Cons aligned_def unat_word_ariths dvd_mod)
    moreover have "\<forall>b \<in> set as'. aligned b \<and> a + ws \<le> b"
    proof
      fix b assume b: "b \<in> set as'"
      then have "a < b" "aligned a" "aligned b"
        using less.prems by (auto simp: Cons)
      then have "unat ws dvd unat b - unat a" "0 < unat b - unat a"
        by (auto simp: aligned_def word_less_nat_alt)
      then have *: "unat a + unat ws \<le> unat b"
        by (auto dest!: dvd_imp_le)
      then have "unat (a + ws) = unat a + unat ws"
        by (rule unat_add_below)
      then show "aligned b \<and> a + ws \<le> b"
        using * \<open>aligned b\<close> by (simp add: word_le_nat_alt)
    qed
    moreover have "sorted_wrt (<) as'"
      using less.prems by (simp add: Cons)
    ultimately obtain ps cur' where ps: "as' = ps @ rest"
      "\<And>words. relr_decode ws bits (a + ws) (bms @ words) = ps @ relr_decode ws bits cur' words"
      using windows_decode [OF _ _ _ w] by blast
    have "relr_decode ws bits cur' (relr_encode ws win rest) = rest"
      using less.hyps [of rest] less.prems by (auto simp: Cons ps(1) sorted_wrt_append)
    moreover have "a AND 1 = 0"
      using less.prems(1) ws_even dvd_trans [of 2 "unat ws" "unat a"]
      by (simp add: Cons aligned_def and_one_eq_0_iff_bit flip: even_unat_iff)
    ultimately show ?thesis
      using w ps by (simp add: Cons)
  qed simp
qed

end

interpretation relr64: relr_geometry "8 :: u64" "8 * 63" 64
  by unfold_locales simp_all

interpretation relr32: relr_geometry "4 :: u32" "4 * 31" 32
  by unfold_locales simp_all

subsection \<open>Properties\<close>

lemma and_7_dvd: "a AND 7 = 0 \<longleftrightarrow> 8 dvd unat a" for a :: u64
proof -
  have "a AND 7 = take_bit 3 a"
    by (simp add: take_bit_eq_mask mask_eq_exp_minus_1)
  then have "unat (a AND 7) = unat a mod 8"
    by (simp add: take_bit_eq_mod unat_mod)
  then show ?thesis
    by (simp add: dvd_eq_mod_eq_0 flip: unat_eq_zero)
qed

lemma and_3_dvd: "a AND 3 = 0 \<longleftrightarrow> 4 dvd unat a" for a :: u32
proof -
  have "a AND 3 = take_bit 2 a"
    by (simp add: take_bit_eq_mask mask_eq_exp_minus_1)
  then have "unat (a AND 3) = unat a mod 4"
    by (simp add: take_bit_eq_mod unat_mod)
  then show ?thesis
    by (simp add: dvd_eq_mod_eq_0 flip: unat_eq_zero)
qed

lemma strict_sorted_remdups_adj:
  fixes xs :: "'a::linorder list"
  shows "sorted xs \<Longrightarrow> sorted_wrt (<) (remdups_adj xs)"
  by (induction xs rule: remdups_adj.induct) (auto simp: less_le)

lemma dedup_sort:
  fixes xs :: "'a::linorder list"
  shows "sorted_wrt (<) (dedup (sort xs))" and "set (dedup (sort xs)) = set xs"
  by (simp_all add: dedup_def strict_sorted_remdups_adj)

lemma roundtrip_64:
  "\<forall>a \<in> set addrs. a AND 7 = 0 \<Longrightarrow> sorted_wrt (<) addrs \<Longrightarrow>
    decode_relr_64_words (encode_relr_64_words addrs) = addrs"
  unfolding decode_relr_64_words_def encode_relr_64_words_def
  by (rule relr64.decode_encode) (simp_all add: relr64.aligned_def and_7_dvd)

lemma roundtrip_32:
  "\<forall>a \<in> set addrs. a AND 3 = 0 \<Longrightarrow> sorted_wrt (<) addrs \<Longrightarrow>
    decode_relr_32_words (encode_relr_32_words addrs) = addrs"
  unfolding decode_relr_32_words_def encode_relr_32_words_def
  by (rule relr32.decode_encode) (simp_all add: relr32.aligned_def and_3_dvd)

text \<open>
  C9: for every list of relative relocations, the packed \<^verbatim>\<open>.relr.dyn\<close> words decode to exactly the
  8-byte-aligned relocation addresses, each once and in ascending order, and the unaligned
  relocations are exactly those left for \<^verbatim>\<open>.rela.dyn\<close>, with their addends and in input order.
\<close>

theorem relr_64_covers_every_relocation:
  "sorted_wrt (<) (decode_relr_64_words (encode_relr_64_words (fst (partition_relative_64 es)))) \<and>
   set (decode_relr_64_words (encode_relr_64_words (fst (partition_relative_64 es)))) =
     {a. \<exists>v. (a, v) \<in> set es \<and> 8 dvd unat a} \<and>
   snd (partition_relative_64 es) = filter (\<lambda>(a, v). \<not> 8 dvd unat a) es"
proof -
  let ?as = "fst (partition_relative_64 es)"
  have s: "set ?as = {a. \<exists>v. (a, v) \<in> set es \<and> 8 dvd unat a}"
    by (force simp: partition_relative_64_def dedup_sort and_7_dvd)
  moreover have "sorted_wrt (<) ?as"
    by (simp add: partition_relative_64_def dedup_sort)
  moreover have "decode_relr_64_words (encode_relr_64_words ?as) = ?as"
    by (rule roundtrip_64) (use s \<open>sorted_wrt (<) ?as\<close> in \<open>auto simp: and_7_dvd\<close>)
  ultimately show ?thesis
    by (simp add: partition_relative_64_def and_7_dvd)
qed

text \<open>
  The 32-bit class: the packed \<^verbatim>\<open>Elf32_Relr\<close> words decode to exactly the 4-byte-aligned
  addresses in ascending order, and the unaligned addresses stay in \<^verbatim>\<open>.rel.dyn\<close>.
\<close>

theorem relr_32_covers_every_relocation:
  "sorted_wrt (<) (decode_relr_32_words (encode_relr_32_words (fst (partition_relative_32 as)))) \<and>
   set (decode_relr_32_words (encode_relr_32_words (fst (partition_relative_32 as)))) =
     {a \<in> set as. 4 dvd unat a} \<and>
   snd (partition_relative_32 as) = filter (\<lambda>a. \<not> 4 dvd unat a) as"
proof -
  let ?as = "fst (partition_relative_32 as)"
  have s: "set ?as = {a \<in> set as. 4 dvd unat a}"
    by (auto simp: partition_relative_32_def dedup_sort and_3_dvd)
  moreover have "sorted_wrt (<) ?as"
    by (simp add: partition_relative_32_def dedup_sort)
  moreover have "decode_relr_32_words (encode_relr_32_words ?as) = ?as"
    by (rule roundtrip_32) (use s \<open>sorted_wrt (<) ?as\<close> in \<open>auto simp: and_3_dvd\<close>)
  ultimately show ?thesis
    by (simp add: partition_relative_32_def and_3_dvd)
qed

end
