(* ===== verification/Uleb128.thy ===== *)
theory Uleb128
  imports Prelude
begin

text \<open>
  The ULEB128 pair relocations of the RISC-V linker,
  \<^verbatim>\<open>src/src/backend/riscv/linker/uleb128.rs\<close>: the length of a reserved field and the write of a
  label difference into it. The field is state that the code mutates in place, so
  \<open>apply_pair\<close> returns the field it leaves behind next to its \<^verbatim>\<open>Result\<close>.
\<close>

datatype uleb_error =
    FieldTooWide            \<comment> \<open>field exceeds supported 64-bit encoding\<close>
  | UnterminatedField       \<comment> \<open>unterminated or oversized field in input section\<close>
  | InvalidReservedLength   \<comment> \<open>invalid reserved field length\<close>
  | ResultOutOfRange        \<comment> \<open>pair result is outside unsigned 64-bit range\<close>
  | DoesNotFit nat          \<comment> \<open>pair result does not fit the reserved field\<close>

text \<open>The loop of \<^verbatim>\<open>field_len\<close> from index \<open>i\<close> on; the list holds what \<^verbatim>\<open>take(10)\<close> leaves.\<close>

fun field_len_from :: "nat \<Rightarrow> u8 list \<Rightarrow> (uleb_error, nat) result" where
  "field_len_from i [] = Inl UnterminatedField"
| "field_len_from i (byte # bytes) =
     (if i = 9 \<and> byte > 1 then Inl FieldTooWide
      else if byte AND 0x80 = 0 then Inr (i + 1)
      else field_len_from (i + 1) bytes)"

definition field_len :: "u8 list \<Rightarrow> (uleb_error, nat) result" where
  "field_len data = field_len_from 0 (take 10 data)"

text \<open>The byte loop of \<^verbatim>\<open>apply_pair\<close> over the \<open>n\<close> bytes that are left.\<close>

fun uleb_bytes :: "nat \<Rightarrow> u64 \<Rightarrow> u8 list" where
  "uleb_bytes 0 value = []"
| "uleb_bytes (Suc n) value =
     (ucast (value AND 0x7f) OR (if 0 < n then 0x80 else 0)) # uleb_bytes n (drop_bit 7 value)"

definition apply_pair ::
  "u8 list \<Rightarrow> u64 \<Rightarrow> i64 \<Rightarrow> u64 \<Rightarrow> i64 \<Rightarrow> u8 list \<times> (uleb_error, unit) result" where
  "apply_pair data set' set_addend sub sub_addend =
     (let len = length data;
          difference = uint set' + sint set_addend - uint sub - sint sub_addend
      in if len = 0 \<or> 10 < len then (data, Inl InvalidReservedLength)
         else if difference < 0 \<or> 2 ^ 64 \<le> difference then (data, Inl ResultOutOfRange)
         else let value = word_of_int difference :: u64
              in if len < 10 \<and> drop_bit (7 * len) value \<noteq> 0 then (data, Inl (DoesNotFit len))
                 else (uleb_bytes len value, Inr ()))"

text \<open>The value a reader of the field sees: seven bits per byte, least significant first.\<close>

fun uleb_value :: "nat \<Rightarrow> u8 list \<Rightarrow> u64" where
  "uleb_value i [] = 0"
| "uleb_value i (b # bs) = push_bit (7 * i) (ucast (b AND 0x7f)) OR uleb_value (Suc i) bs"

subsection \<open>Lemmas\<close>

lemma length_uleb_bytes [simp]: "length (uleb_bytes n v) = n"
  by (induction n arbitrary: v) auto

lemma mask7: "(0x7f :: 'a::len word) = mask 7"
  by (simp add: mask_eq_exp_minus_1)

lemma byte_low7:
  "(ucast (v AND 0x7f) OR (if c then 0x80 else 0) :: u8) AND 0x7f = ucast (v AND 0x7f)" for v :: u64
proof -
  have "(0x80 :: u8) AND 0x7f = 0"
    by simp
  moreover have "(ucast (v AND 0x7f) :: u8) AND 0x7f = ucast (v AND 0x7f)"
    by (rule bit_word_eqI) (auto simp: mask7 bit_and_iff bit_ucast_iff bit_mask_iff)
  ultimately show ?thesis
    by (simp add: bit.conj_disj_distrib2)
qed

lemma byte_high_bit:
  "(ucast (v AND 0x7f) OR (if c then 0x80 else 0) :: u8) AND 0x80 = 0 \<longleftrightarrow> \<not> c" for v :: u64
proof -
  have "(ucast (v AND 0x7f) :: u8) AND 0x80 = 0"
    by (rule bit_word_eqI)
      (auto simp: mask7 bit_and_iff bit_ucast_iff bit_mask_iff bit_exp_iff [where m = 7, simplified])
  then show ?thesis
    by (simp add: bit.conj_disj_distrib2)
qed

lemma uleb_value_bytes:
  "uleb_value i (uleb_bytes n v) = push_bit (7 * i) (take_bit (7 * n) v)"
proof (induction n arbitrary: i v)
  case (Suc n)
  have "push_bit (7 * i) (ucast (ucast (v AND 0x7f) :: u8) :: u64)
      OR push_bit (7 * Suc i) (take_bit (7 * n) (drop_bit 7 v))
      = push_bit (7 * i) (take_bit (7 * Suc n) v)" (is "?l = ?r")
  proof (rule bit_word_eqI)
    fix k assume "k < LENGTH(64)"
    consider "k < 7 * i" | "7 * i \<le> k" "k < 7 + 7 * i" | "7 + 7 * i \<le> k"
      by linarith
    then show "bit ?l k \<longleftrightarrow> bit ?r k"
      by cases (auto simp: mask7 bit_simps not_less dest: bit_imp_le_length)
  qed
  then show ?case
    by (simp add: Suc byte_low7 del: mult_Suc_right)
qed simp

lemma field_len_uleb_bytes:
  assumes "0 < n" "i + n \<le> 10" "i + n = 10 \<Longrightarrow> drop_bit (7 * (n - 1)) v \<le> 1"
  shows "field_len_from i (uleb_bytes n v) = Inr (i + n)"
  using assms
proof (induction n arbitrary: i v)
  case (Suc n)
  show ?case
  proof (cases "n = 0")
    case True
    have "v = 0 \<or> v = 1" if "i = 9"
      using Suc.prems(3) True that by (auto simp: word_le_nat_alt le_Suc_eq word_unat_eq_iff)
    then have "i = 9 \<Longrightarrow> (ucast (v AND 0x7f) :: u8) \<le> 1"
      by auto
    then show ?thesis
      using True byte_high_bit [of v False] by auto
  next
    case False
    have "7 * n = 7 * (n - 1) + 7"
      using False by (cases n) auto
    then have "field_len_from (Suc i) (uleb_bytes n (drop_bit 7 v)) = Inr (Suc i + n)"
      using Suc.IH [of "Suc i" "drop_bit 7 v"] Suc.prems False by (simp add: drop_bit_drop_bit)
    then show ?thesis
      using Suc.prems False byte_high_bit [of v True] by simp
  qed
qed simp

lemma take_bit_fits:
  fixes v :: u64
  assumes "len = 10 \<or> drop_bit (7 * len) v = 0"
  shows "take_bit (7 * len) v = v"
proof (cases "len = 10")
  case True
  then show ?thesis
    by (simp add: take_bit_word_eq_self)
next
  case False
  with assms have "drop_bit (7 * len) v = 0" by simp
  then show ?thesis
    using bits_ident [of "7 * len" v] by simp
qed

lemma unat_drop_63: "drop_bit 63 v \<le> 1" for v :: u64
proof -
  have "unat v div 2 ^ 63 < 2"
    using unsigned_less [of v, where ?'a = nat] by (simp add: less_mult_imp_div_less)
  then show ?thesis
    by (simp add: word_le_nat_alt unat_drop_bit_eq flip: drop_bit_eq_div)
      (simp add: drop_bit_eq_div)
qed

subsection \<open>Properties\<close>

text \<open>
  C19: when the pair relocation succeeds, the field keeps its reserved length, is still
  recognised as a field of exactly that length, and reads back as the difference
  \<open>(set + set_addend) - (sub + sub_addend)\<close> computed without wrap-around.
\<close>

theorem apply_pair_writes_difference:
  assumes "apply_pair data S A T B = (data', Inr ())"
  shows "length data' = length data \<and> field_len data' = Inr (length data) \<and>
    uint (uleb_value 0 data') = uint S + sint A - uint T - sint B"
proof -
  define d where "d = uint S + sint A - uint T - sint B"
  let ?v = "word_of_int d :: u64" and ?n = "length data"
  have n: "0 < ?n" "?n \<le> 10" and d: "0 \<le> d" "d < 2 ^ 64"
    and fits: "?n = 10 \<or> drop_bit (7 * ?n) ?v = 0" and d': "data' = uleb_bytes ?n ?v"
    using assms unfolding apply_pair_def Let_def d_def [symmetric] by (auto split: if_splits)
  have "field_len_from 0 (uleb_bytes ?n ?v) = Inr (0 + ?n)"
    by (rule field_len_uleb_bytes) (use n unat_drop_63 in auto)
  moreover have "uleb_value 0 data' = ?v"
    using uleb_value_bytes [of 0 ?n ?v] take_bit_fits [OF fits] by (simp add: d')
  moreover have "uint ?v = d"
    using d by (simp add: uint_word_of_int_range)
  ultimately show ?thesis
    using n by (simp add: d' field_len_def flip: d_def)
qed

theorem apply_pair_writes_difference_witness:
  "apply_pair [0x80, 0] 0x1000 0 0xff7 (-1) = ([0x8a, 0], Inr ()) \<and>
   field_len [0x8a, 0] = Inr 2 \<and> uint (uleb_value 0 [0x8a, 0]) = 10"
proof -
  have h: "apply_pair [0x80, 0] 0x1000 0 0xff7 (-1) = ([0x8a, 0], Inr ())"
    by code_simp
  show ?thesis
    using apply_pair_writes_difference [OF h] h by simp
qed

text \<open>
  the relocation succeeds exactly when the reserved length is 1 to 10 bytes and the
  difference is representable in the \<open>7 * length\<close> bits of the field (64 bits for ten bytes);
  otherwise it reports an error and leaves the field untouched.
\<close>

theorem apply_pair_success_iff:
  "(snd (apply_pair data S A T B) = Inr ()) =
     (1 \<le> length data \<and> length data \<le> 10 \<and> 0 \<le> uint S + sint A - uint T - sint B \<and>
      uint S + sint A - uint T - sint B < 2 ^ min 64 (7 * length data)) \<and>
   (snd (apply_pair data S A T B) = Inr () \<or> fst (apply_pair data S A T B) = data)"
proof -
  define d where "d = uint S + sint A - uint T - sint B"
  let ?n = "length data"
  have fits: "drop_bit (7 * ?n) (word_of_int d :: u64) = 0 \<longleftrightarrow> d < 2 ^ (7 * ?n)"
    if "0 \<le> d" "d < 2 ^ 64"
    using that by (simp add: drop_bit_eq_0_iff_uint uint_word_of_int_range)
  have lim: "(2::int) ^ min 64 (7 * ?n) = (if ?n < 10 then 2 ^ (7 * ?n) else 2 ^ 64)"
    by (simp add: min_def)
  have small: "?n < 10 \<Longrightarrow> (2::int) ^ (7 * ?n) \<le> 2 ^ 64"
    by (rule power_increasing) auto
  show ?thesis
    unfolding apply_pair_def Let_def d_def [symmetric] lim
    using fits small by (auto simp: not_less Suc_le_eq)
qed

end
