(* ===== verification/IrTypes.thy ===== *)
theory IrTypes
  imports Prelude
begin

text \<open>
  The scalar types of the intermediate representation, \<^verbatim>\<open>IrType\<close> of
  \<^verbatim>\<open>src/src/common/types.rs\<close>, with their sizes, alignments and the cast predicates the
  optimisation passes share. The thread-local target configuration the source reads
  (pointer size, format of \<^verbatim>\<open>long double\<close>) is an explicit argument.
\<close>

record target =
  target_ptr_size :: nat
  target_long_double_is_f128 :: bool

definition target_is_32bit :: "target \<Rightarrow> bool" where
  "target_is_32bit T \<longleftrightarrow> target_ptr_size T = 4"

datatype IrType =
    I8 | I16 | I32 | I64 | I128
  | U8 | U16 | U32 | U64 | U128
  | F32 | F64
  | D32 | D64
  | F128
  | Ptr
  | Void

fun ir_size :: "target \<Rightarrow> IrType \<Rightarrow> nat" where
  "ir_size T I8 = 1" | "ir_size T U8 = 1"
| "ir_size T I16 = 2" | "ir_size T U16 = 2"
| "ir_size T I32 = 4" | "ir_size T U32 = 4"
| "ir_size T I64 = 8" | "ir_size T U64 = 8"
| "ir_size T Ptr = target_ptr_size T"
| "ir_size T I128 = 16" | "ir_size T U128 = 16"
| "ir_size T F32 = 4"
| "ir_size T F64 = 8"
| "ir_size T D32 = 4"
| "ir_size T D64 = 8"
| "ir_size T F128 = (if target_is_32bit T then 12 else 16)"
| "ir_size T Void = 0"

definition ir_align :: "target \<Rightarrow> IrType \<Rightarrow> nat" where
  "ir_align T ty =
     (if target_is_32bit T
      then (case ty of
              Void \<Rightarrow> 1
            | I8 \<Rightarrow> 1 | U8 \<Rightarrow> 1
            | I16 \<Rightarrow> 2 | U16 \<Rightarrow> 2
            | I32 \<Rightarrow> 4 | U32 \<Rightarrow> 4
            | I64 \<Rightarrow> 4 | U64 \<Rightarrow> 4
            | Ptr \<Rightarrow> 4
            | I128 \<Rightarrow> 4 | U128 \<Rightarrow> 4
            | F32 \<Rightarrow> 4
            | F64 \<Rightarrow> 4
            | F128 \<Rightarrow> 4
            | D32 \<Rightarrow> 4
            | D64 \<Rightarrow> 8)
      else (case ty of Void \<Rightarrow> 1 | other \<Rightarrow> max (ir_size T other) 1))"

definition is_unsigned :: "IrType \<Rightarrow> bool" where
  "is_unsigned ty \<longleftrightarrow> ty \<in> {U8, U16, U32, U64, U128}"

definition is_signed :: "IrType \<Rightarrow> bool" where
  "is_signed ty \<longleftrightarrow> ty \<in> {I8, I16, I32, I64, I128}"

definition is_integer :: "IrType \<Rightarrow> bool" where
  "is_integer ty \<longleftrightarrow> is_signed ty \<or> is_unsigned ty"

definition is_float :: "IrType \<Rightarrow> bool" where
  "is_float ty \<longleftrightarrow> ty \<in> {F32, F64, F128, D32, D64}"

definition is_decimal :: "IrType \<Rightarrow> bool" where
  "is_decimal ty \<longleftrightarrow> ty \<in> {D32, D64}"

definition is_long_double :: "IrType \<Rightarrow> bool" where
  "is_long_double ty \<longleftrightarrow> ty = F128"

definition is_128bit :: "IrType \<Rightarrow> bool" where
  "is_128bit ty \<longleftrightarrow> ty \<in> {I128, U128}"

fun to_unsigned :: "IrType \<Rightarrow> IrType" where
  "to_unsigned I8 = U8"
| "to_unsigned I16 = U16"
| "to_unsigned I32 = U32"
| "to_unsigned I64 = U64"
| "to_unsigned I128 = U128"
| "to_unsigned other = other"

definition cast_preserves_integer_value :: "target \<Rightarrow> IrType \<Rightarrow> IrType \<Rightarrow> bool" where
  "cast_preserves_integer_value T self to \<longleftrightarrow>
     is_integer self \<and> is_integer to \<and>
     (self = to \<or> (ir_size T self < ir_size T to \<and> (is_unsigned self \<or> \<not> is_unsigned to)))"

definition cast_preserves_offset_value :: "target \<Rightarrow> IrType \<Rightarrow> IrType \<Rightarrow> bool" where
  "cast_preserves_offset_value T self to \<longleftrightarrow>
     cast_preserves_integer_value T self to \<or>
     (is_integer self \<and> is_integer to \<and> ir_size T self = ir_size T to \<and>
      target_ptr_size T \<le> ir_size T self)"

definition access_extent :: "target \<Rightarrow> IrType \<Rightarrow> (i64 \<times> i64) option" where
  "access_extent T ty =
     (let exact = (\<lambda>n. Some (of_nat n, of_nat n))
      in case ty of
           Void \<Rightarrow> None
         | F128 \<Rightarrow> if \<not> target_long_double_is_f128 T then Some (10, 16) else exact 16
         | _ \<Rightarrow> exact (ir_size T ty))"

definition cast_is_bitidentical_nop :: "target \<Rightarrow> IrType \<Rightarrow> IrType \<Rightarrow> bool" where
  "cast_is_bitidentical_nop T src to \<longleftrightarrow>
     ir_size T src = ir_size T to \<and> \<not> is_float src \<and> \<not> is_float to"

fun truncate_i64 :: "IrType \<Rightarrow> i64 \<Rightarrow> i64" where
  "truncate_i64 I8 val = scast (ucast val :: i8)"
| "truncate_i64 U8 val = ucast (ucast val :: u8)"
| "truncate_i64 I16 val = scast (ucast val :: i16)"
| "truncate_i64 U16 val = ucast (ucast val :: u16)"
| "truncate_i64 I32 val = scast (ucast val :: i32)"
| "truncate_i64 U32 val = ucast (ucast val :: u32)"
| "truncate_i64 _ val = val"

subsection \<open>What the integer types denote\<close>

definition ir_width :: "target \<Rightarrow> IrType \<Rightarrow> nat" where
  "ir_width T ty = 8 * ir_size T ty"

text \<open>The values of an integer type, and the value an integer takes after conversion to it.\<close>

definition ir_domain :: "target \<Rightarrow> IrType \<Rightarrow> int set" where
  "ir_domain T ty =
     (if is_unsigned ty then {0 ..< 2 ^ ir_width T ty}
      else {- (2 ^ (ir_width T ty - 1)) ..< 2 ^ (ir_width T ty - 1)})"

definition ir_wrap :: "target \<Rightarrow> IrType \<Rightarrow> int \<Rightarrow> int" where
  "ir_wrap T ty v =
     (if is_unsigned ty then take_bit (ir_width T ty) v
      else signed_take_bit (ir_width T ty - 1) v)"

lemmas ir_class_defs = is_integer_def is_signed_def is_unsigned_def

lemma ir_wrap_in_domain: "is_integer ty \<Longrightarrow> ir_wrap T ty v \<in> ir_domain T ty"
  by (auto simp: ir_wrap_def ir_domain_def signed_take_bit_int_greater_eq_minus_exp
      signed_take_bit_int_less_exp)

lemma ir_wrap_id_iff: "is_integer ty \<Longrightarrow> ir_wrap T ty v = v \<longleftrightarrow> v \<in> ir_domain T ty"
  by (auto simp: ir_wrap_def ir_domain_def take_bit_int_eq_self_iff signed_take_bit_int_eq_self_iff)

lemma ir_domain_subset_iff:
  assumes "is_integer src" "is_integer to"
  shows "ir_domain T src \<subseteq> ir_domain T to \<longleftrightarrow> cast_preserves_integer_value T src to"
  using assms
  by (cases src; cases to)
    (simp_all add: ir_domain_def ir_width_def ir_class_defs cast_preserves_integer_value_def
      atLeastLessThan_subset_iff)

subsection \<open>Properties\<close>

text \<open>
  C35: \<^verbatim>\<open>cast_preserves_integer_value\<close> is exact: it accepts a pair of types precisely when both are
  integer types and converting any value of the source type to the target type gives that value
  back.
\<close>

theorem cast_preserves_integer_value_exact:
  "cast_preserves_integer_value T src to =
     (is_integer src \<and> is_integer to \<and> ir_domain T src \<subseteq> {v. ir_wrap T to v = v})"
proof (cases "is_integer src \<and> is_integer to")
  case True
  then show ?thesis
    using ir_domain_subset_iff [of src to T] by (auto simp: ir_wrap_id_iff)
next
  case False
  then show ?thesis
    by (auto simp: cast_preserves_integer_value_def)
qed

text \<open>
  \<^verbatim>\<open>cast_preserves_offset_value\<close> is sound for address arithmetic: an accepted cast leaves the
  value unchanged modulo the pointer ring of the target, for every value of the source type.
\<close>

theorem cast_preserves_offset_value_sound:
  assumes "cast_preserves_offset_value T src to" and "v \<in> ir_domain T src"
  shows "take_bit (8 * target_ptr_size T) (ir_wrap T to v) = take_bit (8 * target_ptr_size T) v"
proof (cases "cast_preserves_integer_value T src to")
  case True
  then have "is_integer src" "is_integer to"
    by (auto simp: cast_preserves_integer_value_def)
  then have "ir_wrap T to v = v"
    using True assms(2) ir_domain_subset_iff by (auto simp: ir_wrap_id_iff)
  then show ?thesis by simp
next
  case False
  with assms(1) have w: "is_integer to" "target_ptr_size T \<le> ir_size T to"
    by (auto simp: cast_preserves_offset_value_def)
  have "0 < ir_width T to"
    using w(1) by (cases to) (auto simp: ir_width_def ir_class_defs)
  then have "8 * target_ptr_size T \<le> Suc (ir_width T to - 1)"
    using w(2) by (simp add: ir_width_def)
  then show ?thesis
    using w(2) by (simp add: ir_wrap_def ir_width_def take_bit_signed_take_bit min_def)
qed

theorem cast_preserves_offset_value_sound_witness:
  "cast_preserves_offset_value \<lparr>target_ptr_size = 8, target_long_double_is_f128 = False\<rparr> U64 I64 \<and>
   take_bit 64 (ir_wrap \<lparr>target_ptr_size = 8, target_long_double_is_f128 = False\<rparr> I64 (2 ^ 63 + 5))
     = (2 ^ 63 + 5)"
proof -
  let ?T = "\<lparr>target_ptr_size = 8, target_long_double_is_f128 = False\<rparr>"
  have a: "cast_preserves_offset_value ?T U64 I64"
    by (simp add: cast_preserves_offset_value_def ir_class_defs)
  have b: "2 ^ 63 + 5 \<in> ir_domain ?T U64"
    by (simp add: ir_domain_def ir_width_def ir_class_defs)
  show ?thesis
    using cast_preserves_offset_value_sound [OF a b] a by (simp add: take_bit_eq_mod)
qed

text \<open>
  Truncating a switch-case value to an integer type of at most 64 bits yields, read as a
  signed 64-bit value, exactly the C conversion of the value to that type (the 64-bit unsigned type
  keeps the bit pattern instead).
\<close>

theorem truncate_i64_converts:
  assumes "ty \<in> {I8, U8, I16, U16, I32, U32, I64}"
  shows "sint (truncate_i64 ty val) = ir_wrap T ty (sint val)"
proof -
  have "bit (sint (truncate_i64 ty val)) k \<longleftrightarrow> bit (ir_wrap T ty (sint val)) k" for k
    using assms
    by (auto simp: ir_wrap_def ir_width_def is_unsigned_def bit_simps bit_sint_iff min_def
        dest: bit_imp_le_length)
  then show ?thesis
    by (rule bit_eqI)
qed

theorem truncate_i64_converts_witness:
  "sint (truncate_i64 I8 0x1F0) = -16 \<and> sint (truncate_i64 U8 0x1F0) = 0xF0"
proof -
  let ?T = "\<lparr>target_ptr_size = 8, target_long_double_is_f128 = False\<rparr>"
  have "I8 \<in> {I8, U8, I16, U16, I32, U32, I64}" "U8 \<in> {I8, U8, I16, U16, I32, U32, I64}"
    by simp_all
  from this [THEN truncate_i64_converts, where val = "0x1F0" and T = ?T]
  show ?thesis
    by (simp add: ir_wrap_def ir_width_def is_unsigned_def signed_take_bit_eq_take_bit_shift take_bit_eq_mod)
qed

end
