(* ===== verification/IrOps.thy ===== *)
theory IrOps
  imports IrTypes "HOL-Library.Signed_Division"
begin

text \<open>
  The operation enums of the intermediate representation and their compile-time evaluation,
  \<^verbatim>\<open>src/src/ir/ops.rs\<close>: binary operations at the 64-bit and 128-bit container widths, the
  width-typed helpers (rotate, bit set/clear/toggle, zero-high-bits, multiply-high) and the
  comparison predicates with their negated and operand-swapped forms.
\<close>

subsection \<open>Operations\<close>

datatype AtomicRmwOp = RmwAdd | RmwSub | RmwAnd | RmwOr | RmwXor | RmwNand | RmwXchg | RmwTestAndSet

datatype AtomicOrdering = Relaxed | Acquire | Release | AcqRel | SeqCst

datatype IrBinOp =
    Add | Sub | Mul | SDiv | UDiv | SRem | URem | And | Or | Xor | Shl | AShr | LShr
  | BitTest | RotateLeft | RotateRight | Bzhi | BitSet | BitClear | BitToggle
  | UMulHigh | SMulHigh

datatype BitMode = Set | Clear | Toggle

datatype IrUnaryOp =
    Neg | Not | Clz | ClzNonZero | Ctz | CtzNonZero | Bswap | BitReverse | Popcount | Parity
  | IsConstant

datatype IrCmpOp = Eq | Ne | Slt | Sle | Sgt | Sge | Ult | Ule | Ugt | Uge

subsection \<open>Width-typed helpers\<close>

definition mul_high_within_bits :: "i64 \<Rightarrow> i64 \<Rightarrow> nat \<Rightarrow> bool \<Rightarrow> i64" where
  "mul_high_within_bits lhs rhs bits sgnd =
     (let bits = min 64 (max 1 bits); shift = 64 - bits
      in if sgnd
         then let a = scast (signed_drop_bit shift (push_bit shift lhs)) :: i128;
                  b = scast (signed_drop_bit shift (push_bit shift rhs)) :: i128
              in ucast (signed_drop_bit bits (a * b))
         else let a = ucast (drop_bit shift (push_bit shift lhs)) :: u128;
                  b = ucast (drop_bit shift (push_bit shift rhs)) :: u128
              in ucast (drop_bit bits (a * b)))"

definition is_mul_high :: "IrBinOp \<Rightarrow> bool" where
  "is_mul_high op \<longleftrightarrow> op \<in> {UMulHigh, SMulHigh}"

definition is_rotate :: "IrBinOp \<Rightarrow> bool" where
  "is_rotate op \<longleftrightarrow> op \<in> {RotateLeft, RotateRight}"

definition rotate_within_bits :: "u128 \<Rightarrow> u128 \<Rightarrow> nat \<Rightarrow> bool \<Rightarrow> u128" where
  "rotate_within_bits value amount bits left =
     (if bits = 0 \<or> 128 < bits then 0
      else let m = (if 128 \<le> bits then - 1 else push_bit bits 1 - 1);
               value = value AND m;
               amount = unat (amount mod of_nat bits)
           in if amount = 0 then value
              else if left
              then (push_bit amount value OR drop_bit (bits - amount) value) AND m
              else (drop_bit amount value OR push_bit (bits - amount) value) AND m)"

definition zero_high_bits_from :: "u128 \<Rightarrow> u128 \<Rightarrow> nat \<Rightarrow> u128" where
  "zero_high_bits_from value index bits =
     (let k = unat (index AND 0xFF)
      in if bits \<le> k \<or> 128 \<le> k then value else value AND (push_bit k 1 - 1))"

definition bit_op_within_bits :: "u128 \<Rightarrow> u128 \<Rightarrow> nat \<Rightarrow> BitMode \<Rightarrow> u128" where
  "bit_op_within_bits value index bits mode =
     (let m = (if 128 \<le> bits then - 1 else push_bit bits 1 - 1);
          b = push_bit (unat (index mod of_nat bits)) 1
      in case mode of
           Set \<Rightarrow> (value OR b) AND m
         | Clear \<Rightarrow> (value AND NOT b) AND m
         | Toggle \<Rightarrow> (value XOR b) AND m)"

subsection \<open>Evaluation\<close>

definition is_commutative :: "IrBinOp \<Rightarrow> bool" where
  "is_commutative op \<longleftrightarrow> op \<in> {Add, Mul, And, Or, Xor}"

definition can_trap :: "IrBinOp \<Rightarrow> bool" where
  "can_trap op \<longleftrightarrow> op \<in> {SDiv, UDiv, SRem, URem}"

text \<open>
  Rust's shifts by a variable count: \<^verbatim>\<open>wrapping_shl\<close> and \<^verbatim>\<open>wrapping_shr\<close> take the count as \<^verbatim>\<open>u32\<close>
  and reduce it modulo the width. Signed \<^verbatim>\<open>wrapping_div\<close> and \<^verbatim>\<open>wrapping_rem\<close> truncate towards zero and
  wrap on the one overflowing quotient.
\<close>

definition shift_count :: "'a::len word \<Rightarrow> nat" where
  "shift_count rhs = unat (ucast rhs :: u32) mod LENGTH('a)"

definition wrapping_sdiv :: "'a::len word \<Rightarrow> 'a word \<Rightarrow> 'a word" where
  "wrapping_sdiv a b = word_of_int (sint a sdiv sint b)"

definition wrapping_srem :: "'a::len word \<Rightarrow> 'a word \<Rightarrow> 'a word" where
  "wrapping_srem a b = word_of_int (sint a smod sint b)"

fun eval_i64 :: "IrBinOp \<Rightarrow> i64 \<Rightarrow> i64 \<Rightarrow> i64 option" where
  "eval_i64 Add lhs rhs = Some (lhs + rhs)"
| "eval_i64 Sub lhs rhs = Some (lhs - rhs)"
| "eval_i64 Mul lhs rhs = Some (lhs * rhs)"
| "eval_i64 And lhs rhs = Some (lhs AND rhs)"
| "eval_i64 Or lhs rhs = Some (lhs OR rhs)"
| "eval_i64 Xor lhs rhs = Some (lhs XOR rhs)"
| "eval_i64 Shl lhs rhs = Some (push_bit (shift_count rhs) lhs)"
| "eval_i64 AShr lhs rhs = Some (signed_drop_bit (shift_count rhs) lhs)"
| "eval_i64 LShr lhs rhs = Some (drop_bit (shift_count rhs) lhs)"
| "eval_i64 BitTest lhs rhs = Some (drop_bit (shift_count rhs) lhs AND 1)"
| "eval_i64 RotateLeft lhs rhs = Some (ucast (rotate_within_bits (ucast lhs) (ucast rhs) 64 True))"
| "eval_i64 RotateRight lhs rhs = Some (ucast (rotate_within_bits (ucast lhs) (ucast rhs) 64 False))"
| "eval_i64 Bzhi lhs rhs = Some (ucast (zero_high_bits_from (ucast lhs) (ucast rhs) 64))"
| "eval_i64 BitSet lhs rhs = Some (ucast (bit_op_within_bits (ucast lhs) (ucast rhs) 64 Set))"
| "eval_i64 BitClear lhs rhs = Some (ucast (bit_op_within_bits (ucast lhs) (ucast rhs) 64 Clear))"
| "eval_i64 BitToggle lhs rhs = Some (ucast (bit_op_within_bits (ucast lhs) (ucast rhs) 64 Toggle))"
| "eval_i64 UMulHigh lhs rhs = Some (mul_high_within_bits lhs rhs 64 False)"
| "eval_i64 SMulHigh lhs rhs = Some (mul_high_within_bits lhs rhs 64 True)"
| "eval_i64 SDiv lhs rhs = (if rhs = 0 then None else Some (wrapping_sdiv lhs rhs))"
| "eval_i64 UDiv lhs rhs = (if rhs = 0 then None else Some (lhs div rhs))"
| "eval_i64 SRem lhs rhs = (if rhs = 0 then None else Some (wrapping_srem lhs rhs))"
| "eval_i64 URem lhs rhs = (if rhs = 0 then None else Some (lhs mod rhs))"

fun eval_i128 :: "IrBinOp \<Rightarrow> i128 \<Rightarrow> i128 \<Rightarrow> i128 option" where
  "eval_i128 Add lhs rhs = Some (lhs + rhs)"
| "eval_i128 Sub lhs rhs = Some (lhs - rhs)"
| "eval_i128 Mul lhs rhs = Some (lhs * rhs)"
| "eval_i128 And lhs rhs = Some (lhs AND rhs)"
| "eval_i128 Or lhs rhs = Some (lhs OR rhs)"
| "eval_i128 Xor lhs rhs = Some (lhs XOR rhs)"
| "eval_i128 Shl lhs rhs = Some (push_bit (shift_count rhs) lhs)"
| "eval_i128 AShr lhs rhs = Some (signed_drop_bit (shift_count rhs) lhs)"
| "eval_i128 LShr lhs rhs = Some (drop_bit (shift_count rhs) lhs)"
| "eval_i128 BitTest lhs rhs = Some (drop_bit (shift_count rhs) lhs AND 1)"
| "eval_i128 RotateLeft lhs rhs = Some (rotate_within_bits lhs rhs 128 True)"
| "eval_i128 RotateRight lhs rhs = Some (rotate_within_bits lhs rhs 128 False)"
| "eval_i128 Bzhi lhs rhs = Some (zero_high_bits_from lhs rhs 128)"
| "eval_i128 BitSet lhs rhs = Some (bit_op_within_bits lhs rhs 128 Set)"
| "eval_i128 BitClear lhs rhs = Some (bit_op_within_bits lhs rhs 128 Clear)"
| "eval_i128 BitToggle lhs rhs = Some (bit_op_within_bits lhs rhs 128 Toggle)"
| "eval_i128 UMulHigh lhs rhs = None"
| "eval_i128 SMulHigh lhs rhs = None"
| "eval_i128 SDiv lhs rhs = (if rhs = 0 then None else Some (wrapping_sdiv lhs rhs))"
| "eval_i128 UDiv lhs rhs = (if rhs = 0 then None else Some (lhs div rhs))"
| "eval_i128 SRem lhs rhs = (if rhs = 0 then None else Some (wrapping_srem lhs rhs))"
| "eval_i128 URem lhs rhs = (if rhs = 0 then None else Some (lhs mod rhs))"

subsection \<open>Comparison predicates\<close>

fun inverse_cmp :: "IrCmpOp \<Rightarrow> IrCmpOp" where
  "inverse_cmp Eq = Ne" | "inverse_cmp Ne = Eq"
| "inverse_cmp Slt = Sge" | "inverse_cmp Sle = Sgt" | "inverse_cmp Sgt = Sle" | "inverse_cmp Sge = Slt"
| "inverse_cmp Ult = Uge" | "inverse_cmp Ule = Ugt" | "inverse_cmp Ugt = Ule" | "inverse_cmp Uge = Ult"

definition inverse_for :: "IrCmpOp \<Rightarrow> IrType \<Rightarrow> IrCmpOp option" where
  "inverse_for op ty =
     (if \<not> is_float ty \<or> op \<in> {Eq, Ne} then Some (inverse_cmp op) else None)"

fun swapped :: "IrCmpOp \<Rightarrow> IrCmpOp" where
  "swapped Eq = Eq" | "swapped Ne = Ne"
| "swapped Slt = Sgt" | "swapped Sle = Sge" | "swapped Sgt = Slt" | "swapped Sge = Sle"
| "swapped Ult = Ugt" | "swapped Ule = Uge" | "swapped Ugt = Ult" | "swapped Uge = Ule"

fun cmp_eval_i64 :: "IrCmpOp \<Rightarrow> i64 \<Rightarrow> i64 \<Rightarrow> bool" where
  "cmp_eval_i64 Eq lhs rhs = (lhs = rhs)"
| "cmp_eval_i64 Ne lhs rhs = (lhs \<noteq> rhs)"
| "cmp_eval_i64 Slt lhs rhs = (sint lhs < sint rhs)"
| "cmp_eval_i64 Sle lhs rhs = (sint lhs \<le> sint rhs)"
| "cmp_eval_i64 Sgt lhs rhs = (sint lhs > sint rhs)"
| "cmp_eval_i64 Sge lhs rhs = (sint lhs \<ge> sint rhs)"
| "cmp_eval_i64 Ult lhs rhs = (lhs < rhs)"
| "cmp_eval_i64 Ule lhs rhs = (lhs \<le> rhs)"
| "cmp_eval_i64 Ugt lhs rhs = (lhs > rhs)"
| "cmp_eval_i64 Uge lhs rhs = (lhs \<ge> rhs)"

fun cmp_eval_i128 :: "IrCmpOp \<Rightarrow> i128 \<Rightarrow> i128 \<Rightarrow> bool" where
  "cmp_eval_i128 Eq lhs rhs = (lhs = rhs)"
| "cmp_eval_i128 Ne lhs rhs = (lhs \<noteq> rhs)"
| "cmp_eval_i128 Slt lhs rhs = (sint lhs < sint rhs)"
| "cmp_eval_i128 Sle lhs rhs = (sint lhs \<le> sint rhs)"
| "cmp_eval_i128 Sgt lhs rhs = (sint lhs > sint rhs)"
| "cmp_eval_i128 Sge lhs rhs = (sint lhs \<ge> sint rhs)"
| "cmp_eval_i128 Ult lhs rhs = (lhs < rhs)"
| "cmp_eval_i128 Ule lhs rhs = (lhs \<le> rhs)"
| "cmp_eval_i128 Ugt lhs rhs = (lhs > rhs)"
| "cmp_eval_i128 Uge lhs rhs = (lhs \<ge> rhs)"

text \<open>
  Rust's \<^verbatim>\<open>f64\<close> is modelled by its bit pattern. Its comparison operators are those of IEEE 754:
  false on a NaN operand (\<^verbatim>\<open>!=\<close> true), and otherwise the order of the signed magnitudes, under which
  the two zeros are equal.
\<close>

type_synonym f64 = "64 word"

definition f64_is_nan :: "f64 \<Rightarrow> bool" where
  "f64_is_nan x \<longleftrightarrow> 0x7FF0000000000000 < x AND 0x7FFFFFFFFFFFFFFF"

definition f64_rank :: "f64 \<Rightarrow> int" where
  "f64_rank x = (if bit x 63 then - uint (x AND 0x7FFFFFFFFFFFFFFF) else uint x)"

definition f64_eq :: "f64 \<Rightarrow> f64 \<Rightarrow> bool" where
  "f64_eq x y \<longleftrightarrow> \<not> f64_is_nan x \<and> \<not> f64_is_nan y \<and> f64_rank x = f64_rank y"

definition f64_lt :: "f64 \<Rightarrow> f64 \<Rightarrow> bool" where
  "f64_lt x y \<longleftrightarrow> \<not> f64_is_nan x \<and> \<not> f64_is_nan y \<and> f64_rank x < f64_rank y"

definition f64_le :: "f64 \<Rightarrow> f64 \<Rightarrow> bool" where
  "f64_le x y \<longleftrightarrow> \<not> f64_is_nan x \<and> \<not> f64_is_nan y \<and> f64_rank x \<le> f64_rank y"

fun cmp_eval_f64 :: "IrCmpOp \<Rightarrow> f64 \<Rightarrow> f64 \<Rightarrow> bool" where
  "cmp_eval_f64 Eq lhs rhs = f64_eq lhs rhs"
| "cmp_eval_f64 Ne lhs rhs = (\<not> f64_eq lhs rhs)"
| "cmp_eval_f64 Slt lhs rhs = f64_lt lhs rhs"
| "cmp_eval_f64 Ult lhs rhs = f64_lt lhs rhs"
| "cmp_eval_f64 Sle lhs rhs = f64_le lhs rhs"
| "cmp_eval_f64 Ule lhs rhs = f64_le lhs rhs"
| "cmp_eval_f64 Sgt lhs rhs = f64_lt rhs lhs"
| "cmp_eval_f64 Ugt lhs rhs = f64_lt rhs lhs"
| "cmp_eval_f64 Sge lhs rhs = f64_le rhs lhs"
| "cmp_eval_f64 Uge lhs rhs = f64_le rhs lhs"

subsection \<open>The contract of a comparison evaluator\<close>

text \<open>
  What passes that rewrite comparisons rely on: every predicate has a mirrored one, so operands may
  be exchanged; on totally ordered operands every predicate also has an exact negation.
\<close>

locale cmp_evaluator =
  fixes eval :: "IrCmpOp \<Rightarrow> 'a \<Rightarrow> 'a \<Rightarrow> bool"
  assumes mirror: "eval Eq a b = eval Eq b a" "eval Sgt a b = eval Slt b a"
      "eval Sge a b = eval Sle b a" "eval Ugt a b = eval Ult b a" "eval Uge a b = eval Ule b a"
    and ne: "eval Ne a b = (\<not> eval Eq a b)"
begin

lemma swapped_operands: "eval (swapped op) b a = eval op a b"
  by (cases op) (simp_all add: mirror(2-) ne mirror(1) [of b a])

lemma equality_inverts: "op \<in> {Eq, Ne} \<Longrightarrow> eval (inverse_cmp op) a b = (\<not> eval op a b)"
  using ne by auto

end

locale total_cmp_evaluator = cmp_evaluator +
  assumes total: "eval Slt a b = (\<not> eval Sle b a)" "eval Ult a b = (\<not> eval Ule b a)"
begin

lemma inverse_negates: "eval (inverse_cmp op) a b = (\<not> eval op a b)"
  by (cases op) (simp_all add: mirror(2-) ne total)

end

interpretation cmp64: total_cmp_evaluator cmp_eval_i64
  by unfold_locales auto

interpretation cmp128: total_cmp_evaluator cmp_eval_i128
  by unfold_locales auto

interpretation cmpf: cmp_evaluator cmp_eval_f64
  by unfold_locales (auto simp: f64_eq_def)

text \<open>
  Exchanging the operands of a comparison and taking the swapped predicate never changes the
  outcome, on 64-bit and 128-bit integers and on floating-point operands, NaN included.
\<close>

theorem swapped_preserves_comparisons:
  "cmp_eval_i64 (swapped op) b a = cmp_eval_i64 op a b \<and>
   cmp_eval_i128 (swapped op) d c = cmp_eval_i128 op c d \<and>
   cmp_eval_f64 (swapped op) y x = cmp_eval_f64 op x y"
  by (simp add: cmp64.swapped_operands cmp128.swapped_operands cmpf.swapped_operands)

text \<open>
  \<^verbatim>\<open>inverse_for\<close> returns a predicate exactly when one is the negation at that type: for every
  non-float type it negates the 64-bit and 128-bit integer comparison, for a float type it answers
  only for equality, negating the IEEE comparison, and for the ordered predicates that it refuses
  the swapped-direction candidate really is no negation.
\<close>

theorem inverse_for_exact:
  "(case inverse_for op ty of
      Some neg \<Rightarrow>
        (if is_float ty then op \<in> {Eq, Ne} \<and> cmp_eval_f64 neg x y = (\<not> cmp_eval_f64 op x y)
         else cmp_eval_i64 neg a b = (\<not> cmp_eval_i64 op a b) \<and>
              cmp_eval_i128 neg c d = (\<not> cmp_eval_i128 op c d))
    | None \<Rightarrow>
        is_float ty \<and> (\<exists>u v. cmp_eval_f64 (inverse_cmp op) u v = cmp_eval_f64 op u v))"
proof (cases "inverse_for op ty")
  case None
  then have "is_float ty" "op \<notin> {Eq, Ne}"
    by (auto simp: inverse_for_def split: if_splits)
  moreover have "f64_is_nan 0x7FF8000000000000"
    by (simp add: f64_is_nan_def)
  ultimately have "cmp_eval_f64 (inverse_cmp op) 0x7FF8000000000000 0 = cmp_eval_f64 op 0x7FF8000000000000 0"
    by (cases op) (auto simp: f64_lt_def f64_le_def)
  then show ?thesis
    using None \<open>is_float ty\<close> by auto
next
  case (Some neg)
  then have "neg = inverse_cmp op" "is_float ty \<longrightarrow> op \<in> {Eq, Ne}"
    by (auto simp: inverse_for_def split: if_splits)
  then show ?thesis
    using cmp64.inverse_negates cmp128.inverse_negates cmpf.equality_inverts Some by auto
qed

subsection \<open>Rotations\<close>

lemma width_mask:
  "bits \<le> 128 \<Longrightarrow> (if 128 \<le> bits then - 1 else push_bit bits 1 - 1) = (mask bits :: u128)"
  by (auto simp: mask_eq_exp_minus_1 mask_eq_take_bit_minus_one take_bit_word_eq_self)

lemma unat_mod_width:
  fixes amount :: u128
  assumes "0 < bits" "bits \<le> 128"
  shows "unat (amount mod of_nat bits) = unat amount mod bits"
proof -
  have "unat (of_nat bits :: u128) = bits"
    using assms by (simp add: unat_of_nat)
  then show ?thesis
    by (simp add: unat_mod)
qed

lemma bit_rotate_left:
  assumes "0 < bits" "bits \<le> 128"
  shows "bit (rotate_within_bits value amount bits True) i \<longleftrightarrow>
    i < bits \<and> bit value ((i + (bits - unat amount mod bits)) mod bits)"
proof -
  define n where "n = unat amount mod bits"
  have n: "n < bits" using assms by (simp add: n_def)
  have "bit (rotate_within_bits value amount bits True) i \<longleftrightarrow>
    i < bits \<and> (if n = 0 then bit value i else if n \<le> i then bit value (i - n) else bit value (i + (bits - n)))"
    using assms n unfolding rotate_within_bits_def Let_def width_mask [OF assms(2)]
      unat_mod_width [OF assms] n_def [symmetric]
    by (auto simp: bit_simps mask_eq_0_iff ac_simps dest: bit_imp_le_length)
  also have "\<dots> \<longleftrightarrow> i < bits \<and> bit value ((i + (bits - n)) mod bits)"
    using n by (auto simp: mod_if)
  finally show ?thesis
    by (simp add: n_def)
qed

lemma bit_rotated_right:
  fixes v :: u128
  assumes "0 < n" "n < bits" "bits \<le> 128"
  shows "bit ((drop_bit n (v AND mask bits) OR push_bit (bits - n) (v AND mask bits)) AND mask bits) i \<longleftrightarrow>
    i < bits \<and> (if i + n < bits then bit v (i + n) else bit v (i - (bits - n)))"
proof (cases "i < bits")
  case True
  then have "i < 128" "i + n - bits < bits" "bits - n \<le> i \<longleftrightarrow> bits \<le> i + n" "i - (bits - n) = i + n - bits"
    using assms by linarith+
  then show ?thesis
    using True assms
    by (simp add: bit_and_iff bit_or_iff bit_drop_bit_eq bit_push_bit_iff bit_mask_iff add.commute not_less [symmetric])
qed (simp add: bit_and_iff bit_mask_iff)

lemma bit_rotate_right:
  assumes "0 < bits" "bits \<le> 128"
  shows "bit (rotate_within_bits value amount bits False) i \<longleftrightarrow>
    i < bits \<and> bit value ((i + unat amount) mod bits)"
proof -
  define n where "n = unat amount mod bits"
  have n: "n < bits" using assms by (simp add: n_def)
  have "bit (rotate_within_bits value amount bits False) i \<longleftrightarrow>
    i < bits \<and> (if n = 0 then bit value i else if i + n < bits then bit value (i + n) else bit value (i - (bits - n)))"
  proof (cases "n = 0")
    case False
    then have "rotate_within_bits value amount bits False =
        (drop_bit n (value AND mask bits) OR push_bit (bits - n) (value AND mask bits)) AND mask bits"
      using assms unfolding rotate_within_bits_def Let_def width_mask [OF assms(2)]
        unat_mod_width [OF assms] n_def [symmetric] by simp
    then show ?thesis
      using False bit_rotated_right [of n bits "value" i] assms(2) n by simp
  next
    case True
    then show ?thesis
      using assms unfolding rotate_within_bits_def Let_def width_mask [OF assms(2)]
        unat_mod_width [OF assms] n_def [symmetric] by (auto simp: bit_simps)
  qed
  also have "\<dots> \<longleftrightarrow> i < bits \<and> bit value ((i + n) mod bits)"
    using n by (cases "i + n < bits") (auto simp: le_mod_geq not_less)
  finally show ?thesis
    by (simp add: n_def mod_add_right_eq)
qed

lemma rotate_right_left:
  assumes "0 < bits" "bits \<le> 128"
  shows "rotate_within_bits (rotate_within_bits value amount bits True) amount bits False = take_bit bits value"
proof (rule bit_word_eqI)
  fix i
  define n where "n = unat amount mod bits"
  have n: "n < bits" using assms by (simp add: n_def)
  have "((i + n) mod bits + (bits - n)) mod bits = i" if "i < bits"
    using that n by (auto simp: mod_if)
  moreover have "(i + unat amount) mod bits = (i + n) mod bits"
    by (simp add: n_def mod_add_right_eq)
  ultimately show "bit (rotate_within_bits (rotate_within_bits value amount bits True) amount bits False) i
      = bit (take_bit bits value) i"
    using assms by (auto simp: bit_rotate_left bit_rotate_right bit_take_bit_iff simp flip: n_def)
qed

lemma eval_rotates:
  "eval_i64 RotateLeft a b = Some (word_rotl (unat b) a)"
  "eval_i64 RotateRight a b = Some (word_rotr (unat b) a)"
proof -
  have "k mod 64 < 128" for k :: nat
    using mod_less_divisor [of 64 k] by linarith
  then show "eval_i64 RotateLeft a b = Some (word_rotl (unat b) a)"
    "eval_i64 RotateRight a b = Some (word_rotr (unat b) a)"
    by (auto simp: bit_simps bit_rotate_left bit_rotate_right unat_ucast_up intro!: bit_word_eqI)
qed

subsection \<open>Multiply-high\<close>

lemma sint_sign_extend_low:
  fixes x :: i64
  assumes "1 \<le> bits" "bits \<le> 64"
  shows "sint (signed_drop_bit (64 - bits) (push_bit (64 - bits) x)) = signed_take_bit (bits - 1) (sint x)"
proof -
  obtain b where b: "bits = Suc b" "b \<le> 63"
    using assms by (cases bits) auto
  have "bit (sint (signed_drop_bit (63 - b) (push_bit (63 - b) x))) n \<longleftrightarrow> bit x (min n b)" for n
  proof (cases "n \<le> b")
    case True
    then show ?thesis
      using b(2) by (cases "n = b") (auto simp: bit_sint_iff bit_signed_drop_bit_iff bit_push_bit_iff min_def)
  next
    case False
    then show ?thesis
      using b(2) by (auto simp: bit_sint_iff bit_signed_drop_bit_iff bit_push_bit_iff min_def)
  qed
  moreover have "bit (signed_take_bit b (sint x)) n \<longleftrightarrow> bit x (min n b)" for n
    using b(2) by (auto simp: bit_signed_take_bit_iff bit_sint_iff min_def)
  ultimately show ?thesis
    by (simp add: b bit_eq_iff)
qed

lemma uint_zero_extend_low:
  fixes x :: i64
  assumes "1 \<le> bits" "bits \<le> 64"
  shows "uint (drop_bit (64 - bits) (push_bit (64 - bits) x)) = take_bit bits (uint x)"
  by (rule bit_eqI) (use assms in \<open>auto simp: bit_simps min_def not_less dest: bit_imp_le_length\<close>)

lemma signed_product_bound:
  fixes a b :: i64
  shows "\<bar>sint a * sint b\<bar> \<le> 2 ^ 126"
proof -
  have "\<bar>sint x\<bar> \<le> 2 ^ 63" for x :: i64
    using sint_range_size [of x] by (auto simp: word_size)
  then have "\<bar>sint a\<bar> * \<bar>sint b\<bar> \<le> 2 ^ 63 * 2 ^ 63"
    by (intro mult_mono) auto
  then show ?thesis
    by (simp add: abs_mult)
qed

lemma sint_product_128:
  fixes a b :: i64
  shows "sint ((scast a :: i128) * scast b) = sint a * sint b"
proof -
  have "(scast a :: i128) * scast b = word_of_int (sint a * sint b)"
    by (simp only: scast_eq of_int_mult)
  moreover have "signed_take_bit 127 (sint a * sint b) = sint a * sint b"
    using signed_product_bound [of a b] power_strict_increasing [of 126 127 "2::int"]
    by (intro signed_take_bit_int_eq_self) linarith+
  ultimately show ?thesis
    by (simp only: sint_sbintrunc') simp
qed

lemma uint_product_128:
  fixes a b :: u64
  shows "uint ((ucast a :: u128) * ucast b) = uint a * uint b"
proof -
  have "uint x < 2 ^ 64" for x :: u64
    using uint_lt2p [of x] by simp
  then have "uint a * uint b < 2 ^ 64 * 2 ^ 64"
    by (intro mult_strict_mono) auto
  then have "uint a * uint b < 2 ^ 128"
    by simp
  then show ?thesis
    by (simp add: uint_word_ariths uint_ucast_up)
qed

lemma mul_high_signed:
  assumes "1 \<le> bits" "bits \<le> 64"
  shows "mul_high_within_bits a b bits True =
    word_of_int ((signed_take_bit (bits - 1) (sint a) * signed_take_bit (bits - 1) (sint b)) div 2 ^ bits)"
proof -
  define x where "x = signed_drop_bit (64 - bits) (push_bit (64 - bits) a)"
  define y where "y = signed_drop_bit (64 - bits) (push_bit (64 - bits) b)"
  have "mul_high_within_bits a b bits True = ucast (signed_drop_bit bits ((scast x :: i128) * scast y))"
    using assms by (simp add: mul_high_within_bits_def Let_def max_def min_def x_def y_def)
  also have "\<dots> = word_of_int (sint (signed_drop_bit bits ((scast x :: i128) * scast y)))"
    by (rule bit_word_eqI) (auto simp: bit_simps bit_sint_iff)
  also have "\<dots> = word_of_int ((sint x * sint y) div 2 ^ bits)"
    by (simp only: sint_signed_drop_bit_eq sint_product_128 drop_bit_eq_div)
  finally show ?thesis
    using assms by (simp add: x_def y_def sint_sign_extend_low)
qed

lemma mul_high_unsigned:
  assumes "1 \<le> bits" "bits \<le> 64"
  shows "mul_high_within_bits a b bits False =
    word_of_int ((take_bit bits (uint a) * take_bit bits (uint b)) div 2 ^ bits)"
proof -
  define x where "x = drop_bit (64 - bits) (push_bit (64 - bits) a)"
  define y where "y = drop_bit (64 - bits) (push_bit (64 - bits) b)"
  have "mul_high_within_bits a b bits False = ucast (drop_bit bits ((ucast x :: u128) * ucast y))"
    using assms by (simp add: mul_high_within_bits_def Let_def max_def min_def x_def y_def)
  also have "\<dots> = word_of_int (drop_bit bits (uint ((ucast x :: u128) * ucast y)))"
    by (rule bit_word_eqI) (auto simp: bit_simps)
  also have "\<dots> = word_of_int ((uint x * uint y) div 2 ^ bits)"
    by (simp only: uint_product_128 drop_bit_eq_div)
  finally show ?thesis
    using assms by (simp add: x_def y_def uint_zero_extend_low)
qed

subsection \<open>Single-bit operations\<close>

lemma bit_bit_op:
  assumes "0 < bits" "bits \<le> 128"
  shows "bit (bit_op_within_bits value index bits mode) i \<longleftrightarrow>
    i < bits \<and>
    (if i = unat index mod bits
     then (case mode of Set \<Rightarrow> True | Clear \<Rightarrow> False | Toggle \<Rightarrow> \<not> bit value i)
     else bit value i)"
proof -
  define k where "k = unat index mod bits"
  have "k < bits"
    using assms by (simp add: k_def)
  moreover from this have "k < 128"
    using assms(2) by linarith
  ultimately show ?thesis
    using assms unfolding bit_op_within_bits_def Let_def width_mask [OF assms(2)] unat_mod_width [OF assms]
      k_def [symmetric]
    by (cases mode) (auto simp: bit_simps)
qed

lemma bit_zero_high:
  "bit (zero_high_bits_from value index bits) i \<longleftrightarrow>
     bit value i \<and> (bits \<le> unat index mod 256 \<or> i < unat index mod 256)"
proof -
  have "index AND 0xFF = take_bit 8 index"
    by (simp add: take_bit_eq_mask mask_eq_exp_minus_1)
  then have k: "unat (index AND 0xFF) = unat index mod 256"
    by (simp add: take_bit_eq_mod unat_mod)
  have m: "push_bit n 1 - 1 = (mask n :: u128)" for n
    by (simp add: mask_eq_exp_minus_1)
  show ?thesis
    unfolding zero_high_bits_from_def Let_def k m
    by (auto simp: bit_simps not_le dest: bit_imp_le_length)
qed

subsection \<open>Division\<close>

lemma wrapping_div_rem_identity:
  "a = wrapping_sdiv a b * b + wrapping_srem a b" for a b :: "'a::len word"
proof -
  have "word_of_int (sint a) = (word_of_int (sint a sdiv sint b * sint b + sint a smod sint b) :: 'a word)"
    by (simp only: sdiv_mult_smod_eq)
  then show ?thesis
    by (simp add: wrapping_sdiv_def wrapping_srem_def)
qed

subsection \<open>Properties of the evaluators\<close>

text \<open>
  constant evaluation refuses an operation exactly when it would trap at run time (a division or
  remainder with a zero divisor), and at 128 bits also for the multiply-high forms, which exist only
  at 64 bits; \<^verbatim>\<open>can_trap\<close> names precisely the operations that can be refused for their operands.
\<close>

theorem eval_refuses_exactly_traps:
  "(eval_i64 op a b = None) = (can_trap op \<and> b = 0) \<and>
   (eval_i128 op c d = None) = (can_trap op \<and> d = 0 \<or> is_mul_high op)"
  by (cases op) (simp_all add: can_trap_def is_mul_high_def)

lemma eval_commutative:
  "is_commutative op \<Longrightarrow> eval_i64 op a b = eval_i64 op b a \<and> eval_i128 op c d = eval_i128 op d c"
  by (cases op) (auto simp: is_commutative_def ac_simps)

lemma sdiv_in_range:
  fixes a b :: int
  assumes "- (2 ^ 63) \<le> a" "a < 2 ^ 63" "\<not> (a = - (2 ^ 63) \<and> b = -1)"
  shows "- (2 ^ 63) \<le> a sdiv b \<and> a sdiv b < 2 ^ 63"
proof -
  consider "b = 0" | "b = 1" | "b = -1" | "2 \<le> \<bar>b\<bar>"
    by linarith
  then show ?thesis
  proof cases
    case 4
    have "\<bar>a sdiv b\<bar> \<le> \<bar>a\<bar> div \<bar>b\<bar>"
      by (auto simp: signed_divide_int_def sgn_if div_int_pos_iff)
    also have "\<dots> \<le> \<bar>a\<bar> div 2"
      using 4 by (intro zdiv_mono2) auto
    also have "\<dots> \<le> 2 ^ 63 div 2"
      using assms(1,2) by (intro zdiv_mono1) auto
    finally show ?thesis by (simp add: abs_le_iff)
  qed (use assms in auto)
qed

lemma sint_wrapping_sdiv:
  fixes a b :: i64
  assumes "\<not> (sint a = - (2 ^ 63) \<and> sint b = -1)"
  shows "sint (wrapping_sdiv a b) = sint a sdiv sint b"
proof -
  have "- (2 ^ 63) \<le> sint a" "sint a < 2 ^ 63"
    using sint_range_size [of a] by (auto simp: word_size)
  then have "- (2 ^ 63) \<le> sint a sdiv sint b \<and> sint a sdiv sint b < 2 ^ 63"
    using assms by (rule sdiv_in_range)
  then show ?thesis
    unfolding wrapping_sdiv_def sint_sbintrunc' by (simp add: signed_take_bit_int_eq_self)
qed

text \<open>
  Signed division and remainder by a nonzero divisor both evaluate, satisfy the division
  identity at 64 bits, and the quotient is the one truncated towards zero, except for the single
  overflowing case of the minimum value divided by minus one, where it wraps to the minimum value.
\<close>

theorem eval_i64_signed_division:
  assumes "b \<noteq> 0"
  shows "\<exists>q r. eval_i64 SDiv a b = Some q \<and> eval_i64 SRem a b = Some r \<and> q * b + r = a \<and>
    (if sint a = - (2 ^ 63) \<and> sint b = -1 then q = a else sint q = sint a sdiv sint b)"
proof -
  have "wrapping_sdiv a b = a" if ab: "sint a = - (2 ^ 63)" "sint b = -1"
  proof -
    have "word_of_int (sint a) = a"
      by simp
    then have "a = word_of_int (- (2 ^ 63))"
      by (simp only: ab(1))
    then show ?thesis
      by (simp add: wrapping_sdiv_def ab)
  qed
  then show ?thesis
    using assms sint_wrapping_sdiv [of a b] wrapping_div_rem_identity [of a b] by auto
qed

theorem eval_i64_signed_division_witness:
  "eval_i64 SDiv (-7) 2 = Some (-3) \<and> eval_i64 SRem (-7) 2 = Some (-1)"
  using eval_i64_signed_division [of 2 "-7"] by (auto simp: wrapping_sdiv_def wrapping_srem_def)

text \<open>
  The 64-bit rotate, bit-set, bit-clear, bit-toggle and zero-high-bits operations compute the
  corresponding word operation, with the rotate amount and the bit index taken modulo 64 and the
  zero-high index read from the low eight bits.
\<close>

lemma eval_i64_bit_operations:
  "eval_i64 RotateLeft a n = Some (word_rotl (unat n) a) \<and>
   eval_i64 RotateRight a n = Some (word_rotr (unat n) a) \<and>
   eval_i64 BitSet a n = Some (set_bit (unat n mod 64) a) \<and>
   eval_i64 BitClear a n = Some (unset_bit (unat n mod 64) a) \<and>
   eval_i64 BitToggle a n = Some (flip_bit (unat n mod 64) a) \<and>
   eval_i64 Bzhi a n = Some (take_bit (unat n mod 256) a)"
proof -
  have "k mod 64 < 128" for k :: nat
    using mod_less_divisor [of 64 k] by linarith
  then show ?thesis
    by (auto simp: eval_rotates simp del: eval_i64.simps(11,12))
      (auto simp: bit_simps bit_bit_op bit_zero_high unat_ucast_up split: if_splits intro!: bit_word_eqI)
qed

text \<open>
  Multiply-high at any width from 1 to 64 bits is the exact high half of the double-width product
  of the operands sign- or zero-extended from that width.
\<close>

theorem mul_high_exact:
  assumes "1 \<le> bits" and "bits \<le> 64"
  shows "mul_high_within_bits a b bits True =
      word_of_int ((signed_take_bit (bits - 1) (sint a) * signed_take_bit (bits - 1) (sint b)) div 2 ^ bits) \<and>
    mul_high_within_bits a b bits False =
      word_of_int ((take_bit bits (uint a) * take_bit bits (uint b)) div 2 ^ bits)"
  using mul_high_signed [OF assms] mul_high_unsigned [OF assms] by blast

theorem mul_high_exact_witness:
  "mul_high_within_bits 0xFF 0xFF 8 False = 0xFE \<and> mul_high_within_bits 0xFF 0xFF 8 True = 0"
  using mul_high_exact [of 8 "0xFF" "0xFF"]
  by (simp add: signed_take_bit_eq_take_bit_shift take_bit_eq_mod)

text \<open>
  Rotating the low \<open>bits\<close> bits of a value left and then right by the same amount gives the value
  truncated to that width, and the left rotate moves bit \<open>j\<close> to bit \<open>(j + amount) mod bits\<close>, for every
  width from 1 to 128 bits and every amount.
\<close>

theorem rotate_within_bits_correct:
  assumes "0 < bits" and "bits \<le> 128"
  shows "rotate_within_bits (rotate_within_bits value amount bits True) amount bits False = take_bit bits value \<and>
    bit (rotate_within_bits value amount bits True) ((j + unat amount) mod bits) = bit value (j mod bits)"
proof -
  define n where "n = unat amount mod bits"
  have n: "n < bits" using assms by (simp add: n_def)
  have "((j + unat amount) mod bits + (bits - n)) mod bits = (j + n + (bits - n)) mod bits"
    by (simp add: n_def mod_add_left_eq) (metis mod_add_left_eq mod_add_right_eq)
  also have "\<dots> = j mod bits"
    using n by simp
  finally show ?thesis
    using assms rotate_right_left [OF assms] by (simp add: bit_rotate_left n_def)
qed

theorem rotate_within_bits_correct_witness:
  "rotate_within_bits (rotate_within_bits 0x80000001 1 32 True) 1 32 False = 0x80000001 \<and>
   rotate_within_bits 0x80000001 1 32 True = 3"
  using rotate_within_bits_correct [of 32 "0x80000001" 1]
  by (simp add: rotate_within_bits_def)

subsection \<open>Operations of the Rust integer types\<close>

definition leading_zeros :: "'a::len word \<Rightarrow> nat" where
  "leading_zeros w = length (takeWhile (\<lambda>i. \<not> bit w i) (rev [0..<LENGTH('a)]))"

definition trailing_zeros :: "'a::len word \<Rightarrow> nat" where
  "trailing_zeros w = length (takeWhile (\<lambda>i. \<not> bit w i) [0..<LENGTH('a)])"

definition count_ones :: "'a::len word \<Rightarrow> nat" where
  "count_ones w = length (filter (bit w) [0..<LENGTH('a)])"

definition swap_bytes :: "'a::len word \<Rightarrow> 'a word" where
  "swap_bytes w = from_le_bytes (rev (to_le_bytes (LENGTH('a) div 8) w))"

subsection \<open>What the operations mean at a width\<close>

text \<open>
  The abstract specification: every operation on \<open>w\<close>-bit patterns, shift counts and bit indices
  taken modulo the width, \<^const>\<open>None\<close> where the operation traps or its operand is excluded.
\<close>

fun ir_binop :: "IrBinOp \<Rightarrow> 'a::len word \<Rightarrow> 'a word \<Rightarrow> 'a word option" where
  "ir_binop Add a b = Some (a + b)"
| "ir_binop Sub a b = Some (a - b)"
| "ir_binop Mul a b = Some (a * b)"
| "ir_binop SDiv a b = (if b = 0 then None else Some (word_of_int (sint a sdiv sint b)))"
| "ir_binop UDiv a b = (if b = 0 then None else Some (a div b))"
| "ir_binop SRem a b = (if b = 0 then None else Some (word_of_int (sint a smod sint b)))"
| "ir_binop URem a b = (if b = 0 then None else Some (a mod b))"
| "ir_binop And a b = Some (a AND b)"
| "ir_binop Or a b = Some (a OR b)"
| "ir_binop Xor a b = Some (a XOR b)"
| "ir_binop Shl a b = Some (push_bit (unat b mod LENGTH('a)) a)"
| "ir_binop AShr a b = Some (signed_drop_bit (unat b mod LENGTH('a)) a)"
| "ir_binop LShr a b = Some (drop_bit (unat b mod LENGTH('a)) a)"
| "ir_binop BitTest a b = Some (of_bool (bit a (unat b mod LENGTH('a))))"
| "ir_binop RotateLeft a b = Some (word_rotl (unat b) a)"
| "ir_binop RotateRight a b = Some (word_rotr (unat b) a)"
| "ir_binop Bzhi a b = Some (take_bit (unat b mod 256) a)"
| "ir_binop BitSet a b = Some (set_bit (unat b mod LENGTH('a)) a)"
| "ir_binop BitClear a b = Some (unset_bit (unat b mod LENGTH('a)) a)"
| "ir_binop BitToggle a b = Some (flip_bit (unat b mod LENGTH('a)) a)"
| "ir_binop UMulHigh a b = Some (word_of_int (uint a * uint b div 2 ^ LENGTH('a)))"
| "ir_binop SMulHigh a b = Some (word_of_int (sint a * sint b div 2 ^ LENGTH('a)))"

fun ir_unop :: "IrUnaryOp \<Rightarrow> 'a::len word \<Rightarrow> 'a word option" where
  "ir_unop Neg a = Some (- a)"
| "ir_unop Not a = Some (NOT a)"
| "ir_unop Clz a = Some (of_nat (leading_zeros a))"
| "ir_unop ClzNonZero a = (if a = 0 then None else Some (of_nat (leading_zeros a)))"
| "ir_unop Ctz a = Some (of_nat (trailing_zeros a))"
| "ir_unop CtzNonZero a = (if a = 0 then None else Some (of_nat (trailing_zeros a)))"
| "ir_unop Bswap a = Some (swap_bytes a)"
| "ir_unop BitReverse a = Some (word_reverse a)"
| "ir_unop Popcount a = Some (of_nat (count_ones a))"
| "ir_unop Parity a = Some (of_nat (count_ones a mod 2))"
| "ir_unop IsConstant a = Some 1"

lemma shift_count_64: "shift_count (b :: i64) = unat b mod 64"
  and shift_count_128: "shift_count (c :: i128) = unat c mod 128"
  by (simp_all add: shift_count_def unsigned_ucast_eq take_bit_eq_mod mod_mod_cancel)

lemma drop_bit_and_1: "drop_bit n a AND 1 = of_bool (bit a n)" for a :: "'a::len word"
  by (simp add: and_one_eq bit_iff_odd_drop_bit mod_2_eq_odd)

lemma signed_take_bit_sint: "signed_take_bit (LENGTH('a) - 1) (sint a) = sint a" for a :: "'a::len word"
  by transfer simp

lemma take_bit_uint: "take_bit LENGTH('a) (uint a) = uint a" for a :: "'a::len word"
  by transfer simp

lemma eval_i64_eq_ir_binop: "eval_i64 op a b = ir_binop op a b"
proof -
  have "mul_high_within_bits a b 64 True = word_of_int (sint a * sint b div 2 ^ 64)"
    "mul_high_within_bits a b 64 False = word_of_int (uint a * uint b div 2 ^ 64)"
    using mul_high_signed [of 64 a b] mul_high_unsigned [of 64 a b]
      signed_take_bit_sint [of a] signed_take_bit_sint [of b] take_bit_uint [of a] take_bit_uint [of b]
    by simp_all
  then show ?thesis
    using eval_i64_bit_operations [of a b]
    by (cases op)
      (simp_all add: shift_count_64 drop_bit_and_1 wrapping_sdiv_def wrapping_srem_def
        del: eval_i64.simps(11-16))
qed

lemma eval_i128_eq_ir_binop: "\<not> is_mul_high op \<Longrightarrow> eval_i128 op a b = ir_binop op a b"
  by (cases op)
    (auto simp: is_mul_high_def shift_count_128 drop_bit_and_1 wrapping_sdiv_def wrapping_srem_def
      bit_simps bit_rotate_left bit_rotate_right bit_bit_op bit_zero_high
      split: if_splits intro!: bit_word_eqI dest: bit_imp_le_length)

text \<open>
  C34: the 64-bit evaluator implements every operation at width 64, and the 128-bit evaluator every
  operation at width 128 except multiply-high, which it refuses.
\<close>

theorem evaluators_implement_ir_binop:
  "eval_i64 op a b = ir_binop op a b \<and>
   eval_i128 op c d = (if is_mul_high op then None else ir_binop op c d)"
  using eval_i64_eq_ir_binop [of op a b] eval_i128_eq_ir_binop [of op c d]
  by (cases "is_mul_high op") (auto simp: is_mul_high_def)

end
