(* ===== verification/ConstFold.thy ===== *)
theory ConstFold
  imports IrOps
begin

text \<open>
  The integer core of the constant-folding pass, \<^verbatim>\<open>src/src/passes/constant_fold.rs\<close>: folding of
  binary and unary operations and of casts on constants held in a 64-bit container.
\<close>

definition promotes_to_32 :: "IrType \<Rightarrow> bool" where
  "promotes_to_32 ty \<longleftrightarrow> ty = I32 \<or> ty = U32 \<or> ty = I16 \<or> ty = U16 \<or> ty = I8 \<or> ty = U8"

definition signed_operand :: "target \<Rightarrow> i64 \<Rightarrow> IrType \<Rightarrow> i64" where
  "signed_operand T val ty =
     (let bits = ir_size T ty * 8
      in if \<not> (8 \<le> bits \<and> bits \<le> 64) then val
         else let shift = 64 - bits in signed_drop_bit shift (push_bit shift val))"

fun fold_binop :: "target \<Rightarrow> IrBinOp \<Rightarrow> i64 \<Rightarrow> i64 \<Rightarrow> IrType \<Rightarrow> i64 option" where
  "fold_binop T Add lhs rhs ty = Some (lhs + rhs)"
| "fold_binop T Sub lhs rhs ty = Some (lhs - rhs)"
| "fold_binop T Mul lhs rhs ty = Some (lhs * rhs)"
| "fold_binop T SDiv lhs rhs ty =
     (if rhs = 0 then None
      else Some (wrapping_sdiv (signed_operand T lhs ty) (signed_operand T rhs ty)))"
| "fold_binop T UDiv lhs rhs ty =
     (if rhs = 0 then None
      else if promotes_to_32 ty then Some (ucast ((ucast lhs :: u32) div ucast rhs))
      else Some (lhs div rhs))"
| "fold_binop T SRem lhs rhs ty =
     (if rhs = 0 then None
      else Some (wrapping_srem (signed_operand T lhs ty) (signed_operand T rhs ty)))"
| "fold_binop T URem lhs rhs ty =
     (if rhs = 0 then None
      else if promotes_to_32 ty then Some (ucast ((ucast lhs :: u32) mod ucast rhs))
      else Some (lhs mod rhs))"
| "fold_binop T And lhs rhs ty = Some (lhs AND rhs)"
| "fold_binop T Or lhs rhs ty = Some (lhs OR rhs)"
| "fold_binop T Xor lhs rhs ty = Some (lhs XOR rhs)"
| "fold_binop T Shl lhs rhs ty = Some (push_bit (shift_count rhs) lhs)"
| "fold_binop T AShr lhs rhs ty =
     (let lhs = signed_operand T lhs ty
      in if promotes_to_32 ty
         then Some (scast (signed_drop_bit (shift_count (ucast rhs :: u32)) (ucast lhs :: i32)))
         else Some (signed_drop_bit (shift_count rhs) lhs))"
| "fold_binop T LShr lhs rhs ty =
     (if promotes_to_32 ty
      then Some (ucast (drop_bit (shift_count (ucast rhs :: u32)) (ucast lhs :: u32)))
      else Some (drop_bit (shift_count rhs) lhs))"
| "fold_binop T BitTest lhs rhs ty =
     (if promotes_to_32 ty
      then Some (ucast (drop_bit (shift_count (ucast rhs :: u32)) (ucast lhs :: u32) AND 1))
      else Some (drop_bit (shift_count rhs) lhs AND 1))"
| "fold_binop T RotateLeft lhs rhs ty =
     Some (truncate_i64 ty (ucast (rotate_within_bits (ucast lhs) (ucast rhs) (ir_size T ty * 8) True)))"
| "fold_binop T RotateRight lhs rhs ty =
     Some (truncate_i64 ty (ucast (rotate_within_bits (ucast lhs) (ucast rhs) (ir_size T ty * 8) False)))"
| "fold_binop T Bzhi lhs rhs ty =
     Some (truncate_i64 ty (ucast (zero_high_bits_from (ucast lhs) (ucast rhs) (ir_size T ty * 8))))"
| "fold_binop T BitSet lhs rhs ty =
     (if \<not> (1 \<le> ir_size T ty * 8 \<and> ir_size T ty * 8 \<le> 64) then None
      else Some (truncate_i64 ty (ucast (bit_op_within_bits (ucast lhs) (ucast rhs) (ir_size T ty * 8) Set))))"
| "fold_binop T BitClear lhs rhs ty =
     (if \<not> (1 \<le> ir_size T ty * 8 \<and> ir_size T ty * 8 \<le> 64) then None
      else Some (truncate_i64 ty (ucast (bit_op_within_bits (ucast lhs) (ucast rhs) (ir_size T ty * 8) Clear))))"
| "fold_binop T BitToggle lhs rhs ty =
     (if \<not> (1 \<le> ir_size T ty * 8 \<and> ir_size T ty * 8 \<le> 64) then None
      else Some (truncate_i64 ty (ucast (bit_op_within_bits (ucast lhs) (ucast rhs) (ir_size T ty * 8) Toggle))))"
| "fold_binop T UMulHigh lhs rhs ty =
     (if \<not> (1 \<le> ir_size T ty * 8 \<and> ir_size T ty * 8 \<le> 64) then None
      else Some (truncate_i64 ty (mul_high_within_bits lhs rhs (ir_size T ty * 8) False)))"
| "fold_binop T SMulHigh lhs rhs ty =
     (if \<not> (1 \<le> ir_size T ty * 8 \<and> ir_size T ty * 8 \<le> 64) then None
      else Some (truncate_i64 ty (mul_high_within_bits lhs rhs (ir_size T ty * 8) True)))"

definition unary_bits :: "IrType \<Rightarrow> nat" where
  "unary_bits ty =
     (case ty of I8 \<Rightarrow> 8 | U8 \<Rightarrow> 8 | I16 \<Rightarrow> 16 | U16 \<Rightarrow> 16 | I32 \<Rightarrow> 32 | U32 \<Rightarrow> 32 | _ \<Rightarrow> 64)"

definition fold_unaryop :: "IrUnaryOp \<Rightarrow> i64 \<Rightarrow> IrType \<Rightarrow> i64 option" where
  "fold_unaryop op src ty =
     (let bits = unary_bits ty;
          unused = 64 - bits;
          v = drop_bit unused (push_bit unused src)
      in case op of
           Neg \<Rightarrow> Some (- src)
         | Not \<Rightarrow> Some (NOT src)
         | Clz \<Rightarrow> Some (of_nat (leading_zeros v - unused))
         | ClzNonZero \<Rightarrow> if v = 0 then None else Some (of_nat (leading_zeros v - unused))
         | Ctz \<Rightarrow> Some (of_nat (if v = 0 then bits else trailing_zeros v))
         | CtzNonZero \<Rightarrow> if v = 0 then None else Some (of_nat (if v = 0 then bits else trailing_zeros v))
         | Bswap \<Rightarrow> Some (drop_bit unused (swap_bytes v))
         | BitReverse \<Rightarrow> Some (drop_bit unused (word_reverse v))
         | Popcount \<Rightarrow> Some (of_nat (count_ones v))
         | Parity \<Rightarrow> Some (of_nat (count_ones v mod 2))
         | IsConstant \<Rightarrow> Some 1)"

definition fold_cast :: "i64 \<Rightarrow> IrType \<Rightarrow> IrType \<Rightarrow> i64" where
  "fold_cast val from_ty to_ty = truncate_i64 to_ty (truncate_i64 from_ty val)"

subsection \<open>Narrowing the container\<close>

lemma ucast_of_int_down:
  assumes "LENGTH('b::len) \<le> LENGTH('a::len)"
  shows "(ucast (word_of_int k :: 'a word) :: 'b word) = word_of_int k"
  using assms by transfer simp

lemma ucast_arith_down:
  fixes a b :: "'a::len word"
  assumes "LENGTH('b::len) \<le> LENGTH('a)"
  shows "(ucast (a + b) :: 'b word) = ucast a + ucast b"
    and "(ucast (a - b) :: 'b word) = ucast a - ucast b"
    and "(ucast (a * b) :: 'b word) = ucast a * ucast b"
proof -
  have "(ucast (word_of_int (uint a + uint b) :: 'a word) :: 'b word) = ucast a + ucast b"
    "(ucast (word_of_int (uint a - uint b) :: 'a word) :: 'b word) = ucast a - ucast b"
    "(ucast (word_of_int (uint a * uint b) :: 'a word) :: 'b word) = ucast a * ucast b"
    unfolding ucast_of_int_down [OF assms] by simp_all
  then show "(ucast (a + b) :: 'b word) = ucast a + ucast b"
    "(ucast (a - b) :: 'b word) = ucast a - ucast b"
    "(ucast (a * b) :: 'b word) = ucast a * ucast b"
    by simp_all
qed

lemma ucast_minus_down:
  fixes a :: "'a::len word"
  assumes "LENGTH('b::len) \<le> LENGTH('a)"
  shows "(ucast (- a) :: 'b word) = - ucast a"
  using ucast_arith_down(2) [OF assms, of 0 a] by simp

lemma sint_ucast_down:
  fixes a :: "'a::len word"
  assumes "LENGTH('b::len) \<le> LENGTH('a)"
  shows "sint (ucast a :: 'b word) = signed_take_bit (LENGTH('b) - 1) (sint a)"
  using assms by transfer (auto intro!: bit_eqI simp: bit_simps min_def)

lemma signed_operand_sint:
  fixes a :: i64
  assumes "ir_size T ty * 8 = LENGTH('w::len)" "LENGTH('w) \<in> {8, 16, 32, 64}"
  shows "sint (signed_operand T a ty) = sint (ucast a :: 'w word)"
proof -
  have "LENGTH('w) \<le> 64" "1 \<le> LENGTH('w)"
    using assms(2) by auto
  then show ?thesis
    using assms sint_sign_extend_low [of "LENGTH('w)" a] sint_ucast_down [of a, where 'b = 'w]
    by (auto simp: signed_operand_def)
qed

lemma ucast_truncate:
  assumes "is_integer ty" "ir_size T ty * 8 = LENGTH('w::len)" "LENGTH('w) \<le> 64"
  shows "(ucast (truncate_i64 ty x) :: 'w word) = ucast x"
  using assms
  by (cases ty) (auto simp: ir_class_defs bit_simps intro!: bit_word_eqI)

lemma ucast_bitwise_down:
  fixes a b :: "'a::len word"
  shows "(ucast (a AND b) :: 'b::len word) = ucast a AND ucast b"
    and "(ucast (a OR b) :: 'b word) = ucast a OR ucast b"
    and "(ucast (a XOR b) :: 'b word) = ucast a XOR ucast b"
  by (auto simp: bit_simps intro!: bit_word_eqI)

text \<open>
  A constant of type \<open>ty\<close> is stored sign-extended or zero-extended according to its type.
\<close>

definition canonical :: "IrType \<Rightarrow> i64 \<Rightarrow> bool" where
  "canonical ty a \<longleftrightarrow> truncate_i64 ty a = a"

lemma canonical_nonzero:
  assumes "is_integer ty" "ir_size T ty * 8 = LENGTH('w::len)" "LENGTH('w) \<le> 64" "canonical ty a"
  shows "(ucast a :: 'w word) = 0 \<longleftrightarrow> a = 0"
proof
  assume z: "(ucast a :: 'w word) = 0"
  have "\<not> bit a i" if "i < LENGTH('w)" for i
  proof
    assume "bit a i"
    then have "bit (ucast a :: 'w word) i"
      using that by (simp add: bit_simps)
    with z show False by simp
  qed
  then have "truncate_i64 ty a = 0"
    using assms(1-3) by (cases ty) (auto simp: ir_class_defs bit_simps intro!: bit_word_eqI)
  then show "a = 0"
    using assms(4) by (simp add: canonical_def)
qed simp

lemma unat_ucast_mod:
  fixes a :: "'a::len word"
  shows "unat (ucast a :: 'w::len word) = unat a mod 2 ^ LENGTH('w)"
  by (simp add: unsigned_ucast_eq take_bit_eq_mod)

lemma unat_ucast_mod_width:
  fixes a :: "'a::len word"
  assumes "LENGTH('w::len) \<in> {8, 16, 32, 64}"
  shows "unat (ucast a :: 'w word) mod LENGTH('w) = unat a mod LENGTH('w)"
    and "unat (ucast a :: 'w word) mod 256 = unat a mod 256"
  using assms by (auto simp: unat_ucast_mod mod_mod_cancel)

text \<open>
  The operations whose folding is right only under a condition: a shift count below the width, and
  for the unsigned reading of an operand a type whose container value is its unsigned value.
\<close>

definition foldable :: "target \<Rightarrow> IrBinOp \<Rightarrow> i64 \<Rightarrow> IrType \<Rightarrow> bool" where
  "foldable T op rhs ty \<longleftrightarrow>
     (op = Shl \<and> ir_size T ty \<le> 4 \<or> op \<in> {AShr, LShr, BitTest} \<and> ir_size T ty < 4 \<longrightarrow>
        unat rhs < ir_size T ty * 8) \<and>
     (op \<in> {UDiv, URem, LShr} \<longrightarrow> is_unsigned ty \<or> 4 \<le> ir_size T ty)"

lemma ucast_32_div:
  fixes a b :: i64
  assumes "is_integer ty" "ir_size T ty * 8 = LENGTH('w::len)" "LENGTH('w) \<le> 32"
    "canonical ty a" "canonical ty b" "is_unsigned ty \<or> 4 \<le> ir_size T ty"
  shows "(ucast (ucast ((ucast a :: u32) div ucast b) :: i64) :: 'w word) = ucast a div ucast b"
    and "(ucast (ucast ((ucast a :: u32) mod ucast b) :: i64) :: 'w word) = ucast a mod ucast b"
proof -
  have eq: "unat (ucast x :: u32) = unat (ucast x :: 'w word)" if "canonical ty x" for x :: i64
  proof -
    have "LENGTH('w) = 32 \<or> unat x < 2 ^ LENGTH('w)"
      using that assms(1-3,6)
      by (cases ty) (auto simp: canonical_def ir_class_defs unat_ucast_mod dest!: arg_cong [where f = unat])
    then show ?thesis
    proof
      assume "unat x < 2 ^ LENGTH('w)"
      moreover have "(2::nat) ^ LENGTH('w) \<le> 2 ^ 32"
        using assms(3) by (intro power_increasing) auto
      ultimately show ?thesis
        by (simp add: unat_ucast_mod)
    qed (simp add: unat_ucast_mod)
  qed
  have b: "unat x div y < 2 ^ LENGTH('w)" "unat x mod y < 2 ^ LENGTH('w)" for x :: "'w word" and y
    using unsigned_less [of x, where ?'a = nat] by (auto intro: le_less_trans [OF div_le_dividend] le_less_trans [OF mod_less_eq_dividend])
  have l: "(2::nat) ^ LENGTH('w) \<le> 2 ^ 64"
    using assms(3) by (intro power_increasing) auto
  have id: "unat (ucast (ucast (x :: u32) :: i64) :: 'w word) = unat x" if "unat x < 2 ^ LENGTH('w)" for x
    using that l by (simp add: unat_ucast_mod)
  show "(ucast (ucast ((ucast a :: u32) div ucast b) :: i64) :: 'w word) = ucast a div ucast b"
    by (rule word_unat_eq_iff [THEN iffD2], subst id)
      (simp_all add: unat_div eq assms b)
  show "(ucast (ucast ((ucast a :: u32) mod ucast b) :: i64) :: 'w word) = ucast a mod ucast b"
    by (rule word_unat_eq_iff [THEN iffD2], subst id)
      (simp_all add: unat_mod eq assms b)
qed

lemma bit_signed_operand:
  fixes a :: i64
  assumes "ir_size T ty * 8 = LENGTH('w::len)" "LENGTH('w) \<in> {8, 16, 32, 64}"
  shows "bit (signed_operand T a ty) k \<longleftrightarrow> k < 64 \<and> bit a (min k (LENGTH('w) - 1))"
proof -
  have "signed_operand T a ty = word_of_int (sint (signed_operand T a ty))"
    by simp
  also have "\<dots> = word_of_int (signed_take_bit (LENGTH('w) - 1) (sint a))"
    unfolding signed_operand_sint [OF assms] using assms(2) by (subst sint_ucast_down) auto
  finally have eq: "signed_operand T a ty = word_of_int (signed_take_bit (LENGTH('w) - 1) (sint a))" .
  have "LENGTH('w) - 1 < 64" using assms(2) by auto
  then show ?thesis
    unfolding eq by (simp add: bit_simps bit_sint_iff min.absorb2 min.absorb1)
      (cases "k = LENGTH('w) - 1"; auto simp: min_def not_less)
qed

lemma canonical_unsigned_bit:
  assumes "is_unsigned ty" "ir_size T ty * 8 = LENGTH('w::len)" "LENGTH('w) \<le> 64" "canonical ty a" "bit a k"
  shows "k < LENGTH('w)"
proof -
  have "bit (truncate_i64 ty a) k"
    using assms(4,5) by (simp add: canonical_def)
  then show ?thesis
    using assms(1-3) by (cases ty) (auto simp: ir_class_defs bit_simps dest: bit_imp_le_length)
qed

lemma shift_count_32: "shift_count (ucast b :: u32) = unat b mod 32" for b :: i64
  by (simp add: shift_count_def unat_ucast_mod mod_mod_cancel)

lemma unat_mod_small: "n \<in> {8, 16, 32, 64} \<Longrightarrow> k mod n < (64::nat)"
  using mod_less_divisor [of n k] by auto



lemma bit_signed_drop_bit_min:
  fixes w :: "'a::len word"
  shows "bit (signed_drop_bit n w) k \<longleftrightarrow> k < LENGTH('a) \<and> bit w (min (n + k) (LENGTH('a) - 1))"
proof (cases "k < LENGTH('a)")
  case True
  then show ?thesis
    by (cases "n + k < LENGTH('a)") (auto simp: bit_signed_drop_bit_iff min_def not_less)
next
  case False
  then show ?thesis using bit_imp_le_length [of "signed_drop_bit n w" k] by auto
qed

lemma fold_ashr:
  fixes a b :: i64
  assumes w: "ir_size T ty * 8 = LENGTH('w::len)" "LENGTH('w) \<in> {8, 16, 32, 64}"
    and p: "promotes_to_32 ty \<longleftrightarrow> LENGTH('w) \<le> 32"
    and cnt: "LENGTH('w) \<le> 32 \<Longrightarrow> unat b mod 32 = unat b mod LENGTH('w)"
  shows "map_option ucast (fold_binop T AShr a b ty) = ir_binop AShr (ucast a :: 'w word) (ucast b)"
proof -
  define n where "n = unat b mod LENGTH('w)"
  have e: "unat (ucast b :: 'w word) mod LENGTH('w) = n"
    unfolding n_def using w(2) by (rule unat_ucast_mod_width)
  have ir: "bit (signed_drop_bit n (ucast a :: 'w word)) k \<longleftrightarrow>
      k < LENGTH('w) \<and> bit a (min (n + k) (LENGTH('w) - 1))" for k
    using w(2) by (auto simp: bit_signed_drop_bit_min bit_simps min_def)
  show ?thesis
  proof (cases "LENGTH('w) \<le> 32")
    case True
    then have m: "min (min (n + k) 31) (LENGTH('w) - 1) = min (n + k) (LENGTH('w) - 1)" for k
      by auto
    have "(ucast (scast (signed_drop_bit n (ucast (signed_operand T a ty) :: i32)) :: i64) :: 'w word) =
      signed_drop_bit n (ucast a)"
      using True by (intro bit_word_eqI)
        (auto simp: ir bit_simps bit_signed_drop_bit_min bit_signed_operand [OF w] m)
    then show ?thesis
      using True by (simp add: p shift_count_32 e cnt Let_def n_def [symmetric])
  next
    case False
    then have l: "LENGTH('w) = 64" using w(2) by auto
    then have sc: "shift_count b = n" by (simp add: shift_count_64 n_def)
    from l have "(ucast (signed_drop_bit n (signed_operand T a ty)) :: 'w word) = signed_drop_bit n (ucast a)"
      by (intro bit_word_eqI)
        (auto simp: ir bit_simps bit_signed_drop_bit_min bit_signed_operand [OF w])
    then show ?thesis
      using False sc by (simp add: p e Let_def)
  qed
qed

lemma fold_lshr:
  fixes a b :: i64
  assumes w: "LENGTH('w::len) \<in> {8, 16, 32, 64}"
    and p: "promotes_to_32 ty \<longleftrightarrow> LENGTH('w) \<le> 32"
    and cnt: "LENGTH('w) \<le> 32 \<Longrightarrow> unat b mod 32 = unat b mod LENGTH('w)"
    and u: "\<And>k. LENGTH('w) < 32 \<Longrightarrow> bit a k \<Longrightarrow> k < LENGTH('w)"
  shows "map_option ucast (fold_binop T LShr a b ty) = ir_binop LShr (ucast a :: 'w word) (ucast b)"
proof -
  define n where "n = unat b mod LENGTH('w)"
  have e: "unat (ucast b :: 'w word) mod LENGTH('w) = n"
    unfolding n_def using w by (rule unat_ucast_mod_width)
  show ?thesis
  proof (cases "LENGTH('w) \<le> 32")
    case True
    have "bit a (n + k) \<and> n + k < 32 \<longleftrightarrow> bit a (n + k) \<and> n + k < LENGTH('w)" for k
      using True u [of "n + k"] by (cases "LENGTH('w) = 32") auto
    then have "(ucast (ucast (drop_bit n (ucast a :: u32)) :: i64) :: 'w word) = drop_bit n (ucast a)"
      using True by (intro bit_word_eqI) (auto simp: bit_simps)
    then show ?thesis
      using True by (simp add: p shift_count_32 e cnt n_def [symmetric])
  next
    case False
    then have l: "LENGTH('w) = 64" using w by auto
    then have sc: "shift_count b = n" by (simp add: shift_count_64 n_def)
    from l have "(ucast (drop_bit n a) :: 'w word) = drop_bit n (ucast a)"
      by (intro bit_word_eqI) (auto simp: bit_simps dest: bit_imp_le_length)
    then show ?thesis
      using False sc by (simp add: p e Let_def)
  qed
qed

lemma fold_bit_test:
  fixes a b :: i64
  assumes w: "LENGTH('w::len) \<in> {8, 16, 32, 64}"
    and p: "promotes_to_32 ty \<longleftrightarrow> LENGTH('w) \<le> 32"
    and cnt: "LENGTH('w) \<le> 32 \<Longrightarrow> unat b mod 32 = unat b mod LENGTH('w)"
  shows "map_option ucast (fold_binop T BitTest a b ty) = ir_binop BitTest (ucast a :: 'w word) (ucast b)"
proof -
  define n where "n = unat b mod LENGTH('w)"
  have e: "unat (ucast b :: 'w word) mod LENGTH('w) = n"
    unfolding n_def using w by (rule unat_ucast_mod_width)
  have lt: "n < LENGTH('w)" by (simp add: n_def)
  show ?thesis
  proof (cases "LENGTH('w) \<le> 32")
    case True
    with lt have "n < 32" by simp
    then show ?thesis
      using True lt by (simp add: p shift_count_32 e cnt n_def [symmetric] drop_bit_and_1 bit_simps)
  next
    case False
    then have l: "LENGTH('w) = 64" using w by auto
    then have "shift_count b = n" by (simp add: shift_count_64 n_def)
    with False lt show ?thesis
      by (simp add: p e drop_bit_and_1 bit_simps)
  qed
qed

lemma fold_shl:
  fixes a b :: i64
  assumes w: "LENGTH('w::len) \<in> {8, 16, 32, 64}"
    and cnt: "unat b mod 64 = unat b mod LENGTH('w)"
  shows "map_option ucast (fold_binop T Shl a b ty) = ir_binop Shl (ucast a :: 'w word) (ucast b)"
proof -
  have "(ucast (push_bit n a) :: 'w word) = push_bit n (ucast a)" for n
    using w by (intro bit_word_eqI) (auto simp: bit_simps)
  then show ?thesis
    using w by (simp add: shift_count_64 unat_ucast_mod_width cnt)
qed

lemma fold_shifts:
  fixes a b :: i64
  assumes ty: "is_integer ty" "ir_size T ty * 8 = LENGTH('w::len)" "LENGTH('w) \<in> {8, 16, 32, 64}"
    and c: "canonical ty a" "canonical ty b" and f: "foldable T op b ty"
    and op: "op \<in> {Shl, AShr, LShr, BitTest}"
  shows "map_option ucast (fold_binop T op a b ty) = ir_binop op (ucast a :: 'w word) (ucast b)"
proof -
  have p: "promotes_to_32 ty \<longleftrightarrow> LENGTH('w) \<le> 32"
    using ty by (cases ty) (auto simp: promotes_to_32_def ir_class_defs)
  have sz: "ir_size T ty \<le> 4 \<longleftrightarrow> LENGTH('w) \<le> 32" "ir_size T ty < 4 \<longleftrightarrow> LENGTH('w) < 32"
    using ty(2) by auto
  have cnt: "unat b mod 32 = unat b mod LENGTH('w)" if "LENGTH('w) \<le> 32" "op \<noteq> Shl"
    using that f op ty(2,3) sz by (cases "LENGTH('w) = 32") (auto simp: foldable_def)
  have cntl: "unat b mod 64 = unat b mod LENGTH('w)" if "op = Shl"
    using that f ty(2,3) sz by (cases "LENGTH('w) = 64") (auto simp: foldable_def)
  from op consider "op = Shl" | "op = AShr" | "op = LShr" | "op = BitTest" by auto
  then show ?thesis
  proof cases
    case 1
    then show ?thesis using fold_shl [OF ty(3) cntl] by simp
  next
    case 2
    then show ?thesis using fold_ashr [OF ty(2,3) p cnt] by simp
  next
    case 3
    have "k < LENGTH('w)" if "LENGTH('w) < 32" "bit a k" for k
      using that f 3 sz ty canonical_unsigned_bit [OF _ ty(2) _ c(1)] by (auto simp: foldable_def)
    with 3 show ?thesis using fold_lshr [OF ty(3) p cnt] by simp
  next
    case 4
    then show ?thesis using fold_bit_test [OF ty(3) p cnt] by simp
  qed
qed

subsection \<open>Operations at the width of the type\<close>

lemma unat_u128_of_i64: "unat (ucast (b :: i64) :: u128) = unat b"
  by (simp add: unat_ucast_up)

lemma bzhi_index: "unat (ucast b :: 'w::len word) mod 256 = unat b mod 256"
  if "LENGTH('w) \<in> {8, 16, 32, 64}" for b :: i64
  using that by (rule unat_ucast_mod_width)

lemma fold_rotates:
  fixes a b :: i64
  assumes w: "LENGTH('w::len) \<in> {8, 16, 32, 64}"
  shows "(ucast (ucast (rotate_within_bits (ucast a) (ucast b) LENGTH('w) True) :: i64) :: 'w word) =
      word_rotl (unat (ucast b :: 'w word)) (ucast a)"
    and "(ucast (ucast (rotate_within_bits (ucast a) (ucast b) LENGTH('w) False) :: i64) :: 'w word) =
      word_rotr (unat (ucast b :: 'w word)) (ucast a)"
proof -
  have l: "0 < LENGTH('w)" "LENGTH('w) \<le> 128" "LENGTH('w) \<le> 64"
    using w by auto
  have lt: "k mod LENGTH('w) < LENGTH('w)" "k mod LENGTH('w) < 64" "k mod LENGTH('w) < 128" for k
    using mod_less_divisor [OF l(1), of k] l(3) by linarith+
  have e: "unat (ucast b :: 'w word) mod LENGTH('w) = unat b mod LENGTH('w)"
    using w by (rule unat_ucast_mod_width)
  have e2: "(n + unat (ucast b :: 'w word)) mod LENGTH('w) = (n + unat b) mod LENGTH('w)" for n
    by (metis e mod_add_right_eq)
  show "(ucast (ucast (rotate_within_bits (ucast a) (ucast b) LENGTH('w) True) :: i64) :: 'w word) =
      word_rotl (unat (ucast b :: 'w word)) (ucast a)"
    using lt l by (intro bit_word_eqI)
      (simp add: bit_word_rotl_iff bit_ucast_iff bit_rotate_left unat_u128_of_i64 e)
  show "(ucast (ucast (rotate_within_bits (ucast a) (ucast b) LENGTH('w) False) :: i64) :: 'w word) =
      word_rotr (unat (ucast b :: 'w word)) (ucast a)"
    using lt l by (intro bit_word_eqI)
      (simp add: bit_word_rotr_iff bit_ucast_iff bit_rotate_right unat_u128_of_i64 e2)
qed

lemma fold_bit_ops:
  fixes a b :: i64
  assumes w: "LENGTH('w::len) \<in> {8, 16, 32, 64}"
  shows "(ucast (ucast (bit_op_within_bits (ucast a) (ucast b) LENGTH('w) mode) :: i64) :: 'w word) =
      (case mode of Set \<Rightarrow> set_bit | Clear \<Rightarrow> unset_bit | Toggle \<Rightarrow> flip_bit)
        (unat (ucast b :: 'w word) mod LENGTH('w)) (ucast a)"
proof -
  have l: "0 < LENGTH('w)" "LENGTH('w) \<le> 128" "LENGTH('w) \<le> 64"
    using w by auto
  have e: "unat (ucast b :: 'w word) mod LENGTH('w) = unat b mod LENGTH('w)"
    using w by (rule unat_ucast_mod_width)
  show ?thesis
    using l by (intro bit_word_eqI)
      (cases mode; auto simp: bit_bit_op unat_u128_of_i64 e bit_simps)
qed

lemma fold_bzhi:
  fixes a b :: i64
  assumes w: "LENGTH('w::len) \<in> {8, 16, 32, 64}"
  shows "(ucast (ucast (zero_high_bits_from (ucast a) (ucast b) LENGTH('w)) :: i64) :: 'w word) =
      take_bit (unat (ucast b :: 'w word) mod 256) (ucast a)"
proof -
  have l: "LENGTH('w) \<le> 128" "LENGTH('w) \<le> 64"
    using w by auto
  show ?thesis
    using l by (intro bit_word_eqI)
      (auto simp: bit_zero_high unat_u128_of_i64 bzhi_index [OF w] bit_simps)
qed

lemma fold_mul_high:
  fixes a b :: i64
  assumes w: "LENGTH('w::len) \<le> 64"
  shows "(ucast (mul_high_within_bits a b LENGTH('w) True) :: 'w word) =
      word_of_int (sint (ucast a :: 'w word) * sint (ucast b :: 'w word) div 2 ^ LENGTH('w))"
    and "(ucast (mul_high_within_bits a b LENGTH('w) False) :: 'w word) =
      word_of_int (uint (ucast a :: 'w word) * uint (ucast b :: 'w word) div 2 ^ LENGTH('w))"
  using w
  by (simp_all add: mul_high_signed mul_high_unsigned ucast_of_int_down sint_ucast_down unsigned_ucast_eq
    Suc_le_eq)

lemma fold_signed_div:
  fixes a b :: i64
  assumes "ir_size T ty * 8 = LENGTH('w::len)" "LENGTH('w) \<in> {8, 16, 32, 64}"
  shows "(ucast (wrapping_sdiv (signed_operand T a ty) (signed_operand T b ty)) :: 'w word) =
      word_of_int (sint (ucast a :: 'w word) sdiv sint (ucast b :: 'w word))"
    and "(ucast (wrapping_srem (signed_operand T a ty) (signed_operand T b ty)) :: 'w word) =
      word_of_int (sint (ucast a :: 'w word) smod sint (ucast b :: 'w word))"
proof -
  have "LENGTH('w) \<le> 64" using assms(2) by auto
  then show "(ucast (wrapping_sdiv (signed_operand T a ty) (signed_operand T b ty)) :: 'w word) =
      word_of_int (sint (ucast a :: 'w word) sdiv sint (ucast b :: 'w word))"
    "(ucast (wrapping_srem (signed_operand T a ty) (signed_operand T b ty)) :: 'w word) =
      word_of_int (sint (ucast a :: 'w word) smod sint (ucast b :: 'w word))"
    by (simp_all add: wrapping_sdiv_def wrapping_srem_def signed_operand_sint [OF assms] ucast_of_int_down)
qed

lemma fold_unsigned_div:
  fixes a b :: i64
  assumes ty: "is_integer ty" "ir_size T ty * 8 = LENGTH('w::len)" "LENGTH('w) \<in> {8, 16, 32, 64}"
    and c: "canonical ty a" "canonical ty b" and f: "foldable T op b ty" and op: "op \<in> {UDiv, URem}"
  shows "map_option ucast (fold_binop T op a b ty) = ir_binop op (ucast a :: 'w word) (ucast b)"
proof -
  have l: "LENGTH('w) \<le> 64" using ty(3) by auto
  have u: "is_unsigned ty \<or> 4 \<le> ir_size T ty"
    using f op by (auto simp: foldable_def)
  have p: "promotes_to_32 ty \<longleftrightarrow> LENGTH('w) \<le> 32"
    using ty by (cases ty) (auto simp: promotes_to_32_def ir_class_defs)
  have z: "(ucast b :: 'w word) = 0 \<longleftrightarrow> b = 0"
    using canonical_nonzero [OF ty(1,2) l c(2)] .
  show ?thesis
  proof (cases "LENGTH('w) \<le> 32")
    case True
    then show ?thesis
      using op ucast_32_div [OF ty(1,2) _ c u] by (auto simp: p z)
  next
    case False
    then have l64: "LENGTH('w) = 64" using ty(3) by auto
    have id: "unat (ucast x :: 'w word) = unat x" for x :: i64
      using unsigned_less [of x, where ?'a = nat] by (simp add: unat_ucast_mod l64)
    have "(ucast (a div b) :: 'w word) = ucast a div ucast b" "(ucast (a mod b) :: 'w word) = ucast a mod ucast b"
      by (simp_all only: word_unat_eq_iff id unat_div unat_mod)
    then show ?thesis
      using op False by (auto simp: p z)
  qed
qed

text \<open>
  C1: folding a binary operation on canonical constants of an integer type of 8 to 64 bits gives the
  operation at exactly that width: the result truncated to the type is the operation on the truncated
  operands, and nothing is folded exactly when the operation has no value. The side condition asks of
  a shift narrower than its container that the count be below the width, and of an unsigned operation
  on a signed type that the type not be narrower than 32 bits.
\<close>

theorem fold_binop_exact_at_width:
  fixes a b :: i64
  assumes ty: "is_integer ty" "ir_size T ty * 8 = LENGTH('w::len)" "LENGTH('w) \<in> {8, 16, 32, 64}"
    and c: "canonical ty a" "canonical ty b" and f: "foldable T op b ty"
  shows "map_option ucast (fold_binop T op a b ty) = ir_binop op (ucast a :: 'w word) (ucast b)"
proof -
  have l: "LENGTH('w) \<le> 64" "1 \<le> LENGTH('w)" using ty(3) by auto
  have z: "(ucast b :: 'w word) = 0 \<longleftrightarrow> b = 0"
    using canonical_nonzero [OF ty(1,2) l(1) c(2)] .
  have tr: "(ucast (truncate_i64 ty x) :: 'w word) = ucast x" for x
    using ucast_truncate [OF ty(1,2) l(1)] .
  show ?thesis
    using fold_shifts [OF ty c f] fold_unsigned_div [OF ty c f] fold_signed_div [OF ty(2,3)]
      fold_rotates [OF ty(3)] fold_bit_ops [OF ty(3)] fold_bzhi [OF ty(3)] fold_mul_high [OF l(1)] l
    by (cases op)
      (simp_all add: ucast_arith_down ucast_bitwise_down ty(2) tr z Suc_le_eq del: One_nat_def)
qed

theorem fold_binop_exact_at_width_witness:
  "map_option ucast (fold_binop \<lparr>target_ptr_size = 8, target_long_double_is_f128 = False\<rparr> SDiv (-128) (-1) I8) = Some (0x80 :: u8) \<and>
   map_option ucast (fold_binop \<lparr>target_ptr_size = 8, target_long_double_is_f128 = False\<rparr> UDiv 200 3 U8) = Some (66 :: u8)"
proof -
  have "map_option ucast (fold_binop \<lparr>target_ptr_size = 8, target_long_double_is_f128 = False\<rparr> SDiv (-128) (-1) I8) = ir_binop SDiv (ucast (-128 :: i64) :: u8) (ucast (-1 :: i64))"
    by (rule fold_binop_exact_at_width) (simp_all add: ir_class_defs canonical_def foldable_def, code_simp+)
  moreover have "map_option ucast (fold_binop \<lparr>target_ptr_size = 8, target_long_double_is_f128 = False\<rparr> UDiv 200 3 U8) = ir_binop UDiv (ucast (200 :: i64) :: u8) (ucast (3 :: i64))"
    by (rule fold_binop_exact_at_width) (simp_all add: ir_class_defs canonical_def foldable_def)
  moreover have "ir_binop SDiv (ucast (-128 :: i64) :: u8) (ucast (-1 :: i64)) = Some 0x80"
    "ir_binop UDiv (ucast (200 :: i64) :: u8) (ucast (3 :: i64)) = Some 66"
    by code_simp+
  ultimately show ?thesis
    by (simp only:)
qed

subsection \<open>Unary operations and casts\<close>

lemma zero_extend_low:
  fixes src :: i64
  assumes "LENGTH('w::len) \<le> 64"
  shows "drop_bit (64 - LENGTH('w)) (push_bit (64 - LENGTH('w)) src) = ucast (ucast src :: 'w word)"
  using assms by (intro bit_word_eqI) (auto simp: bit_simps dest: bit_imp_le_length)

lemma upt_64_split: "n \<le> 64 \<Longrightarrow> [0..<64] = [0..<n] @ [n..<64]"
  using upt_add_eq_append [of 0 n "64 - n"] by simp

lemma leading_zeros_extend:
  fixes x :: "'w::len word"
  assumes "LENGTH('w) \<le> 64"
  shows "leading_zeros (ucast x :: i64) = leading_zeros x + (64 - LENGTH('w))"
proof -
  have "\<not> bit (ucast x :: i64) i" if "i \<in> set (rev [LENGTH('w)..<64])" for i
    using that by (auto simp: bit_simps dest: bit_imp_le_length)
  then have "takeWhile (\<lambda>i. \<not> bit (ucast x :: i64) i) (rev [0..<64]) =
    rev [LENGTH('w)..<64] @ takeWhile (\<lambda>i. \<not> bit (ucast x :: i64) i) (rev [0..<LENGTH('w)])"
    unfolding upt_64_split [OF assms] rev_append by (rule takeWhile_append2)
  moreover have "takeWhile (\<lambda>i. \<not> bit (ucast x :: i64) i) (rev [0..<LENGTH('w)]) =
      takeWhile (\<lambda>i. \<not> bit x i) (rev [0..<LENGTH('w)])"
    using assms by (intro takeWhile_cong) (auto simp: bit_simps)
  ultimately show ?thesis
    by (simp add: leading_zeros_def)
qed

lemma trailing_zeros_extend:
  fixes x :: "'w::len word"
  assumes "LENGTH('w) \<le> 64" "x \<noteq> 0"
  shows "trailing_zeros (ucast x :: i64) = trailing_zeros x"
proof -
  obtain j where j: "j < LENGTH('w)" "bit x j"
    using assms(2) bit_imp_le_length by (metis bit_word_eqI bit_0_eq bot_apply bot_bool_def)
  have "takeWhile (\<lambda>i. \<not> bit (ucast x :: i64) i) [0..<64] = takeWhile (\<lambda>i. \<not> bit (ucast x :: i64) i) [0..<LENGTH('w)]"
    unfolding upt_64_split [OF assms(1)]
    by (rule takeWhile_append1 [of j]) (use j assms in \<open>auto simp: bit_simps\<close>)
  also have "\<dots> = takeWhile (\<lambda>i. \<not> bit x i) [0..<LENGTH('w)]"
    using assms by (intro takeWhile_cong) (auto simp: bit_simps)
  finally show ?thesis
    by (simp add: trailing_zeros_def)
qed

lemma trailing_zeros_0: "trailing_zeros (0 :: 'w::len word) = LENGTH('w)"
  by (simp add: trailing_zeros_def takeWhile_eq_all_conv [THEN iffD2])

lemma count_ones_extend:
  fixes x :: "'w::len word"
  assumes "LENGTH('w) \<le> 64"
  shows "count_ones (ucast x :: i64) = count_ones x"
proof -
  have "filter (bit (ucast x :: i64)) [LENGTH('w)..<64] = []"
    by (auto simp: filter_empty_conv bit_simps dest: bit_imp_le_length)
  moreover have "filter (bit (ucast x :: i64)) [0..<LENGTH('w)] = filter (bit x) [0..<LENGTH('w)]"
    using assms by (intro filter_cong) (auto simp: bit_simps)
  ultimately show ?thesis
    by (simp add: count_ones_def upt_64_split [OF assms])
qed

lemma reverse_extend:
  fixes x :: "'w::len word"
  assumes "LENGTH('w) \<le> 64"
  shows "(ucast (drop_bit (64 - LENGTH('w)) (word_reverse (ucast x :: i64))) :: 'w word) = word_reverse x"
  using assms by (intro bit_word_eqI) (auto simp: bit_simps bit_word_reverse_iff)

lemma bit_swap_bytes:
  fixes w :: "'a::len word"
  assumes "8 dvd LENGTH('a)" "i < LENGTH('a)"
  shows "bit (swap_bytes w) i \<longleftrightarrow> bit w (8 * (LENGTH('a) div 8 - 1 - i div 8) + i mod 8)"
proof -
  have "i div 8 < LENGTH('a) div 8"
    using assms by (auto elim!: dvdE simp: less_mult_imp_div_less mult.commute)
  then show ?thesis
    using assms(2) by (simp add: swap_bytes_def bit_from_le_bytes rev_nth nth_to_le_bytes bit_simps)
qed

lemma swap_bytes_extend:
  fixes x :: "'w::len word"
  assumes "LENGTH('w) \<in> {8, 16, 32, 64}"
  shows "(ucast (drop_bit (64 - LENGTH('w)) (swap_bytes (ucast x :: i64))) :: 'w word) = swap_bytes x"
proof (rule bit_word_eqI)
  fix i assume i: "i < LENGTH('w)"
  from assms obtain k where k: "LENGTH('w) = 8 * k" "k \<le> 8"
    by auto
  have e: "(64 - LENGTH('w) + i) div 8 = 8 - k + i div 8" "(64 - LENGTH('w) + i) mod 8 = i mod 8"
  proof -
    have "64 - LENGTH('w) + i = i + 8 * (8 - k)"
      using k by auto
    then show "(64 - LENGTH('w) + i) div 8 = 8 - k + i div 8" "(64 - LENGTH('w) + i) mod 8 = i mod 8"
      by simp_all
  qed
  have "i div 8 < k" using i k by auto
  then have j: "8 * (7 - (8 - k + i div 8)) + i mod 8 = 8 * (k - 1 - i div 8) + i mod 8"
    "8 * (k - 1 - i div 8) + i mod 8 < 64"
    using k(2) mod_less_divisor [of 8 i] by linarith+
  have "64 - LENGTH('w) + i < 64" using i k by auto
  then have "bit (swap_bytes (ucast x :: i64)) (64 - LENGTH('w) + i) =
      bit (ucast x :: i64) (8 * (7 - (8 - k + i div 8)) + i mod 8)"
    using bit_swap_bytes [of "64 - LENGTH('w) + i" "ucast x :: i64"] by (simp only: e) simp
  also have "\<dots> = bit (swap_bytes x) i"
    unfolding j(1) using i k j(2) by (simp add: bit_swap_bytes bit_ucast_iff)
  finally show "bit (ucast (drop_bit (64 - LENGTH('w)) (swap_bytes (ucast x :: i64))) :: 'w word) i = bit (swap_bytes x) i"
    using i k by (simp add: bit_ucast_iff bit_drop_bit_eq)
qed

lemma ucast_of_nat_64: "(ucast (of_nat n :: i64) :: 'w::len word) = of_nat n" if "LENGTH('w) \<le> 64"
  using ucast_of_int_down [where 'a = 64 and 'b = 'w, of "int n"] that by simp

lemma unary_bits_size:
  assumes "is_integer ty" "ir_size T ty * 8 = LENGTH('w::len)" "LENGTH('w) \<le> 64"
  shows "unary_bits ty = LENGTH('w)" "LENGTH('w) \<in> {8, 16, 32, 64}"
  using assms by (cases ty; auto simp: unary_bits_def ir_class_defs)+

lemma ucast_eq_0_up:
  fixes x :: "'w::len word"
  assumes "LENGTH('w) \<le> 64"
  shows "(ucast x :: i64) = 0 \<longleftrightarrow> x = 0"
proof
  assume "(ucast x :: i64) = 0"
  then have "uint (ucast x :: i64) = 0" by simp
  then show "x = 0"
    using assms by (simp add: uint_ucast_up uint_0_iff)
qed simp

text \<open>
  folding a unary operation on a constant of an integer type of 8 to 64 bits gives, truncated to
  the type, the operation at exactly that width on the truncated operand, whatever the bits of the
  container above the type hold: the zero counts of zero return the type's width, byte swap and bit
  reversal permute the type's own bytes and bits, and the nonzero forms fold exactly for a nonzero
  operand.
\<close>

theorem fold_unaryop_exact_at_width:
  fixes src :: i64
  assumes ty: "is_integer ty" "ir_size T ty * 8 = LENGTH('w::len)" "LENGTH('w) \<le> 64"
  shows "map_option ucast (fold_unaryop op src ty) = ir_unop op (ucast src :: 'w word)"
proof -
  note b = unary_bits_size [OF ty]
  have n: "(ucast (NOT src) :: 'w word) = NOT (ucast src)"
    using ty(3) by (intro bit_word_eqI) (auto simp: bit_simps)
  show ?thesis
    using ty(3) b(2)
    by (cases op)
      (auto simp: fold_unaryop_def Let_def b(1) zero_extend_low leading_zeros_extend trailing_zeros_extend
        trailing_zeros_0 count_ones_extend reverse_extend swap_bytes_extend ucast_of_nat_64
        ucast_minus_down n ucast_eq_0_up)
qed

theorem fold_unaryop_exact_at_width_witness:
  "map_option ucast (fold_unaryop Clz 1 U8) = Some (7 :: u8) \<and>
   map_option ucast (fold_unaryop Bswap 0x1234 U16) = Some (0x3412 :: u16)"
proof -
  let ?T = "\<lparr>target_ptr_size = 8, target_long_double_is_f128 = False\<rparr>"
  have "map_option ucast (fold_unaryop Clz 1 U8) = ir_unop Clz (ucast (1 :: i64) :: u8)"
    by (rule fold_unaryop_exact_at_width [of _ ?T]) (simp_all add: ir_class_defs)
  moreover have "map_option ucast (fold_unaryop Bswap 0x1234 U16) = ir_unop Bswap (ucast (0x1234 :: i64) :: u16)"
    by (rule fold_unaryop_exact_at_width [of _ ?T]) (simp_all add: ir_class_defs)
  moreover have "ir_unop Clz (ucast (1 :: i64) :: u8) = Some 7"
    "ir_unop Bswap (ucast (0x1234 :: i64) :: u16) = Some 0x3412"
    by code_simp+
  ultimately show ?thesis
    by (simp only:)
qed

text \<open>The integer that a container holding a constant of an integer type stands for.\<close>

definition container_value :: "IrType \<Rightarrow> i64 \<Rightarrow> int" where
  "container_value ty a = (if ty = U64 then uint a else sint a)"

lemma take_bit_sint_64: "n \<le> 64 \<Longrightarrow> take_bit n (sint (a :: i64)) = take_bit n (uint a)"
  by (simp add: sint_uint take_bit_signed_take_bit)

lemma container_value_truncate:
  assumes "is_integer ty" "ir_size T ty \<le> 8"
  shows "container_value ty (truncate_i64 ty val) = ir_wrap T ty (sint val)"
proof (cases "ty = U64")
  case True
  then show ?thesis
    by (simp add: container_value_def ir_wrap_def ir_width_def is_unsigned_def take_bit_sint_64 take_bit_int_eq_self unsigned_less [of val, simplified])
next
  case False
  then have "ty \<in> {I8, U8, I16, U16, I32, U32, I64}"
    using assms by (cases ty) (auto simp: ir_class_defs)
  then show ?thesis
    using truncate_i64_converts False by (simp add: container_value_def)
qed

lemma ir_wrap_container_value:
  assumes "is_integer ty" "ir_size T ty \<le> 8"
  shows "ir_wrap T ty (container_value from_ty a) = ir_wrap T ty (sint a)"
proof -
  have w: "0 < ir_width T ty" "ir_width T ty \<le> 64"
    using assms by (cases ty; simp add: ir_width_def ir_class_defs)+
  have "take_bit (ir_width T ty) (uint a) = take_bit (ir_width T ty) (sint a)"
    by (simp add: take_bit_sint_64 [OF w(2)])
  then show ?thesis
    using w(1) by (simp add: container_value_def ir_wrap_def signed_take_bit_eq_iff_take_bit_eq)
qed

text \<open>
  C31: folding a cast between integer types of at most 64 bits converts twice, as C does: whatever the container of the operand holds above the source type, the
  folded constant is canonical and stands for the conversion to the target type of the conversion to the source type of the container's value. A cast
  that \<^verbatim>\<open>cast_preserves_integer_value\<close> declares removable folds a canonical constant to itself.
\<close>

theorem fold_cast_converts:
  assumes "is_integer from_ty" "ir_size T from_ty \<le> 8" "is_integer to_ty" "ir_size T to_ty \<le> 8"
  shows "canonical to_ty (fold_cast val from_ty to_ty) \<and>
    container_value to_ty (fold_cast val from_ty to_ty) = ir_wrap T to_ty (ir_wrap T from_ty (sint val)) \<and>
    (canonical from_ty val \<and> cast_preserves_integer_value T from_ty to_ty \<longrightarrow> fold_cast val from_ty to_ty = val)"
proof -
  have idem: "truncate_i64 ty (truncate_i64 ty x) = truncate_i64 ty x" for ty x
    by (cases ty) (auto simp: bit_simps intro!: bit_word_eqI)
  have keep: "truncate_i64 to_ty (truncate_i64 from_ty val) = truncate_i64 from_ty val"
    if "cast_preserves_integer_value T from_ty to_ty"
    using that by (cases from_ty; cases to_ty)
      (auto simp: cast_preserves_integer_value_def ir_class_defs bit_simps min_def intro!: bit_word_eqI
        dest: bit_imp_le_length split: if_splits)
  have "container_value to_ty (fold_cast val from_ty to_ty) = ir_wrap T to_ty (sint (truncate_i64 from_ty val))"
    unfolding fold_cast_def by (rule container_value_truncate [OF assms(3,4)])
  also have "\<dots> = ir_wrap T to_ty (container_value from_ty (truncate_i64 from_ty val))"
    by (simp add: ir_wrap_container_value [OF assms(3,4)])
  also have "\<dots> = ir_wrap T to_ty (ir_wrap T from_ty (sint val))"
    by (simp add: container_value_truncate [OF assms(1,2)])
  finally show ?thesis
    using keep by (auto simp: canonical_def fold_cast_def idem)
qed

theorem fold_cast_converts_witness:
  "fold_cast (-5) I8 I32 = -5 \<and> container_value U32 (fold_cast 0x1FF I8 U32) = 0xFFFFFFFF"
proof -
  let ?T = "\<lparr>target_ptr_size = 8, target_long_double_is_f128 = False\<rparr>"
  have "canonical I8 (-5)" "cast_preserves_integer_value ?T I8 I32"
    by code_simp+
  moreover have "ir_wrap ?T U32 (ir_wrap ?T I8 (sint (0x1FF :: i64))) = 0xFFFFFFFF"
    by code_simp
  ultimately show ?thesis
    using fold_cast_converts [of I8 ?T I32 "-5"] fold_cast_converts [of I8 ?T U32 "0x1FF"] by (simp add: ir_class_defs)
qed

text \<open>
  The unsigned operations read an operand of a signed 8-bit or 16-bit type at 32 bits, not at its
  own width: the constant minus one divided by two at type \<^verbatim>\<open>I8\<close> folds to a value whose low byte is
  255, where the division of the byte 255 by two is 127.
\<close>

theorem fold_binop_narrow_signed_unsigned_division:
  "map_option ucast (fold_binop T UDiv (-1) 2 I8) = Some (255 :: u8) \<and>
   ir_binop UDiv (ucast (-1 :: i64) :: u8) (ucast (2 :: i64)) = Some 127 \<and>
   canonical I8 (-1) \<and> canonical I8 2"
  by (intro conjI) (simp add: promotes_to_32_def, code_simp+)

end
