(* ===== verification/LongDouble.thy ===== *)
theory LongDouble
  imports IrOps Complex_Main
begin

text \<open>
  The binary floating-point formats behind \<^verbatim>\<open>long double\<close>, \<^verbatim>\<open>src/src/common/long_double.rs\<close>: the
  IEEE binary64, binary128 and x87 80-bit encodings, the widening conversions between them, the
  conversions from and to integers, and the two correctly rounding narrowing kernels. Byte arrays are
  byte lists, the least significant byte first; a Rust \<^verbatim>\<open>f64\<close> is its bit pattern; the exponents, held in
  \<^verbatim>\<open>i32\<close> and \<^verbatim>\<open>i64\<close> far from their limits, are integers.
\<close>

subsection \<open>Encodings\<close>

definition make_x87_zero :: "bool \<Rightarrow> u8 list" where
  "make_x87_zero negative = (let bytes = replicate 16 0 in if negative then bytes[9 := 0x80] else bytes)"

definition make_x87_infinity :: "bool \<Rightarrow> u8 list" where
  "make_x87_infinity negative =
     (replicate 16 0)[7 := 0x80, 8 := 0xFF, 9 := 0x7F OR (if negative then 0x80 else 0)]"

definition make_x87_nan :: "bool \<Rightarrow> u8 list" where
  "make_x87_nan negative =
     (replicate 16 0)[7 := 0xC0, 8 := 0xFF, 9 := 0x7F OR (if negative then 0x80 else 0)]"

record X87Decomposed =
  x87_sign :: bool
  x87_biased_exp :: u16
  x87_mantissa :: u64

definition x87_is_zero :: "X87Decomposed \<Rightarrow> bool" where
  "x87_is_zero d \<longleftrightarrow> x87_biased_exp d = 0 \<and> x87_mantissa d = 0"

definition x87_is_special :: "X87Decomposed \<Rightarrow> bool" where
  "x87_is_special d \<longleftrightarrow> x87_biased_exp d = 0x7FFF"

definition x87_is_inf :: "X87Decomposed \<Rightarrow> bool" where
  "x87_is_inf d \<longleftrightarrow> x87_is_special d \<and> x87_mantissa d = 0x8000000000000000"

definition x87_unbiased_exp :: "X87Decomposed \<Rightarrow> int" where
  "x87_unbiased_exp d =
     (if x87_biased_exp d = 0 \<and> x87_mantissa d \<noteq> 0 then -16382
      else uint (x87_biased_exp d) - 16383)"

definition x87_decompose :: "u8 list \<Rightarrow> X87Decomposed" where
  "x87_decompose bytes =
     (let mantissa = from_le_bytes (take 8 bytes);
          exp_sign = from_le_bytes [bytes ! 8, bytes ! 9] :: u16
      in \<lparr>x87_sign = (drop_bit 15 exp_sign AND 1 = 1),
          x87_biased_exp = exp_sign AND 0x7FFF,
          x87_mantissa = mantissa\<rparr>)"

record F64Decomposed =
  f64_sign :: bool
  f64_biased_exp :: u16
  f64_mantissa :: u64

definition f64_is_zero :: "F64Decomposed \<Rightarrow> bool" where
  "f64_is_zero d \<longleftrightarrow> f64_biased_exp d = 0 \<and> f64_mantissa d = 0"

definition f64_is_special :: "F64Decomposed \<Rightarrow> bool" where
  "f64_is_special d \<longleftrightarrow> f64_biased_exp d = 0x7FF"

definition f64_is_inf :: "F64Decomposed \<Rightarrow> bool" where
  "f64_is_inf d \<longleftrightarrow> f64_is_special d \<and> f64_mantissa d = 0"

definition f64_decompose :: "f64 \<Rightarrow> F64Decomposed" where
  "f64_decompose bits =
     \<lparr>f64_sign = (drop_bit 63 bits AND 1 = 1),
      f64_biased_exp = ucast (drop_bit 52 bits AND 0x7FF),
      f64_mantissa = bits AND 0x000FFFFFFFFFFFFF\<rparr>"

definition f64_normalize_significand :: "f64 \<Rightarrow> bool \<times> u64 \<times> int" where
  "f64_normalize_significand val =
     (let d = f64_decompose val
      in if f64_biased_exp d = 0
         then let hi = 63 - leading_zeros (f64_mantissa d)
              in (f64_sign d, push_bit (52 - hi) (f64_mantissa d), int hi - 1074)
         else (f64_sign d, push_bit 52 1 OR f64_mantissa d, uint (f64_biased_exp d) - 1023))"

definition x87_encode :: "bool \<Rightarrow> u16 \<Rightarrow> u64 \<Rightarrow> u8 list" where
  "x87_encode sign biased_exp mantissa64 =
     (let exp_sign = biased_exp OR (if sign then 0x8000 else 0)
      in to_le_bytes 8 mantissa64 @ [ucast (exp_sign AND 0xFF), ucast (drop_bit 8 exp_sign)] @ replicate 6 0)"

definition make_f128_raw :: "bool \<Rightarrow> u16 \<Rightarrow> u128 \<Rightarrow> u8 list" where
  "make_f128_raw negative biased_exp stored_mantissa =
     (let sign_bit = (if negative then push_bit 127 1 else 0)
      in to_le_bytes 16 (sign_bit OR push_bit 112 (ucast biased_exp) OR stored_mantissa))"

definition make_f128_zero :: "bool \<Rightarrow> u8 list" where
  "make_f128_zero negative = make_f128_raw negative 0 0"

definition make_f128_infinity :: "bool \<Rightarrow> u8 list" where
  "make_f128_infinity negative = make_f128_raw negative 0x7FFF 0"

definition make_f128_nan :: "bool \<Rightarrow> u8 list" where
  "make_f128_nan negative = make_f128_raw negative 0x7FFF (push_bit 111 1)"

definition f128_decompose :: "u8 list \<Rightarrow> bool \<times> int \<times> u128" where
  "f128_decompose bytes =
     (let val = from_le_bytes bytes :: u128;
          sign = drop_bit 127 val \<noteq> 0;
          biased_exp = uint (drop_bit 112 val AND 0x7FFF);
          mantissa = val AND (push_bit 112 1 - 1)
      in if biased_exp = 0 then (sign, 0, mantissa)
         else if biased_exp = 0x7FFF then (sign, 0x7FFF, mantissa)
         else (sign, biased_exp, mantissa OR push_bit 112 1))"

subsection \<open>Rounding\<close>

definition round_shift_half_even :: "u128 \<Rightarrow> int \<Rightarrow> u128 \<times> bool" where
  "round_shift_half_even m sh =
     (if sh \<le> 0 then (m, False)
      else if sh \<ge> 128 then (0, sh = 128 \<and> m > push_bit 127 1)
      else let n = nat sh;
               truncated = drop_bit n m;
               round_bit = drop_bit (n - 1) m AND 1;
               sticky = m AND (push_bit (n - 1) 1 - 1)
           in (truncated, round_bit = 1 \<and> (sticky \<noteq> 0 \<or> truncated AND 1 = 1)))"

abbreviation f64_infinity :: "bool \<Rightarrow> f64" where
  "f64_infinity sign \<equiv> (if sign then 0xFFF0000000000000 else 0x7FF0000000000000)"

abbreviation f64_zero :: "bool \<Rightarrow> f64" where
  "f64_zero sign \<equiv> (if sign then 0x8000000000000000 else 0)"

abbreviation f64_nan :: f64 where
  "f64_nan \<equiv> 0x7FF8000000000000"

definition scaled_significand_to_f64 :: "bool \<Rightarrow> u128 \<Rightarrow> int \<Rightarrow> f64" where
  "scaled_significand_to_f64 sign m e =
     (if m = 0 then f64_zero sign
      else let lz = leading_zeros m;
               m = push_bit lz m;
               e = e - int lz;
               big_e = e + 127;
               sign_bit = (if sign then push_bit 63 1 else 0)
           in if big_e > 1023 then f64_infinity sign
              else if big_e \<ge> -1022
              then let (frac53, round_up) = round_shift_half_even m 75;
                       frac53 = (if round_up then frac53 + 1 else frac53);
                       (biased, mantissa52) =
                         (if frac53 \<ge> push_bit 53 1
                          then (word_of_int (big_e + 1 + 1023) :: u64, 0 :: u64)
                          else (word_of_int (big_e + 1023), ucast (frac53 AND (push_bit 52 1 - 1))))
                   in if biased \<ge> 0x7FF then f64_infinity sign
                      else sign_bit OR push_bit 52 biased OR mantissa52
              else let sh = - (big_e + 947)
                   in if sh > 128 then f64_zero sign
                      else let (frac52, round_up) = round_shift_half_even m sh;
                               frac52 = (if round_up then frac52 + 1 else frac52)
                           in if frac52 \<ge> push_bit 52 1
                              then sign_bit OR push_bit 52 1 OR ucast (frac52 - push_bit 52 1)
                              else sign_bit OR ucast frac52)"

definition encode_x87_from_scaled :: "bool \<Rightarrow> u128 \<Rightarrow> int \<Rightarrow> u8 list" where
  "encode_x87_from_scaled sign m e =
     (if m = 0 then make_x87_zero sign
      else let lz = leading_zeros m;
               m = push_bit lz m;
               e = e - int lz;
               big_e = e + 127
           in if big_e > 16383 then make_x87_infinity sign
              else if big_e < -16382 \<and> - (e + 16445) > 128 then make_x87_zero sign
              else let (mant64, up) =
                         (if big_e \<ge> -16382 then round_shift_half_even m 64
                          else round_shift_half_even m (- (e + 16445)));
                       mant64 = (if up then mant64 + 1 else mant64)
                   in if big_e \<ge> -16382
                      then (if mant64 < push_bit 64 1
                            then x87_encode sign (word_of_int (big_e + 16383)) (ucast mant64)
                            else x87_encode sign (word_of_int (big_e + 16384)) (push_bit 63 1))
                      else if mant64 \<ge> push_bit 63 1 then x87_encode sign 1 (ucast mant64)
                      else x87_encode sign 0 (ucast mant64))"

subsection \<open>Conversions between formats\<close>

definition x87_bytes_to_f64 :: "u8 list \<Rightarrow> f64" where
  "x87_bytes_to_f64 bytes =
     (let d = x87_decompose bytes
      in if x87_is_zero d then f64_zero (x87_sign d)
         else if x87_is_special d then
           (if x87_is_inf d then f64_infinity (x87_sign d) else f64_nan)
         else scaled_significand_to_f64 (x87_sign d) (ucast (x87_mantissa d)) (x87_unbiased_exp d - 63))"

definition x87_bytes_to_f128_bytes :: "u8 list \<Rightarrow> u8 list" where
  "x87_bytes_to_f128_bytes x87 =
     (let d = x87_decompose x87
      in if x87_is_zero d then make_f128_zero (x87_sign d)
         else if x87_is_special d then
           (if x87_is_inf d then make_f128_infinity (x87_sign d)
            else let frac = push_bit 49 (ucast (x87_mantissa d AND 0x7FFFFFFFFFFFFFFF) :: u128);
                     sign_bit = (if x87_sign d then push_bit 127 1 else 0)
                 in to_le_bytes 16 (sign_bit OR push_bit 112 0x7FFF OR frac))
         else let mantissa_no_int = x87_mantissa d AND 0x7FFFFFFFFFFFFFFF;
                  mantissa112 = push_bit 49 (ucast mantissa_no_int :: u128);
                  sign_bit = (if x87_sign d then push_bit 127 1 else 0)
              in to_le_bytes 16 (mantissa112 OR push_bit 112 (ucast (x87_biased_exp d)) OR sign_bit))"

definition f128_encode_subnormal :: "bool \<Rightarrow> nat \<Rightarrow> u128 \<Rightarrow> bool \<Rightarrow> bool \<Rightarrow> u8 list" where
  "f128_encode_subnormal negative shift mantissa guard sticky =
     (let ext = push_bit 1 mantissa OR (if guard then 1 else 0);
          n = shift + 1;
          (kept, g, s) =
            (if n \<ge> 128 then (0, False, ext \<noteq> 0 \<or> sticky)
             else (drop_bit n ext, drop_bit (n - 1) ext AND 1 \<noteq> 0,
                   ext AND (push_bit (n - 1) 1 - 1) \<noteq> 0 \<or> sticky));
          k = kept + (if g \<and> (s \<or> kept AND 1 \<noteq> 0) then 1 else 0);
          sign_bit = (if negative then push_bit 127 1 else 0)
      in to_le_bytes 16 (sign_bit OR k))"

definition encode_f128 :: "bool \<Rightarrow> int \<Rightarrow> u128 \<Rightarrow> u8 list" where
  "encode_f128 negative binary_exp mantissa113 =
     (if mantissa113 = 0 then make_f128_zero negative
      else let biased_exp = binary_exp + 16383
           in if biased_exp \<ge> 0x7FFF then make_f128_infinity negative
              else if biased_exp \<le> 0
              then f128_encode_subnormal negative (nat (1 - biased_exp)) mantissa113 False False
              else let exp15 = word_of_int biased_exp :: u128;
                       mantissa_stored = mantissa113 AND (push_bit 112 1 - 1);
                       sign_bit = (if negative then push_bit 127 1 else 0)
                   in to_le_bytes 16 (sign_bit OR push_bit 112 exp15 OR mantissa_stored))"

definition f128_bytes_to_x87_bytes :: "u8 list \<Rightarrow> u8 list" where
  "f128_bytes_to_x87_bytes f128_bytes =
     (let (sign, biased_exp, mantissa) = f128_decompose f128_bytes
      in if biased_exp = 0 \<and> mantissa = 0 then make_x87_zero sign
         else if biased_exp = 0x7FFF then
           (if mantissa = 0 then make_x87_infinity sign
            else let frac = drop_bit 49 (mantissa AND (push_bit 112 1 - 1));
                     frac = (if frac = 0 then push_bit 62 1 else frac);
                     se = 0x7FFF OR (if sign then 0x8000 else 0)
                 in to_le_bytes 16 (push_bit 64 se OR push_bit 63 1 OR frac))
         else let (m, e) = (if biased_exp = 0 then (mantissa, -16382 - 112)
                            else (mantissa, biased_exp - 16383 - 112))
              in encode_x87_from_scaled sign m e)"

definition f128_bytes_to_f64 :: "u8 list \<Rightarrow> f64" where
  "f128_bytes_to_f64 f128_bytes =
     (let (sign, biased_exp, mantissa) = f128_decompose f128_bytes
      in if biased_exp = 0 \<and> mantissa = 0 then f64_zero sign
         else if biased_exp = 0x7FFF then (if mantissa = 0 then f64_infinity sign else f64_nan)
         else let e = (if biased_exp = 0 then -16382 else biased_exp - 16383)
              in scaled_significand_to_f64 sign mantissa (e - 112))"

definition long_double_value_bytes :: "target \<Rightarrow> u8 list \<Rightarrow> u8 list" where
  "long_double_value_bytes T bytes =
     (if target_long_double_is_f128 T then bytes
      else x87_bytes_to_f128_bytes (f128_bytes_to_x87_bytes bytes))"

definition f64_to_f128_bytes_lossless :: "f64 \<Rightarrow> u8 list" where
  "f64_to_f128_bytes_lossless val =
     (let d = f64_decompose val
      in if f64_is_zero d then make_f128_zero (f64_sign d)
         else if f64_is_special d then
           (if f64_is_inf d then make_f128_infinity (f64_sign d) else make_f128_nan (f64_sign d))
         else let (negative, significand53, exp_of_bit52) = f64_normalize_significand val
              in encode_f128 negative exp_of_bit52 (push_bit 60 (ucast significand53)))"

definition f64_to_x87_bytes_simple :: "f64 \<Rightarrow> u8 list" where
  "f64_to_x87_bytes_simple val =
     (let d = f64_decompose val
      in if f64_is_zero d then make_x87_zero (f64_sign d)
         else if f64_is_special d then
           (if f64_is_inf d then make_x87_infinity (f64_sign d) else make_x87_nan (f64_sign d))
         else let (negative, significand53, exp_of_bit52) = f64_normalize_significand val
              in x87_encode negative (word_of_int (exp_of_bit52 + 16383)) (push_bit 11 significand53))"

subsection \<open>Conversions from and to integers\<close>

definition u64_to_f128_bytes_with_sign :: "u64 \<Rightarrow> bool \<Rightarrow> u8 list" where
  "u64_to_f128_bytes_with_sign val negative =
     (if val = 0 then make_f128_zero negative
      else let bl = 64 - leading_zeros val
           in encode_f128 negative (int bl - 1) (push_bit (113 - bl) (ucast val)))"

definition i64_to_f128_bytes :: "i64 \<Rightarrow> u8 list" where
  "i64_to_f128_bytes val =
     (if val = 0 then make_f128_zero False
      else let negative = sint val < 0;
               abs_val = (if val = 0x8000000000000000 then push_bit 63 1
                          else if negative then - val else val)
           in u64_to_f128_bytes_with_sign abs_val negative)"

definition u64_to_f128_bytes :: "u64 \<Rightarrow> u8 list" where
  "u64_to_f128_bytes val =
     (if val = 0 then make_f128_zero False else u64_to_f128_bytes_with_sign val False)"

definition u128_to_f128_bytes :: "u128 \<Rightarrow> u8 list" where
  "u128_to_f128_bytes val =
     (if val = 0 then make_f128_zero False
      else if val \<le> 0xFFFFFFFFFFFFFFFF then u64_to_f128_bytes (ucast val)
      else let bl = 128 - leading_zeros val;
               mantissa113 = (if bl > 113 then drop_bit (bl - 113) val
                              else if bl < 113 then push_bit (113 - bl) val else val)
           in encode_f128 False (int bl - 1) mantissa113)"

definition i128_to_f128_bytes :: "i128 \<Rightarrow> u8 list" where
  "i128_to_f128_bytes val =
     (if val = 0 then make_f128_zero False
      else let negative = sint val < 0;
               abs_val = (if val = push_bit 127 1 then push_bit 127 1
                          else if negative then - val else val)
           in if abs_val \<le> 0xFFFFFFFFFFFFFFFF
              then u64_to_f128_bytes_with_sign (ucast abs_val) negative
              else let bl = 128 - leading_zeros abs_val;
                       mantissa113 = (if bl > 113 then drop_bit (bl - 113) abs_val
                                      else if bl < 113 then push_bit (113 - bl) abs_val else abs_val)
                   in encode_f128 negative (int bl - 1) mantissa113)"

definition f128_to_abs_uint :: "u8 list \<Rightarrow> nat \<Rightarrow> (bool \<times> u128) option" where
  "f128_to_abs_uint bytes max_bits =
     (let (sign, biased_exp, mantissa) = f128_decompose bytes
      in if biased_exp = 0 \<and> mantissa = 0 then Some (sign, 0)
         else if biased_exp = 0x7FFF then None
         else let shift = biased_exp - 16383 - 112
              in if shift \<ge> 0
                 then (if nat shift \<ge> max_bits then None
                       else let abs_val = push_bit (nat shift) mantissa
                            in if max_bits < 128 \<and> drop_bit max_bits abs_val \<noteq> 0 then None
                               else Some (sign, abs_val))
                 else let rshift = nat (- shift)
                      in if rshift \<ge> 128 then Some (sign, 0) else Some (sign, drop_bit rshift mantissa))"

definition f128_bytes_to_i64 :: "u8 list \<Rightarrow> i64 option" where
  "f128_bytes_to_i64 bytes =
     (case f128_to_abs_uint bytes 64 of
        None \<Rightarrow> None
      | Some (sign, abs_val) \<Rightarrow>
          if sign then (if abs_val > 0x8000000000000000 then None else Some (- ucast abs_val))
          else (if abs_val > 0x7FFFFFFFFFFFFFFF then None else Some (ucast abs_val)))"

definition f128_bytes_to_u64 :: "u8 list \<Rightarrow> u64 option" where
  "f128_bytes_to_u64 bytes =
     (case f128_to_abs_uint bytes 64 of
        None \<Rightarrow> None
      | Some (sign, abs_val) \<Rightarrow> if sign then f128_bytes_to_i64 bytes else Some (ucast abs_val))"

definition f128_bytes_to_i128 :: "u8 list \<Rightarrow> i128 option" where
  "f128_bytes_to_i128 bytes =
     (case f128_to_abs_uint bytes 128 of
        None \<Rightarrow> None
      | Some (sign, abs_val) \<Rightarrow>
          if sign then (if abs_val > 0x80000000000000000000000000000000 then None else Some (- abs_val))
          else (if abs_val > 0x7FFFFFFFFFFFFFFFFFFFFFFFFFFFFFFF then None else Some abs_val))"

definition f128_bytes_to_u128 :: "u8 list \<Rightarrow> u128 option" where
  "f128_bytes_to_u128 bytes =
     (case f128_to_abs_uint bytes 128 of
        None \<Rightarrow> None
      | Some (sign, abs_val) \<Rightarrow> if sign then f128_bytes_to_i128 bytes else Some abs_val)"

subsection \<open>Predicates and comparison\<close>

definition f128_is_zero :: "u8 list \<Rightarrow> bool" where
  "f128_is_zero bytes \<longleftrightarrow> (from_le_bytes bytes :: u128) AND NOT (push_bit 127 1) = 0"

definition f128_is_inf :: "u8 list \<Rightarrow> bool" where
  "f128_is_inf bytes \<longleftrightarrow>
     (let val = from_le_bytes bytes :: u128
      in drop_bit 112 val AND 0x7FFF = 0x7FFF \<and> val AND (push_bit 112 1 - 1) = 0)"

definition f128_is_nan :: "u8 list \<Rightarrow> bool" where
  "f128_is_nan bytes \<longleftrightarrow>
     (let val = from_le_bytes bytes :: u128
      in drop_bit 112 val AND 0x7FFF = 0x7FFF \<and> val AND (push_bit 112 1 - 1) \<noteq> 0)"

definition i32_min :: int where
  "i32_min = - (2 ^ 31)"

definition f128_cmp :: "u8 list \<Rightarrow> u8 list \<Rightarrow> int" where
  "f128_cmp a b =
     (if f128_is_nan a \<or> f128_is_nan b then i32_min
      else let a_val = from_le_bytes a :: u128;
               b_val = from_le_bytes b :: u128;
               a_sign = drop_bit 127 a_val \<noteq> 0;
               b_sign = drop_bit 127 b_val \<noteq> 0;
               a_mag = a_val AND NOT (push_bit 127 1);
               b_mag = b_val AND NOT (push_bit 127 1)
           in if a_mag = 0 \<and> b_mag = 0 then 0
              else if a_sign \<noteq> b_sign then (if a_sign then -1 else 1)
              else let cmp = (if a_mag < b_mag then -1 else if a_mag > b_mag then 1 else 0)
                   in if a_sign then - cmp else cmp)"

definition x87_neg :: "u8 list \<Rightarrow> u8 list" where
  "x87_neg a = a[9 := (a ! 9) XOR 0x80]"

subsection \<open>What the encodings denote\<close>

text \<open>
  A datum is a NaN, a signed infinity or a signed finite magnitude. The reading of an encoding with
  \<open>t\<close> stored fraction bits follows the standard: an all-ones exponent is special, a zero exponent is
  subnormal and scaled like the least normal exponent, any other carries the hidden bit. The x87 format
  stores its integer bit; an encoding whose exponent is not zero and whose integer bit is clear is no
  number.
\<close>

datatype fp = FpNan | FpInf bool | FpFin bool real

definition ieee_class :: "nat \<Rightarrow> nat \<Rightarrow> int \<Rightarrow> bool \<Rightarrow> nat \<Rightarrow> nat \<Rightarrow> fp" where
  "ieee_class t w bias sign ex fr =
     (if ex = 2 ^ w - 1 then (if fr = 0 then FpInf sign else FpNan)
      else if ex = 0 then FpFin sign (real fr * 2 powi (1 - bias - int t))
      else FpFin sign (real (2 ^ t + fr) * 2 powi (int ex - bias - int t)))"

definition f64_class :: "f64 \<Rightarrow> fp" where
  "f64_class x = ieee_class 52 11 1023 (bit x 63) (unat (take_bit 11 (drop_bit 52 x))) (unat (take_bit 52 x))"

definition f128_class :: "u8 list \<Rightarrow> fp" where
  "f128_class bytes =
     (let w = from_le_bytes bytes :: u128
      in ieee_class 112 15 16383 (bit w 127) (unat (take_bit 15 (drop_bit 112 w))) (unat (take_bit 112 w)))"

definition x87_class :: "u8 list \<Rightarrow> fp" where
  "x87_class bytes =
     (let w = from_le_bytes (take 10 bytes) :: u128;
          sign = bit w 79; ex = unat (take_bit 15 (drop_bit 64 w)); m = unat (take_bit 64 w)
      in if ex = 2 ^ 15 - 1 then (if m = 2 ^ 63 then FpInf sign else FpNan)
         else if ex = 0 then FpFin sign (real m * 2 powi (-16445))
         else if m < 2 ^ 63 then FpNan
         else FpFin sign (real m * 2 powi (int ex - 16446)))"

text \<open>
  A canonical encoding has its integer bit set exactly if its exponent is not zero, so that it is no pseudo-denormal, unnormal, pseudo-infinity or
  pseudo-NaN.
\<close>

definition x87_canonical :: "u8 list \<Rightarrow> bool" where
  "x87_canonical bytes \<longleftrightarrow>
     (let w = from_le_bytes (take 10 bytes) :: u128
      in (unat (take_bit 15 (drop_bit 64 w)) = 0 \<longleftrightarrow> unat (take_bit 64 w) < 2 ^ 63))"

text \<open>
  Correct rounding. \<open>rne\<close> rounds a real to the nearest integer, ties to even; a positive magnitude is
  rounded to a multiple of the quantum of a format with precision \<open>p\<close> and exponent range \<open>emin\<close> to
  \<open>emax\<close>, and overflows when the result reaches \<open>2 powi (emax + 1)\<close>.
\<close>

definition rne :: "real \<Rightarrow> int" where
  "rne x =
     (if x - of_int \<lfloor>x\<rfloor> > 1 / 2 \<or> (x - of_int \<lfloor>x\<rfloor> = 1 / 2 \<and> odd \<lfloor>x\<rfloor>) then \<lfloor>x\<rfloor> + 1 else \<lfloor>x\<rfloor>)"

definition quantum :: "nat \<Rightarrow> int \<Rightarrow> real \<Rightarrow> int" where
  "quantum p emin x = max \<lfloor>log 2 x\<rfloor> emin - (int p - 1)"

definition round_to_format :: "nat \<Rightarrow> int \<Rightarrow> int \<Rightarrow> bool \<Rightarrow> real \<Rightarrow> fp" where
  "round_to_format p emin emax sign x =
     (let y = of_int (rne (x / 2 powi quantum p emin x)) * 2 powi quantum p emin x
      in if y \<ge> 2 powi (emax + 1) then FpInf sign else FpFin sign y)"

subsection \<open>Fields of words\<close>

lemma and_masks:
  fixes x :: u128 and y :: u64 and z :: u16
  shows "x AND (push_bit 112 1 - 1) = take_bit 112 x" "x AND 0x7FFF = take_bit 15 x"
    "x AND (push_bit 52 1 - 1) = take_bit 52 x"
    "y AND 0x7FF = take_bit 11 y" "y AND 0x000FFFFFFFFFFFFF = take_bit 52 y"
    "y AND 0x7FFFFFFFFFFFFFFF = take_bit 63 y"
    "z AND 0x7FFF = take_bit 15 z" "z AND 0xFF = take_bit 8 z"
  by (simp_all add: take_bit_eq_mask mask_eq_exp_minus_1)

lemma bit_sign_bit:
  "bit ((if s then push_bit n 1 else 0) :: 'a::len word) i \<longleftrightarrow> s \<and> i = n \<and> n < LENGTH('a)"
  by (auto simp: bit_push_bit_iff bit_1_iff simp del: push_bit_of_1)

lemma bit_below: "bit w i \<Longrightarrow> unat w < 2 ^ n \<Longrightarrow> i < n" for w :: "'a::len word"
  by (metis bit_take_bit_iff take_bit_nat_eq_self unsigned_take_bit_eq word_unat_eq_iff)

lemma word_fields:
  fixes E F :: "'a::len word" and s :: bool
  assumes E: "unat E < 2 ^ w" and F: "unat F < 2 ^ t" and n: "n = t + w" "n < LENGTH('a)"
  shows "bit ((if s then push_bit n 1 else 0) OR push_bit t E OR F) n = s"
    "take_bit w (drop_bit t ((if s then push_bit n 1 else 0) OR push_bit t E OR F)) = E"
    "take_bit t ((if s then push_bit n 1 else 0) OR push_bit t E OR F) = F"
proof -
  note E' = bit_below [OF _ E] and F' = bit_below [OF _ F]
  have b: "bit ((if s then push_bit n 1 else 0) OR push_bit t E OR F) i \<longleftrightarrow>
      s \<and> i = n \<or> t \<le> i \<and> bit E (i - t) \<or> bit F i" for i
    using n E' [of "i - t"] by (auto simp: bit_or_iff bit_push_bit_iff bit_sign_bit)
  show "bit ((if s then push_bit n 1 else 0) OR push_bit t E OR F) n = s"
    unfolding b using E' [of w] F' [of n] n by auto
  show "take_bit w (drop_bit t ((if s then push_bit n 1 else 0) OR push_bit t E OR F)) = E"
    by (rule bit_word_eqI, unfold bit_take_bit_iff bit_drop_bit_eq comp_def b) (use E' F' n in auto)
  show "take_bit t ((if s then push_bit n 1 else 0) OR push_bit t E OR F) = F"
    by (rule bit_word_eqI, unfold bit_take_bit_iff b) (use F' n in auto)
qed

lemma from_to_le_bytes_16: "from_le_bytes (to_le_bytes 16 (w :: u128)) = w"
  by (simp add: from_to_le_bytes take_bit_word_eq_self)

lemma f128_class_fields:
  fixes E F :: u128
  assumes "unat E < 2 ^ 15" "unat F < 2 ^ 112"
  shows "f128_class (to_le_bytes 16 ((if s then push_bit 127 1 else 0) OR push_bit 112 E OR F)) =
    ieee_class 112 15 16383 s (unat E) (unat F)"
proof -
  have n: "127 = 112 + (15::nat)" "127 < LENGTH(128)" by simp_all
  show ?thesis
    unfolding f128_class_def Let_def from_to_le_bytes_16 word_fields [OF assms n] ..
qed

lemma f64_class_fields:
  fixes E F :: u64
  assumes "unat E < 2 ^ 11" "unat F < 2 ^ 52"
  shows "f64_class ((if s then push_bit 63 1 else 0) OR push_bit 52 E OR F) =
    ieee_class 52 11 1023 s (unat E) (unat F)"
proof -
  have n: "63 = 52 + (11::nat)" "63 < LENGTH(64)" by simp_all
  show ?thesis
    unfolding f64_class_def word_fields [OF assms n] ..
qed

lemma leading_zeros_msb:
  fixes w :: "'a::len word"
  assumes "w \<noteq> 0"
  shows "leading_zeros w < LENGTH('a)" "bit w (LENGTH('a) - 1 - leading_zeros w)"
    "\<And>i. LENGTH('a) - 1 - leading_zeros w < i \<Longrightarrow> \<not> bit w i"
proof -
  let ?xs = "rev [0..<LENGTH('a)]"
  let ?tw = "takeWhile (\<lambda>i. \<not> bit w i) ?xs"
  obtain j where j: "bit w j" "j < LENGTH('a)"
    using assms bit_imp_le_length by (auto simp: bit_nonzero_word)
  have "length ?tw < length ?xs"
  proof (rule ccontr)
    assume "\<not> length ?tw < length ?xs"
    then have "?tw = ?xs"
      by (metis length_takeWhile_le not_less le_antisym take_all takeWhile_eq_take)
    then show False
      using j by (auto simp: takeWhile_eq_all_conv)
  qed
  then have lt: "leading_zeros w < LENGTH('a)"
    by (simp add: leading_zeros_def)
  then show "leading_zeros w < LENGTH('a)" .
  have "bit w (?xs ! leading_zeros w)"
    using nth_length_takeWhile [of "\<lambda>i. \<not> bit w i" ?xs] \<open>length ?tw < length ?xs\<close>
    by (simp add: leading_zeros_def)
  then show "bit w (LENGTH('a) - 1 - leading_zeros w)"
    using lt by (simp add: rev_nth)
  fix i assume i: "LENGTH('a) - 1 - leading_zeros w < i"
  show "\<not> bit w i"
  proof (cases "i < LENGTH('a)")
    case True
    with i have k: "LENGTH('a) - 1 - i < leading_zeros w" by linarith
    then have "?tw ! (LENGTH('a) - 1 - i) \<in> set ?tw"
      by (intro nth_mem) (simp add: leading_zeros_def)
    moreover have "?tw ! (LENGTH('a) - 1 - i) = i"
      using k True by (subst takeWhile_nth) (auto simp: leading_zeros_def rev_nth)
    ultimately show ?thesis
      by (auto dest: set_takeWhileD)
  next
    case False
    then show ?thesis
      using bit_imp_le_length by auto
  qed
qed

lemma leading_zeros_bounds:
  fixes w :: "'a::len word"
  assumes "w \<noteq> 0"
  shows "2 ^ (LENGTH('a) - 1 - leading_zeros w) \<le> unat w" "unat w < 2 ^ (LENGTH('a) - leading_zeros w)"
proof -
  note lz = leading_zeros_msb [OF assms]
  have "drop_bit (LENGTH('a) - 1 - leading_zeros w) w \<noteq> 0"
    using lz(2) by (auto simp: bit_nonzero_word bit_simps intro: exI [of _ 0])
  then show "2 ^ (LENGTH('a) - 1 - leading_zeros w) \<le> unat w"
    by (simp add: drop_bit_eq_0_iff_unat not_less)
  have "drop_bit (LENGTH('a) - leading_zeros w) w = 0"
    using lz(1,3) by (intro bit_word_eqI) (simp add: bit_simps)
  then show "unat w < 2 ^ (LENGTH('a) - leading_zeros w)"
    by (simp add: drop_bit_eq_0_iff_unat)
qed

lemma normalized_significand:
  fixes w :: "'a::len word"
  assumes "w \<noteq> 0"
  shows "unat (push_bit (leading_zeros w) w) = unat w * 2 ^ leading_zeros w"
    "2 ^ (LENGTH('a) - 1) \<le> unat w * 2 ^ leading_zeros w"
    "unat w * 2 ^ leading_zeros w < 2 ^ LENGTH('a)"
proof -
  note b = leading_zeros_bounds [OF assms] and lz = leading_zeros_msb(1) [OF assms]
  have "unat w * 2 ^ leading_zeros w < 2 ^ (LENGTH('a) - leading_zeros w) * 2 ^ leading_zeros w"
    using b(2) by simp
  also have "\<dots> = 2 ^ LENGTH('a)"
    using lz by (simp flip: power_add)
  finally show ub: "unat w * 2 ^ leading_zeros w < 2 ^ LENGTH('a)" .
  show "unat (push_bit (leading_zeros w) w) = unat w * 2 ^ leading_zeros w"
    by (rule unat_push_bit_exact [OF ub])
  have "(2::nat) ^ (LENGTH('a) - 1) = 2 ^ (LENGTH('a) - 1 - leading_zeros w) * 2 ^ leading_zeros w"
    using lz by (simp flip: power_add)
  also have "\<dots> \<le> unat w * 2 ^ leading_zeros w"
    using b(1) by (rule mult_right_mono) simp
  finally show "2 ^ (LENGTH('a) - 1) \<le> unat w * 2 ^ leading_zeros w" .
qed

subsection \<open>Exact encoding\<close>

lemma unat_word_of_int_exact: "0 \<le> k \<Longrightarrow> k < 2 ^ LENGTH('a) \<Longrightarrow> unat (word_of_int k :: 'a::len word) = nat k"
  by (simp add: unsigned_of_int take_bit_int_eq_self)

lemma unat_take_bit_hidden:
  "unat (take_bit n w) = unat w - 2 ^ n" if "2 ^ n \<le> unat w" "unat w < 2 ^ Suc n" for w :: "'a::len word"
  using that by (simp add: unsigned_take_bit_eq take_bit_eq_mod [of n "unat w"] mod_if)

lemma unat_hidden_bit:
  fixes w :: "'a::len word"
  assumes "n < LENGTH('a)"
  shows "unat (push_bit n 1 OR take_bit n w) = 2 ^ n + unat (take_bit n w)"
proof -
  have "push_bit n 1 OR take_bit n w = push_bit n 1 + take_bit n w"
    by (rule disjunctive_add_eq_or [symmetric], rule bit_word_eqI)
      (auto simp: bit_and_iff bit_push_bit_iff bit_1_iff bit_take_bit_iff simp del: push_bit_of_1)
  moreover have "unat (take_bit n w) < 2 ^ n"
    by (rule unat_take_bit_less)
  moreover have "(2::nat) ^ n + 2 ^ n \<le> 2 ^ LENGTH('a)"
    using assms power_increasing [of "Suc n" "LENGTH('a)" "2::nat"] by simp
  moreover have "unat (push_bit n 1 :: 'a word) = 2 ^ n"
    using assms by (subst unat_push_bit_exact) simp_all
  ultimately show ?thesis
    using unat_add_lem [of "push_bit n 1" "take_bit n w"] by (metis add_less_cancel_left order_less_le_trans)
qed

lemma encode_f128_class:
  assumes m: "2 ^ 112 \<le> unat m" "unat m < 2 ^ 113" and b: "-16383 < b" "b < 16384"
  shows "f128_class (encode_f128 s b m) = FpFin s (real (unat m) * 2 powi (b - 112))"
proof -
  have nz: "m \<noteq> 0" using m(1) by auto
  define E :: u128 where "E = word_of_int (b + 16383)"
  have e: "unat E = nat (b + 16383)"
    unfolding E_def using b by (intro unat_word_of_int_exact) auto
  have f: "unat (take_bit 112 m) = unat m - 2 ^ 112"
    using m by (intro unat_take_bit_hidden) auto
  have "encode_f128 s b m =
      to_le_bytes 16 ((if s then push_bit 127 1 else 0) OR push_bit 112 E OR take_bit 112 m)"
    using nz b by (simp add: encode_f128_def Let_def E_def and_masks del: push_bit_of_1 push_bit_numeral_minus_1)
  also have "f128_class \<dots> = ieee_class 112 15 16383 s (nat (b + 16383)) (unat m - 2 ^ 112)"
    using b m by (subst f128_class_fields) (simp_all add: e f)
  also have "\<dots> = FpFin s (real (unat m) * 2 powi (b - 112))"
    using b m by (simp add: ieee_class_def nat_eq_iff of_nat_diff)
  finally show ?thesis .
qed

lemma make_f128_class:
  "f128_class (make_f128_zero s) = FpFin s 0" "f128_class (make_f128_infinity s) = FpInf s"
  "f128_class (make_f128_nan s) = FpNan"
proof -
  have raw: "f128_class (make_f128_raw s e m) = ieee_class 112 15 16383 s (unat e) (unat m)"
    if "unat e < 2 ^ 15" "unat m < 2 ^ 112" for e m
    unfolding make_f128_raw_def Let_def using that
    by (subst f128_class_fields) (simp_all add: unat_ucast_up)
  show "f128_class (make_f128_zero s) = FpFin s 0" "f128_class (make_f128_infinity s) = FpInf s"
    "f128_class (make_f128_nan s) = FpNan"
    unfolding make_f128_zero_def make_f128_infinity_def make_f128_nan_def
    by (subst raw; simp add: ieee_class_def)+
qed

subsection \<open>The fields of a double\<close>

lemma f64_decompose_fields:
  "f64_sign (f64_decompose v) = bit v 63"
  "unat (f64_biased_exp (f64_decompose v)) = unat (take_bit 11 (drop_bit 52 v))"
  "f64_mantissa (f64_decompose v) = take_bit 52 v"
proof -
  have "drop_bit 63 v AND 1 = 1 \<longleftrightarrow> bit v 63"
    using drop_bit_and_1 [of 63 v] by simp
  then show "f64_sign (f64_decompose v) = bit v 63"
    by (simp add: f64_decompose_def)
  have "unat (take_bit 11 (drop_bit 52 v)) < 2 ^ 16"
    using unat_take_bit_less [of 11 "drop_bit 52 v"] by simp
  then show "unat (f64_biased_exp (f64_decompose v)) = unat (take_bit 11 (drop_bit 52 v))"
    by (simp add: f64_decompose_def and_masks unsigned_ucast_eq take_bit_nat_eq_self)
  show "f64_mantissa (f64_decompose v) = take_bit 52 v"
    by (simp add: f64_decompose_def and_masks)
qed

lemma f64_decompose_tests:
  fixes v :: f64
  defines "d \<equiv> f64_decompose v" and "ex \<equiv> unat (take_bit 11 (drop_bit 52 v))" and "fr \<equiv> unat (take_bit 52 v)"
  shows "f64_biased_exp d = 0 \<longleftrightarrow> ex = 0" "f64_is_zero d \<longleftrightarrow> ex = 0 \<and> fr = 0"
    "f64_is_special d \<longleftrightarrow> ex = 0x7FF" "f64_is_inf d \<longleftrightarrow> ex = 0x7FF \<and> fr = 0"
proof -
  have e: "f64_biased_exp d = w \<longleftrightarrow> ex = unat w" for w
    using f64_decompose_fields(2) [of v] by (simp add: word_unat_eq_iff d_def ex_def)
  have m: "f64_mantissa d = 0 \<longleftrightarrow> fr = 0"
    by (simp add: d_def fr_def f64_decompose_fields(3) unat_eq_zero)
  show "f64_biased_exp d = 0 \<longleftrightarrow> ex = 0" "f64_is_zero d \<longleftrightarrow> ex = 0 \<and> fr = 0"
    "f64_is_special d \<longleftrightarrow> ex = 0x7FF" "f64_is_inf d \<longleftrightarrow> ex = 0x7FF \<and> fr = 0"
    by (auto simp: f64_is_zero_def f64_is_special_def f64_is_inf_def e m)
qed

lemma two_powi_shift: "real a * 2 ^ k * 2 powi (e - int k) = real a * 2 powi e"
  by (simp add: power_int_diff power_int_of_nat)

text \<open>Renormalisation gives a significand with its leading bit at position 52 and the same value.\<close>

lemma f64_normalize_significand:
  fixes v :: f64
  defines "ex \<equiv> unat (take_bit 11 (drop_bit 52 v))" and "fr \<equiv> unat (take_bit 52 v)"
  assumes fin: "ex \<noteq> 0x7FF" and nz: "ex \<noteq> 0 \<or> fr \<noteq> 0"
    and n: "f64_normalize_significand v = (s, sig, e)"
  shows "s = bit v 63" "2 ^ 52 \<le> unat sig" "unat sig < 2 ^ 53" "-1075 < e" "e < 1024"
    "f64_class v = FpFin s (real (unat sig) * 2 powi (e - 52))"
proof -
  have ex: "ex < 2 ^ 11" and fr: "fr < 2 ^ 52"
    unfolding ex_def fr_def by (rule unat_take_bit_less)+
  have cls: "f64_class v = ieee_class 52 11 1023 (bit v 63) ex fr"
    by (simp add: f64_class_def ex_def fr_def)
  have *: "s = bit v 63 \<and> 2 ^ 52 \<le> unat sig \<and> unat sig < 2 ^ 53 \<and> -1075 < e \<and> e < 1024 \<and>
    f64_class v = FpFin s (real (unat sig) * 2 powi (e - 52))"
  proof (cases "ex = 0")
    case True
    define hi where "hi = 63 - leading_zeros (take_bit 52 v)"
    have nz': "take_bit 52 v \<noteq> 0"
      using nz True by (auto simp: fr_def)
    note b = leading_zeros_bounds [OF nz'] and lz = leading_zeros_msb(1) [OF nz']
    have hb: "2 ^ hi \<le> fr" "fr < 2 ^ Suc hi"
      using b lz Suc_diff_le [of "leading_zeros (take_bit 52 v)" 63] by (simp_all add: hi_def fr_def)
    have h: "hi < 52"
    proof (rule ccontr)
      assume "\<not> hi < 52"
      then have "(2::nat) ^ 52 \<le> 2 ^ hi" by (intro power_increasing) auto
      with hb(1) fr show False by linarith
    qed
    have eq: "s = bit v 63" "sig = push_bit (52 - hi) (take_bit 52 v)" "e = int hi - 1074"
      using n True f64_decompose_tests(1) [of v] f64_decompose_fields [of v]
      by (auto simp: f64_normalize_significand_def Let_def ex_def hi_def)
    have "fr * 2 ^ (52 - hi) < 2 ^ Suc hi * 2 ^ (52 - hi)"
      using hb(2) by simp
    also have "\<dots> = 2 ^ 53"
      using h by (simp flip: power_add add: Suc_diff_le)
    finally have ub: "fr * 2 ^ (52 - hi) < 2 ^ 53" .
    have sig: "unat sig = fr * 2 ^ (52 - hi)"
      unfolding eq(2) fr_def using ub by (intro unat_push_bit_exact) (simp add: fr_def)
    have "(2::nat) ^ 52 = 2 ^ hi * 2 ^ (52 - hi)"
      using h by (simp flip: power_add)
    also have "\<dots> \<le> fr * 2 ^ (52 - hi)"
      using hb(1) by (rule mult_right_mono) simp
    finally have lb: "2 ^ 52 \<le> unat sig" by (simp add: sig)
    have "real (unat sig) * 2 powi (e - 52) = real fr * 2 ^ (52 - hi) * 2 powi (- 1074 - int (52 - hi))"
      using h by (simp add: sig eq(3) of_nat_diff algebra_simps)
    also have "\<dots> = real fr * 2 powi (- 1074)"
      by (rule two_powi_shift)
    finally have "f64_class v = FpFin (bit v 63) (real (unat sig) * 2 powi (e - 52))"
      using True by (simp add: cls ieee_class_def)
    then show ?thesis
      using h lb ub eq(1,3) unfolding sig by (intro conjI) simp_all
  next
    case False
    have eq: "s = bit v 63" "sig = push_bit 52 1 OR take_bit 52 v" "e = int ex - 1023"
      using n False f64_decompose_tests(1) [of v] f64_decompose_fields [of v] uint_nat [of "f64_biased_exp (f64_decompose v)"]
      by (auto simp: f64_normalize_significand_def Let_def ex_def simp del: push_bit_of_1 uint_nat)
    have sig: "unat sig = 2 ^ 52 + fr"
      unfolding eq(2) fr_def by (rule unat_hidden_bit) simp
    show ?thesis
      using False fin ex fr eq(1,3) by (simp add: cls ieee_class_def sig)
  qed
  then show "s = bit v 63" "2 ^ 52 \<le> unat sig" "unat sig < 2 ^ 53" "-1075 < e" "e < 1024"
    "f64_class v = FpFin s (real (unat sig) * 2 powi (e - 52))"
    by auto
qed

subsection \<open>Widening conversions\<close>

lemma unat_widen_128:
  fixes m :: u64
  assumes "unat m < 2 ^ a" "a + k \<le> 128"
  shows "unat (push_bit k (ucast m :: u128)) = unat m * 2 ^ k"
proof -
  have "unat m * 2 ^ k < 2 ^ a * 2 ^ k"
    using assms(1) by simp
  also have "\<dots> \<le> 2 ^ 128"
    using assms(2) power_increasing [of "a + k" 128 "2::nat"] by (simp add: power_add)
  finally show ?thesis
    by (subst unat_push_bit_exact) (simp_all add: unat_ucast_up)
qed

text \<open>
  C32: widening a double to binary128 never changes the datum: sign, infinities and NaN are kept and
  every finite value, subnormals included, is represented exactly.
\<close>

theorem f64_to_f128_bytes_lossless_exact: "f128_class (f64_to_f128_bytes_lossless v) = f64_class v"
proof -
  define ex fr where "ex = unat (take_bit 11 (drop_bit 52 v))" and "fr = unat (take_bit 52 v)"
  note t = f64_decompose_tests [of v, folded ex_def fr_def] and sg = f64_decompose_fields(1) [of v]
  have cls: "f64_class v = ieee_class 52 11 1023 (bit v 63) ex fr"
    by (simp add: f64_class_def ex_def fr_def)
  consider "ex = 0" "fr = 0" | "ex = 0x7FF" | "ex \<noteq> 0x7FF" "ex \<noteq> 0 \<or> fr \<noteq> 0" by blast
  then show ?thesis
  proof cases
    case 3
    obtain s sig e where n: "f64_normalize_significand v = (s, sig, e)"
      by (cases "f64_normalize_significand v")
    note p = f64_normalize_significand [of v s sig e, folded ex_def fr_def, OF 3 n]
    have m: "unat (push_bit 60 (ucast sig :: u128)) = unat sig * 2 ^ 60"
      using p(3) by (intro unat_widen_128 [of _ 53]) auto
    have "f64_to_f128_bytes_lossless v = encode_f128 s e (push_bit 60 (ucast sig))"
      using 3 n by (auto simp: f64_to_f128_bytes_lossless_def Let_def t)
    also have "f128_class \<dots> = FpFin s (real (unat sig * 2 ^ 60) * 2 powi (e - 112))"
      using p(2-5) by (subst encode_f128_class) (simp_all add: m)
    also have "\<dots> = f64_class v"
      using two_powi_shift [of "unat sig" 60 "e - 52"] by (simp add: p(6))
    finally show ?thesis .
  qed (simp_all add: f64_to_f128_bytes_lossless_def Let_def t sg make_f128_class cls ieee_class_def)
qed

subsection \<open>Integers as binary128\<close>

lemma u64_with_sign_class:
  assumes "val \<noteq> 0"
  shows "f128_class (u64_to_f128_bytes_with_sign val s) = FpFin s (real (unat val))"
proof -
  define bl where "bl = 64 - leading_zeros val"
  note b = leading_zeros_bounds [OF assms] and lz = leading_zeros_msb(1) [OF assms]
  have bl: "0 < bl" "bl \<le> 64" "unat val < 2 ^ bl" "2 ^ (bl - 1) \<le> unat val"
    using b lz by (auto simp: bl_def)
  define m where "m = push_bit (113 - bl) (ucast val :: u128)"
  have m: "unat m = unat val * 2 ^ (113 - bl)"
    unfolding m_def using bl by (intro unat_widen_128 [of _ bl]) auto
  have "unat val * 2 ^ (113 - bl) < 2 ^ bl * 2 ^ (113 - bl)"
    using bl(3) by simp
  then have ub: "unat val * 2 ^ (113 - bl) < 2 ^ 113"
    using bl(1,2) by (simp flip: power_add)
  have "2 ^ (bl - 1) * 2 ^ (113 - bl) \<le> unat val * 2 ^ (113 - bl)"
    using bl(4) by (rule mult_right_mono) simp
  then have lb: "2 ^ 112 \<le> unat val * 2 ^ (113 - bl)"
    using bl(1,2) by (simp flip: power_add)
  have "u64_to_f128_bytes_with_sign val s = encode_f128 s (int bl - 1) m"
    using assms by (simp add: u64_to_f128_bytes_with_sign_def Let_def bl_def m_def)
  also have "f128_class \<dots> = FpFin s (real (unat val * 2 ^ (113 - bl)) * 2 powi (int bl - 1 - 112))"
    using bl(1,2) lb ub by (subst encode_f128_class) (simp_all add: m)
  also have "\<dots> = FpFin s (real (unat val))"
    using two_powi_shift [of "unat val" "113 - bl" 0] bl(1,2) by (simp add: of_nat_diff)
  finally show ?thesis .
qed

lemma i64_magnitude:
  fixes val :: i64
  assumes "val \<noteq> 0"
  defines "a \<equiv> (if val = 0x8000000000000000 then push_bit 63 1 else if sint val < 0 then - val else val)"
  shows "int (unat a) = \<bar>sint val\<bar>" "a \<noteq> 0"
proof -
  show *: "int (unat a) = \<bar>sint val\<bar>"
  proof (cases "val = 0x8000000000000000")
    case False
    have r: "- (2 ^ 63) \<le> sint val" "sint val < 2 ^ 63"
      using sint_range_size [of val] by (auto simp: word_size)
    have "a = word_of_int \<bar>sint val\<bar>"
      using False by (simp add: a_def abs_if)
    moreover have "unat (word_of_int \<bar>sint val\<bar> :: i64) = nat \<bar>sint val\<bar>"
      by (rule unat_word_of_int_exact) (use r in auto)
    ultimately show ?thesis
      by simp
  qed (simp add: a_def)
  show "a \<noteq> 0"
    using * assms(1) by (auto simp: signed_eq_0_iff)
qed

lemma i64_to_f128_bytes_exact:
  "f128_class (i64_to_f128_bytes val) = FpFin (sint val < 0) (real_of_int \<bar>sint val\<bar>)"
proof (cases "val = 0")
  case True
  then show ?thesis
    by (simp add: i64_to_f128_bytes_def make_f128_class)
next
  case False
  note m = i64_magnitude [OF False]
  have "real (unat a) = real_of_int \<bar>x\<bar>" if "int (unat a) = \<bar>x\<bar>" for a :: u64 and x
    by (metis of_int_of_nat_eq that)
  then show ?thesis
    using False m u64_with_sign_class [OF m(2)] by (simp add: i64_to_f128_bytes_def Let_def)
qed

subsection \<open>Rounding to nearest, ties to even\<close>

lemma floor_nat_div: "\<lfloor>real m / 2 ^ n\<rfloor> = int (m div 2 ^ n)"
  using floor_divide_of_nat_eq [of m "2 ^ n"] by simp

lemma rne_shift:
  "rne (real m / 2 ^ n) =
     int (m div 2 ^ n +
          (if 2 * (m mod 2 ^ n) > 2 ^ n \<or> 2 * (m mod 2 ^ n) = 2 ^ n \<and> odd (m div 2 ^ n) then 1 else 0))"
proof -
  have "real m = real (m div 2 ^ n * 2 ^ n + m mod 2 ^ n)"
    by (simp only: div_mult_mod_eq)
  then have "real m = real (m div 2 ^ n) * 2 ^ n + real (m mod 2 ^ n)"
    by (simp only: of_nat_add of_nat_mult of_nat_power of_nat_numeral)
  then have "real m / 2 ^ n - real (m div 2 ^ n) = real (m mod 2 ^ n) / 2 ^ n"
    by (simp add: field_simps)
  moreover have "real r / 2 ^ n > 1 / 2 \<longleftrightarrow> 2 * r > 2 ^ n" "real r / 2 ^ n = 1 / 2 \<longleftrightarrow> 2 * r = 2 ^ n" for r
  proof -
    have "real r / 2 ^ n > 1 / 2 \<longleftrightarrow> 2 * real r > 2 ^ n" "real r / 2 ^ n = 1 / 2 \<longleftrightarrow> 2 * real r = 2 ^ n"
      by (auto simp: field_simps)
    then show "real r / 2 ^ n > 1 / 2 \<longleftrightarrow> 2 * r > 2 ^ n" "real r / 2 ^ n = 1 / 2 \<longleftrightarrow> 2 * r = 2 ^ n"
      by (metis of_nat_less_iff of_nat_mult of_nat_numeral of_nat_power,
        metis of_nat_eq_iff of_nat_mult of_nat_numeral of_nat_power)
  qed
  ultimately show ?thesis
    by (simp add: rne_def floor_nat_div)
qed

text \<open>The guard bit and the sticky bits decide the position of the remainder relative to one half.\<close>

lemma guard_sticky:
  fixes m k :: nat
  defines "g \<equiv> odd (m div 2 ^ k)" and "s \<equiv> m mod 2 ^ k \<noteq> 0"
  shows "2 * (m mod 2 ^ Suc k) > 2 ^ Suc k \<longleftrightarrow> g \<and> s" "2 * (m mod 2 ^ Suc k) = 2 ^ Suc k \<longleftrightarrow> g \<and> \<not> s"
proof -
  have half: "2 * (P * b + r) > 2 * P \<longleftrightarrow> b = 1 \<and> r \<noteq> 0" "2 * (P * b + r) = 2 * P \<longleftrightarrow> b = 1 \<and> r = 0"
    if "r < P" "b = 0 \<or> b = 1" for P b r :: nat
    using that by auto
  have r: "m mod 2 ^ Suc k = 2 ^ k * (m div 2 ^ k mod 2) + m mod 2 ^ k"
    by (metis mod_mult2_eq power_Suc2)
  have "m mod 2 ^ k < 2 ^ k" "m div 2 ^ k mod 2 = 0 \<or> m div 2 ^ k mod 2 = 1"
    by auto
  from half [OF this]
  show "2 * (m mod 2 ^ Suc k) > 2 ^ Suc k \<longleftrightarrow> g \<and> s" "2 * (m mod 2 ^ Suc k) = 2 ^ Suc k \<longleftrightarrow> g \<and> \<not> s"
    unfolding r unfolding power_Suc g_def s_def odd_iff_mod_2_eq_one not_not by blast+
qed

lemma round_shift_half_even_rne:
  assumes "round_shift_half_even m sh = (t, up)" "0 < sh" "sh \<le> 128"
  shows "int (unat t + (if up then 1 else 0)) = rne (real (unat m) / 2 ^ nat sh)"
    "unat t < 2 ^ 127"
proof -
  obtain k where "nat sh = Suc k"
    using assms(2) by (cases "nat sh") auto
  then have k: "nat sh = Suc k" "k \<le> 127" "sh = int (Suc k)"
    using assms(2,3) by linarith+
  note gs = guard_sticky [where m = "unat m" and k = k]
  show "int (unat t + (if up then 1 else 0)) = rne (real (unat m) / 2 ^ nat sh)"
  proof (cases "k = 127")
    case True
    have lt: "unat m < 2 ^ 128" using unsigned_less [of m, where ?'a = nat] by simp
    have "t = 0" "up \<longleftrightarrow> m > push_bit 127 1"
      using assms(1) k True by (auto simp: round_shift_half_even_def simp del: push_bit_of_1)
    moreover have "m > push_bit 127 1 \<longleftrightarrow> unat m > 2 ^ 127"
      by (simp add: word_less_nat_alt)
    ultimately show ?thesis
      unfolding rne_shift k(1) using lt True by simp
  next
    case False
    then have k': "k < 127" using k by simp
    have r: "t = drop_bit (Suc k) m"
      "up \<longleftrightarrow> drop_bit k m AND 1 = 1 \<and> (m AND (push_bit k 1 - 1) \<noteq> 0 \<or> drop_bit (Suc k) m AND 1 = 1)"
      using assms(1) k k' by (auto simp: round_shift_half_even_def Let_def simp del: push_bit_of_1)
    have b: "drop_bit n m AND 1 = 1 \<longleftrightarrow> odd (unat m div 2 ^ n)" for n
    proof -
      have "odd (unat m div 2 ^ n) \<longleftrightarrow> odd (drop_bit n m)"
        by (simp only: even_unat_iff bit_0 not_not flip: unat_drop_bit_div)
      then show ?thesis
        by (simp only: drop_bit_and_1 bit_iff_odd_drop_bit [of m]) simp
    qed
    have "m AND (push_bit k 1 - 1) = take_bit k m"
      by (simp add: take_bit_eq_mask mask_eq_exp_minus_1)
    then have s: "m AND (push_bit k 1 - 1) \<noteq> 0 \<longleftrightarrow> unat m mod 2 ^ k \<noteq> 0"
      by (metis unat_eq_zero unat_take_bit_mod)
    have "up \<longleftrightarrow> 2 * (unat m mod 2 ^ Suc k) > 2 ^ Suc k \<or>
        2 * (unat m mod 2 ^ Suc k) = 2 ^ Suc k \<and> odd (unat m div 2 ^ Suc k)"
      using gs(2) unfolding gs(1) r b s by blast
    then show ?thesis
      unfolding rne_shift k(1) r(1) unat_drop_bit_div by simp
  qed
  show "unat t < 2 ^ 127"
  proof (cases "k = 127")
    case True
    then show ?thesis using assms(1) k by (auto simp: round_shift_half_even_def simp del: push_bit_of_1)
  next
    case False
    then have "unat t = unat m div 2 ^ Suc k"
      using assms(1) k by (auto simp: round_shift_half_even_def Let_def unat_drop_bit_div simp del: push_bit_of_1)
    also have "\<dots> \<le> unat m div 2"
      by (simp add: div_le_mono2)
    also have "\<dots> < 2 ^ 127"
      using unsigned_less [of m, where ?'a = nat] by simp
    finally show ?thesis .
  qed
qed

text \<open>
  The contract of a rounding kernel for one format: what the quantum is when the leading bit of the
  128-bit significand stands for \<open>2 powi E\<close>, and the integer the significand rounds to.
\<close>

lemma floor_log2_scaled:
  fixes M :: nat
  assumes "2 ^ 127 \<le> M" "M < 2 ^ 128"
  shows "\<lfloor>log 2 (real M * 2 powi (E - 127))\<rfloor> = E"
proof -
  have M: "2 ^ 127 \<le> real M" "real M < 2 ^ 128"
    using assms by (simp_all only: numeral_power_le_of_nat_cancel_iff of_nat_less_numeral_power_cancel_iff)
  have pos: "0 < real M * 2 powi (E - 127)"
    using M by simp
  have "2 powr (of_int E) \<le> real M * 2 powi (E - 127)"
  proof -
    have "2 powr (of_int E) = (2::real) ^ 127 * 2 powi (E - 127)"
      by (simp add: power_int_diff powr_real_of_int')
    also have "\<dots> \<le> real M * 2 powi (E - 127)"
      using M(1) by (rule mult_right_mono) simp
    finally show ?thesis .
  qed
  moreover have "real M * 2 powi (E - 127) < 2 powr (of_int E + 1)"
  proof -
    have "real M * 2 powi (E - 127) < 2 ^ 128 * 2 powi (E - 127)"
      using M(2) by (rule mult_strict_right_mono) simp
    also have "\<dots> = 2 powr (of_int E + 1)"
      by (simp add: power_int_diff powr_add powr_real_of_int')
    finally show ?thesis .
  qed
  ultimately show ?thesis
    using pos by (simp add: floor_eq_iff le_log_iff log_less_iff)
qed

lemma rne_ge: "of_int a \<le> x \<Longrightarrow> a \<le> rne x"
  using le_floor_iff [of a x] by (auto simp: rne_def)

lemma rne_le:
  assumes "x \<le> of_int b"
  shows "rne x \<le> b"
proof (cases "\<lfloor>x\<rfloor> = b")
  case True
  then have "x = of_int b"
    using assms of_int_floor_le [of x] by linarith
  then show ?thesis
    by (simp add: rne_def)
next
  case False
  then have "\<lfloor>x\<rfloor> + 1 \<le> b"
    using assms floor_mono [OF assms] by simp
  then show ?thesis
    by (simp add: rne_def)
qed

lemma real_nat_bounds:
  fixes M :: nat
  shows "2 ^ i \<le> M \<Longrightarrow> 2 ^ i \<le> real M" "M < 2 ^ i \<Longrightarrow> real M < 2 ^ i"
  by (simp_all only: numeral_power_le_of_nat_cancel_iff of_nat_less_numeral_power_cancel_iff)

lemma rne_quotient_bounds:
  fixes M :: nat
  assumes "M < 2 ^ (n + j)"
  shows "rne (real M / 2 ^ n) \<le> 2 ^ j" "2 ^ (n + i) \<le> M \<Longrightarrow> 2 ^ i \<le> rne (real M / 2 ^ n)"
    "0 \<le> rne (real M / 2 ^ n)"
proof -
  have "real M / 2 ^ n \<le> of_int (2 ^ j)"
    using real_nat_bounds(2) [OF assms] by (simp add: power_add field_simps)
  then show "rne (real M / 2 ^ n) \<le> 2 ^ j"
    by (rule rne_le)
  show "2 ^ i \<le> rne (real M / 2 ^ n)" if "2 ^ (n + i) \<le> M"
    using real_nat_bounds(1) [OF that] by (intro rne_ge) (simp add: power_add field_simps)
  show "0 \<le> rne (real M / 2 ^ n)"
    by (rule rne_ge) simp
qed

lemma powi_split: "2 powi (a + b) = (2::real) powi a * 2 powi b"
  by (simp add: power_int_add)

lemma powi_nat: "2 powi int n = (2::real) ^ n"
  by (simp add: power_int_of_nat)

lemma powi_mono: "a \<le> b \<Longrightarrow> (2::real) powi a \<le> 2 powi b"
  and powi_strict_mono: "a < b \<Longrightarrow> (2::real) powi a < 2 powi b"
  by (simp_all add: power_int_increasing power_int_strict_increasing)

lemma scaled_by_quantum: "real M * 2 powi e / 2 powi q = real M / 2 ^ n" if "q - e = int n"
proof -
  have "2 powi q = (2::real) powi e * 2 ^ n"
    using powi_split [of e "int n"] that by (simp add: powi_nat algebra_simps)
  then show ?thesis by simp
qed

text \<open>
  What a rounding kernel needs to know of a format: the integer that the normalised significand
  rounds to, its bounds and the datum it stands for, in the normal and in the subnormal range.
\<close>

locale rounding_format =
  fixes p :: nat and emin emax :: int
  assumes precision: "1 < p" "p < 128" and exponents: "emin \<le> emax"
begin

lemma powi_hidden: "(2::real) powi e = 2 ^ (p - 1) * 2 powi (e - (int p - 1))"
  using powi_split [of "int (p - 1)" "e - (int p - 1)"] powi_nat [of "p - 1"] precision
  by (simp add: of_nat_diff)

lemma normal_range:
  fixes M :: nat
  assumes M: "2 ^ 127 \<le> M" "M < 2 ^ 128" and E: "emin \<le> E"
  defines "k \<equiv> rne (real M / 2 ^ (128 - p))"
  shows "2 ^ (p - 1) \<le> k" "k \<le> 2 ^ p"
    "round_to_format p emin emax s (real M * 2 powi (E - 127)) =
       (if emax < E \<or> E = emax \<and> k = 2 ^ p then FpInf s
        else FpFin s (of_int k * 2 powi (E - (int p - 1))))"
proof -
  have e: "128 - p + p = 128" "128 - p + (p - 1) = 127"
    using precision by simp_all
  show lb: "2 ^ (p - 1) \<le> k" and ub: "k \<le> 2 ^ p"
    unfolding k_def using rne_quotient_bounds [of M "128 - p" p] M by (simp_all only: e)
  have q: "quantum p emin (real M * 2 powi (E - 127)) = E - (int p - 1)"
    using E by (simp add: quantum_def floor_log2_scaled [OF M])
  have x: "real M * 2 powi (E - 127) / 2 powi (E - (int p - 1)) = real M / 2 ^ (128 - p)"
    using precision by (intro scaled_by_quantum) (simp add: of_nat_diff)
  define y where "y = of_int k * (2::real) powi (E - (int p - 1))"
  have top: "(2::real) powi (E + 1) = 2 ^ p * 2 powi (E - (int p - 1))"
    and bot: "(2::real) powi E = 2 ^ (p - 1) * 2 powi (E - (int p - 1))"
    using powi_split [of "int p" "E - (int p - 1)"] powi_hidden [of E] by (simp_all add: powi_nat)
  have lb': "(2::real) ^ (p - 1) \<le> of_int k" and ub': "of_int k \<le> (2::real) ^ p"
    using of_int_le_iff [of "2 ^ (p - 1)" k, where ?'a = real] of_int_le_iff [of k "2 ^ p", where ?'a = real] lb ub
    by simp_all
  have "2 powi (emax + 1) \<le> y \<longleftrightarrow> emax < E \<or> E = emax \<and> k = 2 ^ p"
  proof -
    consider "emax < E" | "E = emax" | "E < emax" by linarith
    then show ?thesis
    proof cases
      case 1
      then have "(2::real) powi (emax + 1) \<le> 2 powi E" by (intro powi_mono) simp
      also have "\<dots> \<le> y"
        unfolding bot y_def using lb' by (rule mult_right_mono) simp
      finally show ?thesis using 1 by simp
    next
      case 2
      have "2 powi (E + 1) \<le> y \<longleftrightarrow> (2::real) ^ p \<le> of_int k"
        unfolding y_def top by (rule mult_le_cancel_right_pos) simp
      also have "\<dots> \<longleftrightarrow> 2 ^ p \<le> k"
        using of_int_le_iff [of "2 ^ p" k, where ?'a = real] by simp
      finally show ?thesis using 2 ub by auto
    next
      case 3
      have "y \<le> 2 powi (E + 1)"
        unfolding top y_def using ub' by (rule mult_right_mono) simp
      also have "\<dots> < 2 powi (emax + 1)"
        using 3 by (intro powi_strict_mono) simp
      finally show ?thesis using 3 by simp
    qed
  qed
  then show "round_to_format p emin emax s (real M * 2 powi (E - 127)) =
       (if emax < E \<or> E = emax \<and> k = 2 ^ p then FpInf s
        else FpFin s (of_int k * 2 powi (E - (int p - 1))))"
    unfolding round_to_format_def q x k_def [symmetric] y_def [symmetric] Let_def by simp
qed

lemma subnormal_range:
  fixes M :: nat
  assumes M: "2 ^ 127 \<le> M" "M < 2 ^ 128" and E: "E < emin" and n: "int n = emin - int p + 128 - E"
  defines "k \<equiv> rne (real M / 2 ^ n)"
  shows "0 \<le> k" "k \<le> 2 ^ (p - 1)"
    "round_to_format p emin emax s (real M * 2 powi (E - 127)) =
       FpFin s (of_int k * 2 powi (emin - (int p - 1)))"
    "128 < n \<Longrightarrow> k = 0"
proof -
  have np: "128 - p + 1 \<le> n"
    using n E precision by linarith
  then have "(2::nat) ^ 128 \<le> 2 ^ (n + (p - 1))"
    using precision by (intro power_increasing) auto
  with M(2) have Mn: "M < 2 ^ (n + (p - 1))" by linarith
  show "0 \<le> k" and ub: "k \<le> 2 ^ (p - 1)"
    unfolding k_def using rne_quotient_bounds [OF Mn] by simp_all
  have q: "quantum p emin (real M * 2 powi (E - 127)) = emin - (int p - 1)"
    using E by (simp add: quantum_def floor_log2_scaled [OF M])
  have x: "real M * 2 powi (E - 127) / 2 powi (emin - (int p - 1)) = real M / 2 ^ n"
    using n by (intro scaled_by_quantum) simp
  have "of_int k * (2::real) powi (emin - (int p - 1)) \<le> 2 ^ (p - 1) * 2 powi (emin - (int p - 1))"
    using of_int_le_iff [of k "2 ^ (p - 1)", where ?'a = real] ub by (intro mult_right_mono) simp_all
  also have "\<dots> = 2 powi emin"
    by (rule powi_hidden [symmetric])
  also have "\<dots> < 2 powi (emax + 1)"
    using exponents by (intro powi_strict_mono) simp
  finally show "round_to_format p emin emax s (real M * 2 powi (E - 127)) =
       FpFin s (of_int k * 2 powi (emin - (int p - 1)))"
    unfolding round_to_format_def q x k_def [symmetric] Let_def by simp
  show "k = 0" if "128 < n"
  proof -
    have "real M / 2 ^ n < 1 / 2"
    proof -
      have "(2::real) ^ 129 \<le> 2 ^ n" using that by (intro power_increasing) auto
      then show ?thesis
        using real_nat_bounds(2) [OF M(2)] by (simp add: field_simps)
    qed
    moreover have "0 \<le> real M / 2 ^ n" by simp
    ultimately have "\<lfloor>real M / 2 ^ n\<rfloor> = 0"
      by (intro floor_unique) linarith+
    then show ?thesis
      using \<open>real M / 2 ^ n < 1 / 2\<close> by (simp add: k_def rne_def)
  qed
qed

end

interpretation b64: rounding_format 53 "-1022" 1023
  by unfold_locales simp_all

interpretation x87f: rounding_format 64 "-16382" 16383
  by unfold_locales simp_all

subsection \<open>The narrowing kernels round correctly\<close>

lemma rounded_word:
  assumes "round_shift_half_even m sh = (t, up)" "0 < sh" "sh \<le> 128"
  shows "int (unat (if up then t + 1 else t)) = rne (real (unat m) / 2 ^ nat sh)"
proof -
  note r = round_shift_half_even_rne [OF assms]
  have "unat (t + 1) = unat t + 1"
    using r(2) unat_add_lem [of t 1] by simp
  then show ?thesis
    using r(1) by (cases up) (simp_all only: if_True if_False add_0_right)
qed

lemma f64_zero_class: "f64_class (f64_zero s) = FpFin s 0"
  and f64_infinity_class: "f64_class (f64_infinity s) = FpInf s"
  using f64_class_fields [of 0 0 s] f64_class_fields [of "0x7FF" 0 s]
  by (simp_all add: ieee_class_def split: if_splits)

lemma normalized_value:
  fixes m :: u128
  assumes "m \<noteq> 0"
  defines "M \<equiv> unat (push_bit (leading_zeros m) m)"
  shows "2 ^ 127 \<le> M" "M < 2 ^ 128"
    "real (unat m) * 2 powi e = real M * 2 powi ((e - int (leading_zeros m) + 127) - 127)"
proof -
  note n = normalized_significand [OF assms(1)]
  show "2 ^ 127 \<le> M" "M < 2 ^ 128"
    using n by (simp_all add: M_def)
  show "real (unat m) * 2 powi e = real M * 2 powi ((e - int (leading_zeros m) + 127) - 127)"
    unfolding M_def n(1) using two_powi_shift [of "unat m" "leading_zeros m" e, symmetric] by simp
qed

lemma f64_kernel_normal:
  fixes F :: u128
  assumes "2 ^ 52 \<le> unat F" "unat F \<le> 2 ^ 53" "-1022 \<le> E" "E \<le> 1023"
  defines "bm \<equiv> (if F \<ge> push_bit 53 1 then (word_of_int (E + 1 + 1023) :: u64, 0 :: u64)
                  else (word_of_int (E + 1023), ucast (F AND (push_bit 52 1 - 1))))"
  shows "f64_class (if fst bm \<ge> 0x7FF then f64_infinity s
                    else (if s then push_bit 63 1 else 0) OR push_bit 52 (fst bm) OR snd bm) =
    (if E = 1023 \<and> unat F = 2 ^ 53 then FpInf s else FpFin s (real (unat F) * 2 powi (E - 52)))"
proof -
  have ge: "F \<ge> push_bit 53 1 \<longleftrightarrow> unat F = 2 ^ 53"
    using assms(2) by (auto simp: word_le_nat_alt)
  have u: "unat (word_of_int (E + c) :: u64) = nat (E + c)" if "1023 \<le> c" "c \<le> 1024" for c
    using that assms(3,4) by (intro unat_word_of_int_exact) auto
  show ?thesis
  proof (cases "unat F = 2 ^ 53")
    case True
    have b: "bm = (word_of_int (E + 1024), 0)"
      using ge True by (simp add: bm_def add.assoc del: push_bit_of_1)
    have inf: "(0x7FF :: u64) \<le> word_of_int (E + 1024) \<longleftrightarrow> E = 1023"
      using assms(3,4) u [of 1024] by (auto simp: word_le_nat_alt simp del: of_int_add)
    show ?thesis
    proof (cases "E = 1023")
      case True
      then show ?thesis
        using inf \<open>unat F = 2 ^ 53\<close> by (simp add: b f64_infinity_class del: of_int_add)
    next
      case False
      have "f64_class ((if s then push_bit 63 1 else 0) OR push_bit 52 (word_of_int (E + 1024)) OR 0) =
          ieee_class 52 11 1023 s (nat (E + 1024)) 0"
        using assms(3,4) False u [of 1024] by (subst f64_class_fields) (simp_all del: of_int_add)
      also have "\<dots> = FpFin s (2 ^ 52 * 2 powi (E + 1 - 52))"
        using assms(3,4) False by (simp add: ieee_class_def nat_eq_iff)
      also have "(2::real) ^ 52 * 2 powi (E + 1 - 52) = 2 ^ 53 * 2 powi (E - 52)"
        using powi_split [of 1 "E - 52"] by simp
      finally show ?thesis
        using inf False True by (simp add: b del: of_int_add push_bit_of_1)
    qed
  next
    case False
    have b: "bm = (word_of_int (E + 1023), ucast (take_bit 52 F))"
      using ge False by (simp add: bm_def and_masks del: push_bit_of_1 of_int_add)
    have inf: "\<not> (0x7FF :: u64) \<le> word_of_int (E + 1023)"
      using assms(3,4) u [of 1023] by (auto simp: word_le_nat_alt simp del: of_int_add)
    have f: "unat (take_bit 52 F) = unat F - 2 ^ 52"
      using assms(1,2) False by (intro unat_take_bit_hidden) auto
    then have fu: "unat (ucast (take_bit 52 F) :: u64) = unat F - 2 ^ 52"
      using assms(1,2) by (simp add: unsigned_ucast_eq take_bit_nat_eq_self)
    have "f64_class ((if s then push_bit 63 1 else 0) OR push_bit 52 (word_of_int (E + 1023)) OR ucast (take_bit 52 F)) =
        ieee_class 52 11 1023 s (nat (E + 1023)) (unat F - 2 ^ 52)"
      using assms False u [of 1023] fu by (subst f64_class_fields) (simp_all del: of_int_add)
    also have "\<dots> = FpFin s (real (unat F) * 2 powi (E - 52))"
      using assms False by (simp add: ieee_class_def nat_eq_iff of_nat_diff)
    finally show ?thesis
      using inf False by (simp add: b del: of_int_add push_bit_of_1)
  qed
qed

lemma f64_kernel_subnormal:
  fixes F :: u128
  assumes "unat F \<le> 2 ^ 52"
  shows "f64_class (if F \<ge> push_bit 52 1
      then (if s then push_bit 63 1 else 0) OR push_bit 52 1 OR ucast (F - push_bit 52 1)
      else (if s then push_bit 63 1 else 0) OR ucast F) = FpFin s (real (unat F) * 2 powi (-1074))"
proof (cases "unat F = 2 ^ 52")
  case True
  then have F: "F = push_bit 52 1"
    by (simp add: word_unat_eq_iff)
  have "f64_class ((if s then push_bit 63 1 else 0) OR push_bit 52 1 OR 0) = ieee_class 52 11 1023 s 1 0"
    by (subst f64_class_fields) simp_all
  also have "\<dots> = FpFin s (2 ^ 52 * 2 powi (-1074))"
    by (simp add: ieee_class_def)
  finally show ?thesis
    unfolding True unfolding F by (simp del: push_bit_of_1 power_int_minus)
next
  case False
  then have lt: "unat F < 2 ^ 52" using assms by simp
  then have ge: "\<not> F \<ge> push_bit 52 1"
    by (simp add: word_le_nat_alt)
  have u: "unat (ucast F :: u64) = unat F"
    using lt by (simp add: unsigned_ucast_eq take_bit_nat_eq_self)
  have "f64_class ((if s then push_bit 63 1 else 0) OR push_bit 52 0 OR ucast F) = ieee_class 52 11 1023 s 0 (unat F)"
    using lt by (subst f64_class_fields) (simp_all add: u)
  also have "\<dots> = FpFin s (real (unat F) * 2 powi (-1074))"
    by (simp add: ieee_class_def)
  finally show ?thesis
    using ge by (simp del: push_bit_of_1 power_int_minus)
qed

text \<open>
  The narrowing kernel for \<^verbatim>\<open>f64\<close> is correctly rounded: for every nonzero 128-bit significand and
  every exponent the result is the value rounded once to binary64, to nearest with ties to even, with
  gradual underflow, and it is infinite exactly when the rounded value leaves the exponent range.
\<close>

lemma scaled_significand_to_f64_correctly_rounded:
  assumes "m \<noteq> 0"
  shows "f64_class (scaled_significand_to_f64 s m e) =
    round_to_format 53 (-1022) 1023 s (real (unat m) * 2 powi e)"
proof -
  define M where "M = push_bit (leading_zeros m) m"
  define E where "E = e - int (leading_zeros m) + 127"
  note M = normalized_value(1,2) [OF assms, folded M_def]
    and v = normalized_value(3) [OF assms, of e, folded M_def E_def]
  consider "1023 < E" | "-1022 \<le> E" "E \<le> 1023" | "E < -1022" "128 < - (E + 947)" | "E < -1022" "- (E + 947) \<le> 128"
    by linarith
  then show ?thesis
  proof cases
    case 1
    then have "scaled_significand_to_f64 s m e = f64_infinity s"
      using assms by (simp add: scaled_significand_to_f64_def Let_def E_def)
    then show ?thesis
      unfolding v using b64.normal_range(3) [OF M, of E s] 1 by (simp only: f64_infinity_class) simp
  next
    case 2
    obtain t up where r: "round_shift_half_even M 75 = (t, up)" by fastforce
    define F where "F = (if up then t + 1 else t)"
    have k: "int (unat F) = rne (real (unat M) / 2 ^ 75)"
      using rounded_word [OF r] by (simp add: F_def)
    have w: "(53::nat) - 1 = 52" "(128::nat) - 53 = 75" "int 53 - 1 = 52" by simp_all
    note b = b64.normal_range [OF M 2(1), unfolded w, folded k]
    have B: "2 ^ 52 \<le> unat F" "unat F \<le> 2 ^ 53"
      using b(1,2) by (simp_all only: numeral_power_le_of_nat_cancel_iff of_nat_le_numeral_power_cancel_iff)
    define bm where "bm = (if F \<ge> push_bit 53 1 then (word_of_int (E + 1 + 1023) :: u64, 0 :: u64)
                  else (word_of_int (E + 1023), ucast (F AND (push_bit 52 1 - 1))))"
    have "scaled_significand_to_f64 s m e =
        (if fst bm \<ge> 0x7FF then f64_infinity s
         else (if s then push_bit 63 1 else 0) OR push_bit 52 (fst bm) OR snd bm)"
      using assms 2 r unfolding scaled_significand_to_f64_def Let_def bm_def F_def E_def M_def split_beta
      by (simp del: push_bit_of_1 of_int_add)
    also have "f64_class \<dots> =
        (if E = 1023 \<and> unat F = 2 ^ 53 then FpInf s else FpFin s (real (unat F) * 2 powi (E - 52)))"
      unfolding bm_def using B 2 by (rule f64_kernel_normal)
    also have "\<dots> = round_to_format 53 (-1022) 1023 s (real (unat m) * 2 powi e)"
      unfolding v b(3) real_of_nat_eq_numeral_power_cancel_iff of_int_of_nat_eq using 2(2) by simp
    finally show ?thesis .
  next
    case 3
    then have "scaled_significand_to_f64 s m e = f64_zero s"
      using assms by (simp add: scaled_significand_to_f64_def Let_def E_def)
    moreover obtain n where n: "int n = -1022 - int 53 + 128 - E" "128 < n"
      using 3 by (intro that [of "nat (-1022 - int 53 + 128 - E)"]) simp_all
    ultimately show ?thesis
      unfolding v using b64.subnormal_range(3,4) [OF M 3(1) n(1)] n(2) by (simp add: f64_zero_class)
  next
    case 4
    define n where "n = nat (- (E + 947))"
    have n: "int n = -1022 - int 53 + 128 - E" "0 < - (E + 947)"
      using 4 by (simp_all add: n_def)
    obtain t up where r: "round_shift_half_even M (- (E + 947)) = (t, up)" by fastforce
    define F where "F = (if up then t + 1 else t)"
    have k: "int (unat F) = rne (real (unat M) / 2 ^ n)"
      using rounded_word [OF r n(2) 4(2)] by (simp add: F_def n_def)
    have w: "(53::nat) - 1 = 52" "-1022 - (int 53 - 1) = -1074" by simp_all
    note b = b64.subnormal_range [OF M 4(1) n(1), folded k, unfolded w]
    have B: "unat F \<le> 2 ^ 52"
      using b(2) by (simp only: of_nat_le_numeral_power_cancel_iff)
    have "scaled_significand_to_f64 s m e =
        (if F \<ge> push_bit 52 1
         then (if s then push_bit 63 1 else 0) OR push_bit 52 1 OR ucast (F - push_bit 52 1)
         else (if s then push_bit 63 1 else 0) OR ucast F)"
      using assms 4 r unfolding scaled_significand_to_f64_def Let_def F_def E_def M_def split_beta
      by (simp del: push_bit_of_1 of_int_add)
    also have "f64_class \<dots> = FpFin s (real (unat F) * 2 powi (-1074))"
      using B by (rule f64_kernel_subnormal)
    also have "\<dots> = round_to_format 53 (-1022) 1023 s (real (unat m) * 2 powi e)"
      unfolding v b(3) by (simp only: of_int_of_nat_eq)
    finally show ?thesis .
  qed
qed

subsection \<open>Narrowing conversions\<close>

text \<open>What narrowing to a format does to a datum: specials are kept, a finite value is rounded once.\<close>

definition narrow :: "nat \<Rightarrow> int \<Rightarrow> int \<Rightarrow> fp \<Rightarrow> fp" where
  "narrow p emin emax d =
     (case d of FpNan \<Rightarrow> FpNan | FpInf s \<Rightarrow> FpInf s
      | FpFin s x \<Rightarrow> if x = 0 then FpFin s 0 else round_to_format p emin emax s x)"

lemma f128_decompose_fields:
  fixes b :: "u8 list"
  defines "w \<equiv> from_le_bytes b :: u128"
  defines "ex \<equiv> unat (take_bit 15 (drop_bit 112 w))"
  shows "f128_decompose b =
    (bit w 127, int ex, if ex = 0 \<or> ex = 0x7FFF then take_bit 112 w else push_bit 112 1 OR take_bit 112 w)"
proof -
  have s: "drop_bit 127 w \<noteq> 0 \<longleftrightarrow> bit w 127"
  proof
    assume "drop_bit 127 w \<noteq> 0"
    then obtain i where "bit w (127 + i)" by (auto simp: bit_nonzero_word bit_simps)
    moreover from this have "i = 0" using bit_imp_le_length [of w "127 + i"] by simp
    ultimately show "bit w 127" by simp
  next
    assume "bit w 127"
    then have "bit (drop_bit 127 w) 0" by (simp add: bit_simps)
    then show "drop_bit 127 w \<noteq> 0" by (metis bit_0_eq bot_apply bot_bool_def)
  qed
  have e: "uint (take_bit 15 (drop_bit 112 w)) = int ex"
    unfolding ex_def by (rule uint_nat)
  show ?thesis
    unfolding f128_decompose_def Let_def w_def [symmetric] and_masks s e
    by (auto simp: or.commute simp del: push_bit_of_1)
qed

lemma f128_decompose_value:
  assumes d: "f128_decompose b = (s, be, m)"
  shows "f128_class b =
    (if be = 0x7FFF then (if m = 0 then FpInf s else FpNan)
     else FpFin s (real (unat m) * 2 powi ((if be = 0 then -16382 else be - 16383) - 112)))"
    "0 \<le> be" "be \<le> 0x7FFF" "unat m < 2 ^ 113" "be \<noteq> 0 \<Longrightarrow> be \<noteq> 0x7FFF \<Longrightarrow> 2 ^ 112 \<le> unat m"
    "be = 0 \<or> be = 0x7FFF \<Longrightarrow> unat m < 2 ^ 112"
proof -
  define w :: u128 where "w = from_le_bytes b"
  define ex fr where "ex = unat (take_bit 15 (drop_bit 112 w))" and "fr = unat (take_bit 112 w)"
  have dd: "s = bit w 127" "be = int ex"
    "m = (if ex = 0 \<or> ex = 0x7FFF then take_bit 112 w else push_bit 112 1 OR take_bit 112 w)"
    using d unfolding f128_decompose_fields [of b, folded w_def, folded ex_def] by blast+
  have ex: "ex < 2 ^ 15" and fr: "fr < 2 ^ 112"
    unfolding ex_def fr_def by (rule unat_take_bit_less)+
  have um: "unat m = (if ex = 0 \<or> ex = 0x7FFF then fr else 2 ^ 112 + fr)"
    unfolding dd(3) fr_def using unat_hidden_bit [of 112 w] by auto
  have cls: "f128_class b = ieee_class 112 15 16383 s ex fr"
    by (simp add: f128_class_def Let_def dd(1) ex_def fr_def w_def)
  have m0: "m = 0 \<longleftrightarrow> fr = 0" if "ex = 0x7FFF"
    using um that by (metis unat_eq_zero)
  consider "ex = 0" | "ex = 0x7FFF" | "ex \<noteq> 0" "ex \<noteq> 0x7FFF" by blast
  then show "f128_class b =
    (if be = 0x7FFF then (if m = 0 then FpInf s else FpNan)
     else FpFin s (real (unat m) * 2 powi ((if be = 0 then -16382 else be - 16383) - 112)))"
  proof cases
    case 1
    then show ?thesis by (simp add: cls ieee_class_def dd(2) um)
  next
    case 2
    then show ?thesis using m0 by (simp add: cls ieee_class_def dd(2))
  next
    case 3
    then show ?thesis using um by (simp add: cls ieee_class_def dd(2))
  qed
  show "0 \<le> be" "be \<le> 0x7FFF" using ex by (simp_all add: dd(2))
  show "unat m < 2 ^ 113" "be \<noteq> 0 \<Longrightarrow> be \<noteq> 0x7FFF \<Longrightarrow> 2 ^ 112 \<le> unat m"
    "be = 0 \<or> be = 0x7FFF \<Longrightarrow> unat m < 2 ^ 112"
    using um fr by (auto simp: dd(2))
qed

lemma f64_nan_class: "f64_class f64_nan = FpNan"
  by (simp add: f64_class_def ieee_class_def take_bit_eq_mod drop_bit_eq_div)

text \<open>
  C10: narrowing binary128 to binary64 keeps NaN, infinities and signed zeros and rounds every other
  value once, to nearest with ties to even, with gradual underflow and overflow to infinity.
\<close>

theorem f128_bytes_to_f64_correctly_rounded:
  "f64_class (f128_bytes_to_f64 b) = narrow 53 (-1022) 1023 (f128_class b)"
proof -
  obtain s be m where d: "f128_decompose b = (s, be, m)"
    by (cases "f128_decompose b")
  note v = f128_decompose_value [OF d]
  consider "be = 0x7FFF" | "be = 0" "m = 0" | "be \<noteq> 0x7FFF" "m \<noteq> 0"
    using v(2,3,5) by fastforce
  then show ?thesis
  proof cases
    case 1
    then show ?thesis
      using v(1) by (auto simp: f128_bytes_to_f64_def d narrow_def f64_infinity_class f64_nan_class simp del: if_split)
  next
    case 2
    then show ?thesis
      using v(1) by (simp add: f128_bytes_to_f64_def d narrow_def f64_zero_class)
  next
    case 3
    then have "f128_bytes_to_f64 b = scaled_significand_to_f64 s m ((if be = 0 then -16382 else be - 16383) - 112)"
      by (simp add: f128_bytes_to_f64_def d)
    moreover have "real (unat m) \<noteq> 0"
      using 3(2) by (simp only: of_nat_eq_0_iff unat_eq_zero not_False_eq_True)
    ultimately show ?thesis
      using 3 v(1) scaled_significand_to_f64_correctly_rounded [OF 3(2)] by (simp add: narrow_def)
  qed
qed

subsection \<open>The x87 encoding\<close>

lemma from_le_bytes_to_le_bytes_up:
  fixes m :: "'b::len word"
  assumes "8 * n = LENGTH('b)" "LENGTH('b) \<le> LENGTH('a::len)"
  shows "(from_le_bytes (to_le_bytes n m) :: 'a word) = ucast m"
proof (rule bit_word_eqI)
  fix i assume "i < LENGTH('a)"
  have "i div 8 < n \<longleftrightarrow> i < LENGTH('b)"
    unfolding assms(1) [symmetric] by (simp add: div_less_iff_less_mult mult.commute)
  then show "bit (from_le_bytes (to_le_bytes n m) :: 'a word) i = bit (ucast m :: 'a word) i"
    using \<open>i < LENGTH('a)\<close> by (auto simp: bit_from_le_bytes nth_to_le_bytes bit_simps dest: bit_imp_le_length)
qed

lemma from_le_bytes_append:
  "(from_le_bytes (xs @ ys) :: 'a::len word) = from_le_bytes xs OR push_bit (8 * length xs) (from_le_bytes ys)"
proof (induction xs)
  case (Cons x xs)
  then show ?case
    by (simp add: push_bit_or or.assoc push_bit_push_bit)
qed simp

lemma bytes_of_u16: "(from_le_bytes [ucast (e AND 0xFF), ucast (drop_bit 8 e)] :: 'a::len word) = ucast e"
  if "16 \<le> LENGTH('a)" for e :: u16
proof -
  have "[ucast (e AND 0xFF), ucast (drop_bit 8 e)] = to_le_bytes 2 e"
    by (auto simp: numeral_2_eq_2 and_masks bit_simps intro!: bit_word_eqI)
  then show ?thesis
    using that by (simp add: from_le_bytes_to_le_bytes_up)
qed

lemma x87_encode_word:
  assumes "unat be < 2 ^ 15"
  shows "(from_le_bytes (take 10 (x87_encode s be m)) :: u128) =
    (if s then push_bit 79 1 else 0) OR push_bit 64 (ucast be) OR ucast m"
proof -
  define e where "e = be OR (if s then 0x8000 else 0)"
  have "take 10 (x87_encode s be m) = to_le_bytes 8 m @ [ucast (e AND 0xFF), ucast (drop_bit 8 e)]"
    by (simp add: x87_encode_def Let_def e_def)
  then have "(from_le_bytes (take 10 (x87_encode s be m)) :: u128) =
      from_le_bytes (to_le_bytes 8 m) OR push_bit 64 (from_le_bytes [ucast (e AND 0xFF), ucast (drop_bit 8 e)])"
    by (simp only: from_le_bytes_append) simp
  also have "\<dots> = ucast m OR push_bit 64 (ucast e)"
    by (subst bytes_of_u16) (simp_all add: from_le_bytes_to_le_bytes_up)
  also have "ucast e = (ucast be OR (if s then push_bit 15 1 else 0) :: u128)"
  proof -
    have "e = be OR (if s then push_bit 15 1 else 0)"
      by (simp add: e_def)
    then show ?thesis
      by (intro bit_word_eqI) (auto simp: bit_ucast_iff bit_or_iff bit_sign_bit simp del: push_bit_of_1)
  qed
  finally show ?thesis
    by (auto simp: push_bit_or push_bit_push_bit ac_simps split: if_splits)
qed

lemma x87_encode_class:
  assumes "unat be < 2 ^ 15"
  shows "x87_class (x87_encode s be m) =
    (if unat be = 2 ^ 15 - 1 then (if unat m = 2 ^ 63 then FpInf s else FpNan)
     else if unat be = 0 then FpFin s (real (unat m) * 2 powi (-16445))
     else if unat m < 2 ^ 63 then FpNan
     else FpFin s (real (unat m) * 2 powi (int (unat be) - 16446)))"
proof -
  have n: "79 = 64 + (15::nat)" "79 < LENGTH(128)" by simp_all
  have u: "unat (ucast be :: u128) = unat be" "unat (ucast m :: u128) = unat m"
    by (simp_all add: unat_ucast_up)
  have b: "unat (ucast be :: u128) < 2 ^ 15" "unat (ucast m :: u128) < 2 ^ 64"
    using assms unsigned_less [of m, where ?'a = nat] by (simp_all add: u)
  show ?thesis
    unfolding x87_class_def Let_def x87_encode_word [OF assms] word_fields [OF b n] u ..
qed

lemma x87_encode_canonical:
  assumes "unat be < 2 ^ 15"
  shows "x87_canonical (x87_encode s be m) \<longleftrightarrow> (unat be = 0 \<longleftrightarrow> unat m < 2 ^ 63)"
proof -
  have n: "79 = 64 + (15::nat)" "79 < LENGTH(128)" by simp_all
  have u: "unat (ucast be :: u128) = unat be" "unat (ucast m :: u128) = unat m"
    by (simp_all add: unat_ucast_up)
  have b: "unat (ucast be :: u128) < 2 ^ 15" "unat (ucast m :: u128) < 2 ^ 64"
    using assms unsigned_less [of m, where ?'a = nat] by (simp_all add: u)
  show ?thesis
    unfolding x87_canonical_def Let_def x87_encode_word [OF assms] word_fields [OF b n] u ..
qed

lemma make_x87_encode:
  "make_x87_zero s = x87_encode s 0 0" "make_x87_infinity s = x87_encode s 0x7FFF (push_bit 63 1)"
  "make_x87_nan s = x87_encode s 0x7FFF 0xC000000000000000"
  by (cases s; simp only:; code_simp)+

lemma make_x87_class:
  "x87_class (make_x87_zero s) = FpFin s 0" "x87_class (make_x87_infinity s) = FpInf s"
  "x87_class (make_x87_nan s) = FpNan"
  unfolding make_x87_encode by (subst x87_encode_class; simp)+

lemma make_x87_canonical: "x87_canonical (make_x87_zero s)" "x87_canonical (make_x87_infinity s)"
  unfolding make_x87_encode by (subst x87_encode_canonical; simp)+

lemma encode_x87_correctly_rounded:
  assumes "m \<noteq> 0"
  shows "x87_class (encode_x87_from_scaled s m e) =
    round_to_format 64 (-16382) 16383 s (real (unat m) * 2 powi e) \<and>
    x87_canonical (encode_x87_from_scaled s m e)"
proof -
  define M where "M = push_bit (leading_zeros m) m"
  define E where "E = e - int (leading_zeros m) + 127"
  note M = normalized_value(1,2) [OF assms, folded M_def]
    and v = normalized_value(3) [OF assms, of e, folded M_def E_def]
  have sh: "- (e - int (leading_zeros m) + 16445) = - (E + 16318)"
    by (simp add: E_def)
  have E': "e - int (leading_zeros m) + 127 = E"
    by (simp add: E_def)
  consider "16383 < E" | "-16382 \<le> E" "E \<le> 16383" | "E < -16382" "128 < - (E + 16318)" | "E < -16382" "- (E + 16318) \<le> 128"
    by linarith
  then show ?thesis
  proof cases
    case 1
    then have "encode_x87_from_scaled s m e = make_x87_infinity s"
      using assms unfolding encode_x87_from_scaled_def Let_def E' by simp
    then show ?thesis
      unfolding v using x87f.normal_range(3) [OF M, of E s] 1 by (simp add: make_x87_class make_x87_canonical)
  next
    case 2
    obtain t up where r: "round_shift_half_even M 64 = (t, up)" by fastforce
    define F where "F = (if up then t + 1 else t)"
    have k: "int (unat F) = rne (real (unat M) / 2 ^ 64)"
      using rounded_word [OF r] by (simp add: F_def)
    have w: "(64::nat) - 1 = 63" "(128::nat) - 64 = 64" "int 64 - 1 = 63" by simp_all
    note b = x87f.normal_range [OF M 2(1), unfolded w, folded k]
    have B: "2 ^ 63 \<le> unat F" "unat F \<le> 2 ^ 64"
      using b(1,2) by (simp_all only: numeral_power_le_of_nat_cancel_iff of_nat_le_numeral_power_cancel_iff)
    have f: "F < push_bit 64 1 \<longleftrightarrow> unat F \<noteq> 2 ^ 64"
      using B(2) by (auto simp: word_less_nat_alt)
    have eq: "encode_x87_from_scaled s m e =
        (if F < push_bit 64 1 then x87_encode s (word_of_int (E + 16383)) (ucast F)
         else x87_encode s (word_of_int (E + 16384)) (push_bit 63 1))"
      using assms 2 r unfolding encode_x87_from_scaled_def Let_def F_def E' M_def split_beta
      by (simp del: push_bit_of_1 of_int_add)
    have u: "unat (word_of_int (E + c) :: u16) = nat (E + c)" if "16383 \<le> c" "c \<le> 16384" for c
      using that 2 by (intro unat_word_of_int_exact) auto
    have canonical: "x87_canonical (encode_x87_from_scaled s m e)"
    proof (cases "unat F = 2 ^ 64")
      case True
      have "unat (push_bit 63 1 :: u64) = 2 ^ 63" by simp
      then show ?thesis
        using True f 2 u [of 16384] by (simp add: eq x87_encode_canonical del: of_int_add)
    next
      case False
      have "unat (ucast F :: u64) = unat F"
        using False B(2) by (simp add: unsigned_ucast_eq take_bit_nat_eq_self)
      then show ?thesis
        using False f 2 B u [of 16383] by (simp add: eq x87_encode_canonical del: of_int_add)
    qed
    have "x87_class (encode_x87_from_scaled s m e) =
        (if 16383 < E \<or> E = 16383 \<and> unat F = 2 ^ 64 then FpInf s else FpFin s (real (unat F) * 2 powi (E - 63)))"
    proof (cases "unat F = 2 ^ 64")
      case True
      define B16 :: u16 where "B16 = word_of_int (E + 16384)"
      have ub: "unat B16 = nat (E + 16384)"
        unfolding B16_def by (rule u) simp_all
      then have lt: "unat B16 < 2 ^ 15" using 2 by simp
      have t: "unat (push_bit 63 1 :: u64) = 2 ^ 63" by simp
      have c: "x87_class (encode_x87_from_scaled s m e) = x87_class (x87_encode s B16 (push_bit 63 1))"
        using True f by (simp only: eq B16_def if_False simp_thms)
      have "real (2 ^ 63) * 2 powi (int (nat (E + 16384)) - 16446) = 2 ^ 64 * 2 powi (E - 63)"
        using powi_split [of 1 "E - 63"] 2 by simp
      then show ?thesis
        unfolding c x87_encode_class [OF lt] t ub using 2 True by auto
    next
      case False
      define B16 :: u16 where "B16 = word_of_int (E + 16383)"
      have ub: "unat B16 = nat (E + 16383)"
        unfolding B16_def by (rule u) simp_all
      then have lt: "unat B16 < 2 ^ 15" using 2 by simp
      have uF: "unat (ucast F :: u64) = unat F"
        using False B(2) by (simp add: unsigned_ucast_eq take_bit_nat_eq_self)
      have c: "x87_class (encode_x87_from_scaled s m e) = x87_class (x87_encode s B16 (ucast F))"
        using False f by (simp only: eq B16_def if_True simp_thms)
      show ?thesis
        unfolding c x87_encode_class [OF lt] uF ub using 2 False B by auto
    qed
    also have "\<dots> = round_to_format 64 (-16382) 16383 s (real (unat m) * 2 powi e)"
      unfolding v b(3) real_of_nat_eq_numeral_power_cancel_iff of_int_of_nat_eq ..
    finally show ?thesis
      using canonical by simp
  next
    case 3
    then have "encode_x87_from_scaled s m e = make_x87_zero s"
      using assms unfolding encode_x87_from_scaled_def Let_def sh E' by simp
    moreover obtain n where n: "int n = -16382 - int 64 + 128 - E" "128 < n"
      using 3 by (intro that [of "nat (-16382 - int 64 + 128 - E)"]) simp_all
    ultimately show ?thesis
      unfolding v using x87f.subnormal_range(3,4) [OF M 3(1) n(1)] n(2) by (simp add: make_x87_class make_x87_canonical)
  next
    case 4
    define n where "n = nat (- (E + 16318))"
    have n: "int n = -16382 - int 64 + 128 - E" "0 < - (E + 16318)"
      using 4 by (simp_all add: n_def)
    obtain t up where r: "round_shift_half_even M (- (E + 16318)) = (t, up)" by fastforce
    define F where "F = (if up then t + 1 else t)"
    have k: "int (unat F) = rne (real (unat M) / 2 ^ n)"
      using rounded_word [OF r n(2) 4(2)] by (simp add: F_def n_def)
    have w: "(64::nat) - 1 = 63" "-16382 - (int 64 - 1) = -16445" by simp_all
    note b = x87f.subnormal_range [OF M 4(1) n(1), folded k, unfolded w]
    have B: "unat F \<le> 2 ^ 63"
      using b(2) by (simp only: of_nat_le_numeral_power_cancel_iff)
    have eq: "encode_x87_from_scaled s m e = x87_encode s (if F \<ge> push_bit 63 1 then 1 else 0) (ucast F)"
      using assms 4 r unfolding encode_x87_from_scaled_def Let_def F_def sh E' M_def split_beta
      by (simp del: push_bit_of_1)
    have f: "F \<ge> push_bit 63 1 \<longleftrightarrow> unat F = 2 ^ 63"
      using B by (auto simp: word_le_nat_alt)
    have uF: "unat (ucast F :: u64) = unat F"
      using B by (simp add: unsigned_ucast_eq take_bit_nat_eq_self)
    have canonical: "x87_canonical (encode_x87_from_scaled s m e)"
      unfolding eq using f uF B by (subst x87_encode_canonical) auto
    have "x87_class (encode_x87_from_scaled s m e) = FpFin s (real (unat F) * 2 powi (-16445))"
    proof -
      define Q where "Q i = (2::real) powi i" for i
      have lt: "unat (if F \<ge> push_bit 63 1 then 1 else 0 :: u16) < 2 ^ 15" by simp
      show ?thesis
        unfolding eq x87_encode_class [OF lt] uF Q_def [symmetric] unfolding f using B by (simp del: of_nat_unat)
    qed
    also have "\<dots> = round_to_format 64 (-16382) 16383 s (real (unat m) * 2 powi e)"
      unfolding v b(3) by (simp only: of_int_of_nat_eq)
    finally show ?thesis
      using canonical by simp
  qed
qed

lemma x87_nan_word:
  fixes fr :: u128
  assumes "unat fr < 2 ^ 63" "fr \<noteq> 0"
  shows "x87_class (to_le_bytes 16 (push_bit 64 (0x7FFF OR (if s then 0x8000 else 0)) OR push_bit 63 1 OR fr)) = FpNan \<and>
    x87_canonical (to_le_bytes 16 (push_bit 64 (0x7FFF OR (if s then 0x8000 else 0)) OR push_bit 63 1 OR fr))"
proof -
  define m where "m = push_bit 63 1 OR fr"
  define W where "W = (if s then push_bit 79 1 else 0) OR push_bit 64 (0x7FFF :: u128) OR m"
  have W: "push_bit 64 (0x7FFF OR (if s then 0x8000 else 0)) OR push_bit 63 1 OR fr = W"
    by (auto simp: W_def m_def push_bit_or or.assoc or.left_commute)
  have fr: "fr = take_bit 63 fr"
    using assms(1) by (simp add: word_unat_eq_iff unsigned_take_bit_eq take_bit_nat_eq_self)
  then have um: "unat m = 2 ^ 63 + unat fr"
    unfolding m_def using unat_hidden_bit [of 63 fr] by simp
  have "take 10 (to_le_bytes 16 W) = to_le_bytes 10 W"
    by (simp add: numeral_eq_Suc)
  moreover have "from_le_bytes (to_le_bytes 10 W) = take_bit 80 W"
    by (simp add: from_to_le_bytes)
  moreover have "take_bit 80 W = W"
  proof (rule bit_word_eqI)
    fix i :: nat assume "i < LENGTH(128)"
    have "\<not> bit m i" if "80 \<le> i"
      using bit_below [of m i 64] that assms(1) um by auto
    moreover have "\<not> bit (0x7FFF :: u128) (i - 64)" if "80 \<le> i"
      using bit_below [of "0x7FFF :: u128" "i - 64" 15] that by auto
    ultimately show "bit (take_bit 80 W) i = bit W i"
      by (auto simp: W_def bit_take_bit_iff bit_or_iff bit_push_bit_iff bit_sign_bit simp del: push_bit_of_1)
  qed
  ultimately have w: "(from_le_bytes (take 10 (to_le_bytes 16 W)) :: u128) = W"
    by simp
  have n: "79 = 64 + (15::nat)" "79 < LENGTH(128)" by simp_all
  have b: "unat (0x7FFF :: u128) < 2 ^ 15" "unat m < 2 ^ 64"
    using assms(1) um by simp_all
  have "unat fr \<noteq> 0" using assms(2) by (simp add: unat_eq_zero)
  then show ?thesis
    unfolding W x87_class_def x87_canonical_def Let_def w unfolding W_def word_fields [OF b n] using um by simp
qed

text \<open>
  C20: converting binary128 to the x87 format keeps NaN, infinities and signed zeros and rounds every
  other value once to the 64-bit significand, to nearest with ties to even, with gradual underflow and
  overflow to infinity. The result is always a canonical encoding, with the integer bit set exactly if the exponent is not zero.
\<close>

theorem f128_bytes_to_x87_bytes_correctly_rounded:
  "x87_class (f128_bytes_to_x87_bytes b) = narrow 64 (-16382) 16383 (f128_class b) \<and>
   x87_canonical (f128_bytes_to_x87_bytes b)"
proof -
  obtain s be m where d: "f128_decompose b = (s, be, m)"
    by (cases "f128_decompose b")
  note v = f128_decompose_value [OF d]
  consider "be = 0x7FFF" "m = 0" | "be = 0x7FFF" "m \<noteq> 0" | "be = 0" "m = 0" | "be \<noteq> 0x7FFF" "m \<noteq> 0"
    using v(2,3,5) by fastforce
  then show ?thesis
  proof cases
    case 2
    define fr where "fr = (if drop_bit 49 m = 0 then push_bit 62 1 else drop_bit 49 m)"
    have "m = take_bit 112 m"
      using v(6) 2(1) by (simp add: word_unat_eq_iff unsigned_take_bit_eq take_bit_nat_eq_self)
    then have "f128_bytes_to_x87_bytes b =
        to_le_bytes 16 (push_bit 64 (0x7FFF OR (if s then 0x8000 else 0)) OR push_bit 63 1 OR fr)"
      using 2 by (simp add: f128_bytes_to_x87_bytes_def d and_masks Let_def fr_def del: push_bit_of_1)
    moreover have "unat fr < 2 ^ 63" "fr \<noteq> 0"
      using v(6) 2(1) by (auto simp: fr_def unat_drop_bit_div less_mult_imp_div_less)
    ultimately show ?thesis
      using v(1) 2 x87_nan_word [of fr s] by (simp add: narrow_def)
  next
    case 4
    then have "f128_bytes_to_x87_bytes b =
        encode_x87_from_scaled s m ((if be = 0 then -16382 else be - 16383) - 112)"
      by (simp add: f128_bytes_to_x87_bytes_def d)
    moreover have "real (unat m) \<noteq> 0"
      using 4(2) by (simp only: of_nat_eq_0_iff unat_eq_zero not_False_eq_True)
    ultimately show ?thesis
      using 4 v(1) encode_x87_correctly_rounded [OF 4(2)] by (simp add: narrow_def)
  qed (use v(1) in \<open>simp_all add: f128_bytes_to_x87_bytes_def d narrow_def make_x87_class make_x87_canonical\<close>)
qed

lemma f64_to_x87_bytes_simple_exact: "x87_class (f64_to_x87_bytes_simple v) = f64_class v"
proof -
  define ex fr where "ex = unat (take_bit 11 (drop_bit 52 v))" and "fr = unat (take_bit 52 v)"
  note t = f64_decompose_tests [of v, folded ex_def fr_def] and sg = f64_decompose_fields(1) [of v]
  have cls: "f64_class v = ieee_class 52 11 1023 (bit v 63) ex fr"
    by (simp add: f64_class_def ex_def fr_def)
  consider "ex = 0" "fr = 0" | "ex = 0x7FF" | "ex \<noteq> 0x7FF" "ex \<noteq> 0 \<or> fr \<noteq> 0" by blast
  then show ?thesis
  proof cases
    case 3
    obtain s sig e where n: "f64_normalize_significand v = (s, sig, e)"
      by (cases "f64_normalize_significand v")
    note p = f64_normalize_significand [of v s sig e, folded ex_def fr_def, OF 3 n]
    have m: "unat (push_bit 11 sig) = unat sig * 2 ^ 11"
      using p(3) by (intro unat_push_bit_exact) simp
    define B16 :: u16 where "B16 = word_of_int (e + 16383)"
    have ub: "unat B16 = nat (e + 16383)"
      unfolding B16_def using p(4,5) by (intro unat_word_of_int_exact) simp_all
    then have lt: "unat B16 < 2 ^ 15" using p(4,5) by simp
    have "f64_to_x87_bytes_simple v = x87_encode s B16 (push_bit 11 sig)"
      using 3 n by (auto simp: f64_to_x87_bytes_simple_def Let_def t B16_def)
    also have "x87_class \<dots> = FpFin s (real (unat sig * 2 ^ 11) * 2 powi (e - 63))"
      unfolding x87_encode_class [OF lt] m ub using p(2-5) by simp
    also have "\<dots> = f64_class v"
      using two_powi_shift [of "unat sig" 11 "e - 52"] by (simp add: p(6))
    finally show ?thesis .
  qed (simp_all add: f64_to_x87_bytes_simple_def Let_def t sg make_x87_class cls ieee_class_def)
qed

subsection \<open>Truncation to integers\<close>

lemma f128_to_abs_uint_truncates:
  assumes c: "f128_class b = FpFin s x" and x: "x < 2 ^ 128" and mb: "max_bits = 64 \<or> max_bits = 128"
  shows "f128_to_abs_uint b max_bits =
      (if 2 ^ 112 \<le> x \<and> max_bits = 64 then None else Some (s, of_int \<lfloor>x\<rfloor>))"
    "0 \<le> \<lfloor>x\<rfloor>" "\<lfloor>x\<rfloor> < 2 ^ 128"
proof -
  obtain s' be m where d: "f128_decompose b = (s', be, m)"
    by (cases "f128_decompose b")
  note v = f128_decompose_value [OF d]
  have be: "be \<noteq> 0x7FFF" and ss: "s' = s"
    using v(1) c by (auto split: if_splits)
  define sh where "sh = (if be = 0 then -16382 else be - 16383) - 112"
  have xv: "x = real (unat m) * 2 powi sh"
    using v(1) c be by (simp add: sh_def)
  then have nn: "0 \<le> x" by (simp del: of_nat_unat)
  then show "0 \<le> \<lfloor>x\<rfloor>" by simp
  show "\<lfloor>x\<rfloor> < 2 ^ 128"
    using x by (simp add: floor_less_iff)
  have m113: "real (unat m) < 2 ^ 113"
    using real_nat_bounds(2) [OF v(4)] .
  have small: "x < 1" if "sh \<le> -113"
  proof -
    have "x < 2 ^ 113 * 2 powi sh"
      unfolding xv using m113 by (rule mult_strict_right_mono) simp
    also have "\<dots> \<le> 2 ^ 113 * 2 powi (-113)"
      using that by (intro mult_left_mono powi_mono) simp_all
    also have "\<dots> = 1" by simp
    finally show ?thesis .
  qed
  have big112: "(2::real) ^ 112 > 1" by simp
  consider "be = 0" | "be \<noteq> 0" "sh \<le> -128" | "be \<noteq> 0" "-128 < sh" "sh < 0" | "be \<noteq> 0" "0 \<le> sh" by linarith
  then show "f128_to_abs_uint b max_bits =
      (if 2 ^ 112 \<le> x \<and> max_bits = 64 then None else Some (s, of_int \<lfloor>x\<rfloor>))"
  proof cases
    case 1
    then have "x < 1" by (intro small) (simp add: sh_def)
    then have "\<lfloor>x\<rfloor> = 0" "\<not> 2 ^ 112 \<le> x"
      using nn big112 by (simp add: floor_unique, linarith)
    then show ?thesis
      using 1 by (simp add: f128_to_abs_uint_def d ss Let_def)
  next
    case 2
    then have "x < 1" by (intro small) simp
    then have "\<lfloor>x\<rfloor> = 0" "\<not> 2 ^ 112 \<le> x"
      using nn big112 by (simp add: floor_unique, linarith)
    then show ?thesis
      using 2 be by (simp add: f128_to_abs_uint_def d ss Let_def sh_def le_nat_iff)
  next
    case 3
    define n where "n = nat (- sh)"
    have n: "sh = - int n" "0 < n" "n < 128" using 3 by (auto simp: n_def)
    have xd: "x = real (unat m) / 2 ^ n"
      unfolding xv n(1) by (simp add: power_int_minus power_int_of_nat divide_inverse)
    then have fl: "\<lfloor>x\<rfloor> = int (unat m div 2 ^ n)"
      by (simp only: floor_nat_div)
    have "x < 2 ^ 113 / 2 ^ n"
      unfolding xd using m113 by (rule divide_strict_right_mono) simp
    also have "\<dots> \<le> 2 ^ 113 / 2 ^ 1"
      using n(2) by (intro divide_left_mono power_increasing) simp_all
    finally have "\<not> 2 ^ 112 \<le> x" by simp
    moreover have "drop_bit n m = of_int \<lfloor>x\<rfloor>"
      unfolding fl unat_drop_bit_div [symmetric] by simp
    ultimately show ?thesis
      using 3 be n by (simp add: f128_to_abs_uint_def d ss Let_def sh_def n_def)
  next
    case 4
    define n where "n = nat sh"
    have n: "sh = int n" using 4 by (simp add: n_def)
    have m112: "2 ^ 112 \<le> unat m" using v(5) 4(1) be by simp
    have xr: "x = real (unat m * 2 ^ n)"
      unfolding xv n by (simp add: power_int_of_nat)
    then have fl: "\<lfloor>x\<rfloor> = int (unat m * 2 ^ n)" by (simp only: floor_of_nat)
    have lt: "unat m * 2 ^ n < 2 ^ 128"
      using x unfolding xr by (simp only: of_nat_less_numeral_power_cancel_iff)
    have geN: "2 ^ 112 \<le> unat m * 2 ^ n"
      using mult_le_mono [OF m112 one_le_power [of "2::nat" n]] by simp
    then have ge: "2 ^ 112 \<le> x"
      unfolding xr by (rule real_nat_bounds(1))
    have "n < 16"
    proof (rule ccontr)
      assume "\<not> n < 16"
      then have "(2::nat) ^ 112 * 2 ^ 16 \<le> unat m * 2 ^ n"
        using m112 by (intro mult_le_mono power_increasing) auto
      with lt show False by simp
    qed
    have um: "unat (push_bit n m) = unat m * 2 ^ n"
      using lt by (intro unat_push_bit_exact) simp
    then have "push_bit n m = of_int \<lfloor>x\<rfloor>"
      unfolding fl um [symmetric] by simp
    moreover have "drop_bit 64 (push_bit n m) \<noteq> 0"
      unfolding drop_bit_eq_0_iff_unat um using geN by simp
    ultimately show ?thesis
      using 4 be mb ge \<open>n < 16\<close> by (auto simp: f128_to_abs_uint_def d ss Let_def sh_def n_def)
  qed
qed

lemma of_int_floor_word:
  fixes k :: int
  assumes "0 \<le> k" "k < 2 ^ 128"
  shows "unat (of_int k :: u128) = nat k"
  using assms by (intro unat_word_of_int_exact) simp_all

lemma f128_to_i64_trunc:
  assumes c: "f128_class b = FpFin s x" and x: "x < 2 ^ 128"
  defines "t \<equiv> (if s then - \<lfloor>x\<rfloor> else \<lfloor>x\<rfloor>)"
  shows "f128_bytes_to_i64 b = (if - (2 ^ 63) \<le> t \<and> t < 2 ^ 63 then Some (of_int t) else None)"
proof -
  define k where "k = \<lfloor>x\<rfloor>"
  note a = f128_to_abs_uint_truncates [OF c x, of 64, folded k_def]
  have k: "0 \<le> k" "k < 2 ^ 128" using a(2,3) by simp_all
  have u: "unat (of_int k :: u128) = nat k"
    using k by (rule of_int_floor_word)
  have gt: "(of_int k :: u128) > 0x8000000000000000 \<longleftrightarrow> k > 2 ^ 63"
    "(of_int k :: u128) > 0x7FFFFFFFFFFFFFFF \<longleftrightarrow> \<not> k < 2 ^ 63"
    using k(1) by (auto simp: word_less_nat_alt u)
  have uc: "(ucast (of_int k :: u128) :: i64) = of_int k"
    by (rule bit_word_eqI) (simp add: bit_simps)
  show ?thesis
  proof (cases "2 ^ 112 \<le> x")
    case True
    then have "2 ^ 112 \<le> k" by (simp add: le_floor_iff k_def)
    then have "\<not> (- (2 ^ 63) \<le> t \<and> t < 2 ^ 63)"
      unfolding t_def k_def [symmetric] by (cases s) simp_all
    then show ?thesis
      using a(1) True by (simp add: f128_bytes_to_i64_def)
  next
    case False
    then show ?thesis
      using a(1) k gt uc unfolding t_def k_def [symmetric] by (auto simp: f128_bytes_to_i64_def)
  qed
qed

lemma f128_to_i128_trunc:
  assumes c: "f128_class b = FpFin s x" and x: "x < 2 ^ 128"
  defines "t \<equiv> (if s then - \<lfloor>x\<rfloor> else \<lfloor>x\<rfloor>)"
  shows "f128_bytes_to_i128 b = (if - (2 ^ 127) \<le> t \<and> t < 2 ^ 127 then Some (of_int t) else None)"
proof -
  define k where "k = \<lfloor>x\<rfloor>"
  note a = f128_to_abs_uint_truncates [OF c x, of 128, folded k_def]
  have k: "0 \<le> k" "k < 2 ^ 128" using a(2,3) by simp_all
  have u: "unat (of_int k :: u128) = nat k"
    using k by (rule of_int_floor_word)
  have gt: "(of_int k :: u128) > 0x80000000000000000000000000000000 \<longleftrightarrow> k > 2 ^ 127"
    "(of_int k :: u128) > 0x7FFFFFFFFFFFFFFFFFFFFFFFFFFFFFFF \<longleftrightarrow> \<not> k < 2 ^ 127"
    using k(1) by (auto simp: word_less_nat_alt u)
  show ?thesis
    using a(1) k gt unfolding t_def k_def [symmetric] by (auto simp: f128_bytes_to_i128_def)
qed

text \<open>
  C33: for every finite binary128 value below \<open>2 ^ 128\<close> in magnitude, the conversions to signed 64-bit
  and 128-bit integers truncate towards zero and answer exactly when the truncated value is
  representable.
\<close>

theorem f128_bytes_to_int_truncates:
  assumes c: "f128_class b = FpFin s x" and x: "x < 2 ^ 128"
  defines "t \<equiv> (if s then - \<lfloor>x\<rfloor> else \<lfloor>x\<rfloor>)"
  shows "f128_bytes_to_i64 b = (if - (2 ^ 63) \<le> t \<and> t < 2 ^ 63 then Some (of_int t) else None) \<and>
    f128_bytes_to_i128 b = (if - (2 ^ 127) \<le> t \<and> t < 2 ^ 127 then Some (of_int t) else None)"
  unfolding t_def using f128_to_i64_trunc [OF c x] f128_to_i128_trunc [OF c x] by blast

theorem f128_bytes_to_int_truncates_witness:
  "f128_bytes_to_i64 (encode_f128 True 0 (push_bit 111 3)) = Some (-1) \<and>
   f128_bytes_to_i128 (encode_f128 True 0 (push_bit 111 3)) = Some (-1)"
proof -
  have "f128_class (encode_f128 True 0 (push_bit 111 3)) = FpFin True (3 / 2)"
    by (subst encode_f128_class) simp_all
  then show ?thesis
    using f128_bytes_to_int_truncates [of "encode_f128 True 0 (push_bit 111 3)" True "3 / 2"] by simp
qed

text \<open>
  Converting a signed 64-bit integer to binary128 is exact, the minimum value included, and
  converting back gives the integer.
\<close>

theorem i64_f128_roundtrip:
  "f128_class (i64_to_f128_bytes v) = FpFin (sint v < 0) (real_of_int \<bar>sint v\<bar>) \<and>
   f128_bytes_to_i64 (i64_to_f128_bytes v) = Some v"
proof -
  note c = i64_to_f128_bytes_exact [of v]
  have r: "- (2 ^ 63) \<le> sint v" "sint v < 2 ^ 63"
    using sint_range_size [of v] by (auto simp: word_size)
  then have "\<bar>sint v\<bar> < 2 ^ 128" by simp
  then have "real_of_int \<bar>sint v\<bar> < real_of_int (2 ^ 128)" by (simp only: of_int_less_iff)
  then have x: "real_of_int \<bar>sint v\<bar> < 2 ^ 128" by simp
  have "f128_bytes_to_i64 (i64_to_f128_bytes v) = Some (of_int (sint v))"
  proof -
    have t: "(if sint v < 0 then - \<lfloor>real_of_int \<bar>sint v\<bar>\<rfloor> else \<lfloor>real_of_int \<bar>sint v\<bar>\<rfloor>) = sint v"
      unfolding floor_of_int by simp
    show ?thesis
      using f128_to_i64_trunc [OF c x, unfolded t] r by (simp only: simp_thms if_True)
  qed
  with c show ?thesis by simp
qed

lemma f128_decompose_encode:
  assumes m: "2 ^ 112 \<le> unat m" "unat m < 2 ^ 113" and b: "-16383 < b" "b < 16384"
  shows "f128_decompose (encode_f128 s b m) = (s, b + 16383, m)"
proof -
  define E :: u128 where "E = word_of_int (b + 16383)"
  have e: "unat E = nat (b + 16383)"
    unfolding E_def using b by (intro unat_word_of_int_exact) auto
  have "m \<noteq> 0" using m(1) by auto
  then have eq: "encode_f128 s b m =
      to_le_bytes 16 ((if s then push_bit 127 1 else 0) OR push_bit 112 E OR take_bit 112 m)"
    using b by (simp add: encode_f128_def Let_def E_def and_masks del: push_bit_of_1 push_bit_numeral_minus_1)
  have l: "unat E < 2 ^ 15" "unat (take_bit 112 m) < 2 ^ 112" "127 = 112 + (15::nat)" "127 < LENGTH(128)"
    using e b by (simp_all add: unat_take_bit_less [of 112, simplified])
  have "unat (push_bit 112 1 OR take_bit 112 m) = unat m"
    using unat_hidden_bit [of 112 m] unat_take_bit_hidden [of 112 m] m by simp
  then have h: "push_bit 112 1 OR take_bit 112 m = m"
    by (simp only: word_unat_eq_iff)
  show ?thesis
    unfolding f128_decompose_fields eq from_to_le_bytes_16 word_fields [OF l] h e using b by (simp add: nat_eq_iff)
qed

text \<open>Above the range the intermediate keeps the low 128 bits of the integer part.\<close>

lemma f128_to_abs_uint_wraps:
  assumes c: "f128_class b = FpFin s x" and x: "2 ^ 128 \<le> x" and mb: "max_bits = 64 \<or> max_bits = 128"
  shows "f128_to_abs_uint b max_bits =
      (if 2 ^ (112 + max_bits) \<le> x \<or> max_bits = 64 \<and> 2 ^ 64 \<le> \<lfloor>x\<rfloor> mod 2 ^ 128 then None else Some (s, of_int \<lfloor>x\<rfloor>))"
proof -
  obtain s' be m where d: "f128_decompose b = (s', be, m)"
    by (cases "f128_decompose b")
  note v = f128_decompose_value [OF d]
  have be: "be \<noteq> 0x7FFF" and ss: "s' = s"
    using v(1) c by (auto split: if_splits)
  define sh where "sh = (if be = 0 then -16382 else be - 16383) - 112"
  have xv: "x = real (unat m) * 2 powi sh"
    using v(1) c be by (simp add: sh_def)
  have m113: "real (unat m) < 2 ^ 113"
    using real_nat_bounds(2) [OF v(4)] .
  have "\<not> sh < 16"
  proof
    assume "sh < 16"
    then have "2 powi sh \<le> (2 :: real) powi 15"
      by (intro powi_mono) simp_all
    then have "x \<le> real (unat m) * 2 powi 15"
      unfolding xv by (intro mult_left_mono) (simp_all del: of_nat_unat)
    also have "\<dots> < 2 ^ 113 * 2 powi 15"
      using m113 by (intro mult_strict_right_mono) (simp_all del: of_nat_unat)
    also have "\<dots> = 2 ^ 128"
      by simp
    finally show False
      using x by simp
  qed
  define n where "n = nat sh"
  have n: "sh = int n" "16 \<le> n" and be0: "be \<noteq> 0"
    using \<open>\<not> sh < 16\<close> by (auto simp: n_def sh_def split: if_splits)
  have m112: "2 ^ 112 \<le> unat m"
    using v(5) be0 be by simp
  have xr: "x = real (unat m * 2 ^ n)"
    unfolding xv n by (simp add: power_int_of_nat)
  then have fl: "\<lfloor>x\<rfloor> = int (unat m * 2 ^ n)"
    by (simp only: floor_of_nat)
  have val: "push_bit n m = of_int \<lfloor>x\<rfloor>"
    unfolding fl by (simp add: push_bit_eq_mult)
  have big: "2 ^ (112 + max_bits) \<le> x \<longleftrightarrow> max_bits \<le> n"
  proof
    assume "max_bits \<le> n"
    then have "2 ^ 112 * 2 ^ max_bits \<le> unat m * 2 ^ n"
      using m112 by (intro mult_le_mono power_increasing) auto
    then show "2 ^ (112 + max_bits) \<le> x"
      unfolding xr power_add [symmetric] by (rule real_nat_bounds(1))
  next
    assume le: "2 ^ (112 + max_bits) \<le> x"
    show "max_bits \<le> n"
    proof (rule ccontr)
      assume "\<not> max_bits \<le> n"
      then have "(2 :: nat) ^ n \<le> 2 ^ (max_bits - 1)"
        by (intro power_increasing) simp_all
      then have "unat m * 2 ^ n < 2 ^ 113 * 2 ^ (max_bits - 1)"
        using v(4) by (intro mult_less_le_imp_less) simp_all
      also have "\<dots> = (2 :: nat) ^ (112 + max_bits)"
        using mb by auto
      finally have "real (unat m * 2 ^ n) < 2 ^ (112 + max_bits)"
        by (rule real_nat_bounds(2))
      then show False
        using le unfolding xr by simp
    qed
  qed
  have high: "drop_bit 64 (push_bit n m) \<noteq> 0 \<longleftrightarrow> 2 ^ 64 \<le> \<lfloor>x\<rfloor> mod 2 ^ 128"
    unfolding drop_bit_eq_0_iff_uint val by (simp add: uint_word_of_int not_less)
  show ?thesis
    using be be0 mb n big high \<open>\<not> sh < 16\<close> unfolding val [symmetric]
    by (auto simp: f128_to_abs_uint_def d ss Let_def sh_def n_def)
qed
text \<open>
  C39: The documented answer above the range is no value, but the code drops high bits. A finite binary128 value whose magnitude is at least
  \<open>2 ^ 128\<close> is reduced modulo \<open>2 ^ 128\<close> after truncation, and the remainder is converted if it fits: to 128 bits below \<open>2 ^ 240\<close>, to signed
  64 bits below \<open>2 ^ 176\<close>.
\<close>

theorem f128_overflow_wraps:
  assumes "f128_class b = FpFin s x" and "2 ^ 128 \<le> x"
  shows "let k = \<lfloor>x\<rfloor> mod 2 ^ 128; t = (if s then - k else k) in
    f128_bytes_to_i128 b = (if x < 2 ^ 240 \<and> - (2 ^ 127) \<le> t \<and> t < 2 ^ 127 then Some (of_int t) else None) \<and>
    f128_bytes_to_i64 b = (if x < 2 ^ 176 \<and> - (2 ^ 63) \<le> t \<and> t < 2 ^ 63 then Some (of_int t) else None)"
proof -
  define w :: u128 where "w = of_int \<lfloor>x\<rfloor>"
  define k where "k = \<lfloor>x\<rfloor> mod 2 ^ 128"
  have k: "uint w = k" "0 \<le> k" "k < 2 ^ 128"
    by (simp_all add: w_def k_def uint_word_of_int)
  have a: "f128_to_abs_uint b 128 = (if 2 ^ 240 \<le> x then None else Some (s, w))"
    "f128_to_abs_uint b 64 = (if 2 ^ 176 \<le> x \<or> 2 ^ 64 \<le> k then None else Some (s, w))"
    using f128_to_abs_uint_wraps [OF assms, of 128] f128_to_abs_uint_wraps [OF assms, of 64] by (simp_all add: w_def k_def)
  have w: "w = of_int k"
    using k(1) by (metis word_of_int_uint)
  have gt: "w > 0x80000000000000000000000000000000 \<longleftrightarrow> k > 2 ^ 127" "w > 0x7FFFFFFFFFFFFFFFFFFFFFFFFFFFFFFF \<longleftrightarrow> \<not> k < 2 ^ 127"
    "w > 0x8000000000000000 \<longleftrightarrow> k > 2 ^ 63" "w > 0x7FFFFFFFFFFFFFFF \<longleftrightarrow> \<not> k < 2 ^ 63"
    by (auto simp: word_less_def k(1))
  have uc: "(ucast w :: i64) = of_int k"
    unfolding w by (rule bit_word_eqI) (simp add: bit_simps)
  show ?thesis
    unfolding Let_def k_def [symmetric] f128_bytes_to_i128_def f128_bytes_to_i64_def a
    using gt uc w k(2) by (cases s) auto
qed

theorem f128_overflow_wraps_witness:
  "f128_bytes_to_i64 (encode_f128 False 128 (push_bit 112 1)) = Some 0 \<and>
   f128_bytes_to_i128 (encode_f128 True 129 (push_bit 112 1)) = Some 0"
proof -
  have "f128_class (encode_f128 False 128 (push_bit 112 1)) = FpFin False (2 ^ 128)"
    "f128_class (encode_f128 True 129 (push_bit 112 1)) = FpFin True (2 ^ 129)"
    by (subst encode_f128_class; simp)+
  then show ?thesis
    using f128_overflow_wraps [of "encode_f128 False 128 (push_bit 112 1)" False "2 ^ 128"]
      f128_overflow_wraps [of "encode_f128 True 129 (push_bit 112 1)" True "2 ^ 129"] by simp
qed

text \<open>The value \<open>2 ^ 64\<close> is cut to its low 64 bits by the unsigned 64-bit conversion.\<close>

theorem f128_overflow_converts_to_zero:
  "f128_class (encode_f128 False 128 (push_bit 112 1)) = FpFin False (2 ^ 128) \<and>
   f128_bytes_to_i64 (encode_f128 False 128 (push_bit 112 1)) = Some 0 \<and>
   f128_bytes_to_i128 (encode_f128 False 128 (push_bit 112 1)) = Some 0 \<and>
   f128_class (encode_f128 False 64 (push_bit 112 1)) = FpFin False (2 ^ 64) \<and>
   f128_bytes_to_u64 (encode_f128 False 64 (push_bit 112 1)) = Some 0"
proof -
  have "f128_class (encode_f128 False 128 (push_bit 112 1)) = FpFin False (2 ^ 128)"
    "f128_class (encode_f128 False 64 (push_bit 112 1)) = FpFin False (2 ^ 64)"
    by (subst encode_f128_class; simp)+
  moreover have "f128_decompose (encode_f128 False 128 (push_bit 112 1)) = (False, 128 + 16383, push_bit 112 1)"
    "f128_decompose (encode_f128 False 64 (push_bit 112 1)) = (False, 64 + 16383, push_bit 112 1)"
    by (rule f128_decompose_encode; simp)+
  ultimately show ?thesis
    by (simp add: f128_bytes_to_i64_def f128_bytes_to_i128_def f128_bytes_to_u64_def f128_to_abs_uint_def)
qed

end
