(* ===== verification/I686Machine.thy ===== *)
theory I686Machine
  imports IrOps
begin

text \<open>
  The part of the i686 code generator that folds multiplications and divisions by constants works on a small
  set of 32-bit instructions. This theory has that instruction set with its effect on the registers, and the
  state of the code generator that emits it: its size-optimisation flag, the text emitted so far, and the memo
  table of the multiplication synthesiser (\<^verbatim>\<open>src/src/backend/i686/codegen/alu.rs\<close>).
\<close>

datatype reg = EAX | ECX | EDX | EBX | ESI | EDI | EBP

datatype instr =
    MovImm u32 reg
  | MovReg reg reg
  | Mull reg
  | Imull reg
  | ImullImm u32 reg reg
  | Subl reg reg
  | Addl reg reg
  | Xorl reg reg
  | AndlImm u32 reg
  | Leal "reg option" reg u32 reg
  | Shll nat reg
  | Shrl nat reg
  | Sarl nat reg
  | Negl reg
  | Cltd

text \<open>
  The effect of an instruction, from the manual of the processor: operands are in the order of the emitted
  text (source first), a shift count is taken modulo 32, the one-operand multiplications leave the product in
  \<^verbatim>\<open>edx:eax\<close>, \<^verbatim>\<open>cltd\<close> fills \<^verbatim>\<open>edx\<close> with the sign of \<^verbatim>\<open>eax\<close>, \<^verbatim>\<open>leal\<close> adds a base register, if there is one, to
  a scaled index register.
\<close>

type_synonym regs = "reg \<Rightarrow> u32"

fun step :: "instr \<Rightarrow> regs \<Rightarrow> regs" where
  "step (MovImm i r) R = R(r := i)"
| "step (MovReg s r) R = R(r := R s)"
| "step (Mull r) R =
     (let p = (ucast (R EAX) :: u64) * ucast (R r) in R(EAX := ucast p, EDX := ucast (drop_bit 32 p)))"
| "step (Imull r) R =
     (let p = (scast (R EAX) :: i64) * scast (R r) in R(EAX := ucast p, EDX := ucast (drop_bit 32 p)))"
| "step (ImullImm i s r) R = R(r := i * R s)"
| "step (Subl s r) R = R(r := R r - R s)"
| "step (Addl s r) R = R(r := R r + R s)"
| "step (Xorl s r) R = R(r := R r XOR R s)"
| "step (AndlImm i r) R = R(r := R r AND i)"
| "step (Leal b x k r) R = R(r := (case b of None \<Rightarrow> 0 | Some b' \<Rightarrow> R b') + R x * k)"
| "step (Shll k r) R = R(r := push_bit (k mod 32) (R r))"
| "step (Shrl k r) R = R(r := drop_bit (k mod 32) (R r))"
| "step (Sarl k r) R = R(r := signed_drop_bit (k mod 32) (R r))"
| "step (Negl r) R = R(r := - R r)"
| "step Cltd R = R(EDX := (if bit (R EAX) 31 then -1 else 0))"

fun run :: "instr list \<Rightarrow> regs \<Rightarrow> regs" where
  "run [] R = R"
| "run (i # is) R = run is (step i R)"

lemma run_append [simp]: "run (is @ js) R = run js (run is R)"
  by (induction "is" arbitrary: R) simp_all

subsection \<open>The state of the code generator\<close>

datatype mul_step =
    Mov
  | LeaSrcSrc nat
  | LeaScaleSrc nat
  | LeaSelf nat
  | LeaSrcPlus nat
  | Shl nat
  | AddSelf
  | AddSrc
  | SubSrc
  | Neg

type_synonym mul_key = "u32 \<times> bool \<times> nat \<times> bool"

record codegen =
  optimize_for_size :: bool
  memo :: "mul_key \<rightharpoonup> mul_step list option"
  out :: "instr list"

definition emit :: "instr list \<Rightarrow> codegen \<Rightarrow> codegen" where
  "emit is cg = cg\<lparr>out := out cg @ is\<rparr>"

lemma emit_simps [simp]:
  "emit [] cg = cg" "emit js (emit is cg) = emit (is @ js) cg"
  "optimize_for_size (emit is cg) = optimize_for_size cg" "memo (emit is cg) = memo cg"
  "out (emit is cg) = out cg @ is"
  by (simp_all add: emit_def)

end
