(* ===== verification/SynthMul.thy ===== *)
theory SynthMul
  imports I686Machine
begin

text \<open>
  Multiplication by a constant on i686 (\<^verbatim>\<open>src/src/backend/i686/codegen/alu.rs\<close>): the search for a short chain
  of shifts, additions and \<^verbatim>\<open>lea\<close>s, its memo table, and the code emitted from a chain. The chain is shown to
  compute the product and to be the best one the search space has.
\<close>

subsection \<open>The search\<close>

fun bytes :: "mul_step \<Rightarrow> nat" where
  "bytes Mov = 2"
| "bytes AddSelf = 2"
| "bytes AddSrc = 2"
| "bytes SubSrc = 2"
| "bytes Neg = 2"
| "bytes (LeaSrcSrc k) = 3"
| "bytes (LeaSelf k) = 3"
| "bytes (LeaSrcPlus k) = 3"
| "bytes (Shl k) = 3"
| "bytes (LeaScaleSrc k) = 7"

record search =
  target :: u32
  same :: bool
  allow_scale_lea :: bool
  best :: "(nat \<times> mul_step list) option"
  path :: "mul_step list"

definition consider_path :: "search \<Rightarrow> search" where
  "consider_path s =
     (let n = sum_list (map bytes (path s))
      in if (case best s of None \<Rightarrow> True | Some (b, _) \<Rightarrow> n < b) then s\<lparr>best := Some (n, path s)\<rparr> else s)"

text \<open>The steps tried after the multiple \<open>cur\<close>, in the order of the code, with the multiple each one gives.\<close>

fun successors :: "bool \<Rightarrow> bool \<Rightarrow> u32 option \<Rightarrow> (mul_step \<times> u32) list" where
  "successors sm scale None =
     (Mov, 1)
     # map (\<lambda>k. (LeaSrcSrc k, 1 + of_nat k)) [1, 2, 4, 8]
     @ (if scale then map (\<lambda>k. (LeaScaleSrc k, of_nat k)) [2, 4, 8] else [])"
| "successors sm scale (Some c) =
     map (\<lambda>k. (LeaSelf k, c * (1 + of_nat k))) [2, 4, 8]
     @ [(AddSelf, c * 2)]
     @ map (\<lambda>k. (Shl k, push_bit k c)) [2..<min (leading_zeros c) 31 + 1]
     @ [(Neg, - c)]
     @ (if sm then []
        else map (\<lambda>k. (LeaSrcPlus k, c * of_nat k + 1)) [1, 2, 4, 8] @ [(AddSrc, c + 1), (SubSrc, c - 1)])"

primrec go :: "nat \<Rightarrow> u32 option \<Rightarrow> search \<Rightarrow> search" where
  "go 0 cur s =
     (if cur = Some (target s)
      then if length (path s) < 3 \<or> (path s \<noteq> [] \<and> hd (path s) = Mov) then consider_path s else s
      else s)"
| "go (Suc depth) cur s =
     (if cur = Some (target s)
      then if length (path s) < 3 \<or> (path s \<noteq> [] \<and> hd (path s) = Mov) then consider_path s else s
      else fold (\<lambda>(st, next) s.
                   let s = go depth (Some next) (s\<lparr>path := path s @ [st]\<rparr>)
                   in s\<lparr>path := butlast (path s)\<rparr>)
             (successors (same s) (allow_scale_lea s) cur) s)"

fun deepen :: "nat list \<Rightarrow> search \<Rightarrow> mul_step list option" where
  "deepen [] s = None"
| "deepen (depth # ds) s =
     (let s = go depth (if same s then Some 1 else None) s
      in case best s of Some (_, chain) \<Rightarrow> Some chain | None \<Rightarrow> deepen ds s)"

definition synth_mul_uncached :: "u32 \<Rightarrow> bool \<Rightarrow> nat \<Rightarrow> bool \<Rightarrow> mul_step list option" where
  "synth_mul_uncached imm sm budget scale =
     (if imm = 0 then None
      else if sm \<and> imm = 1 then Some []
      else deepen [1..<budget + 1]
             \<lparr>target = imm, same = sm, allow_scale_lea = scale, best = None, path = []\<rparr>)"

definition synth_mul :: "u32 \<Rightarrow> bool \<Rightarrow> nat \<Rightarrow> bool \<Rightarrow> codegen \<Rightarrow> mul_step list option \<times> codegen" where
  "synth_mul imm sm budget scale cg =
     (let key = (imm, sm, budget, scale)
      in case memo cg key of
           Some hit \<Rightarrow> (hit, cg)
         | None \<Rightarrow>
             let result = synth_mul_uncached imm sm budget scale
             in (result, cg\<lparr>memo := (memo cg)(key \<mapsto> result)\<rparr>))"

subsection \<open>The emitted code\<close>

fun mul_step_instr :: "reg \<Rightarrow> reg \<Rightarrow> mul_step \<Rightarrow> instr" where
  "mul_step_instr src dest Mov = MovReg src dest"
| "mul_step_instr src dest (LeaSrcSrc k) = Leal (Some src) src (of_nat k) dest"
| "mul_step_instr src dest (LeaScaleSrc k) = Leal None src (of_nat k) dest"
| "mul_step_instr src dest (LeaSelf k) = Leal (Some dest) dest (of_nat k) dest"
| "mul_step_instr src dest (LeaSrcPlus k) = Leal (Some src) dest (of_nat k) dest"
| "mul_step_instr src dest (Shl k) = Shll k dest"
| "mul_step_instr src dest AddSelf = Addl dest dest"
| "mul_step_instr src dest AddSrc = Addl src dest"
| "mul_step_instr src dest SubSrc = Subl src dest"
| "mul_step_instr src dest Neg = Negl dest"

definition try_emit_mul_imm_reg :: "reg \<Rightarrow> reg \<Rightarrow> i64 \<Rightarrow> codegen \<Rightarrow> bool \<times> codegen" where
  "try_emit_mul_imm_reg src dest imm cg =
     (let sm = (src = dest);
          imm = (ucast imm :: u32)
      in if imm = 0 then (True, emit [Xorl dest dest] cg)
         else let budget = (if optimize_for_size cg then 1 else if sm then 2 else 3)
              in case synth_mul imm sm budget (\<not> optimize_for_size cg) cg of
                   (None, cg) \<Rightarrow> (False, cg)
                 | (Some chain, cg) \<Rightarrow> (True, emit (map (mul_step_instr src dest) chain) cg))"

subsection \<open>The search is exhaustive and returns a best chain\<close>

definition admitted :: "mul_step list \<Rightarrow> bool" where
  "admitted chain \<longleftrightarrow> length chain < 3 \<or> (chain \<noteq> [] \<and> hd chain = Mov)"

fun reaches :: "bool \<Rightarrow> bool \<Rightarrow> u32 option \<Rightarrow> mul_step list \<Rightarrow> u32 \<Rightarrow> bool" where
  "reaches sm scale cur [] v \<longleftrightarrow> cur = Some v"
| "reaches sm scale cur (st # sts) v \<longleftrightarrow>
     (\<exists>(st', c) \<in> set (successors sm scale cur). st' = st \<and> reaches sm scale (Some c) sts v)"

definition chain_cost :: "mul_step list \<Rightarrow> nat" where
  "chain_cost chain = sum_list (map bytes chain)"

text \<open>The chains the search considers, in order.\<close>

primrec found :: "bool \<Rightarrow> bool \<Rightarrow> u32 \<Rightarrow> nat \<Rightarrow> u32 option \<Rightarrow> mul_step list \<Rightarrow> mul_step list list" where
  "found sm scale t 0 cur pre = (if cur = Some t then if admitted pre then [pre] else [] else [])"
| "found sm scale t (Suc depth) cur pre =
     (if cur = Some t then if admitted pre then [pre] else []
      else concat (map (\<lambda>(st, c). found sm scale t depth (Some c) (pre @ [st])) (successors sm scale cur)))"

definition better :: "mul_step list \<Rightarrow> (nat \<times> mul_step list) option \<Rightarrow> (nat \<times> mul_step list) option" where
  "better chain b =
     (if (case b of None \<Rightarrow> True | Some (n, _) \<Rightarrow> chain_cost chain < n) then Some (chain_cost chain, chain) else b)"

lemma consider_path_better: "consider_path s = s\<lparr>best := better (path s) (best s)\<rparr>"
  by (cases "best s") (auto simp: consider_path_def better_def chain_cost_def Let_def)

lemma go_step_best:
  assumes "\<And>cur s. go depth cur s =
      s\<lparr>best := fold better (found (same s) (allow_scale_lea s) (target s) depth cur (path s)) (best s)\<rparr>"
  shows "fold (\<lambda>(st, next) s. let s = go depth (Some next) (s\<lparr>path := path s @ [st]\<rparr>) in s\<lparr>path := butlast (path s)\<rparr>) xs s =
    s\<lparr>best := fold better (concat (map (\<lambda>(st, c). found (same s) (allow_scale_lea s) (target s) depth (Some c) (path s @ [st])) xs))
       (best s)\<rparr>"
proof (induction xs arbitrary: s)
  case (Cons x xs)
  then show ?case by (cases x) (simp add: assms Let_def)
qed simp

lemma go_best:
  "go depth cur s = s\<lparr>best := fold better (found (same s) (allow_scale_lea s) (target s) depth cur (path s)) (best s)\<rparr>"
proof (induction depth arbitrary: cur s)
  case 0
  then show ?case by (simp add: consider_path_better admitted_def)
next
  case (Suc depth)
  show ?case
    by (simp add: consider_path_better admitted_def go_step_best [OF Suc.IH] del: successors.simps)
qed

lemma fold_better_cases:
  "case fold better xs b of
     None \<Rightarrow> b = None \<and> xs = []
   | Some (n, c) \<Rightarrow> (b = Some (n, c) \<or> c \<in> set xs \<and> n = chain_cost c)
        \<and> (\<forall>x \<in> set xs. n \<le> chain_cost x) \<and> (\<forall>n' c'. b = Some (n', c') \<longrightarrow> n \<le> n')"
proof (induction xs arbitrary: b)
  case Nil
  then show ?case by (auto split: option.splits)
next
  case (Cons x xs)
  show ?case
    using Cons.IH [of "better x b"] by (auto simp: better_def split: option.splits if_splits)
qed

lemma successors_functional:
  "(st, c) \<in> set (successors sm scale cur) \<Longrightarrow> (st, c') \<in> set (successors sm scale cur) \<Longrightarrow> c = c'"
  by (cases cur) (auto split: if_splits)

lemma reaches_Cons:
  "(st, c) \<in> set (successors sm scale cur) \<Longrightarrow>
   reaches sm scale cur (st # sts) v \<longleftrightarrow> reaches sm scale (Some c) sts v"
  unfolding reaches.simps(2) Bex_def split_paired_Ex prod.case by (metis successors_functional)

definition first_hit :: "bool \<Rightarrow> bool \<Rightarrow> u32 \<Rightarrow> u32 option \<Rightarrow> mul_step list \<Rightarrow> bool" where
  "first_hit sm scale t cur sts \<longleftrightarrow>
     reaches sm scale cur sts t \<and> (\<forall>i < length sts. \<not> reaches sm scale cur (take i sts) t)"

lemma first_hit_Cons:
  assumes "(st, c) \<in> set (successors sm scale cur)" "cur \<noteq> Some t"
  shows "first_hit sm scale t cur (st # sts) \<longleftrightarrow> first_hit sm scale t (Some c) sts"
  using assms(2) reaches_Cons [OF assms(1)]
  by (simp add: first_hit_def All_less_Suc2 del: reaches.simps(2) successors.simps)

lemma first_hit_Nil: "first_hit sm scale t (Some t) sts \<longleftrightarrow> sts = []"
  by (cases sts) (auto simp: first_hit_def dest: spec [of _ 0])

lemma first_hit_ConsD:
  assumes "first_hit sm scale t cur sts" "cur \<noteq> Some t"
  obtains st c sts' where "sts = st # sts'" "(st, c) \<in> set (successors sm scale cur)" "first_hit sm scale t (Some c) sts'"
  using assms
proof (cases sts)
  case (Cons st sts')
  with assms(1) obtain c where c: "(st, c) \<in> set (successors sm scale cur)"
    by (auto simp: first_hit_def simp del: successors.simps)
  have "first_hit sm scale t (Some c) sts'"
    using first_hit_Cons [OF c assms(2)] assms(1) Cons by simp
  then show ?thesis by (rule that [OF Cons c])
qed (simp add: first_hit_def)

lemma set_found:
  "chain \<in> set (found sm scale t depth cur pre) \<longleftrightarrow>
   (\<exists>sts. chain = pre @ sts \<and> length sts \<le> depth \<and> first_hit sm scale t cur sts \<and> admitted chain)"
proof (induction depth arbitrary: cur pre)
  case 0
  then show ?case by (auto simp: first_hit_def)
next
  case (Suc depth)
  show ?case
  proof (cases "cur = Some t")
    case True
    then show ?thesis by (auto simp: first_hit_Nil)
  next
    case False
    have "chain \<in> set (found sm scale t (Suc depth) cur pre) \<longleftrightarrow>
      (\<exists>st c. (st, c) \<in> set (successors sm scale cur) \<and> chain \<in> set (found sm scale t depth (Some c) (pre @ [st])))"
      using False by (auto simp del: successors.simps)
    also have "\<dots> \<longleftrightarrow> (\<exists>sts. chain = pre @ sts \<and> length sts \<le> Suc depth \<and> first_hit sm scale t cur sts \<and> admitted chain)"
    proof
      assume "\<exists>st c. (st, c) \<in> set (successors sm scale cur) \<and> chain \<in> set (found sm scale t depth (Some c) (pre @ [st]))"
      then obtain st c sts where "(st, c) \<in> set (successors sm scale cur)" "chain = (pre @ [st]) @ sts"
        "length sts \<le> depth" "first_hit sm scale t (Some c) sts" "admitted chain"
        unfolding Suc.IH by blast
      then show "\<exists>sts. chain = pre @ sts \<and> length sts \<le> Suc depth \<and> first_hit sm scale t cur sts \<and> admitted chain"
        by (intro exI [of _ "st # sts"]) (simp add: first_hit_Cons False del: successors.simps)
    next
      assume "\<exists>sts. chain = pre @ sts \<and> length sts \<le> Suc depth \<and> first_hit sm scale t cur sts \<and> admitted chain"
      then obtain sts where sts: "chain = pre @ sts" "length sts \<le> Suc depth" "first_hit sm scale t cur sts" "admitted chain"
        by blast
      from sts(3) False obtain st c sts' where "sts = st # sts'" "(st, c) \<in> set (successors sm scale cur)"
        "first_hit sm scale t (Some c) sts'" by (rule first_hit_ConsD)
      with sts show "\<exists>st c. (st, c) \<in> set (successors sm scale cur) \<and> chain \<in> set (found sm scale t depth (Some c) (pre @ [st]))"
        unfolding Suc.IH by (intro exI [of _ st] exI [of _ c] conjI exI [of _ sts']) simp_all
    qed
    finally show ?thesis .
  qed
qed

lemma fold_better_None:
  "fold better xs None = None \<longleftrightarrow> xs = []"
  using fold_better_cases [where xs = xs and b = None] by (auto split: option.splits)

lemma fold_better_Some:
  assumes "fold better xs None = Some (n, c)"
  shows "c \<in> set xs" "x \<in> set xs \<Longrightarrow> chain_cost c \<le> chain_cost x"
  using fold_better_cases [where xs = xs and b = None] assms by auto

definition solves :: "bool \<Rightarrow> bool \<Rightarrow> u32 \<Rightarrow> mul_step list \<Rightarrow> bool" where
  "solves sm scale imm chain \<longleftrightarrow>
     reaches sm scale (if sm then Some 1 else None) chain imm \<and> admitted chain"

lemma admitted_take: "admitted chain \<Longrightarrow> admitted (take i chain)"
  by (cases chain; cases i) (auto simp: admitted_def)

lemma deepen_best:
  assumes s: "best s = None" "path s = []"
    and none: "\<And>c. solves (same s) (allow_scale_lea s) (target s) c \<Longrightarrow> n \<le> length c"
  shows "case deepen [n..<m] s of
       None \<Rightarrow> \<forall>c. solves (same s) (allow_scale_lea s) (target s) c \<longrightarrow> m \<le> length c
     | Some chain \<Rightarrow> solves (same s) (allow_scale_lea s) (target s) chain \<and> length chain < m \<and>
         (\<forall>c. solves (same s) (allow_scale_lea s) (target s) c \<longrightarrow>
            length chain < length c \<or> length chain = length c \<and> chain_cost chain \<le> chain_cost c)"
  using none
proof (induction "m - n" arbitrary: n)
  case 0
  then have "[n..<m] = []" "m \<le> n" by simp_all
  then show ?case using 0 by (auto intro: le_trans)
next
  case (Suc k)
  then have nm: "[n..<m] = n # [Suc n..<m]" "n < m" "k = m - Suc n"
    by (auto simp: upt_conv_Cons)
  define start where "start = (if same s then Some 1 else None :: u32 option)"
  define xs where "xs = found (same s) (allow_scale_lea s) (target s) n start []"
  have go: "best (go n start s) = fold better xs None"
    using s by (simp add: go_best xs_def)
  have xs_solves: "solves (same s) (allow_scale_lea s) (target s) c \<and> length c \<le> n" if "c \<in> set xs" for c
    using that by (auto simp: xs_def set_found first_hit_def solves_def start_def)
  have solves_xs: "c \<in> set xs" if c: "solves (same s) (allow_scale_lea s) (target s) c" "length c = n" for c
  proof -
    have "\<not> reaches (same s) (allow_scale_lea s) start (take i c) (target s)" if "i < length c" for i
      using Suc.prems [of "take i c"] that c admitted_take [of c i] by (auto simp: solves_def start_def)
    then show ?thesis
      using c by (auto simp: xs_def set_found first_hit_def solves_def start_def)
  qed
  show ?case
  proof (cases "fold better xs None")
    case None
    then have "xs = []" by (simp add: fold_better_None)
    then have "Suc n \<le> length c" if "solves (same s) (allow_scale_lea s) (target s) c" for c
      using Suc.prems [OF that] solves_xs [OF that] by (auto simp: le_less)
    moreover have "go n start s = s"
      using s None by (simp add: go_best xs_def [symmetric])
    ultimately show ?thesis
      using Suc.hyps(1) [of "Suc n"] nm(3) None unfolding nm(1) by (simp add: start_def [symmetric] s)
  next
    case (Some b)
    obtain cost chain where b: "b = (cost, chain)" by (cases b)
    note best = fold_better_Some [OF Some [unfolded b]]
    have len: "length chain = n"
      using xs_solves [OF best(1)] Suc.prems [of chain] by auto
    have "length chain < length c \<or> length chain = length c \<and> chain_cost chain \<le> chain_cost c"
      if "solves (same s) (allow_scale_lea s) (target s) c" for c
      using Suc.prems [OF that] solves_xs [OF that] best(2) [of c] len by (cases "length c = n") auto
    then show ?thesis
      using xs_solves [OF best(1)] nm(2) len Some b go unfolding nm(1) by (simp add: start_def [symmetric])
  qed
qed

text \<open>
  C15: the search for a multiplication chain is exhaustive and its answer optimal: a chain it returns computes
  the constant, starts with a move if it has three steps, fits the budget, and no other such chain is shorter, or as
  short with fewer bytes; when it returns nothing for a nonzero constant, every chain that computes it is
  longer than the budget.
\<close>

theorem synth_mul_uncached_optimal:
  "case synth_mul_uncached imm sm budget scale of
     None \<Rightarrow> (\<nexists>c. imm \<noteq> 0 \<and> solves sm scale imm c \<and> length c \<le> budget)
   | Some chain \<Rightarrow> imm \<noteq> 0 \<and> solves sm scale imm chain \<and> length chain \<le> budget \<and>
       (\<nexists>c. solves sm scale imm c \<and>
          (length c < length chain \<or> length c = length chain \<and> chain_cost c < chain_cost chain))"
proof -
  let ?s = "\<lparr>target = imm, same = sm, allow_scale_lea = scale, best = None, path = []\<rparr>"
  consider "imm = 0" | "imm \<noteq> 0" "sm" "imm = 1" | "imm \<noteq> 0" "\<not> (sm \<and> imm = 1)" by blast
  then show ?thesis
  proof cases
    case 3
    have "1 \<le> length c" if "solves sm scale imm c" for c
      using that 3 by (cases c) (auto simp: solves_def split: if_splits)
    then have "case deepen [1..<budget + 1] ?s of
       None \<Rightarrow> \<forall>c. solves sm scale imm c \<longrightarrow> budget + 1 \<le> length c
     | Some chain \<Rightarrow> solves sm scale imm chain \<and> length chain < budget + 1 \<and>
         (\<forall>c. solves sm scale imm c \<longrightarrow>
            length chain < length c \<or> length chain = length c \<and> chain_cost chain \<le> chain_cost c)"
      by (rule deepen_best [of ?s 1 "budget + 1", unfolded search.simps, OF refl refl])
    moreover have "synth_mul_uncached imm sm budget scale = deepen [1..<budget + 1] ?s"
      using 3 by (simp only: synth_mul_uncached_def if_False)
    ultimately show ?thesis
      using 3(1) by (cases "deepen [1..<budget + 1] ?s") (simp_all add: Suc_le_eq less_Suc_eq_le not_less, fastforce+)
  qed (auto simp: synth_mul_uncached_def solves_def admitted_def chain_cost_def)
qed

subsection \<open>A chain computes the product\<close>

text \<open>
  \<open>holds\<close>: the destination register holds \<open>cur\<close> times the operand \<open>x\<close>; while steps may still read the source
  register, it holds \<open>x\<close>.
\<close>

definition holds :: "bool \<Rightarrow> reg \<Rightarrow> reg \<Rightarrow> u32 option \<Rightarrow> u32 \<Rightarrow> regs \<Rightarrow> bool" where
  "holds sm src dest cur x R \<longleftrightarrow>
     (case cur of None \<Rightarrow> \<not> sm | Some c \<Rightarrow> R dest = c * x) \<and> (\<not> sm \<longrightarrow> src \<noteq> dest \<and> R src = x)"

lemma mul_step_holds:
  assumes "holds sm src dest cur x R" "(st, c) \<in> set (successors sm scale cur)"
  shows "holds sm src dest (Some c) x (step (mul_step_instr src dest st) R)"
    and "r \<noteq> dest \<Longrightarrow> step (mul_step_instr src dest st) R r = R r"
  using assms
  by (cases cur; auto simp: holds_def push_bit_eq_mult algebra_simps split: if_splits)+

lemma chain_holds:
  "reaches sm scale cur chain v \<Longrightarrow> holds sm src dest cur x R \<Longrightarrow>
   run (map (mul_step_instr src dest) chain) R dest = v * x \<and>
   (\<forall>r. r \<noteq> dest \<longrightarrow> run (map (mul_step_instr src dest) chain) R r = R r)"
proof (induction chain arbitrary: cur R)
  case Nil
  then show ?case by (simp add: holds_def)
next
  case (Cons st sts)
  then obtain c where c: "(st, c) \<in> set (successors sm scale cur)" "reaches sm scale (Some c) sts v"
    by (auto simp del: successors.simps)
  show ?case
    using Cons.IH [OF c(2) mul_step_holds(1) [OF Cons.prems(2) c(1)]] mul_step_holds(2) [OF Cons.prems(2) c(1)]
    by simp
qed

lemma solves_product:
  assumes "solves (src = dest) scale imm chain"
  shows "run (map (mul_step_instr src dest) chain) R dest = imm * R src"
    and "r \<noteq> dest \<Longrightarrow> run (map (mul_step_instr src dest) chain) R r = R r"
  using chain_holds [of "src = dest" scale _ chain imm src dest "R src" R] assms
  by (auto simp: solves_def holds_def split: if_splits)

subsection \<open>The memo table\<close>

definition memo_ok :: "codegen \<Rightarrow> bool" where
  "memo_ok cg \<longleftrightarrow>
     (\<forall>imm sm b scale r. memo cg (imm, sm, b, scale) = Some r \<longrightarrow> r = synth_mul_uncached imm sm b scale)"

text \<open>
  What an emitter does to the state of the code generator: it appends \<open>is\<close> to the emitted text and may fill the memo
  table.
\<close>

definition appends :: "codegen \<Rightarrow> instr list \<Rightarrow> codegen \<Rightarrow> bool" where
  "appends cg is cg' \<longleftrightarrow>
     out cg' = out cg @ is \<and> optimize_for_size cg' = optimize_for_size cg \<and> (memo_ok cg \<longrightarrow> memo_ok cg')"

lemma memo_ok_emit [simp]: "memo_ok (emit is cg) = memo_ok cg"
  by (simp only: memo_ok_def emit_simps)

lemma appends_emit: "appends cg is cg' \<Longrightarrow> appends cg (is @ js) (emit js cg')"
  by (simp add: appends_def)

lemma appends_refl [simp]: "appends cg [] cg"
  by (simp add: appends_def)

lemma appends_emit_refl [simp]: "appends cg is (emit is cg)"
  by (simp add: appends_def)

lemma appends_trans: "appends cg is cg1 \<Longrightarrow> appends cg1 js cg2 \<Longrightarrow> appends cg (is @ js) cg2"
  by (simp add: appends_def)

lemma synth_mul_memo:
  assumes "synth_mul imm sm b scale cg = (r, cg')"
  shows "appends cg [] cg'" "memo_ok cg \<Longrightarrow> r = synth_mul_uncached imm sm b scale"
  using assms by (auto simp: synth_mul_def appends_def memo_ok_def Let_def split: option.splits if_splits)

lemma synth_mul_uncached_solves:
  assumes "synth_mul_uncached imm sm b scale = Some chain"
  shows "solves sm scale imm chain"
proof (cases "sm \<and> imm = 1")
  case True
  then show ?thesis using assms by (auto simp: synth_mul_uncached_def solves_def admitted_def)
next
  case False
  let ?s = "\<lparr>target = imm, same = sm, allow_scale_lea = scale, best = None, path = []\<rparr>"
  have d: "deepen [0 + 1..<b + 1] ?s = Some chain"
    using assms False by (auto simp: synth_mul_uncached_def split: if_splits simp del: upt_Suc)
  have "1 \<le> length c" if "solves sm scale imm c" for c
    using that False by (cases c) (auto simp: solves_def split: if_splits)
  then show ?thesis
    using deepen_best [of ?s 1 "b + 1", unfolded search.simps, OF refl refl] d by simp
qed

lemma try_emit_mul:
  assumes "memo_ok cg" "try_emit_mul_imm_reg src dest imm cg = (ok, cg')"
  shows "memo_ok cg' \<and> (\<exists>is. appends cg is cg' \<and>
     (if ok then \<forall>R r. run is R r = (if r = dest then ucast imm * R src else R r) else is = []))"
proof -
  let ?imm = "ucast imm :: u32"
  let ?b = "if optimize_for_size cg then 1 else if src = dest then 2 else 3 :: nat"
  obtain r cg1 where r: "synth_mul ?imm (src = dest) ?b (\<not> optimize_for_size cg) cg = (r, cg1)"
    by (cases "synth_mul ?imm (src = dest) ?b (\<not> optimize_for_size cg) cg")
  note m = synth_mul_memo [OF r]
  have "\<exists>is. appends cg is cg' \<and>
     (if ok then \<forall>R r. run is R r = (if r = dest then ?imm * R src else R r) else is = [])"
  proof (cases "?imm = 0")
    case True
    then show ?thesis
      using assms(2) by (intro exI [of _ "[Xorl dest dest]"]) (auto simp: try_emit_mul_imm_reg_def Let_def)
  next
    case False
    then show ?thesis
    proof (cases r)
      case None
      then show ?thesis
        using assms(2) r False m(1) by (intro exI [of _ "[]"]) (auto simp: try_emit_mul_imm_reg_def Let_def)
    next
      case (Some chain)
      then have "solves (src = dest) (\<not> optimize_for_size cg) ?imm chain"
        using m(2) assms(1) synth_mul_uncached_solves by metis
      note run = solves_product [OF this]
      have "ok" "cg' = emit (map (mul_step_instr src dest) chain) cg1"
        using assms(2) r False Some by (auto simp: try_emit_mul_imm_reg_def Let_def)
      then show ?thesis
        using run appends_emit [OF m(1), of "map (mul_step_instr src dest) chain"]
        by (intro exI [of _ "map (mul_step_instr src dest) chain"]) auto
    qed
  qed
  then show ?thesis using assms(1) by (auto simp: appends_def)
qed

text \<open>
  C24: multiplying by a constant through a synthesised chain: whenever the emitter takes the job, the code it
  appends leaves the source times the constant, modulo \<open>2 ^ 32\<close>, in the destination and changes no other register,
  also when source and destination are the same register; when it declines it appends nothing. Either way the
  memo table still agrees with the search.
\<close>

theorem try_emit_mul_imm_reg_multiplies:
  assumes "memo_ok cg" "try_emit_mul_imm_reg src dest imm cg = (ok, cg')"
  shows "memo_ok cg' \<and> (\<exists>is. appends cg is cg' \<and>
     (if ok then \<forall>R r. run is R r = (if r = dest then ucast imm * R src else R r) else is = []))"
  using assms by (rule try_emit_mul)

definition idle_codegen :: codegen where
  "idle_codegen = \<lparr>optimize_for_size = False, memo = Map.empty, out = []\<rparr>"

lemma memo_ok_idle [simp]: "memo_ok idle_codegen"
  by (simp add: memo_ok_def idle_codegen_def)

lemma synth_mul_five: "synth_mul_uncached 5 False 3 True = Some [LeaSrcSrc 4]"
  by code_simp

theorem try_emit_mul_imm_reg_multiplies_witness:
  "\<exists>cg'. try_emit_mul_imm_reg EAX EDX 5 idle_codegen = (True, cg') \<and> memo_ok cg' \<and>
     (\<exists>is. appends idle_codegen is cg' \<and> (\<forall>R r. run is R r = (if r = EDX then 5 * R EAX else R r)))"
proof -
  obtain cg' where cg': "try_emit_mul_imm_reg EAX EDX 5 idle_codegen = (True, cg')"
    by (simp add: try_emit_mul_imm_reg_def synth_mul_def idle_codegen_def synth_mul_five Let_def)
  have "ucast (5 :: i64) = (5 :: u32)" by simp
  then show ?thesis
    using try_emit_mul_imm_reg_multiplies [OF memo_ok_idle cg'] cg' by (simp only: if_True) blast
qed

end
