(* ===== verification/MagicDiv.thy ===== *)
theory MagicDiv
  imports SynthMul
begin

text \<open>
  Division by constants on i686: the multiplier and shift of
  \<^verbatim>\<open>src/src/backend/i686/codegen/magic_div.rs\<close> and the code that
  \<^verbatim>\<open>src/src/backend/i686/codegen/alu.rs\<close> emits for division and remainder by a constant. The \<^verbatim>\<open>u64\<close>
  variables of the search stay far below their limit and are natural numbers; a failed assertion
  and an iteration count past the asserted bound are \<^const>\<open>None\<close>. Debug assertions are checked, although a release build leaves them out: with the
  divisors zero and plus or minus one, which \<open>emit_sdiv_const_in_eax\<close> and \<open>emit_srem_const_in_eax\<close> exclude by assertion, no caller reaches them.
\<close>

definition is_power_of_two :: "u32 \<Rightarrow> bool" where
  "is_power_of_two d \<longleftrightarrow> d \<noteq> 0 \<and> d AND (d - 1) = 0"

subsection \<open>The search for a multiplier\<close>

fun magic_u_loop :: "nat \<Rightarrow> nat \<Rightarrow> nat \<Rightarrow> nat \<Rightarrow> nat \<Rightarrow> nat \<Rightarrow> nat \<Rightarrow> nat \<Rightarrow> bool \<Rightarrow> (nat \<times> nat \<times> bool) option" where
  "magic_u_loop 0 nc d64 p q1 r1 q2 r2 add = None"
| "magic_u_loop (Suc fuel) nc d64 p q1 r1 q2 r2 add =
     (let half = 2 ^ 31;
          p = p + 1;
          (q1, r1) = (if r1 \<ge> nc - r1 then (q1 * 2 + 1, r1 * 2 - nc) else (q1 * 2, r1 * 2));
          (add, q2, r2) =
            (if r2 + 1 \<ge> d64 - r2 then (add \<or> q2 \<ge> half - 1, q2 * 2 + 1, r2 * 2 + 1 - d64)
             else (add \<or> q2 \<ge> half, q2 * 2, r2 * 2 + 1));
          delta = d64 - 1 - r2
      in if q1 > delta \<or> (q1 = delta \<and> r1 \<noteq> 0) then Some (p, q2, add)
         else magic_u_loop fuel nc d64 p q1 r1 q2 r2 add)"

definition magic_u32 :: "u32 \<Rightarrow> (u32 \<times> nat \<times> bool) option" where
  "magic_u32 d =
     (if \<not> (d \<ge> 2 \<and> \<not> is_power_of_two d) then None
      else let d64 = unat d;
               all_ones = 2 ^ 32 - 1;
               half = 2 ^ 31;
               nc = all_ones - (all_ones - d64 + 1) mod d64;
               q1 = half div nc;
               r1 = half - q1 * nc;
               q2 = (half - 1) div d64;
               r2 = (half - 1) - q2 * d64
           in case magic_u_loop 33 nc d64 31 q1 r1 q2 r2 False of
                None \<Rightarrow> None
              | Some (p, q2, add) \<Rightarrow>
                  let shift = p - 32
                  in if \<not> (if add then 1 \<le> shift \<and> shift \<le> 32 else shift < 32) then None
                     else Some (of_nat (q2 + 1), shift, add))"

fun magic_s_loop :: "nat \<Rightarrow> nat \<Rightarrow> nat \<Rightarrow> nat \<Rightarrow> nat \<Rightarrow> nat \<Rightarrow> nat \<Rightarrow> nat \<Rightarrow> (nat \<times> nat) option" where
  "magic_s_loop 0 anc ad p q1 r1 q2 r2 = None"
| "magic_s_loop (Suc fuel) anc ad p q1 r1 q2 r2 =
     (let p = p + 1;
          (q1, r1) = (if r1 * 2 \<ge> anc then (q1 * 2 + 1, r1 * 2 - anc) else (q1 * 2, r1 * 2));
          (q2, r2) = (if r2 * 2 \<ge> ad then (q2 * 2 + 1, r2 * 2 - ad) else (q2 * 2, r2 * 2));
          delta = ad - r2
      in if q1 > delta \<or> (q1 = delta \<and> r1 \<noteq> 0) then Some (p, q2)
         else magic_s_loop fuel anc ad p q1 r1 q2 r2)"

definition magic_s32 :: "i32 \<Rightarrow> (i32 \<times> nat) option" where
  "magic_s32 d =
     (if \<not> sint d \<ge> 2 then None
      else let ad = unat d;
               two31 = 2 ^ 31;
               anc = two31 - 1 - two31 mod ad;
               q1 = two31 div anc;
               r1 = two31 - q1 * anc;
               q2 = two31 div ad;
               r2 = two31 - q2 * ad
           in case magic_s_loop 32 anc ad 31 q1 r1 q2 r2 of
                None \<Rightarrow> None
              | Some (p, q2) \<Rightarrow>
                  let shift = p - 32
                  in if \<not> shift < 32 then None else Some (of_nat (q2 + 1), shift))"

subsection \<open>The emitted code\<close>

definition emit_udiv_const_in_eax :: "u32 \<Rightarrow> codegen \<Rightarrow> codegen option" where
  "emit_udiv_const_in_eax d cg =
     (if d = 1 then Some cg
      else if is_power_of_two d then
        (let k = trailing_zeros d in Some (if k \<noteq> 0 then emit [Shrl k EAX] cg else cg))
      else case magic_u32 d of
        None \<Rightarrow> None
      | Some (m, s, add) \<Rightarrow>
          Some (if add
                then let cg = emit [MovReg EAX ECX, MovImm m EAX, Mull ECX, Subl EDX ECX, Shrl 1 ECX,
                                    Leal (Some EDX) ECX 1 EAX] cg
                     in if s > 1 then emit [Shrl (s - 1) EAX] cg else cg
                else let cg = emit [MovImm m ECX, Mull ECX, MovReg EDX EAX] cg
                     in if s > 0 then emit [Shrl s EAX] cg else cg))"

definition emit_udiv_magic_keep_n :: "u32 \<Rightarrow> codegen \<Rightarrow> codegen option" where
  "emit_udiv_magic_keep_n d cg =
     (if \<not> (d \<ge> 3 \<and> \<not> is_power_of_two d) then None
      else case magic_u32 d of
        None \<Rightarrow> None
      | Some (m, s, add) \<Rightarrow>
          let cg = emit [MovReg EAX ECX, MovImm m EAX, Mull ECX] cg
          in Some (if add
                   then let cg = emit [MovReg ECX EAX, Subl EDX EAX, Shrl 1 EAX, Addl EDX EAX] cg
                        in if s > 1 then emit [Shrl (s - 1) EAX] cg else cg
                   else let cg = emit [MovReg EDX EAX] cg
                        in if s > 0 then emit [Shrl s EAX] cg else cg))"

text \<open>The product by a synthesised chain, or by \<^verbatim>\<open>imull\<close> when there is none.\<close>

definition emit_mul_back :: "reg \<Rightarrow> reg \<Rightarrow> u32 \<Rightarrow> codegen \<Rightarrow> codegen" where
  "emit_mul_back src dest d cg =
     (let (done, cg) = try_emit_mul_imm_reg src dest (ucast d) cg
      in if \<not> done then emit [ImullImm d src dest] cg else cg)"

definition emit_urem_const_in_eax :: "u32 \<Rightarrow> codegen \<Rightarrow> codegen option" where
  "emit_urem_const_in_eax d cg =
     (if d = 1 then Some (emit [Xorl EAX EAX] cg)
      else if is_power_of_two d then Some (emit [AndlImm (d - 1) EAX] cg)
      else case emit_udiv_magic_keep_n d cg of
        None \<Rightarrow> None
      | Some cg \<Rightarrow> Some (emit [MovReg ECX EAX, Subl EDX EAX] (emit_mul_back EAX EDX d cg)))"

definition emit_sdiv_magic_core :: "u32 \<Rightarrow> codegen \<Rightarrow> codegen option" where
  "emit_sdiv_magic_core ad cg =
     (if \<not> (ad \<ge> 3 \<and> \<not> is_power_of_two ad) then None
      else case magic_s32 ad of
        None \<Rightarrow> None
      | Some (m, s) \<Rightarrow>
          let cg = emit [MovReg EAX ECX, MovImm m EAX, Imull ECX] cg;
              cg = (if sint m < 0 then emit [Addl ECX EDX] cg else cg);
              cg = (if s > 0 then emit [Sarl s EDX] cg else cg)
          in Some (emit [MovReg ECX EAX, Sarl 31 EAX, Subl EAX EDX] cg))"

definition unsigned_abs :: "i32 \<Rightarrow> u32" where
  "unsigned_abs d = (if sint d < 0 then - d else d)"

definition emit_sdiv_const_in_eax :: "i32 \<Rightarrow> codegen \<Rightarrow> codegen option" where
  "emit_sdiv_const_in_eax d cg =
     (if \<not> (d \<noteq> 0 \<and> d \<noteq> 1 \<and> d \<noteq> - 1) then None
      else let ad = unsigned_abs d
           in if is_power_of_two ad then
                (let k = trailing_zeros ad;
                     cg = emit [Cltd, Shrl (32 - k) EDX, Addl EDX EAX, Sarl k EAX] cg
                 in Some (if sint d < 0 then emit [Negl EAX] cg else cg))
              else case emit_sdiv_magic_core ad cg of
                None \<Rightarrow> None
              | Some cg \<Rightarrow>
                  let cg = emit [MovReg EDX EAX] cg
                  in Some (if sint d < 0 then emit [Negl EAX] cg else cg))"

definition emit_srem_const_in_eax :: "i32 \<Rightarrow> codegen \<Rightarrow> codegen option" where
  "emit_srem_const_in_eax d cg =
     (if \<not> (d \<noteq> 0 \<and> d \<noteq> 1 \<and> d \<noteq> - 1) then None
      else let ad = unsigned_abs d
           in if is_power_of_two ad then
                (let k = trailing_zeros ad
                 in Some (emit [Cltd, Shrl (32 - k) EDX, Addl EDX EAX, AndlImm (ad - 1) EAX, Subl EDX EAX] cg))
              else case emit_sdiv_magic_core ad cg of
                None \<Rightarrow> None
              | Some cg \<Rightarrow> Some (emit [Subl EAX ECX, MovReg ECX EAX] (emit_mul_back EDX EAX ad cg)))"

definition emit_udivrem :: "u32 \<Rightarrow> codegen \<Rightarrow> (bool \<times> codegen) option" where
  "emit_udivrem d cg =
     (if d = 0 then Some (False, cg)
      else if d = 1 then Some (True, emit [Xorl EDX EDX] cg)
      else if is_power_of_two d then
        (let k = trailing_zeros d
         in Some (True, emit [MovReg EAX EDX, AndlImm (d - 1) EDX, Shrl k EAX] cg))
      else case emit_udiv_magic_keep_n d cg of
        None \<Rightarrow> None
      | Some cg \<Rightarrow> Some (True, emit [Subl EDX ECX, MovReg ECX EDX] (emit_mul_back EAX EDX d cg)))"

definition emit_sdivrem :: "i32 \<Rightarrow> codegen \<Rightarrow> (bool \<times> codegen) option" where
  "emit_sdivrem d cg =
     (if d = 0 then Some (False, cg)
      else if d = 1 \<or> d = - 1 then
        (let cg = (if sint d < 0 then emit [Negl EAX] cg else cg) in Some (True, emit [Xorl EDX EDX] cg))
      else if is_power_of_two (unsigned_abs d) then
        (let ad = unsigned_abs d;
             k = trailing_zeros ad;
             cg = emit [Cltd, Shrl (32 - k) EDX, Addl EDX EAX, MovReg EAX ECX, AndlImm (ad - 1) ECX, Subl EDX ECX,
                        Sarl k EAX] cg;
             cg = (if sint d < 0 then emit [Negl EAX] cg else cg)
         in Some (True, emit [MovReg ECX EDX] cg))
      else let ad = unsigned_abs d
           in case emit_sdiv_magic_core ad cg of
                None \<Rightarrow> None
              | Some cg \<Rightarrow>
                  let cg = emit [Subl EAX ECX, MovReg EDX EAX] (emit_mul_back EDX EAX ad cg);
                      cg = (if sint d < 0 then emit [Negl EAX] cg else cg)
                  in Some (True, emit [MovReg ECX EDX] cg))"

definition emit_divrem_const_in_eax_edx :: "bool \<Rightarrow> i64 \<Rightarrow> codegen \<Rightarrow> (bool \<times> codegen) option" where
  "emit_divrem_const_in_eax_edx sgnd d cg =
     (if \<not> sgnd
      then if 0 \<le> sint d \<and> sint d < 2 ^ 32 then emit_udivrem (ucast d) cg else Some (False, cg)
      else if - (2 ^ 31) \<le> sint d \<and> sint d < 2 ^ 31 then emit_sdivrem (ucast d) cg else Some (False, cg))"

subsection \<open>The search computes quotients of powers of two\<close>

lemma double_div_mod:
  fixes a m :: nat
  assumes "0 < m"
  shows "(if a mod m \<ge> m - a mod m then (a div m * 2 + 1, a mod m * 2 - m) else (a div m * 2, a mod m * 2)) =
      (2 * a div m, 2 * a mod m)"
    and "(if a mod m + 1 \<ge> m - a mod m then (a div m * 2 + 1, a mod m * 2 + 1 - m)
          else (a div m * 2, a mod m * 2 + 1)) = ((2 * a + 1) div m, (2 * a + 1) mod m)"
proof -
  define q r where "q = a div m" and "r = a mod m"
  have a: "a = q * m + r" and r: "r < m"
    using assms by (simp_all add: q_def r_def)
  have dm: "x div m = c" "x mod m = e" if "x = c * m + e" "e < m" for x c e
    using that by simp_all
  have "2 * a = (q * 2 + 1) * m + (r * 2 - m)" if "r \<ge> m - r"
    using that a by (simp add: algebra_simps)
  moreover have "2 * a = q * 2 * m + r * 2"
    using a by simp
  ultimately show "(if a mod m \<ge> m - a mod m then (a div m * 2 + 1, a mod m * 2 - m) else (a div m * 2, a mod m * 2)) =
      (2 * a div m, 2 * a mod m)"
    unfolding q_def [symmetric] r_def [symmetric]
    using dm [of "2 * a" "q * 2 + 1" "r * 2 - m"] dm [of "2 * a" "q * 2" "r * 2"] r
    by (cases "r \<ge> m - r") simp_all
  have "2 * a + 1 = (q * 2 + 1) * m + (r * 2 + 1 - m)" if "r + 1 \<ge> m - r"
    using that a by (simp add: algebra_simps)
  moreover have "2 * a + 1 = q * 2 * m + (r * 2 + 1)"
    using a by simp
  ultimately show "(if a mod m + 1 \<ge> m - a mod m then (a div m * 2 + 1, a mod m * 2 + 1 - m)
          else (a div m * 2, a mod m * 2 + 1)) = ((2 * a + 1) div m, (2 * a + 1) mod m)"
    unfolding q_def [symmetric] r_def [symmetric]
    using dm [of "2 * a + 1" "q * 2 + 1" "r * 2 + 1 - m"] dm [of "2 * a + 1" "q * 2" "r * 2 + 1"] r
    by (cases "r + 1 \<ge> m - r") simp_all
qed

lemma two_pow_pred: "2 * (2 ^ p - 1) + 1 = 2 ^ Suc p - (1::nat)"
proof -
  obtain k where "(2::nat) ^ p = Suc k" by (cases "(2::nat) ^ p") auto
  then show ?thesis by simp
qed

lemma quotient_exceeds: "0 < m \<Longrightarrow> (a div m > t \<or> a div m = t \<and> a mod m \<noteq> 0) = (m * t < a)" for a m t :: nat
proof -
  assume m: "0 < m"
  have "a = m * (a div m) + a mod m" "a mod m < m"
    using m by simp_all
  consider "a div m < t" | "a div m = t" | "t < a div m" by linarith
  then show ?thesis
  proof cases
    case 1
    then have "m * Suc (a div m) \<le> m * t" by (intro mult_le_mono2) simp
    with \<open>a = _\<close> \<open>a mod m < m\<close> have "\<not> m * t < a" by (simp only: mult_Suc_right)
    with 1 show ?thesis by simp
  next
    case 2
    then show ?thesis using \<open>a = _\<close> by (metis add.right_neutral less_add_same_cancel1 less_irrefl neq0_conv)
  next
    case 3
    then have "m * Suc t \<le> m * (a div m)" by (intro mult_le_mono2) simp
    with \<open>a = _\<close> m have "m * t < a" by (simp only: mult_Suc_right)
    with 3 show ?thesis by simp
  qed
qed

definition u_stop :: "nat \<Rightarrow> nat \<Rightarrow> nat \<Rightarrow> bool" where
  "u_stop nc d p \<longleftrightarrow> nc * (d - 1 - (2 ^ p - 1) mod d) < 2 ^ p"

lemma magic_u_loop_step:
  assumes "0 < nc" "0 < d" and add: "add = ((2 ^ p - 1) div d + 1 \<ge> 2 ^ 32)"
  shows "magic_u_loop (Suc fuel) nc d p (2 ^ p div nc) (2 ^ p mod nc) ((2 ^ p - 1) div d) ((2 ^ p - 1) mod d) add =
    (let add' = ((2 ^ Suc p - 1) div d + 1 \<ge> 2 ^ 32)
     in if u_stop nc d (Suc p) then Some (Suc p, (2 ^ Suc p - 1) div d, add')
        else magic_u_loop fuel nc d (Suc p) (2 ^ Suc p div nc) (2 ^ Suc p mod nc)
               ((2 ^ Suc p - 1) div d) ((2 ^ Suc p - 1) mod d) add')"
proof -
  define x where "x = (2::nat) ^ p - 1"
  define q2 r2 where "q2 = x div d" and "r2 = x mod d"
  have x: "2 ^ Suc p - 1 = 2 * x + 1"
    unfolding x_def by (rule two_pow_pred [symmetric])
  note D1 = double_div_mod(1) [OF assms(1), of "2 ^ p"]
    and D2 = double_div_mod(2) [OF assms(2), of x]
  have addq: "(if r2 + 1 \<ge> d - r2 then (add \<or> q2 \<ge> 2 ^ 31 - 1, q2 * 2 + 1, r2 * 2 + 1 - d)
             else (add \<or> q2 \<ge> 2 ^ 31, q2 * 2, r2 * 2 + 1)) =
      ((2 * x + 1) div d + 1 \<ge> 2 ^ 32, (2 * x + 1) div d, (2 * x + 1) mod d)"
  proof (cases "r2 + 1 \<ge> d - r2")
    case True
    then have "(2 * x + 1) div d = q2 * 2 + 1" "(2 * x + 1) mod d = r2 * 2 + 1 - d"
      using D2 by (simp_all add: q2_def r2_def)
    then show ?thesis
      using True add by (auto simp: q2_def x_def)
  next
    case False
    then have "(2 * x + 1) div d = q2 * 2" "(2 * x + 1) mod d = r2 * 2 + 1"
      using D2 by (simp_all add: q2_def r2_def)
    then show ?thesis
      using False add by (auto simp: q2_def x_def)
  qed
  have s: "((2::nat) ^ Suc p div nc > d - 1 - (2 * x + 1) mod d \<or>
      2 ^ Suc p div nc = d - 1 - (2 * x + 1) mod d \<and> 2 ^ Suc p mod nc \<noteq> 0) = u_stop nc d (Suc p)"
    unfolding quotient_exceeds [OF assms(1)] u_stop_def x ..
  show ?thesis
    unfolding magic_u_loop.simps Let_def x_def [symmetric] q2_def [symmetric] r2_def [symmetric] D1 addq split
      power_Suc [symmetric] x s by (simp only: Suc_eq_plus1)
qed

lemma magic_u_loop_result:
  assumes "0 < nc" "0 < d" "u_stop nc d (p + Suc k)" "\<And>i. p < i \<Longrightarrow> i < p + Suc k \<Longrightarrow> \<not> u_stop nc d i" "k < fuel"
  shows "magic_u_loop fuel nc d p (2 ^ p div nc) (2 ^ p mod nc) ((2 ^ p - 1) div d) ((2 ^ p - 1) mod d)
      ((2 ^ p - 1) div d + 1 \<ge> 2 ^ 32) =
    Some (p + Suc k, (2 ^ (p + Suc k) - 1) div d, (2 ^ (p + Suc k) - 1) div d + 1 \<ge> 2 ^ 32)"
  using assms(3-)
proof (induction k arbitrary: p fuel)
  case 0
  then obtain f where "fuel = Suc f" by (cases fuel) auto
  then show ?case
    using 0 unfolding \<open>fuel = _\<close> magic_u_loop_step [OF assms(1,2) refl] Let_def by simp
next
  case (Suc k)
  then obtain f where f: "fuel = Suc f" "k < f" by (cases fuel) auto
  have "\<not> u_stop nc d (Suc p)" using Suc.prems(2) by simp
  then show ?case
    unfolding f(1) magic_u_loop_step [OF assms(1,2) refl] Let_def
    using Suc.IH [of "Suc p" f] Suc.prems f(2) by simp
qed

subsection \<open>The multiplier divides exactly\<close>

text \<open>
  The contract shared by both searches: a multiplier \<open>m\<close> with \<open>m * d = 2 ^ p + delta\<close>, where \<open>delta\<close> is small
  against the largest dividend \<open>nc\<close> that leaves the remainder \<open>d - 1\<close>.
\<close>

definition magic_multiplier :: "nat \<Rightarrow> nat \<Rightarrow> nat \<Rightarrow> nat \<Rightarrow> nat \<Rightarrow> bool" where
  "magic_multiplier d nc m p delta \<longleftrightarrow>
     0 < d \<and> d dvd nc + 1 \<and> d \<le> nc + 1 \<and> m * d = 2 ^ p + delta \<and> nc * delta < 2 ^ p"

lemma magic_multiplierD:
  assumes "magic_multiplier d nc m p delta"
  shows "0 < d" "d dvd nc + 1" "d \<le> nc + 1" "m * d = 2 ^ p + delta" "nc * delta < 2 ^ p"
  using assms by (simp_all add: magic_multiplier_def)

lemma error_bound:
  assumes ok: "magic_multiplier d nc m p delta" and "n < nc + d"
  shows "n * delta < (d - n mod d) * 2 ^ p"
proof -
  note divisor = magic_multiplierD(1-3) [OF ok] and enough = magic_multiplierD(5) [OF ok]
  have r: "n mod d < d" using divisor by simp
  show ?thesis
  proof (cases "n \<le> nc")
    case True
    then have "n * delta \<le> nc * delta" by simp
    also have "\<dots> < 2 ^ p" by (rule enough)
    also have "\<dots> \<le> (d - n mod d) * 2 ^ p" using r by simp
    finally show ?thesis .
  next
    case False
    obtain j where j: "nc + 1 = d * j" using divisor(2) by (elim dvdE)
    define r where "r = n - nc - 1"
    have n: "n = nc + (r + 1)" and rd: "r + 1 < d"
      using False assms(2) by (simp_all add: r_def)
    have "n = d * j + r" using n j by simp
    then have nr: "n mod d = r" using rd by simp
    have "(r + 1) * delta \<le> nc * delta"
      using rd divisor(3) by (intro mult_le_mono1) simp
    then have "n * delta < 2 * 2 ^ p"
      using enough unfolding n add_mult_distrib by linarith
    also have "\<dots> \<le> (d - n mod d) * 2 ^ p"
      unfolding nr using rd by (intro mult_le_mono1) simp
    finally show ?thesis .
  qed
qed

lemma scaled_bounds:
  assumes ok: "magic_multiplier d nc m p delta" and "n < nc + d"
  shows "(n div d) * 2 ^ p \<le> n * m" "n * m < (n div d + 1) * 2 ^ p"
proof -
  note divisor = magic_multiplierD(1) [OF ok] and multiplier = magic_multiplierD(4) [OF ok]
  have nd: "n = n div d * d + n mod d" "n mod d < d" using divisor by simp_all
  have e: "n * m * d = n * 2 ^ p + n * delta"
    using multiplier by (metis add_mult_distrib2 mult.assoc)
  have "(n div d) * 2 ^ p * d \<le> n * m * d"
    unfolding e using nd(1) by (metis le_add1 mult.assoc mult.commute mult_le_mono1 trans_le_add1)
  then show "(n div d) * 2 ^ p \<le> n * m" using divisor by simp
  have "n * m * d < n * 2 ^ p + (d - n mod d) * 2 ^ p"
    unfolding e using error_bound [OF assms] by simp
  also have "\<dots> = (n + (d - n mod d)) * 2 ^ p" by (simp add: add_mult_distrib)
  also have "n + (d - n mod d) = (n div d + 1) * d"
    using nd unfolding add_mult_distrib by linarith
  finally have "n * m * d < (n div d + 1) * d * 2 ^ p" .
  also have "\<dots> = (n div d + 1) * 2 ^ p * d" by (simp only: mult.assoc mult.commute [of d])
  finally show "n * m < (n div d + 1) * 2 ^ p" by (simp only: mult_less_cancel2)
qed

lemma magic_quotient:
  assumes "magic_multiplier d nc m p delta" "n < nc + d"
  shows "n * m div 2 ^ p = n div d"
proof (rule div_nat_eqI)
  show "2 ^ p * (n div d) \<le> n * m" "n * m < 2 ^ p * Suc (n div d)"
    using scaled_bounds [OF assms] by (simp_all only: mult.commute [of "2 ^ p"] Suc_eq_plus1)
qed

lemma least_after:
  fixes P :: "nat \<Rightarrow> bool"
  assumes "P b" "a < b"
  obtains k where "P (a + Suc k)" "a + Suc k \<le> b" "\<And>i. a < i \<Longrightarrow> i < a + Suc k \<Longrightarrow> \<not> P i"
proof -
  define l where "l = (LEAST i. a < i \<and> P i)"
  have l: "a < l \<and> P l" unfolding l_def by (rule LeastI [of _ b]) (use assms in simp)
  have least: "l \<le> i" if "a < i" "P i" for i
    unfolding l_def by (rule Least_le) (use that in simp)
  have "a + Suc (l - a - 1) = l" using l by simp
  moreover have "\<not> P i" if "a < i" "i < l" for i
    using least [of i] that by auto
  moreover have "l \<le> b" using least assms by simp
  ultimately show thesis
    using l that [of "l - a - 1"] by simp
qed

lemma magic_u_arith:
  fixes d :: nat
  assumes d: "2 \<le> d" "d < 2 ^ 32"
  defines "nc \<equiv> 2 ^ 32 - 1 - 2 ^ 32 mod d"
  obtains k m where "u_stop nc d (31 + Suc k)" "31 + Suc k \<le> 64"
    "\<And>i. 31 < i \<Longrightarrow> i < 31 + Suc k \<Longrightarrow> \<not> u_stop nc d i"
    "m = (2 ^ (31 + Suc k) - 1) div d + 1" "m < 2 ^ 33" "2 ^ 32 \<le> m \<Longrightarrow> 0 < k" "m < 2 ^ 32 \<Longrightarrow> k < 32"
    "\<And>n. n < 2 ^ 32 \<Longrightarrow> n * m div 2 ^ (31 + Suc k) = n div d"
proof -
  have md: "2 ^ 32 mod d < d" using d by simp
  have nc1: "nc + 1 = 2 ^ 32 - 2 ^ 32 mod d" using md d unfolding nc_def by linarith
  have dv: "d dvd nc + 1" unfolding nc1 by (rule dvd_minus_mod)
  have nc0: "d \<le> nc + 1" using dv by (rule dvd_imp_le) simp
  have nclt: "nc < 2 ^ 32" by (simp add: nc_def)
  have del: "d - 1 - x mod d \<le> d - 1" for x by simp
  have "nc * (d - 1 - (2 ^ 64 - 1) mod d) \<le> (2 ^ 32 - 1) * (2 ^ 32 - 1)"
    using nclt d by (intro mult_le_mono) auto
  also have "\<dots> < (2::nat) ^ 64" by simp
  finally have "u_stop nc d 64" by (simp add: u_stop_def)
  then obtain k where k: "u_stop nc d (31 + Suc k)" "31 + Suc k \<le> 64"
    "\<And>i. 31 < i \<Longrightarrow> i < 31 + Suc k \<Longrightarrow> \<not> u_stop nc d i"
    by (rule least_after [of _ 64 31]) auto
  define p where "p = 31 + Suc k"
  define m where "m = (2 ^ p - 1) div d + 1"
  define delta where "delta = d - 1 - (2 ^ p - 1) mod d"
  have mdel: "m * d = 2 ^ p + delta"
  proof -
    have "(2 ^ p - 1) mod d < d" using d by simp
    moreover have "(2 ^ p - 1) div d * d + (2 ^ p - 1) mod d = 2 ^ p - (1::nat)" by (rule div_mult_mod_eq)
    moreover have "(1::nat) \<le> 2 ^ p" by simp
    ultimately show ?thesis unfolding m_def delta_def add_mult_distrib by linarith
  qed
  have ok: "magic_multiplier d nc m p delta"
    using d dv nc0 mdel k(1) by (simp add: magic_multiplier_def delta_def p_def u_stop_def)
  have dle: "delta \<le> d - 1" by (simp add: delta_def)
  have m33: "m < 2 ^ 33"
  proof (cases "k = 0")
    case True
    then have "m * d < 2 ^ 33 * d" unfolding mdel p_def using dle d by simp
    then show ?thesis using d by simp
  next
    case False
    then have "\<not> u_stop nc d (31 + k)" using k(3) by simp
    then have "2 ^ (31 + k) \<le> nc * (d - 1)"
      using mult_le_mono2 [OF del [of "2 ^ (31 + k) - 1"], of nc] unfolding u_stop_def by linarith
    then have "m * d \<le> 2 * (nc * (d - 1)) + (d - 1)" unfolding mdel p_def add_Suc_right power_Suc using dle by linarith
    also have "\<dots> = (2 * nc + 1) * (d - 1)" by (simp add: algebra_simps)
    also have "\<dots> < 2 ^ 33 * d"
      using nclt d by (intro mult_strict_mono) auto
    finally show ?thesis using d by simp
  qed
  have big: "0 < k" if "2 ^ 32 \<le> m"
  proof (rule ccontr)
    assume "\<not> 0 < k"
    then have "m * d < 2 ^ 32 + d" unfolding mdel p_def using dle d by simp
    moreover have "2 ^ 32 * d \<le> m * d" using that by simp
    moreover have "2 ^ 32 + d \<le> 2 ^ 32 * d" using d by simp
    ultimately show False by linarith
  qed
  have small: "k < 32" if "m < 2 ^ 32"
  proof (rule ccontr)
    assume "\<not> k < 32"
    then have "(2::nat) ^ 64 \<le> 2 ^ p" unfolding p_def by (intro power_increasing) simp_all
    then have "2 ^ 64 \<le> m * d" unfolding mdel by linarith
    moreover have "m * d \<le> (2 ^ 32 - 1) * (2 ^ 32 - 1)" using that d by (intro mult_le_mono) auto
    ultimately show False by simp
  qed
  have "n * m div 2 ^ p = n div d" if "n < 2 ^ 32" for n
    using magic_quotient [OF ok, of n] that nc1 md by simp
  then show thesis
    using that [of k m] k m33 big small by (simp add: m_def p_def)
qed

lemma magic_u32_result:
  assumes d: "2 \<le> d" "\<not> is_power_of_two d"
  obtains m s where "magic_u32 d = Some (of_nat m, s, 2 ^ 32 \<le> m)" "m < 2 ^ 33" "s \<le> 32"
    "2 ^ 32 \<le> m \<Longrightarrow> 0 < s" "m < 2 ^ 32 \<Longrightarrow> s < 32"
    "\<And>n. n < 2 ^ 32 \<Longrightarrow> n * m div 2 ^ (32 + s) = n div unat d"
proof -
  define D where "D = unat d"
  have D: "2 \<le> D" "D < 2 ^ 32"
    using d(1) unsigned_less [of d, where ?'a = nat] by (simp_all add: D_def word_le_nat_alt)
  define nc where "nc = 2 ^ 32 - 1 - 2 ^ 32 mod D"
  obtain k m where km: "u_stop nc D (31 + Suc k)" "31 + Suc k \<le> 64"
    "\<And>i. 31 < i \<Longrightarrow> i < 31 + Suc k \<Longrightarrow> \<not> u_stop nc D i"
    "m = (2 ^ (31 + Suc k) - 1) div D + 1" "m < 2 ^ 33" "2 ^ 32 \<le> m \<Longrightarrow> 0 < k" "m < 2 ^ 32 \<Longrightarrow> k < 32"
    "\<And>n. n < 2 ^ 32 \<Longrightarrow> n * m div 2 ^ (31 + Suc k) = n div D"
    using magic_u_arith [OF D] unfolding nc_def by metis
  have md: "2 ^ 32 mod D < D" using D by simp
  then have nc0: "0 < nc" using D unfolding nc_def by linarith
  have nce: "2 ^ 32 - 1 - (2 ^ 32 - 1 - D + 1) mod D = nc"
  proof -
    have "2 ^ 32 - 1 - D + 1 = 2 ^ 32 - (D::nat)" using D by linarith
    moreover have "(2 ^ 32 - D) mod D = 2 ^ 32 mod D"
      using D by (metis le_mod_geq less_imp_le)
    ultimately show ?thesis by (simp only: nc_def)
  qed
  have mo: "x - x div y * y = x mod y" for x y :: nat
    by (rule minus_div_mult_eq_mod)
  have f0: "((2 ^ 31 - 1) div D + 1 \<ge> 2 ^ 32) = False"
  proof -
    define q where "q = (2 ^ 31 - 1) div D"
    have "q \<le> 2 ^ 31 - 1" unfolding q_def by (rule div_le_dividend)
    then show ?thesis unfolding q_def [symmetric] by simp
  qed
  have "magic_u_loop 33 nc D 31 (2 ^ 31 div nc) (2 ^ 31 mod nc) ((2 ^ 31 - 1) div D) ((2 ^ 31 - 1) mod D) False =
    Some (31 + Suc k, (2 ^ (31 + Suc k) - 1) div D, 2 ^ 32 \<le> m)"
    using magic_u_loop_result [of nc D 31 k 33] nc0 D km(1-3) unfolding f0 km(4) by simp
  then have "magic_u32 d = Some (of_nat m, k, 2 ^ 32 \<le> m)"
    using d km(2,6,7) unfolding magic_u32_def Let_def D_def [symmetric] nce mo
    by (simp add: km(4) Suc_le_eq not_le)
  moreover have "31 + Suc k = 32 + k" by simp
  ultimately show thesis
    using that [of m k] km by (simp add: D_def)
qed

subsection \<open>Powers of two\<close>

lemma trailing_zeros_lsb:
  fixes w :: "'a::len word"
  assumes "w \<noteq> 0"
  shows "trailing_zeros w < LENGTH('a)" "bit w (trailing_zeros w)" "\<And>i. i < trailing_zeros w \<Longrightarrow> \<not> bit w i"
proof -
  let ?xs = "[0..<LENGTH('a)]"
  let ?tw = "takeWhile (\<lambda>i. \<not> bit w i) ?xs"
  obtain j where j: "bit w j" "j < LENGTH('a)"
    using assms bit_imp_le_length by (auto simp: bit_nonzero_word)
  have lt: "length ?tw < length ?xs"
  proof (rule ccontr)
    assume "\<not> length ?tw < length ?xs"
    then have "?tw = ?xs"
      by (metis length_takeWhile_le not_less le_antisym take_all takeWhile_eq_take)
    then show False
      using j by (auto simp: takeWhile_eq_all_conv)
  qed
  then show "trailing_zeros w < LENGTH('a)" by (simp add: trailing_zeros_def)
  show "bit w (trailing_zeros w)"
    using nth_length_takeWhile [of "\<lambda>i. \<not> bit w i" ?xs] lt by (simp add: trailing_zeros_def)
  fix i assume i: "i < trailing_zeros w"
  then have "?tw ! i \<in> set ?tw" by (intro nth_mem) (simp add: trailing_zeros_def)
  moreover have "?tw ! i = i"
    using i lt by (subst takeWhile_nth) (auto simp: trailing_zeros_def)
  ultimately show "\<not> bit w i" by (auto dest: set_takeWhileD)
qed

lemma power_of_two_trailing_zeros:
  assumes "is_power_of_two d"
  shows "unat d = 2 ^ trailing_zeros d" "trailing_zeros d < 32"
proof -
  define k where "k = trailing_zeros d"
  have nz: "d \<noteq> 0" and an: "d AND (d - 1) = 0" using assms by (simp_all add: is_power_of_two_def)
  note tz = trailing_zeros_lsb [OF nz, folded k_def]
  show "trailing_zeros d < 32" using tz(1) by (simp add: k_def)
  define h where "h = unat d div 2 ^ Suc k"
  have low: "take_bit (Suc k) d = push_bit k 1"
    using tz by (intro bit_word_eqI)
      (auto simp: bit_take_bit_iff bit_push_bit_iff bit_1_iff less_Suc_eq simp del: push_bit_of_1)
  have "unat (take_bit (Suc k) d) = unat d mod 2 ^ Suc k"
    by (simp add: unsigned_take_bit_eq take_bit_eq_mod [of _ "unat d"])
  moreover have "unat (push_bit k 1 :: u32) = 2 ^ k"
    using tz(1) power_strict_increasing [of k 32 "2::nat"] by (subst unat_push_bit_exact) simp_all
  ultimately have "unat d mod 2 ^ Suc k = 2 ^ k" using low by simp
  then have ud: "unat d = h * 2 ^ Suc k + 2 ^ k"
    unfolding h_def by (metis div_mult_mod_eq)
  have "unat (d - 1) = unat d - 1"
    using nz by (simp add: unat_minus_one)
  also have "\<dots> = h * 2 ^ Suc k + (2 ^ k - 1)" unfolding ud by simp
  finally have "unat (d - 1) div 2 ^ Suc k = h"
    using div_mult_self3 [of "2 ^ Suc k" h "2 ^ k - 1"] less_imp_diff_less [of "2 ^ k" "2 ^ Suc k" 1]
    by (simp only: div_less) simp
  then have "drop_bit (Suc k) (d - 1) = drop_bit (Suc k) d"
    by (simp add: word_unat_eq_iff unat_drop_bit_div h_def)
  then have "drop_bit (Suc k) d = drop_bit (Suc k) (d AND (d - 1))"
    by (simp add: drop_bit_and)
  then have "h = 0" unfolding an h_def by (simp add: word_unat_eq_iff unat_drop_bit_div)
  then show "unat d = 2 ^ trailing_zeros d" using ud by (simp add: k_def)
qed

subsection \<open>The emitted unsigned division\<close>

lemma mull_high:
  "unat (ucast (drop_bit 32 ((ucast a :: u64) * ucast b)) :: u32) = unat a * unat b div 2 ^ 32"
  for a b :: u32
proof -
  have ab: "unat a < 2 ^ 32" "unat b < 2 ^ 32"
    using unsigned_less [of a, where ?'a = nat] unsigned_less [of b, where ?'a = nat] by simp_all
  then have "unat a * unat b \<le> (2 ^ 32 - 1) * (2 ^ 32 - 1)" by (intro mult_le_mono) simp_all
  then have lt: "unat a * unat b < 2 ^ 64" by simp
  then have "unat ((ucast a :: u64) * ucast b) = unat a * unat b"
    by (simp add: unat_word_ariths unat_ucast_up)
  then have "unat (drop_bit 32 ((ucast a :: u64) * ucast b)) = unat a * unat b div 2 ^ 32"
    by (simp only: unat_drop_bit_div)
  moreover have "unat a * unat b div 2 ^ 32 < 2 ^ 32"
    using lt by (simp add: less_mult_imp_div_less)
  ultimately show ?thesis
    by (simp add: unsigned_ucast_eq take_bit_nat_eq_self)
qed

lemma halving_sum: "hi + (n - hi) div 2 = (n + hi) div 2" if "hi \<le> n" for n hi :: nat
proof -
  have "(n + hi) div 2 = (2 * hi + (n - hi)) div 2" using that by simp
  then show ?thesis by simp
qed

lemma magic_add_form:
  fixes n :: u32
  assumes m: "2 ^ 32 \<le> m" "m < 2 ^ 33" and s: "0 < s" "s \<le> 32"
    and q: "unat n * m div 2 ^ (32 + s) = unat n div D"
  defines "hi \<equiv> ucast (drop_bit 32 ((ucast (of_nat m :: u32) :: u64) * ucast n)) :: u32"
  shows "unat (drop_bit (s - 1) (hi + drop_bit 1 (n - hi))) = unat n div D"
proof -
  have um: "unat (of_nat m :: u32) = m - 2 ^ 32"
    using m by (simp add: unat_of_nat take_bit_eq_mod mod_if)
  have h: "unat hi = (m - 2 ^ 32) * unat n div 2 ^ 32"
    unfolding hi_def mull_high um ..
  have "(m - 2 ^ 32) * unat n div 2 ^ 32 \<le> 2 ^ 32 * unat n div 2 ^ 32"
    using m by (intro div_le_mono mult_le_mono1) simp
  then have le: "unat hi \<le> unat n" unfolding h by simp
  have sub: "unat (n - hi) = unat n - unat hi"
    using le by (simp add: unat_sub word_le_nat_alt)
  have sum: "unat n + unat hi = m * unat n div 2 ^ 32"
  proof -
    have "m * unat n = (m - 2 ^ 32) * unat n + unat n * 2 ^ 32"
      using m by (simp add: diff_mult_distrib)
    then show ?thesis unfolding h by simp
  qed
  have half: "unat (hi + drop_bit 1 (n - hi)) = (unat n + unat hi) div 2"
  proof -
    have "unat hi + unat (drop_bit 1 (n - hi)) = (unat n + unat hi) div 2"
      unfolding unat_drop_bit_div sub power_one_right by (rule halving_sum [OF le])
    moreover have "(unat n + unat hi) div 2 \<le> unat n" using le by simp
    ultimately show ?thesis
      using unat_add_below [of hi "drop_bit 1 (n - hi)" n] by simp
  qed
  have "unat (drop_bit (s - 1) (hi + drop_bit 1 (n - hi))) = m * unat n div 2 ^ 32 div 2 div 2 ^ (s - 1)"
    unfolding unat_drop_bit_div half sum ..
  also have "\<dots> = m * unat n div 2 ^ (32 + s)"
  proof -
    have "(2::nat) ^ (32 + s) = 2 ^ 32 * 2 * 2 ^ (s - 1)"
      using s by (cases s) (simp_all add: power_add)
    then show ?thesis by (simp only: div_mult2_eq)
  qed
  finally show ?thesis using q by (simp add: mult.commute)
qed

lemma magic_plain_form:
  fixes n :: u32
  assumes m: "m < 2 ^ 32" and q: "unat n * m div 2 ^ (32 + s) = unat n div D"
  shows "unat (drop_bit s (ucast (drop_bit 32 ((ucast n :: u64) * ucast (of_nat m :: u32))) :: u32)) = unat n div D"
proof -
  have um: "unat (of_nat m :: u32) = m"
    using m by (simp add: unat_of_nat take_bit_nat_eq_self)
  show ?thesis
    unfolding unat_drop_bit_div mull_high um q [symmetric] power_add div_mult2_eq ..
qed

lemma word_ge_two: "d = 0 \<or> d = 1 \<or> 2 \<le> d" for d :: u32
proof -
  have "unat d = 0 \<or> unat d = 1 \<or> 2 \<le> unat d" by linarith
  then show ?thesis by (simp add: word_unat_eq_iff word_le_nat_alt)
qed

lemma keep_n_divides:
  assumes d: "2 \<le> d" "\<not> is_power_of_two d"
  obtains "is" where "emit_udiv_magic_keep_n d cg = Some (emit is cg)"
    "\<And>R. run is R EAX = R EAX div d" "\<And>R. run is R ECX = R EAX"
proof -
  obtain m s where ms: "magic_u32 d = Some (of_nat m, s, 2 ^ 32 \<le> m)" "m < 2 ^ 33" "s \<le> 32"
    "2 ^ 32 \<le> m \<Longrightarrow> 0 < s" "m < 2 ^ 32 \<Longrightarrow> s < 32"
    "\<And>n. n < 2 ^ 32 \<Longrightarrow> n * m div 2 ^ (32 + s) = n div unat d"
    using magic_u32_result [OF d] by metis
  have q: "unat n * m div 2 ^ (32 + s) = unat n div unat d" for n :: u32
    using unsigned_less [of n, where ?'a = nat] by (intro ms(6)) simp
  have "d \<noteq> 2" using d(2) by (auto simp: is_power_of_two_def)
  then have d3: "3 \<le> d" using d(1) unfolding word_le_nat_alt word_unat_eq_iff by simp
  show thesis
  proof (cases "2 ^ 32 \<le> m")
    case True
    then show thesis
      using d d3 ms(1,3,4) magic_add_form [OF True ms(2) ms(4) [OF True] ms(3) q]
      by (intro that [of "[MovReg EAX ECX, MovImm (of_nat m) EAX, Mull ECX, MovReg ECX EAX, Subl EDX EAX, Shrl 1 EAX,
          Addl EDX EAX] @ (if s > 1 then [Shrl (s - 1) EAX] else [])"])
        (auto simp: emit_udiv_magic_keep_n_def Let_def word_unat_eq_iff unat_div_distrib add.commute)
  next
    case False
    then show thesis
      using d d3 ms(1,5) magic_plain_form [OF _ q]
      by (intro that [of "[MovReg EAX ECX, MovImm (of_nat m) EAX, Mull ECX, MovReg EDX EAX] @
          (if s > 0 then [Shrl s EAX] else [])"])
        (auto simp: emit_udiv_magic_keep_n_def Let_def word_unat_eq_iff unat_div_distrib mult.commute)
  qed
qed

lemma udiv_emits:
  assumes "d \<noteq> 0"
  obtains "is" where "emit_udiv_const_in_eax d cg = Some (emit is cg)" "\<And>R. run is R EAX = R EAX div d"
proof -
  consider (one) "d = 1" | (pow) "d \<noteq> 1" "is_power_of_two d" | (magic) "2 \<le> d" "\<not> is_power_of_two d"
    using word_ge_two assms by blast
  then show thesis
  proof cases
    case one
    then show thesis by (intro that [of "[]"]) (simp_all add: emit_udiv_const_in_eax_def)
  next
    case pow
    note k = power_of_two_trailing_zeros [OF pow(2)]
    have "drop_bit (trailing_zeros d) n = n div d" for n
      by (simp add: word_unat_eq_iff unat_drop_bit_div unat_div_distrib k)
    then show thesis
      using pow k(2) by (intro that [of "if trailing_zeros d \<noteq> 0 then [Shrl (trailing_zeros d) EAX] else []"])
        (auto simp: emit_udiv_const_in_eax_def Let_def)
  next
    case magic
    obtain m s where ms: "magic_u32 d = Some (of_nat m, s, 2 ^ 32 \<le> m)" "m < 2 ^ 33" "s \<le> 32"
      "2 ^ 32 \<le> m \<Longrightarrow> 0 < s" "m < 2 ^ 32 \<Longrightarrow> s < 32"
      "\<And>n. n < 2 ^ 32 \<Longrightarrow> n * m div 2 ^ (32 + s) = n div unat d"
      using magic_u32_result [OF magic] by metis
    have q: "unat n * m div 2 ^ (32 + s) = unat n div unat d" for n :: u32
      using unsigned_less [of n, where ?'a = nat] by (intro ms(6)) simp
    have nz: "d \<noteq> 0" "d \<noteq> 1" using magic(1) by (auto simp: word_le_nat_alt)
    show thesis
    proof (cases "2 ^ 32 \<le> m")
      case True
      then show thesis
        using nz magic ms(1,3,4) magic_add_form [OF True ms(2) ms(4) [OF True] ms(3) q]
        by (intro that [of "[MovReg EAX ECX, MovImm (of_nat m) EAX, Mull ECX, Subl EDX ECX, Shrl 1 ECX,
            Leal (Some EDX) ECX 1 EAX] @ (if s > 1 then [Shrl (s - 1) EAX] else [])"])
          (auto simp: emit_udiv_const_in_eax_def Let_def word_unat_eq_iff unat_div_distrib add.commute)
    next
      case False
      then show thesis
        using nz magic ms(1,5) magic_plain_form [OF _ q]
        by (intro that [of "[MovImm (of_nat m) ECX, Mull ECX, MovReg EDX EAX] @ (if s > 0 then [Shrl s EAX] else [])"])
          (auto simp: emit_udiv_const_in_eax_def Let_def word_unat_eq_iff unat_div_distrib)
    qed
  qed
qed

end
