(* ===== verification/DivByConst.thy ===== *)
theory DivByConst
  imports MagicDiv
begin

text \<open>
  Correctness of the code emitted for division and remainder by a constant on i686: the signed search, the truncating
  power-of-two forms, the reconstruction of the remainder through a synthesised multiplication, and the theorems
  on the emitters of \<^verbatim>\<open>src/src/backend/i686/codegen/alu.rs\<close> that \<open>MagicDiv\<close> models.
\<close>

subsection \<open>The signed search\<close>

definition s_stop :: "nat \<Rightarrow> nat \<Rightarrow> nat \<Rightarrow> bool" where
  "s_stop anc d p \<longleftrightarrow> anc * (d - 2 ^ p mod d) < 2 ^ p"

lemma double_div_mod':
  fixes a m :: nat
  assumes "0 < m"
  shows "(if a mod m * 2 \<ge> m then (a div m * 2 + 1, a mod m * 2 - m) else (a div m * 2, a mod m * 2)) =
      (2 * a div m, 2 * a mod m)"
proof -
  have "(a mod m * 2 \<ge> m) = (a mod m \<ge> m - a mod m)" by linarith
  then show ?thesis by (simp only: double_div_mod(1) [OF assms])
qed

lemma magic_s_loop_step:
  assumes "0 < anc" "0 < d"
  shows "magic_s_loop (Suc fuel) anc d p (2 ^ p div anc) (2 ^ p mod anc) (2 ^ p div d) (2 ^ p mod d) =
    (if s_stop anc d (Suc p) then Some (Suc p, 2 ^ Suc p div d)
     else magic_s_loop fuel anc d (Suc p) (2 ^ Suc p div anc) (2 ^ Suc p mod anc) (2 ^ Suc p div d) (2 ^ Suc p mod d))"
  unfolding magic_s_loop.simps Let_def double_div_mod' [OF assms(1)] double_div_mod' [OF assms(2)] split
    power_Suc [symmetric] quotient_exceeds [OF assms(1)] s_stop_def by (simp only: Suc_eq_plus1)

lemma magic_s_loop_result:
  assumes "0 < anc" "0 < d" "s_stop anc d (p + Suc k)" "\<And>i. p < i \<Longrightarrow> i < p + Suc k \<Longrightarrow> \<not> s_stop anc d i" "k < fuel"
  shows "magic_s_loop fuel anc d p (2 ^ p div anc) (2 ^ p mod anc) (2 ^ p div d) (2 ^ p mod d) =
    Some (p + Suc k, 2 ^ (p + Suc k) div d)"
  using assms(3-)
proof (induction k arbitrary: p fuel)
  case 0
  then obtain f where "fuel = Suc f" by (cases fuel) auto
  then show ?case
    using 0 unfolding \<open>fuel = _\<close> magic_s_loop_step [OF assms(1,2)] by simp
next
  case (Suc k)
  then obtain f where f: "fuel = Suc f" "k < f" by (cases fuel) auto
  have "\<not> s_stop anc d (Suc p)" using Suc.prems(2) by simp
  then show ?case
    unfolding f(1) magic_s_loop_step [OF assms(1,2)]
    using Suc.IH [of "Suc p" f] Suc.prems f(2) by simp
qed

text \<open>
  The multiplier of a negative dividend: the scaled product lies strictly above the truncated quotient. The dividend
  \<open>2 ^ 31\<close> itself needs the divisibility argument when it leaves the remainder \<open>d - 1\<close>.
\<close>

lemma scaled_strict:
  assumes ok: "magic_multiplier d nc m p delta" and "0 < delta" "0 < k"
  shows "(k div d) * 2 ^ p < k * m"
proof -
  note divisor = magic_multiplierD(1) [OF ok] and multiplier = magic_multiplierD(4) [OF ok]
  have "(k div d) * 2 ^ p * d = (k div d * d) * 2 ^ p" by (simp only: mult.assoc mult.commute [of d])
  also have "\<dots> \<le> k * 2 ^ p" by (intro mult_le_mono1) simp
  also have "\<dots> < k * 2 ^ p + k * delta" using assms by simp
  also have "\<dots> = k * m * d" using multiplier by (metis add_mult_distrib2 mult.assoc)
  finally show ?thesis by simp
qed

lemma scaled_extreme:
  assumes ok: "magic_multiplier d nc m p delta" and m: "m = 2 ^ p div d + 1"
    and p: "31 \<le> p" and r: "2 ^ 31 mod d = d - 1"
  shows "2 ^ 31 * m \<le> (2 ^ 31 div d + 1) * 2 ^ p"
proof -
  note divisor = magic_multiplierD(1) [OF ok] and multiplier = magic_multiplierD(4) [OF ok]
  have e: "2 ^ 31 + 1 = (2 ^ 31 div d + 1) * d"
    using r divisor div_mult_mod_eq [of "2 ^ 31" d] unfolding add_mult_distrib by linarith
  then have "d dvd (2 ^ 31 + 1) * 2 ^ (p - 31)" by (metis dvd_mult2 dvd_triv_right)
  moreover have pp: "(2::nat) ^ 31 * 2 ^ (p - 31) = 2 ^ p"
    using p by (metis le_add_diff_inverse power_add)
  ultimately have "d dvd 2 ^ p + 2 ^ (p - 31)" by (simp only: add_mult_distrib mult_1)
  then obtain j where j: "2 ^ p + 2 ^ (p - 31) = d * j" by (elim dvdE)
  have "2 ^ p < d * j" unfolding j [symmetric] by simp
  then have "m \<le> j" unfolding m using divisor by (simp add: div_less_iff_less_mult mult.commute Suc_le_eq)
  then have "m * d \<le> 2 ^ p + 2 ^ (p - 31)" unfolding j by (simp add: mult.commute)
  then have "2 ^ 31 * (m * d) \<le> 2 ^ 31 * 2 ^ p + 2 ^ 31 * 2 ^ (p - 31)"
    by (metis add_mult_distrib2 mult_le_mono2)
  also have "\<dots> = (2 ^ 31 + 1) * 2 ^ p" unfolding pp by simp
  also have "\<dots> = (2 ^ 31 div d + 1) * 2 ^ p * d" unfolding e by (simp only: mult.assoc mult.commute [of d])
  finally show ?thesis using divisor by (simp only: mult.assoc [symmetric] mult_le_cancel2)
qed

lemma magic_s_arith:
  fixes d :: nat
  assumes d: "2 \<le> d" "d < 2 ^ 31"
  defines "anc \<equiv> 2 ^ 31 - 1 - 2 ^ 31 mod d"
  obtains k m where "s_stop anc d (31 + Suc k)" "31 + Suc k \<le> 62"
    "\<And>i. 31 < i \<Longrightarrow> i < 31 + Suc k \<Longrightarrow> \<not> s_stop anc d i"
    "m = 2 ^ (31 + Suc k) div d + 1" "m < 2 ^ 32"
    "\<And>n. n < 2 ^ 31 \<Longrightarrow> n * m div 2 ^ (31 + Suc k) = n div d"
    "\<And>n. 0 < n \<Longrightarrow> n \<le> 2 ^ 31 \<Longrightarrow> (n div d) * 2 ^ (31 + Suc k) < n * m \<and> n * m \<le> (n div d + 1) * 2 ^ (31 + Suc k)"
proof -
  have md: "2 ^ 31 mod d < d" using d by simp
  have nc1: "anc + 1 = 2 ^ 31 - 2 ^ 31 mod d" using md d unfolding anc_def by linarith
  have dv: "d dvd anc + 1" unfolding nc1 by (rule dvd_minus_mod)
  have nc0: "d \<le> anc + 1" using dv by (rule dvd_imp_le) simp
  have nclt: "anc < 2 ^ 31" by (simp add: anc_def)
  have del: "d - x mod d \<le> d" for x by simp
  have "anc * (d - 2 ^ 62 mod d) \<le> (2 ^ 31 - 1) * (2 ^ 31 - 1)"
    using nclt d by (intro mult_le_mono) auto
  also have "\<dots> < (2::nat) ^ 62" by simp
  finally have "s_stop anc d 62" by (simp add: s_stop_def)
  then obtain k where k: "s_stop anc d (31 + Suc k)" "31 + Suc k \<le> 62"
    "\<And>i. 31 < i \<Longrightarrow> i < 31 + Suc k \<Longrightarrow> \<not> s_stop anc d i"
    by (rule least_after [of _ 62 31]) auto
  define p where "p = 31 + Suc k"
  define m where "m = 2 ^ p div d + 1"
  define delta where "delta = d - 2 ^ p mod d"
  have dl: "0 < delta" "delta \<le> d" using d by (simp_all add: delta_def)
  have mdel: "m * d = 2 ^ p + delta"
    using div_mult_mod_eq [of "2 ^ p" d] mod_less_divisor [of d "2 ^ p"] d
    unfolding m_def delta_def add_mult_distrib by linarith
  have ok: "magic_multiplier d anc m p delta"
    using d dv nc0 mdel k(1) by (simp add: magic_multiplier_def delta_def p_def s_stop_def)
  have m32: "m < 2 ^ 32"
  proof (cases "k = 0")
    case True
    have "(2::nat) ^ 32 div d \<le> 2 ^ 32 div 2" using d(1) by (intro div_le_mono2) simp_all
    then show ?thesis using True unfolding m_def p_def by simp
  next
    case False
    then have "\<not> s_stop anc d (31 + k)" using k(3) by simp
    then have "2 ^ (31 + k) \<le> anc * d"
      using mult_le_mono2 [OF del [of "2 ^ (31 + k)"], of anc] unfolding s_stop_def by linarith
    then have "m * d \<le> 2 * (anc * d) + d" unfolding mdel p_def add_Suc_right power_Suc using dl by linarith
    also have "\<dots> = (2 * anc + 1) * d" by (simp add: algebra_simps)
    finally have "m \<le> 2 * anc + 1" using d by (simp only: mult_le_cancel2)
    then show ?thesis using nclt by simp
  qed
  have "n * m \<le> (n div d + 1) * 2 ^ p" if "n \<le> 2 ^ 31" for n
  proof (cases "n < anc + d")
    case True
    then show ?thesis using scaled_bounds(2) [OF ok] by (simp add: less_imp_le)
  next
    case False
    then have "n = 2 ^ 31" "2 ^ 31 mod d = d - 1" using that nc1 md by simp_all
    then show ?thesis using scaled_extreme [OF ok m_def] by (simp add: p_def)
  qed
  moreover have "n * m div 2 ^ p = n div d" if "n < 2 ^ 31" for n
    using magic_quotient [OF ok, of n] that nc1 md by simp
  ultimately show thesis
    using that [of k m] k m32 scaled_strict [OF ok dl(1)] by (simp add: m_def p_def)
qed

lemma sint_word_of_int32: "- (2 ^ 31) \<le> k \<Longrightarrow> k < 2 ^ 31 \<Longrightarrow> sint (word_of_int k :: u32) = k"
  by (simp add: sint_sbintrunc' signed_take_bit_int_eq_self)

lemma sint_small32: "unat d < 2 ^ 31 \<Longrightarrow> sint d = int (unat d)" for d :: u32
proof -
  assume "unat d < 2 ^ 31"
  then have "int (unat d) < 2 ^ 31" by (simp only: of_nat_less_numeral_power_cancel_iff)
  moreover have "word_of_int (int (unat d)) = d" by simp
  moreover have "- (2 ^ 31) \<le> int (unat d)" by (rule order.trans [of _ 0], simp, rule of_nat_0_le_iff)
  ultimately show ?thesis using sint_word_of_int32 [of "int (unat d)"] by (simp only:)
qed

lemma magic_s32_result:
  assumes d: "2 \<le> unat d" "unat d < 2 ^ 31"
  obtains m s where "magic_s32 d = Some (of_nat m, s)" "m < 2 ^ 32" "s < 32"
    "\<And>n :: int. - (2 ^ 31) \<le> n \<Longrightarrow> n < 2 ^ 31 \<Longrightarrow>
       n * int m div 2 ^ (32 + s) + (if n < 0 then 1 else 0) = n sdiv int (unat d)"
proof -
  define D where "D = unat d"
  note D = d [folded D_def]
  define anc where "anc = 2 ^ 31 - 1 - 2 ^ 31 mod D"
  obtain k m where km: "s_stop anc D (31 + Suc k)" "31 + Suc k \<le> 62"
    "\<And>i. 31 < i \<Longrightarrow> i < 31 + Suc k \<Longrightarrow> \<not> s_stop anc D i"
    "m = 2 ^ (31 + Suc k) div D + 1" "m < 2 ^ 32"
    "\<And>n. n < 2 ^ 31 \<Longrightarrow> n * m div 2 ^ (31 + Suc k) = n div D"
    "\<And>n. 0 < n \<Longrightarrow> n \<le> 2 ^ 31 \<Longrightarrow> (n div D) * 2 ^ (31 + Suc k) < n * m \<and> n * m \<le> (n div D + 1) * 2 ^ (31 + Suc k)"
    using magic_s_arith [OF D] unfolding anc_def by metis
  have "2 ^ 31 mod D < D" using D by simp
  moreover have "D \<le> 2 ^ 31 - 2 ^ 31 mod D"
    using less_trans [OF \<open>2 ^ 31 mod D < D\<close> D(2)] by (intro dvd_imp_le dvd_minus_mod) (simp only: zero_less_diff)
  ultimately have nc0: "0 < anc" using D unfolding anc_def by linarith
  have mo: "x - x div y * y = x mod y" for x y :: nat
    by (rule minus_div_mult_eq_mod)
  have sd: "sint d = int D"
    using sint_small32 [OF d(2)] by (simp only: D_def)
  have "magic_s_loop 32 anc D 31 (2 ^ 31 div anc) (2 ^ 31 mod anc) (2 ^ 31 div D) (2 ^ 31 mod D) =
    Some (31 + Suc k, 2 ^ (31 + Suc k) div D)"
    using magic_s_loop_result [of anc D 31 k 32] nc0 D km(1-3) by simp
  then have ms: "magic_s32 d = Some (of_nat m, k)"
    using D(1) km(2) unfolding magic_s32_def Let_def D_def [symmetric] anc_def [symmetric] mo sd
    by (simp add: km(4))
  have q: "n * int m div 2 ^ (32 + k) + (if n < 0 then 1 else 0) = n sdiv int D"
    if n: "- (2 ^ 31) \<le> n" "n < 2 ^ 31" for n :: int
  proof (cases "n < 0")
    case False
    define a where "a = nat n"
    have a: "n = int a" "a < 2 ^ 31" using n(2) False by (simp_all add: a_def)
    have "int (a * m div 2 ^ (32 + k)) = int (a div D)" using km(6) [OF a(2)] by simp
    then show ?thesis using False D unfolding a(1)
      by (cases "a = 0") (simp_all add: signed_divide_int_def zdiv_int)
  next
    case True
    define a where "a = nat (- n)"
    have a: "n = - int a" "0 < a" "a \<le> 2 ^ 31" using n True by (simp_all add: a_def)
    define P where "P = (2::int) ^ (32 + k)"
    have "0 < P" by (simp add: P_def)
    have PN: "int (2 ^ (31 + Suc k)) = P" by (simp add: P_def)
    note b = km(7) [OF a(2,3)]
    have "int ((a div D) * 2 ^ (31 + Suc k)) < int (a * m)" "int (a * m) \<le> int ((a div D + 1) * 2 ^ (31 + Suc k))"
      using b by (simp_all only: of_nat_less_iff of_nat_le_iff)
    then have lo: "int (a div D) * P < int a * int m" and hi: "int a * int m \<le> (int (a div D) + 1) * P"
      by (simp_all only: of_nat_mult of_nat_add PN of_nat_1)
    have "n * int m div P = - int (a div D) - 1"
    proof (rule int_div_pos_eq)
      show "n * int m = P * (- int (a div D) - 1) + ((int (a div D) + 1) * P - int a * int m)"
        unfolding a(1) by (simp add: algebra_simps)
    qed (use lo hi in \<open>simp_all add: algebra_simps\<close>)
    then show ?thesis using True D a unfolding P_def [symmetric]
      by (simp add: signed_divide_int_def zdiv_int)
  qed
  show thesis
    using ms km(2,5) q by (intro that [of m k]) (simp_all add: D_def)
qed

subsection \<open>The emitted signed division\<close>

lemma sint_bounds32: "- (2 ^ 31) \<le> sint w" "sint w < 2 ^ 31" for w :: u32
  using sint_range_size [of w] by (simp_all add: word_size)

lemma imull_high:
  "(ucast (drop_bit 32 ((scast a :: i64) * scast b)) :: u32) = word_of_int (sint a * sint b div 2 ^ 32)"
  for a b :: u32
proof -
  define x where "x = sint a * sint b"
  have "(scast a :: i64) * scast b = word_of_int x"
    unfolding x_def scast_eq by (simp only: of_int_mult)
  moreover have "ucast (drop_bit 32 (word_of_int x :: i64)) = (word_of_int (x div 2 ^ 32) :: u32)"
    unfolding drop_bit_eq_div [of _ x, symmetric] by (rule bit_word_eqI) (simp add: bit_simps)
  ultimately show ?thesis by (simp add: x_def)
qed

lemma sar_sint: "sint (signed_drop_bit k w) = sint w div 2 ^ k" for w :: u32
  by (simp add: sint_signed_drop_bit_eq drop_bit_eq_div)

lemma sign_div: "- k \<le> n \<Longrightarrow> n < k \<Longrightarrow> n div k = (if n < 0 then - 1 else 0)" for n k :: int
  by (auto intro: int_div_pos_eq [where r = "n + k"])

lemma product_bounds:
  fixes a A b B :: int
  assumes "0 \<le> a" "a < A" "- B \<le> b" "b < B"
  shows "- (A * B) \<le> a * b" "a * b < A * B"
proof -
  have "a * - b \<le> A * B" if "b < 0" using assms that by (intro mult_mono) simp_all
  moreover have "a * b < A * B" if "0 \<le> b" using assms that by (intro mult_strict_mono') simp_all
  moreover have "0 \<le> A * B" "0 < A * B" using assms by simp_all
  moreover have "0 \<le> a * b" if "0 \<le> b" using assms that by simp
  moreover have "a * b \<le> 0" if "b < 0" using assms that by (simp add: mult_nonneg_nonpos)
  ultimately show "- (A * B) \<le> a * b" "a * b < A * B"
    by (cases "b < 0"; simp)+
qed

lemma magic_high:
  fixes n :: u32
  assumes m: "m < 2 ^ 32"
  defines "M \<equiv> of_nat m :: u32"
  shows "sint (if sint M < 0 then word_of_int (sint M * sint n div 2 ^ 32) + n else word_of_int (sint M * sint n div 2 ^ 32)) =
    int m * sint n div 2 ^ 32"
proof -
  have um: "unat M = m" using m by (simp add: M_def unat_of_nat take_bit_nat_eq_self)
  have mi: "int m < 2 ^ 32" using m by (simp only: of_nat_less_numeral_power_cancel_iff)
  have "sint M = int m \<or> sint M = int m - 2 ^ 32"
  proof (cases "m < 2 ^ 31")
    case True
    then show ?thesis using sint_small32 [of M] by (simp only: um simp_thms)
  next
    case False
    have "M = word_of_int (int m - 2 ^ 32)" by (simp add: M_def)
    moreover have "(2::int) ^ 31 \<le> int m" using False by (simp only: not_less numeral_power_le_of_nat_cancel_iff)
    ultimately show ?thesis using mi sint_word_of_int32 [of "int m - 2 ^ 32"] by simp
  qed
  moreover have "sint M * sint n div 2 ^ 32 = int m * sint n div 2 ^ 32 - sint n" if "sint M = int m - 2 ^ 32"
    unfolding that by (simp add: left_diff_distrib)
  moreover have "0 \<le> int m" by simp
  ultimately have "(if sint M < 0 then word_of_int (sint M * sint n div 2 ^ 32) + n else word_of_int (sint M * sint n div 2 ^ 32)) =
    (word_of_int (int m * sint n div 2 ^ 32) :: u32)"
    using mi by (auto simp: not_less)
  moreover have "- (2 ^ 32 * 2 ^ 31) \<le> int m * sint n" "int m * sint n < 2 ^ 32 * 2 ^ 31"
    using product_bounds [OF of_nat_0_le_iff mi sint_bounds32 [of n]] by (simp_all only:)
  then have "- (2 ^ 31) \<le> int m * sint n div 2 ^ 32" "int m * sint n div 2 ^ 32 < 2 ^ 31"
    by simp_all
  ultimately show ?thesis by (simp only: sint_word_of_int32)
qed

text \<open>The quotient by the magnitude of the divisor, before its sign is applied.\<close>

lemma sdiv_core_divides:
  assumes ad: "2 \<le> ad" "\<not> is_power_of_two ad" "unat ad < 2 ^ 31"
  obtains "is" where "emit_sdiv_magic_core ad cg = Some (emit is cg)"
    "\<And>R. run is R EDX = word_of_int (sint (R EAX) sdiv int (unat ad))" "\<And>R. run is R ECX = R EAX"
proof -
  have "2 \<le> unat ad" using ad(1) by (simp add: word_le_nat_alt)
  then obtain m s where ms: "magic_s32 ad = Some (of_nat m, s)" "m < 2 ^ 32" "s < 32"
    "\<And>n :: int. - (2 ^ 31) \<le> n \<Longrightarrow> n < 2 ^ 31 \<Longrightarrow>
       n * int m div 2 ^ (32 + s) + (if n < 0 then 1 else 0) = n sdiv int (unat ad)"
    using magic_s32_result [OF _ ad(3)] by metis
  have "ad \<noteq> 2" using ad(2) by (auto simp: is_power_of_two_def)
  then have d3: "3 \<le> ad" using ad(1) unfolding word_le_nat_alt word_unat_eq_iff by simp
  define M :: u32 where "M = of_nat m"
  define hi :: "u32 \<Rightarrow> u32" where "hi n = (if sint M < 0 then
      word_of_int (sint M * sint n div 2 ^ 32) + n else word_of_int (sint M * sint n div 2 ^ 32))" for n
  have q: "signed_drop_bit s (hi n) - signed_drop_bit 31 n = word_of_int (sint n sdiv int (unat ad))" for n
  proof -
    have "sint (hi n) = int m * sint n div 2 ^ 32"
      using magic_high [OF ms(2), of n] by (simp only: hi_def M_def)
    then have "sint (signed_drop_bit s (hi n)) = sint n * int m div 2 ^ (32 + s)"
      unfolding sar_sint power_add by (simp only: zdiv_zmult2_eq zero_le_power zero_le_numeral mult.commute [of "sint n"])
    moreover have "sint (signed_drop_bit 31 n) = (if sint n < 0 then - 1 else 0)"
      unfolding sar_sint using sint_bounds32 [of n] by (intro sign_div) simp_all
    ultimately have "sint (signed_drop_bit s (hi n)) - sint (signed_drop_bit 31 n) = sint n sdiv int (unat ad)"
      using ms(4) [OF sint_bounds32, of n] by auto
    moreover have "signed_drop_bit s (hi n) - signed_drop_bit 31 n =
        word_of_int (sint (signed_drop_bit s (hi n)) - sint (signed_drop_bit 31 n))"
      by (simp only: of_int_diff of_int_sint scast_id)
    ultimately show ?thesis by (simp only:)
  qed
  show thesis
    using ad d3 ms(1,3) q
    by (intro that [of "[MovReg EAX ECX, MovImm M EAX, Imull ECX] @ (if sint M < 0 then [Addl ECX EDX] else []) @
        (if s > 0 then [Sarl s EDX] else []) @ [MovReg ECX EAX, Sarl 31 EAX, Subl EAX EDX]"])
      (auto simp: emit_sdiv_magic_core_def Let_def M_def [symmetric] imull_high hi_def)
qed

subsection \<open>Signed powers of two\<close>

lemma trunc_by_bias:
  fixes n :: int
  assumes "0 < k"
  defines "b \<equiv> (if n < 0 then k - 1 else 0)"
  shows "(n + b) div k = n sdiv k" "(n + b) mod k - b = n smod k"
proof -
  show q: "(n + b) div k = n sdiv k"
  proof (cases "n < 0")
    case True
    define a where "a = - n"
    have "a = k * (a div k) + a mod k" "0 \<le> a mod k" "a mod k < k" using assms by simp_all
    then have "(n + b) div k = - (a div k)"
      using True unfolding b_def by (intro int_div_pos_eq [where r = "k - 1 - a mod k"]) (auto simp: a_def algebra_simps)
    then show ?thesis
      using True assms(1) by (simp add: signed_divide_int_def a_def)
  next
    case False
    then show ?thesis using assms(1) by (cases "n = 0") (auto simp: b_def signed_divide_int_def)
  qed
  have "(n + b) mod k - b = n - n sdiv k * k"
    unfolding q [symmetric] minus_div_mult_eq_mod [symmetric] by simp
  also have "\<dots> = n smod k" using sdiv_mult_smod_eq [of n k] by simp
  finally show "(n + b) mod k - b = n smod k" .
qed

lemma sint_sum32:
  fixes a :: u32
  assumes "- (2 ^ 31) \<le> sint a + x" "sint a + x < 2 ^ 31"
  shows "sint (a + word_of_int x) = sint a + x"
proof -
  have "a + word_of_int x = word_of_int (sint a + x)" by simp
  then show ?thesis using sint_word_of_int32 [OF assms] by (simp only:)
qed

lemma bias_word:
  fixes n :: u32
  assumes "0 < k" "k < 32"
  shows "drop_bit (32 - k) (if bit n 31 then - 1 else 0) = (word_of_int (if sint n < 0 then 2 ^ k - 1 else 0) :: u32)"
proof -
  have "drop_bit (32 - k) (- 1 :: u32) = mask k"
    using assms by (intro bit_word_eqI) (auto simp: bit_simps)
  moreover have "(mask k :: u32) = word_of_int (2 ^ k - 1)"
    by (simp add: mask_eq_exp_minus_1)
  moreover have "bit n 31 = (sint n < 0)"
    by (simp add: bit_last_iff [where 'a = 32, simplified])
  ultimately show ?thesis by simp
qed

lemma signed_power_of_two:
  fixes n :: u32
  assumes k: "0 < k" "k < 32" and ad: "unat ad = 2 ^ k"
  defines "bias \<equiv> drop_bit (32 - k) (if bit n 31 then - 1 else 0)"
  shows "signed_drop_bit k (n + bias) = word_of_int (sint n sdiv int (unat ad))"
    and "((n + bias) AND (ad - 1)) - bias = word_of_int (sint n smod int (unat ad))"
proof -
  define b :: int where "b = (if sint n < 0 then 2 ^ k - 1 else 0)"
  have bias: "bias = word_of_int b" unfolding bias_def b_def by (rule bias_word [OF k])
  have b2: "0 \<le> b" "b < 2 ^ 31"
    using k power_increasing [of k 31 "2::int"] by (auto simp: b_def)
  have st: "sint (n + bias) = sint n + b"
    unfolding bias using sint_bounds32 [of n] b2 by (intro sint_sum32) (auto simp: b_def)
  have iad: "int (unat ad) = 2 ^ k" unfolding ad by simp
  note t = trunc_by_bias [of "2 ^ k" "sint n", folded b_def, simplified]
  have "sint (signed_drop_bit k (n + bias)) = sint n sdiv int (unat ad)"
    unfolding sar_sint st iad by (rule t)
  then show "signed_drop_bit k (n + bias) = word_of_int (sint n sdiv int (unat ad))"
    by (metis of_int_sint scast_id)
  have "unat (push_bit k 1 :: u32) = 2 ^ k"
    using k power_strict_increasing [of k 32 "2::nat"] by (subst unat_push_bit_exact) simp_all
  then have "ad = push_bit k 1"
    using ad by (simp only: word_unat_eq_iff)
  then have "(n + bias) AND (ad - 1) = take_bit k (n + bias)"
    by (simp add: take_bit_eq_mask mask_eq_exp_minus_1)
  also have "\<dots> = word_of_int (take_bit k (sint n + b))"
  proof -
    have "n + bias = word_of_int (sint n + b)" by (simp add: bias)
    then show ?thesis using k by (simp only: take_bit_of_int)
  qed
  finally show "((n + bias) AND (ad - 1)) - bias = word_of_int (sint n smod int (unat ad))"
    unfolding iad t(2) [symmetric] bias take_bit_eq_mod [of _ "sint n + b"] by simp
qed

subsection \<open>Quotients and remainders\<close>

lemma uint_of_range: "0 \<le> x \<Longrightarrow> x < 2 ^ 32 \<Longrightarrow> uint (word_of_int x :: u32) = x"
  unfolding uint_word_of_int_eq by (intro take_bit_int_eq_self) simp_all

lemma unsigned_abs_int: "int (unat (unsigned_abs d)) = \<bar>sint d\<bar>"
proof -
  have "unsigned_abs d = word_of_int \<bar>sint d\<bar>" by (auto simp: unsigned_abs_def)
  moreover have "uint (word_of_int \<bar>sint d\<bar> :: u32) = \<bar>sint d\<bar>"
    using sint_bounds32 [of d] by (intro uint_of_range) auto
  ultimately show ?thesis by (simp only: of_nat_unat)
qed

lemma signed_by_magnitude:
  "wrapping_sdiv n d =
     (if sint d < 0 then - word_of_int (sint n sdiv int (unat (unsigned_abs d)))
      else word_of_int (sint n sdiv int (unat (unsigned_abs d))))"
  "wrapping_srem n d = word_of_int (sint n smod int (unat (unsigned_abs d)))"
  for n d :: u32
  unfolding wrapping_sdiv_def wrapping_srem_def unsigned_abs_int signed_divide_int_def signed_modulo_int_def
  by (cases "sint d = 0"; auto simp: not_less)+

lemma unsigned_abs_cases:
  assumes "d \<noteq> 0" "d \<noteq> 1" "d \<noteq> - 1"
  obtains (pow) "is_power_of_two (unsigned_abs d)" "0 < trailing_zeros (unsigned_abs d)"
      "trailing_zeros (unsigned_abs d) < 32" "unat (unsigned_abs d) = 2 ^ trailing_zeros (unsigned_abs d)"
    | (magic) "\<not> is_power_of_two (unsigned_abs d)" "2 \<le> unsigned_abs d" "unat (unsigned_abs d) < 2 ^ 31"
proof (cases "is_power_of_two (unsigned_abs d)")
  case True
  note k = power_of_two_trailing_zeros [OF True]
  have "unsigned_abs d \<noteq> 1"
    using assms by (auto simp: unsigned_abs_def minus_equation_iff split: if_splits)
  then have "trailing_zeros (unsigned_abs d) \<noteq> 0"
    using k(1) by (auto simp: word_unat_eq_iff)
  then show thesis using pow True k by simp
next
  case False
  have "unsigned_abs d \<noteq> 0" "unsigned_abs d \<noteq> 1"
    using assms by (auto simp: unsigned_abs_def minus_equation_iff split: if_splits)
  then have "2 \<le> unsigned_abs d" using word_ge_two by blast
  moreover have "unat (unsigned_abs d) \<le> 2 ^ 31"
  proof -
    have "int (unat (unsigned_abs d)) \<le> 2 ^ 31"
      unfolding unsigned_abs_int using sint_bounds32 [of d] by auto
    then show ?thesis by (simp only: of_nat_le_numeral_power_cancel_iff)
  qed
  moreover have "unat (unsigned_abs d) \<noteq> 2 ^ 31"
  proof
    assume "unat (unsigned_abs d) = 2 ^ 31"
    then have "unsigned_abs d = 2 ^ 31" by (simp add: word_unat_eq_iff)
    then show False using False by (simp add: is_power_of_two_def)
  qed
  ultimately show thesis using magic False by simp
qed

lemma mul_back_product:
  assumes "memo_ok cg"
  obtains "ms" where "appends cg ms (emit_mul_back src dest d cg)"
    "\<And>R r. run ms R r = (if r = dest then d * R src else R r)"
proof -
  obtain ok cg1 where t: "try_emit_mul_imm_reg src dest (ucast d) cg = (ok, cg1)"
    by (cases "try_emit_mul_imm_reg src dest (ucast d) cg")
  obtain "is" where i: "appends cg is cg1"
      "if ok then \<forall>R r. run is R r = (if r = dest then ucast (ucast d :: i64) * R src else R r) else is = []"
    using try_emit_mul [OF assms t] by blast
  have u: "ucast (ucast d :: i64) = d" by (rule bit_word_eqI) (auto simp: bit_simps)
  show thesis
  proof (cases ok)
    case True
    then show thesis using i t u by (intro that [of "is"]) (simp_all add: emit_mul_back_def)
  next
    case False
    then show thesis
      using i t appends_emit [OF i(1), of "[ImullImm d src dest]"]
      by (intro that [of "[ImullImm d src dest]"]) (simp_all add: emit_mul_back_def)
  qed
qed

lemma mul_back_between:
  assumes "memo_ok cg"
  obtains "ms" where "appends cg (is @ ms @ js) (emit js (emit_mul_back src dest d (emit is cg)))"
    "\<And>R r. run ms R r = (if r = dest then d * R src else R r)"
proof -
  have "memo_ok (emit is cg)" using assms by simp
  then obtain ms where ms: "appends (emit is cg) ms (emit_mul_back src dest d (emit is cg))"
    "\<And>R r. run ms R r = (if r = dest then d * R src else R r)" by (rule mul_back_product [of _ src dest d]) blast
  have "appends cg (is @ ms @ js) (emit js (emit_mul_back src dest d (emit is cg)))"
    using appends_emit [OF appends_trans [OF appends_emit_refl ms(1)]] by simp
  then show thesis using ms(2) by (rule that)
qed

lemma div_mult_remainder: "n - d * (n div d) = n mod d" for n d :: "'a::len word"
  by (simp add: minus_mult_div_eq_mod)

lemma signed_remainder_from_quotient:
  "n - ad * word_of_int (sint n sdiv int (unat ad)) = word_of_int (sint n smod int (unat ad))" for n ad :: u32
proof -
  have "sint n - int (unat ad) * (sint n sdiv int (unat ad)) = sint n smod int (unat ad)"
    using sdiv_mult_smod_eq [of "sint n" "int (unat ad)"] by (simp add: algebra_simps)
  then have "word_of_int (sint n) - word_of_int (int (unat ad)) * word_of_int (sint n sdiv int (unat ad)) =
      (word_of_int (sint n smod int (unat ad)) :: u32)"
    by (simp only: flip: of_int_mult of_int_diff)
  then show ?thesis by simp
qed

lemma power_of_two_mask:
  assumes "is_power_of_two d"
  shows "n AND (d - 1) = n mod d"
proof -
  define k where "k = trailing_zeros d"
  note k = power_of_two_trailing_zeros [OF assms, folded k_def]
  have "unat (push_bit k 1 :: u32) = 2 ^ k"
    using k(2) power_strict_increasing [of k 32 "2::nat"] by (subst unat_push_bit_exact) simp_all
  then have "d = push_bit k 1" using k(1) by (simp only: word_unat_eq_iff)
  then have "n AND (d - 1) = take_bit k n"
    by (simp add: take_bit_eq_mask mask_eq_exp_minus_1)
  then show ?thesis
    by (simp add: word_unat_eq_iff unat_take_bit_mod unat_mod_distrib k(1))
qed

subsection \<open>The emitted quotients and remainders\<close>

lemma sdiv_emits:
  assumes "d \<noteq> 0" "d \<noteq> 1" "d \<noteq> - 1"
  obtains "is" where "emit_sdiv_const_in_eax d cg = Some (emit is cg)" "\<And>R. run is R EAX = wrapping_sdiv (R EAX) d"
  using assms
proof (cases d rule: unsigned_abs_cases)
  case pow
  define k where "k = trailing_zeros (unsigned_abs d)"
  note pw = signed_power_of_two(1) [OF pow(2-4), folded k_def]
  show thesis
    using assms pow pw by (intro that [of "[Cltd, Shrl (32 - k) EDX, Addl EDX EAX, Sarl k EAX] @ (if sint d < 0 then [Negl EAX] else [])"])
      (auto simp: emit_sdiv_const_in_eax_def Let_def k_def signed_by_magnitude(1))
next
  case magic
  obtain "is" where i: "emit_sdiv_magic_core (unsigned_abs d) cg = Some (emit is cg)"
    "\<And>R. run is R EDX = word_of_int (sint (R EAX) sdiv int (unat (unsigned_abs d)))" "\<And>R. run is R ECX = R EAX"
    using magic by (metis sdiv_core_divides)
  then show thesis
    using assms magic by (intro that [of "is @ [MovReg EDX EAX] @ (if sint d < 0 then [Negl EAX] else [])"])
      (auto simp: emit_sdiv_const_in_eax_def Let_def signed_by_magnitude(1))
qed

lemma urem_emits:
  assumes "d \<noteq> 0" "memo_ok cg"
  obtains cg' "is" where "emit_urem_const_in_eax d cg = Some cg'" "appends cg is cg'" "\<And>R. run is R EAX = R EAX mod d"
proof -
  consider (one) "d = 1" | (pow) "d \<noteq> 1" "is_power_of_two d" | (magic) "2 \<le> d" "\<not> is_power_of_two d"
    using word_ge_two assms(1) by blast
  then show thesis
  proof cases
    case one
    then show thesis
      by (intro that [of "emit [Xorl EAX EAX] cg" "[Xorl EAX EAX]"]) (simp_all add: emit_urem_const_in_eax_def)
  next
    case pow
    note k = power_of_two_trailing_zeros [OF pow(2)]
    have "n AND (d - 1) = n mod d" for n
      using power_of_two_mask [OF pow(2)] .
    then show thesis
      using pow by (intro that [of "emit [AndlImm (d - 1) EAX] cg" "[AndlImm (d - 1) EAX]"]) (simp_all add: emit_urem_const_in_eax_def)
  next
    case magic
    obtain "is" where i: "emit_udiv_magic_keep_n d cg = Some (emit is cg)"
      "\<And>R. run is R EAX = R EAX div d" "\<And>R. run is R ECX = R EAX"
      using magic by (metis keep_n_divides)
    obtain ms where m: "appends cg (is @ ms @ [MovReg ECX EAX, Subl EDX EAX])
        (emit [MovReg ECX EAX, Subl EDX EAX] (emit_mul_back EAX EDX d (emit is cg)))"
      "\<And>R r. run ms R r = (if r = EDX then d * R EAX else R r)"
      using assms(2) by (rule mul_back_between) blast
    have "d \<noteq> 1" using magic by (auto simp: is_power_of_two_def)
    with magic show thesis
      by (intro that [OF _ m(1)]) (simp_all add: emit_urem_const_in_eax_def i m(2) div_mult_remainder)
  qed
qed

lemma srem_emits:
  assumes "d \<noteq> 0" "d \<noteq> 1" "d \<noteq> - 1" "memo_ok cg"
  obtains cg' "is" where "emit_srem_const_in_eax d cg = Some cg'" "appends cg is cg'"
    "\<And>R. run is R EAX = wrapping_srem (R EAX) d"
  using assms(1-3)
proof (cases d rule: unsigned_abs_cases)
  case pow
  define k where "k = trailing_zeros (unsigned_abs d)"
  note pw = signed_power_of_two(2) [OF pow(2-4), folded k_def]
  show thesis
    using assms pow pw
    by (intro that [of _ "[Cltd, Shrl (32 - k) EDX, Addl EDX EAX, AndlImm (unsigned_abs d - 1) EAX, Subl EDX EAX]"])
      (auto simp: emit_srem_const_in_eax_def Let_def k_def signed_by_magnitude(2))
next
  case magic
  obtain "is" where i: "emit_sdiv_magic_core (unsigned_abs d) cg = Some (emit is cg)"
    "\<And>R. run is R EDX = word_of_int (sint (R EAX) sdiv int (unat (unsigned_abs d)))" "\<And>R. run is R ECX = R EAX"
    using magic by (metis sdiv_core_divides)
  obtain ms where m: "appends cg (is @ ms @ [Subl EAX ECX, MovReg ECX EAX])
      (emit [Subl EAX ECX, MovReg ECX EAX] (emit_mul_back EDX EAX (unsigned_abs d) (emit is cg)))"
    "\<And>R r. run ms R r = (if r = EAX then unsigned_abs d * R EDX else R r)"
    using assms(4) by (rule mul_back_between) blast
  from assms magic show thesis
    by (intro that [OF _ m(1)])
      (simp_all add: emit_srem_const_in_eax_def i m(2) signed_remainder_from_quotient signed_by_magnitude(2) del: of_nat_unat)
qed

lemma udivrem_emits:
  assumes "d \<noteq> 0" "memo_ok cg"
  obtains cg' "is" where "emit_udivrem d cg = Some (True, cg')" "appends cg is cg'"
    "\<And>R. run is R EAX = R EAX div d" "\<And>R. run is R EDX = R EAX mod d"
proof -
  consider (one) "d = 1" | (pow) "d \<noteq> 1" "is_power_of_two d" | (magic) "2 \<le> d" "\<not> is_power_of_two d"
    using word_ge_two assms(1) by blast
  then show thesis
  proof cases
    case one
    then show thesis
      by (intro that [of "emit [Xorl EDX EDX] cg" "[Xorl EDX EDX]"]) (simp_all add: emit_udivrem_def)
  next
    case pow
    note k = power_of_two_trailing_zeros [OF pow(2)]
    have "drop_bit (trailing_zeros d) n = n div d" for n
      by (simp add: word_unat_eq_iff unat_drop_bit_div unat_div_distrib k)
    then show thesis
      using assms(1) pow k(2) power_of_two_mask [OF pow(2)]
      by (intro that [of "emit [MovReg EAX EDX, AndlImm (d - 1) EDX, Shrl (trailing_zeros d) EAX] cg"
          "[MovReg EAX EDX, AndlImm (d - 1) EDX, Shrl (trailing_zeros d) EAX]"]) (simp_all add: emit_udivrem_def)
  next
    case magic
    obtain "is" where i: "emit_udiv_magic_keep_n d cg = Some (emit is cg)"
      "\<And>R. run is R EAX = R EAX div d" "\<And>R. run is R ECX = R EAX"
      using magic by (metis keep_n_divides)
    obtain ms where m: "appends cg (is @ ms @ [Subl EDX ECX, MovReg ECX EDX])
        (emit [Subl EDX ECX, MovReg ECX EDX] (emit_mul_back EAX EDX d (emit is cg)))"
      "\<And>R r. run ms R r = (if r = EDX then d * R EAX else R r)"
      using assms(2) by (rule mul_back_between) blast
    have "d \<noteq> 1" using magic by (auto simp: is_power_of_two_def)
    with magic assms(1) show thesis
      by (intro that [OF _ m(1)]) (simp_all add: emit_udivrem_def i m(2) div_mult_remainder)
  qed
qed

lemma wrapping_by_one [simp]:
  "wrapping_sdiv n 1 = n" "wrapping_sdiv n (- 1) = - n" "wrapping_srem n 1 = 0" "wrapping_srem n (- 1) = 0" for n :: u32
  by (simp_all add: wrapping_sdiv_def wrapping_srem_def signed_divide_int_def signed_modulo_int_def mult_sgn_abs del: of_int_mult)

lemma sdivrem_emits:
  assumes "d \<noteq> 0" "memo_ok cg"
  obtains cg' "is" where "emit_sdivrem d cg = Some (True, cg')" "appends cg is cg'"
    "\<And>R. run is R EAX = wrapping_sdiv (R EAX) d" "\<And>R. run is R EDX = wrapping_srem (R EAX) d"
proof (cases "d = 1 \<or> d = - 1")
  case True
  then consider "d = 1" | "d = - 1" by blast
  then show thesis
  proof cases
    case 1
    then show thesis
      by (intro that [of "emit [Xorl EDX EDX] cg" "[Xorl EDX EDX]"]) (simp_all add: emit_sdivrem_def)
  next
    case 2
    then show thesis
      by (intro that [of "emit [Negl EAX, Xorl EDX EDX] cg" "[Negl EAX, Xorl EDX EDX]"]) (simp_all add: emit_sdivrem_def)
  qed
next
  case False
  then have d: "d \<noteq> 0" "d \<noteq> 1" "d \<noteq> - 1" using assms by simp_all
  then show thesis
  proof (cases d rule: unsigned_abs_cases)
    case pow
    define k where "k = trailing_zeros (unsigned_abs d)"
    note pw = signed_power_of_two [OF pow(2-4), folded k_def]
    show thesis
      using d pow pw
      by (intro that [of _ "[Cltd, Shrl (32 - k) EDX, Addl EDX EAX, MovReg EAX ECX, AndlImm (unsigned_abs d - 1) ECX, Subl EDX ECX,
                        Sarl k EAX] @ (if sint d < 0 then [Negl EAX] else []) @ [MovReg ECX EDX]"])
        (auto simp: emit_sdivrem_def Let_def k_def signed_by_magnitude)
  next
    case magic
    obtain "is" where i: "emit_sdiv_magic_core (unsigned_abs d) cg = Some (emit is cg)"
      "\<And>R. run is R EDX = word_of_int (sint (R EAX) sdiv int (unat (unsigned_abs d)))" "\<And>R. run is R ECX = R EAX"
      using magic by (metis sdiv_core_divides)
    let ?js = "[Subl EAX ECX, MovReg EDX EAX] @ (if sint d < 0 then [Negl EAX] else []) @ [MovReg ECX EDX]"
    obtain ms where m: "appends cg (is @ ms @ ?js) (emit ?js (emit_mul_back EDX EAX (unsigned_abs d) (emit is cg)))"
      "\<And>R r. run ms R r = (if r = EAX then unsigned_abs d * R EDX else R r)"
      using assms(2) by (rule mul_back_between) blast
    from d magic show thesis
      by (intro that [OF _ m(1)])
        (auto simp: emit_sdivrem_def Let_def i m(2) signed_remainder_from_quotient signed_by_magnitude simp del: of_nat_unat)
  qed
qed

lemma fits_nonzero:
  fixes d :: i64
  assumes "- (2 ^ 31) \<le> sint d \<and> sint d < 2 ^ 31 \<or> 0 \<le> sint d \<and> sint d < 2 ^ 32" "d \<noteq> 0"
  shows "(ucast d :: u32) \<noteq> 0"
proof
  assume "(ucast d :: u32) = 0"
  moreover have "(ucast d :: u32) = word_of_int (sint d)"
    by (rule bit_word_eqI) (auto simp: bit_simps min_def)
  ultimately have "(word_of_int (sint d) :: u32) = 0" by (simp only:)
  then have "2 ^ 32 dvd sint d"
    unfolding word_of_int_eq_0_iff by simp
  moreover have "sint d \<noteq> 0" using assms(2) by (simp add: signed_eq_0_iff)
  ultimately show False using assms(1) dvd_imp_le_int [of "sint d" "2 ^ 32"] by auto
qed

text \<open>
  C21: the code emitted for an unsigned division by a constant leaves the exact quotient in
  \<^verbatim>\<open>eax\<close> for every dividend, whatever the other registers held. Only the divisor zero is refused: the search
  for a multiplier always ends within its asserted bound, with a shift that fits the encoding.
\<close>

theorem emit_udiv_const_divides:
  "case emit_udiv_const_in_eax d cg of
     None \<Rightarrow> d = 0
   | Some cg' \<Rightarrow> d \<noteq> 0 \<and> (\<exists>is. appends cg is cg' \<and> (\<forall>R. run is R EAX = R EAX div d))"
proof (cases "d = 0")
  case True
  then show ?thesis by (simp add: emit_udiv_const_in_eax_def magic_u32_def is_power_of_two_def)
next
  case False
  then obtain "is" where "emit_udiv_const_in_eax d cg = Some (emit is cg)" "\<And>R. run is R EAX = R EAX div d"
    by (metis udiv_emits)
  with False show ?thesis by (auto intro!: exI [of _ "is"])
qed

text \<open>
  C8: the code emitted for a signed division by a constant leaves the quotient rounded towards zero in \<^verbatim>\<open>eax\<close>, for
  every dividend and for divisors of either sign, powers of two and the least negative integer included. The emitter
  refuses exactly the divisors its caller handles itself.
\<close>

theorem emit_sdiv_const_divides:
  "case emit_sdiv_const_in_eax d cg of
     None \<Rightarrow> d \<in> {0, 1, - 1}
   | Some cg' \<Rightarrow> d \<notin> {0, 1, - 1} \<and> (\<exists>is. appends cg is cg' \<and> (\<forall>R. run is R EAX = wrapping_sdiv (R EAX) d))"
proof (cases "d \<in> {0, 1, - 1}")
  case True
  then show ?thesis by (auto simp: emit_sdiv_const_in_eax_def)
next
  case False
  then obtain "is" where "emit_sdiv_const_in_eax d cg = Some (emit is cg)" "\<And>R. run is R EAX = wrapping_sdiv (R EAX) d"
    by (metis sdiv_emits insertCI)
  with False show ?thesis by (auto intro!: exI [of _ "is"])
qed

text \<open>
  the code emitted for a remainder by a constant leaves the remainder in \<^verbatim>\<open>eax\<close>: the unsigned one for every
  nonzero divisor, the signed one, whose sign follows the dividend, for every divisor but the three its caller handles.
\<close>

theorem emit_rem_const_remainder:
  assumes "memo_ok cg"
  shows "(case emit_urem_const_in_eax d cg of
       None \<Rightarrow> d = 0
     | Some cg' \<Rightarrow> d \<noteq> 0 \<and> memo_ok cg' \<and> (\<exists>is. appends cg is cg' \<and> (\<forall>R. run is R EAX = R EAX mod d))) \<and>
    (case emit_srem_const_in_eax d cg of
       None \<Rightarrow> d \<in> {0, 1, - 1}
     | Some cg' \<Rightarrow> d \<notin> {0, 1, - 1} \<and> memo_ok cg' \<and>
         (\<exists>is. appends cg is cg' \<and> (\<forall>R. run is R EAX = wrapping_srem (R EAX) d)))"
proof
  show "case emit_urem_const_in_eax d cg of
       None \<Rightarrow> d = 0
     | Some cg' \<Rightarrow> d \<noteq> 0 \<and> memo_ok cg' \<and> (\<exists>is. appends cg is cg' \<and> (\<forall>R. run is R EAX = R EAX mod d))"
  proof (cases "d = 0")
    case True
    then show ?thesis by (simp add: emit_urem_const_in_eax_def emit_udiv_magic_keep_n_def is_power_of_two_def)
  next
    case False
    then obtain cg' "is" where "emit_urem_const_in_eax d cg = Some cg'" "appends cg is cg'" "\<And>R. run is R EAX = R EAX mod d"
      using assms by (metis urem_emits)
    with False assms show ?thesis by (auto simp: appends_def)
  qed
  show "case emit_srem_const_in_eax d cg of
       None \<Rightarrow> d \<in> {0, 1, - 1}
     | Some cg' \<Rightarrow> d \<notin> {0, 1, - 1} \<and> memo_ok cg' \<and>
         (\<exists>is. appends cg is cg' \<and> (\<forall>R. run is R EAX = wrapping_srem (R EAX) d))"
  proof (cases "d \<in> {0, 1, - 1}")
    case True
    then show ?thesis by (auto simp: emit_srem_const_in_eax_def)
  next
    case False
    then obtain cg' "is" where "emit_srem_const_in_eax d cg = Some cg'" "appends cg is cg'"
      "\<And>R. run is R EAX = wrapping_srem (R EAX) d"
      using assms by (metis srem_emits insertCI)
    with False assms show ?thesis by (auto simp: appends_def)
  qed
qed

theorem emit_rem_const_remainder_witness:
  "memo_ok idle_codegen \<and>
   (case emit_urem_const_in_eax 7 idle_codegen of
      None \<Rightarrow> False
    | Some cg' \<Rightarrow> memo_ok cg' \<and> (\<exists>is. appends idle_codegen is cg' \<and> (\<forall>R. run is R EAX = R EAX mod 7)))"
  using emit_rem_const_remainder [of idle_codegen 7] by (auto split: option.splits)

text \<open>
  C18: the fused division never fails an assertion; it declines, emitting nothing, exactly when the constant is zero or
  does not fit the operand type, and otherwise leaves the quotient in \<^verbatim>\<open>eax\<close> and the remainder in \<^verbatim>\<open>edx\<close>, also for
  the divisors one and minus one.
\<close>

theorem emit_divrem_const_exact:
  assumes "memo_ok cg"
  shows "\<exists>ok cg' is. emit_divrem_const_in_eax_edx sgnd d cg = Some (ok, cg') \<and> memo_ok cg' \<and> appends cg is cg' \<and>
     (if ok
      then (\<forall>R. if sgnd
             then run is R EAX = wrapping_sdiv (R EAX) (ucast d) \<and> run is R EDX = wrapping_srem (R EAX) (ucast d)
             else run is R EAX = R EAX div ucast d \<and> run is R EDX = R EAX mod ucast d)
      else is = [] \<and>
        (d = 0 \<or> (if sgnd then sint d < - (2 ^ 31) \<or> 2 ^ 31 \<le> sint d else sint d < 0 \<or> 2 ^ 32 \<le> sint d)))"
proof -
  define fits where "fits = (if sgnd then - (2 ^ 31) \<le> sint d \<and> sint d < 2 ^ 31 else 0 \<le> sint d \<and> sint d < 2 ^ 32)"
  show ?thesis
  proof (cases "fits \<and> d \<noteq> 0")
    case True
    then have nz: "(ucast d :: u32) \<noteq> 0" using fits_nonzero [of d] by (auto simp: fits_def split: if_splits)
    show ?thesis
    proof (cases sgnd)
      case sg: True
      obtain cg' "is" where "emit_sdivrem (ucast d) cg = Some (True, cg')" "appends cg is cg'"
        "\<And>R. run is R EAX = wrapping_sdiv (R EAX) (ucast d)" "\<And>R. run is R EDX = wrapping_srem (R EAX) (ucast d)"
        using nz assms by (metis sdivrem_emits)
      with sg True assms show ?thesis
        by (intro exI [of _ True] exI [of _ cg'] exI [of _ "is"])
          (auto simp: emit_divrem_const_in_eax_edx_def fits_def appends_def)
    next
      case us: False
      obtain cg' "is" where "emit_udivrem (ucast d) cg = Some (True, cg')" "appends cg is cg'"
        "\<And>R. run is R EAX = R EAX div ucast d" "\<And>R. run is R EDX = R EAX mod ucast d"
        using nz assms by (metis udivrem_emits)
      with us True assms show ?thesis
        by (intro exI [of _ True] exI [of _ cg'] exI [of _ "is"])
          (auto simp: emit_divrem_const_in_eax_edx_def fits_def appends_def)
    qed
  next
    case False
    then have "emit_divrem_const_in_eax_edx sgnd d cg = Some (False, cg)"
    proof (cases "d = 0")
      case True
      then show ?thesis by (simp add: emit_divrem_const_in_eax_edx_def emit_udivrem_def emit_sdivrem_def)
    next
      case nz: False
      then show ?thesis
        using False unfolding emit_divrem_const_in_eax_edx_def fits_def by (cases sgnd) (simp_all only: simp_thms if_True if_False)
    qed
    with False assms show ?thesis
      by (intro exI [of _ False] exI [of _ cg] exI [of _ "[]"]) (auto simp: fits_def)
  qed
qed

theorem emit_divrem_const_exact_witness:
  "memo_ok idle_codegen \<and>
   (\<exists>cg' is. emit_divrem_const_in_eax_edx True 1 idle_codegen = Some (True, cg') \<and> memo_ok cg' \<and> appends idle_codegen is cg' \<and>
      (\<forall>R. run is R EAX = wrapping_sdiv (R EAX) 1 \<and> run is R EDX = wrapping_srem (R EAX) 1))"
proof -
  have "emit_divrem_const_in_eax_edx True 1 idle_codegen = Some (True, emit [Xorl EDX EDX] idle_codegen)"
    by (simp add: emit_divrem_const_in_eax_edx_def emit_sdivrem_def)
  then show ?thesis
    using emit_divrem_const_exact [OF memo_ok_idle, of True 1] by auto
qed

end
