(* ===== verification/PpExpr.thy ===== *)
theory PpExpr
  imports IrOps
begin

text \<open>
  The evaluator of preprocessor conditions, \<^verbatim>\<open>ExprParser\<close> of
  \<^verbatim>\<open>src/src/frontend/preprocessor/conditionals.rs\<close>: a recursive-descent parser that computes the value of an
  \<^verbatim>\<open>#if\<close> expression while it reads the tokens. The slice and the position of the parser are the tokens that are
  left; the dialect switch it reads is a field of its state. Every function of the code is a definition of
  the same name. The parser functions are parameterised by \<open>parse_unary\<close>, which closes the recursion on a bound
  that is shown to be enough for every token list; a bound that is used up is \<^const>\<open>None\<close>.
\<close>

datatype expr_token =
    Num i64 bool
  | Ident string
  | Op string
  | LParen
  | RParen
  | Defined

type_synonym pp_val = "i64 \<times> bool"

record parser =
  toks :: "expr_token list"
  quiet :: bool
  undefined_names :: "string list"
  c23_dialect :: bool

type_synonym parse_result = "(pp_val \<times> parser) option"

definition new_parser :: "bool \<Rightarrow> expr_token list \<Rightarrow> parser" where
  "new_parser c23 ts = \<lparr>toks = ts, quiet = False, undefined_names = [], c23_dialect = c23\<rparr>"

definition peek :: "parser \<Rightarrow> expr_token option" where
  "peek p = (case toks p of [] \<Rightarrow> None | t # _ \<Rightarrow> Some t)"

definition advance :: "parser \<Rightarrow> parser" where
  "advance p = p\<lparr>toks := tl (toks p)\<rparr>"

definition peek_op :: "parser \<Rightarrow> string \<Rightarrow> bool" where
  "peek_op p s \<longleftrightarrow> peek p = Some (Op s)"

subsection \<open>Operators\<close>

definition pp_bool :: "bool \<Rightarrow> pp_val" where
  "pp_bool b = (if b then 1 else 0, False)"

definition or_ops :: "string \<Rightarrow> (pp_val \<Rightarrow> pp_val \<Rightarrow> pp_val) option" where
  "or_ops s = (if s = ''||'' then Some (\<lambda>l r. pp_bool (fst l \<noteq> 0 \<or> fst r \<noteq> 0)) else None)"

definition and_ops :: "string \<Rightarrow> (pp_val \<Rightarrow> pp_val \<Rightarrow> pp_val) option" where
  "and_ops s = (if s = ''&&'' then Some (\<lambda>l r. pp_bool (fst l \<noteq> 0 \<and> fst r \<noteq> 0)) else None)"

definition bitor_ops :: "string \<Rightarrow> (pp_val \<Rightarrow> pp_val \<Rightarrow> pp_val) option" where
  "bitor_ops s = (if s = ''|'' then Some (\<lambda>l r. (fst l OR fst r, snd l \<or> snd r)) else None)"

definition bitxor_ops :: "string \<Rightarrow> (pp_val \<Rightarrow> pp_val \<Rightarrow> pp_val) option" where
  "bitxor_ops s = (if s = ''^'' then Some (\<lambda>l r. (fst l XOR fst r, snd l \<or> snd r)) else None)"

definition bitand_ops :: "string \<Rightarrow> (pp_val \<Rightarrow> pp_val \<Rightarrow> pp_val) option" where
  "bitand_ops s = (if s = ''&'' then Some (\<lambda>l r. (fst l AND fst r, snd l \<or> snd r)) else None)"

definition equality_ops :: "string \<Rightarrow> (pp_val \<Rightarrow> pp_val \<Rightarrow> pp_val) option" where
  "equality_ops s =
     (if s = ''=='' then Some (\<lambda>l r. pp_bool (if snd l \<or> snd r then uint (fst l) = uint (fst r) else sint (fst l) = sint (fst r)))
      else if s = ''!='' then Some (\<lambda>l r. pp_bool (if snd l \<or> snd r then uint (fst l) \<noteq> uint (fst r) else sint (fst l) \<noteq> sint (fst r)))
      else None)"

definition relational_ops :: "string \<Rightarrow> (pp_val \<Rightarrow> pp_val \<Rightarrow> pp_val) option" where
  "relational_ops s =
     (if s = ''<'' then Some (\<lambda>l r. pp_bool (if snd l \<or> snd r then uint (fst l) < uint (fst r) else sint (fst l) < sint (fst r)))
      else if s = ''>'' then Some (\<lambda>l r. pp_bool (if snd l \<or> snd r then uint (fst l) > uint (fst r) else sint (fst l) > sint (fst r)))
      else if s = ''<='' then Some (\<lambda>l r. pp_bool (if snd l \<or> snd r then uint (fst l) \<le> uint (fst r) else sint (fst l) \<le> sint (fst r)))
      else if s = ''>='' then Some (\<lambda>l r. pp_bool (if snd l \<or> snd r then uint (fst l) \<ge> uint (fst r) else sint (fst l) \<ge> sint (fst r)))
      else None)"

definition shift_ops :: "string \<Rightarrow> (pp_val \<Rightarrow> pp_val \<Rightarrow> pp_val) option" where
  "shift_ops s =
     (if s = ''<<'' then
        Some (\<lambda>l r. let shift_amt = unat (ucast (fst r) :: u32) mod 64
                     in if snd l then (push_bit shift_amt (fst l), True) else (push_bit shift_amt (fst l), snd l))
      else if s = ''>>'' then
        Some (\<lambda>l r. let shift_amt = unat (ucast (fst r) :: u32) mod 64
                     in if snd l then (drop_bit shift_amt (fst l), True) else (signed_drop_bit shift_amt (fst l), False))
      else None)"

definition additive_ops :: "string \<Rightarrow> (pp_val \<Rightarrow> pp_val \<Rightarrow> pp_val) option" where
  "additive_ops s =
     (if s = ''+'' then Some (\<lambda>l r. (fst l + fst r, snd l \<or> snd r))
      else if s = ''-'' then Some (\<lambda>l r. (fst l - fst r, snd l \<or> snd r))
      else None)"

definition multiplicative_ops :: "string \<Rightarrow> (pp_val \<Rightarrow> pp_val \<Rightarrow> pp_val) option" where
  "multiplicative_ops s =
     (if s = ''*'' then
        Some (\<lambda>l r. if snd l \<or> snd r then (fst l * fst r, True) else (fst l * fst r, False))
      else if s = ''/'' then
        Some (\<lambda>l r. let u = snd l \<or> snd r
                     in if fst r = 0 then (0, u)
                        else if u then (fst l div fst r, True)
                        else if sint (fst l) = - (2 ^ 63) \<and> fst r = - 1 then (word_of_int (- (2 ^ 63)), False)
                        else (word_of_int (sint (fst l) sdiv sint (fst r)), False))
      else if s = ''%'' then
        Some (\<lambda>l r. let u = snd l \<or> snd r
                     in if fst r = 0 then (0, u)
                        else if u then (fst l mod fst r, True)
                        else if sint (fst l) = - (2 ^ 63) \<and> fst r = - 1 then (0, False)
                        else (word_of_int (sint (fst l) smod sint (fst r)), False))
      else None)"

definition comma_ops :: "string \<Rightarrow> (pp_val \<Rightarrow> pp_val \<Rightarrow> pp_val) option" where
  "comma_ops s = (if s = '','' then Some (\<lambda>l r. r) else None)"

subsection \<open>The parser\<close>

text \<open>
  The loop shared by the left-associative levels: while the next token is an operator of the level, read it and one
  operand and combine. \<open>skip\<close> is given for the two logical levels, which silence diagnostics in an operand whose
  value cannot matter and restore the flag afterwards.
\<close>

fun chain_loop :: "(pp_val \<Rightarrow> bool) option \<Rightarrow> (string \<Rightarrow> (pp_val \<Rightarrow> pp_val \<Rightarrow> pp_val) option) \<Rightarrow>
    (parser \<Rightarrow> parse_result) \<Rightarrow> nat \<Rightarrow> pp_val \<Rightarrow> parser \<Rightarrow> parse_result" where
  "chain_loop skip ops sub 0 left p = None"
| "chain_loop skip ops sub (Suc n) left p =
     (case peek p of
        Some (Op s) \<Rightarrow>
          (case ops s of
             None \<Rightarrow> Some (left, p)
           | Some f \<Rightarrow>
               let p = advance p;
                   q = quiet p
               in case sub (case skip of None \<Rightarrow> p | Some g \<Rightarrow> p\<lparr>quiet := q \<or> g left\<rparr>) of
                    None \<Rightarrow> None
                  | Some (right, p) \<Rightarrow>
                      chain_loop skip ops sub n (f left right) (case skip of None \<Rightarrow> p | Some g \<Rightarrow> p\<lparr>quiet := q\<rparr>))
      | _ \<Rightarrow> Some (left, p))"

definition chain :: "(pp_val \<Rightarrow> bool) option \<Rightarrow> (string \<Rightarrow> (pp_val \<Rightarrow> pp_val \<Rightarrow> pp_val) option) \<Rightarrow>
    (parser \<Rightarrow> parse_result) \<Rightarrow> nat \<Rightarrow> parser \<Rightarrow> parse_result" where
  "chain skip ops sub n p = (case sub p of None \<Rightarrow> None | Some (left, p) \<Rightarrow> chain_loop skip ops sub n left p)"

definition parse_multiplicative :: "(parser \<Rightarrow> parse_result) \<Rightarrow> nat \<Rightarrow> parser \<Rightarrow> parse_result" where
  "parse_multiplicative unary n = chain None multiplicative_ops unary n"

definition parse_additive :: "(parser \<Rightarrow> parse_result) \<Rightarrow> nat \<Rightarrow> parser \<Rightarrow> parse_result" where
  "parse_additive unary n = chain None additive_ops (parse_multiplicative unary n) n"

definition parse_shift :: "(parser \<Rightarrow> parse_result) \<Rightarrow> nat \<Rightarrow> parser \<Rightarrow> parse_result" where
  "parse_shift unary n = chain None shift_ops (parse_additive unary n) n"

definition parse_relational :: "(parser \<Rightarrow> parse_result) \<Rightarrow> nat \<Rightarrow> parser \<Rightarrow> parse_result" where
  "parse_relational unary n = chain None relational_ops (parse_shift unary n) n"

definition parse_equality :: "(parser \<Rightarrow> parse_result) \<Rightarrow> nat \<Rightarrow> parser \<Rightarrow> parse_result" where
  "parse_equality unary n = chain None equality_ops (parse_relational unary n) n"

definition parse_bitand :: "(parser \<Rightarrow> parse_result) \<Rightarrow> nat \<Rightarrow> parser \<Rightarrow> parse_result" where
  "parse_bitand unary n = chain None bitand_ops (parse_equality unary n) n"

definition parse_bitxor :: "(parser \<Rightarrow> parse_result) \<Rightarrow> nat \<Rightarrow> parser \<Rightarrow> parse_result" where
  "parse_bitxor unary n = chain None bitxor_ops (parse_bitand unary n) n"

definition parse_bitor :: "(parser \<Rightarrow> parse_result) \<Rightarrow> nat \<Rightarrow> parser \<Rightarrow> parse_result" where
  "parse_bitor unary n = chain None bitor_ops (parse_bitxor unary n) n"

definition parse_and :: "(parser \<Rightarrow> parse_result) \<Rightarrow> nat \<Rightarrow> parser \<Rightarrow> parse_result" where
  "parse_and unary n = chain (Some (\<lambda>left. fst left = 0)) and_ops (parse_bitor unary n) n"

definition parse_or :: "(parser \<Rightarrow> parse_result) \<Rightarrow> nat \<Rightarrow> parser \<Rightarrow> parse_result" where
  "parse_or unary n = chain (Some (\<lambda>left. fst left \<noteq> 0)) or_ops (parse_and unary n) n"

fun parse_ternary :: "(parser \<Rightarrow> parse_result) \<Rightarrow> nat \<Rightarrow> parser \<Rightarrow> parse_result" where
  "parse_ternary unary 0 p = None"
| "parse_ternary unary (Suc n) p =
     (case parse_or unary (Suc n) p of
        None \<Rightarrow> None
      | Some (cond, p) \<Rightarrow>
          if peek_op p ''?'' then
            let p = advance p;
                q = quiet p
            in case parse_ternary unary n (p\<lparr>quiet := q \<or> fst cond = 0\<rparr>) of
                 None \<Rightarrow> None
               | Some (then_val, p) \<Rightarrow>
                   let p = (if peek_op p '':'' then advance p else p)
                   in case parse_ternary unary n (p\<lparr>quiet := q \<or> fst cond \<noteq> 0\<rparr>) of
                        None \<Rightarrow> None
                      | Some (else_val, p) \<Rightarrow>
                          Some (if fst cond \<noteq> 0 then then_val else else_val, p\<lparr>quiet := q\<rparr>)
          else Some (cond, p))"

definition parse_comma :: "(parser \<Rightarrow> parse_result) \<Rightarrow> nat \<Rightarrow> parser \<Rightarrow> parse_result" where
  "parse_comma unary n = chain None comma_ops (parse_ternary unary n) n"

definition parse_primary :: "(parser \<Rightarrow> parse_result) \<Rightarrow> parser \<Rightarrow> parse_result" where
  "parse_primary comma p =
     (case peek p of
        Some (Num n u) \<Rightarrow> Some ((n, u), advance p)
      | Some LParen \<Rightarrow>
          (case comma (advance p) of
             None \<Rightarrow> None
           | Some (val, p) \<Rightarrow> Some (val, if peek p = Some RParen then advance p else p))
      | Some Defined \<Rightarrow>
          (let p = advance p;
               has_paren = (peek p = Some LParen);
               p = (if has_paren then advance p else p);
               p = (case peek p of Some (Ident _) \<Rightarrow> advance p | _ \<Rightarrow> p);
               p = (if has_paren \<and> peek p = Some RParen then advance p else p)
           in Some ((0, False), p))
      | Some (Ident name) \<Rightarrow>
          (let p = advance p
           in if name = ''true'' \<and> c23_dialect p then Some ((1, False), p)
              else if name = ''false'' \<and> c23_dialect p then Some ((0, False), p)
              else Some ((0, False), if \<not> quiet p then p\<lparr>undefined_names := undefined_names p @ [name]\<rparr> else p))
      | _ \<Rightarrow> Some ((0, False), advance p))"

primrec parse_unary :: "nat \<Rightarrow> parser \<Rightarrow> parse_result" where
  "parse_unary 0 p = None"
| "parse_unary (Suc n) p =
     (if peek_op p ''!'' then
        (case parse_unary n (advance p) of None \<Rightarrow> None | Some (val, p) \<Rightarrow> Some (pp_bool (fst val = 0), p))
      else if peek_op p ''-'' then
        (case parse_unary n (advance p) of
           None \<Rightarrow> None
         | Some (val, p) \<Rightarrow> Some (if snd val then (- fst val, True) else (- fst val, False), p))
      else if peek_op p ''+'' then parse_unary n (advance p)
      else if peek_op p ''~'' then
        (case parse_unary n (advance p) of None \<Rightarrow> None | Some (val, p) \<Rightarrow> Some ((NOT (fst val), snd val), p))
      else parse_primary (parse_comma (parse_unary n) n) p)"

text \<open>The entry point: the value of the condition and the names it used that were not defined.\<close>

definition evaluate_condition :: "bool \<Rightarrow> expr_token list \<Rightarrow> (bool \<times> string list) option" where
  "evaluate_condition c23 ts =
     (let n = Suc (length ts)
      in case parse_ternary (parse_unary n) n (new_parser c23 ts) of
           None \<Rightarrow> None
         | Some (val, p) \<Rightarrow> Some (fst val \<noteq> 0, undefined_names p))"

subsection \<open>The parser always returns\<close>

definition returns :: "nat \<Rightarrow> (parser \<Rightarrow> parse_result) \<Rightarrow> bool" where
  "returns k f \<longleftrightarrow>
     (\<forall>p. length (toks p) < k \<longrightarrow>
        (\<exists>v p'. f p = Some (v, p') \<and> length (toks p') \<le> length (toks p) \<and> quiet p' = quiet p))"

lemma returnsE:
  assumes "returns k f" "length (toks p) < k"
  obtains v p' where "f p = Some (v, p')" "length (toks p') \<le> length (toks p)" "quiet p' = quiet p"
  using assms unfolding returns_def by blast

lemma advance_simps [simp]:
  "toks (advance p) = tl (toks p)" "quiet (advance p) = quiet p"
  "undefined_names (advance p) = undefined_names p" "c23_dialect (advance p) = c23_dialect p"
  by (simp_all add: advance_def)

lemma peek_Some: "peek p = Some t \<longleftrightarrow> (\<exists>ts. toks p = t # ts)"
  by (auto simp: peek_def split: list.splits)

lemma peek_op_Cons: "peek_op p s \<longleftrightarrow> (\<exists>ts. toks p = Op s # ts)"
  by (simp add: peek_op_def peek_Some)

lemma chain_loop_returns:
  assumes "returns k sub" "length (toks p) < n" "length (toks p) < k"
  shows "\<exists>v p'. chain_loop skip ops sub n left p = Some (v, p') \<and> length (toks p') \<le> length (toks p) \<and> quiet p' = quiet p"
  using assms(2,3)
proof (induction n arbitrary: left p)
  case (Suc n)
  show ?case
  proof (cases "\<exists>s f. peek p = Some (Op s) \<and> ops s = Some f")
    case False
    then show ?thesis by (auto split: option.splits expr_token.splits)
  next
    case True
    then obtain s f ts where s: "peek p = Some (Op s)" "ops s = Some f" "toks p = Op s # ts"
      by (auto simp: peek_Some)
    let ?p = "case skip of None \<Rightarrow> advance p | Some g \<Rightarrow> (advance p)\<lparr>quiet := quiet (advance p) \<or> g left\<rparr>"
    have tp: "toks ?p = ts" using s(3) by (cases skip) simp_all
    then have "length (toks ?p) < k" using Suc.prems s(3) by simp
    with assms(1) obtain r p' where r: "sub ?p = Some (r, p')" "length (toks p') \<le> length (toks ?p)" "quiet p' = quiet ?p"
      by (rule returnsE)
    let ?q = "case skip of None \<Rightarrow> p' | Some g \<Rightarrow> p'\<lparr>quiet := quiet p\<rparr>"
    have q: "toks ?q = toks p'" "quiet ?q = quiet p" using r(3) by (cases skip; simp)+
    obtain v p'' where "chain_loop skip ops sub n (f left r) ?q = Some (v, p'')"
      "length (toks p'') \<le> length (toks ?q)" "quiet p'' = quiet ?q"
      using Suc.IH [of ?q "f left r"] Suc.prems s(3) r(2) tp q(1) by auto
    then show ?thesis using s r tp q by (cases skip) (auto simp: Let_def)
  qed
qed simp

lemma chain_returns: "returns k sub \<Longrightarrow> k \<le> n \<Longrightarrow> returns k (chain skip ops sub n)"
  unfolding returns_def [of k "chain skip ops sub n"]
proof (intro allI impI)
  fix p :: parser assume a: "returns k sub" "k \<le> n" "length (toks p) < k"
  from a(1,3) obtain v p' where v: "sub p = Some (v, p')" "length (toks p') \<le> length (toks p)" "quiet p' = quiet p"
    by (rule returnsE)
  then show "\<exists>v p'. chain skip ops sub n p = Some (v, p') \<and> length (toks p') \<le> length (toks p) \<and> quiet p' = quiet p"
    using chain_loop_returns [OF a(1), of p' n skip ops v] a(2,3) by (fastforce simp: chain_def)
qed

lemmas level_defs = parse_or_def parse_and_def parse_bitor_def parse_bitxor_def parse_bitand_def parse_equality_def
  parse_relational_def parse_shift_def parse_additive_def parse_multiplicative_def

lemma parse_or_returns: "returns k unary \<Longrightarrow> k \<le> n \<Longrightarrow> returns k (parse_or unary n)"
  unfolding level_defs by (intro chain_returns)

lemma parse_ternary_returns:
  assumes "returns k unary" "length (toks p) < n" "length (toks p) < k"
  shows "\<exists>v p'. parse_ternary unary n p = Some (v, p') \<and> length (toks p') \<le> length (toks p) \<and> quiet p' = quiet p"
  using assms(2,3)
proof (induction n arbitrary: p)
  case (Suc n)
  have "returns (min k (Suc n)) unary" using assms(1) by (auto simp: returns_def)
  then have "returns (min k (Suc n)) (parse_or unary (Suc n))" by (rule parse_or_returns) simp
  then obtain c p1 where c: "parse_or unary (Suc n) p = Some (c, p1)" "length (toks p1) \<le> length (toks p)" "quiet p1 = quiet p"
    by (rule returnsE) (use Suc.prems in simp)
  show ?case
  proof (cases "peek_op p1 ''?''")
    case False
    then show ?thesis using c by simp
  next
    case True
    then obtain ts where ts: "toks p1 = Op ''?'' # ts" by (auto simp: peek_op_Cons)
    let ?t = "(advance p1)\<lparr>quiet := quiet (advance p1) \<or> fst c = 0\<rparr>"
    obtain t p2 where t: "parse_ternary unary n ?t = Some (t, p2)" "length (toks p2) \<le> length ts"
      using Suc.IH [of ?t] Suc.prems ts c(2) by auto
    let ?p2 = "if peek_op p2 '':'' then advance p2 else p2"
    let ?e = "?p2\<lparr>quiet := quiet (advance p1) \<or> fst c \<noteq> 0\<rparr>"
    have le: "length (toks ?e) \<le> length ts" using t(2) by auto
    moreover have "length ts < n" "length ts < k" using Suc.prems ts c(2) by simp_all
    ultimately obtain e p3 where e: "parse_ternary unary n ?e = Some (e, p3)" "length (toks p3) \<le> length (toks ?e)"
      using Suc.IH [of ?e] by (meson order_le_less_trans)
    from e(2) le have "length (toks p3) \<le> length ts" by (rule le_trans)
    then show ?thesis using c True t(1) e(1) ts by (simp add: Let_def)
  qed
qed simp

lemma parse_comma_returns: "returns n unary \<Longrightarrow> returns n (parse_comma unary n)"
  unfolding parse_comma_def
  using parse_ternary_returns [of n unary _ n]
  by (intro chain_returns) (simp_all add: returns_def [of n "parse_ternary unary n"])

lemma parse_primary_returns:
  assumes "returns n comma" "length (toks p) < Suc n"
  shows "\<exists>v p'. parse_primary comma p = Some (v, p') \<and> length (toks p') \<le> length (toks p) \<and> quiet p' = quiet p"
proof (cases "peek p = Some LParen")
  case True
  then obtain ts where "toks p = LParen # ts" by (auto simp: peek_Some)
  then have "length (toks (advance p)) < n" using assms(2) by simp
  with assms(1) obtain v p' where "comma (advance p) = Some (v, p')" "length (toks p') \<le> length (toks (advance p))"
    "quiet p' = quiet (advance p)" by (rule returnsE)
  then show ?thesis using True \<open>toks p = _\<close> by (auto simp: parse_primary_def)
next
  case False
  show ?thesis
  proof (cases "toks p")
    case Nil
    then show ?thesis by (auto simp: parse_primary_def peek_def)
  next
    case (Cons t ts)
    then show ?thesis
      using False by (cases t) (auto simp: parse_primary_def peek_def Let_def split: list.splits expr_token.splits)
  qed
qed

lemma parse_unary_returns: "returns n (parse_unary n)"
proof (induction n)
  case 0
  then show ?case by (simp add: returns_def)
next
  case (Suc n)
  show ?case
    unfolding returns_def
  proof (intro allI impI)
    fix p :: parser assume p: "length (toks p) < Suc n"
    show "\<exists>v p'. parse_unary (Suc n) p = Some (v, p') \<and> length (toks p') \<le> length (toks p) \<and> quiet p' = quiet p"
    proof (cases "\<exists>s. peek_op p s \<and> s \<in> {''!'', ''-'', ''+'', ''~''}")
      case True
      then have "length (toks (advance p)) < n" "length (toks (advance p)) \<le> length (toks p)"
        using p by (auto simp: peek_op_Cons)
      with Suc.IH obtain v p' where "parse_unary n (advance p) = Some (v, p')" "length (toks p') \<le> length (toks p)"
        "quiet p' = quiet p" by (metis returnsE advance_simps(2) le_trans)
      with True show ?thesis by (auto simp: peek_op_def)
    next
      case False
      then have "\<not> peek_op p ''!''" "\<not> peek_op p ''-''" "\<not> peek_op p ''+''" "\<not> peek_op p ''~''" by blast+
      then have "parse_unary (Suc n) p = parse_primary (parse_comma (parse_unary n) n) p"
        by (simp only: parse_unary.simps if_False)
      then show ?thesis
        using parse_primary_returns [OF parse_comma_returns [OF Suc.IH] p] by (simp only:)
    qed
  qed
qed

text \<open>
  C23: the evaluation of a condition returns for every token list, however malformed: a recursion depth of one more than
  the number of tokens is always enough.
\<close>

theorem evaluate_condition_returns: "\<exists>b names. evaluate_condition c23 ts = Some (b, names)"
proof -
  let ?n = "Suc (length ts)"
  have "\<exists>v p'. parse_ternary (parse_unary ?n) ?n (new_parser c23 ts) = Some (v, p') \<and>
      length (toks p') \<le> length (toks (new_parser c23 ts)) \<and> quiet p' = quiet (new_parser c23 ts)"
    by (intro parse_ternary_returns [OF parse_unary_returns]) (simp_all add: new_parser_def)
  then show ?thesis by (auto simp: evaluate_condition_def Let_def)
qed

end
