(* ===== verification/PpGrammar.thy ===== *)
theory PpGrammar
  imports PpExpr
begin

text \<open>
  The reference for the evaluator of preprocessor conditions: expression trees, their value under the conversions of C
  (both operands unsigned as soon as one is), the undefined names an evaluation may report, and the token
  sequence of a tree with no more parentheses than precedence and associativity require.
\<close>

datatype pp_binop =
    Comma | LOr | LAnd | BOr | BXor | BAnd | Eq | Ne | Lt | Gt | Le | Ge | ShiftL | ShiftR | Plus | Minus | Times | Divide | Modulo

datatype pp_unop = LNot | UMinus | UPlus | BNot

datatype pp_expr =
    Lit i64 bool
  | Name string
  | IsDefined string
  | Unary pp_unop pp_expr
  | Binary pp_binop pp_expr pp_expr
  | Cond pp_expr pp_expr pp_expr

subsection \<open>Values\<close>

text \<open>The integer a value stands for, read as unsigned or as signed.\<close>

definition reading :: "bool \<Rightarrow> i64 \<Rightarrow> int" where
  "reading u w = (if u then uint w else sint w)"

fun c_binop :: "pp_binop \<Rightarrow> pp_val \<Rightarrow> pp_val \<Rightarrow> pp_val" where
  "c_binop bop (a, ua) (b, ub) =
     (let u = ua \<or> ub; x = reading u a; y = reading u b;
          truth = (\<lambda>c. (if c then 1 else 0, False));
          arith = (\<lambda>z. (word_of_int z, u))
      in case bop of
           Comma \<Rightarrow> (b, ub)
         | LOr \<Rightarrow> truth (a \<noteq> 0 \<or> b \<noteq> 0)
         | LAnd \<Rightarrow> truth (a \<noteq> 0 \<and> b \<noteq> 0)
         | BOr \<Rightarrow> arith (x OR y)
         | BXor \<Rightarrow> arith (x XOR y)
         | BAnd \<Rightarrow> arith (x AND y)
         | Eq \<Rightarrow> truth (x = y)
         | Ne \<Rightarrow> truth (x \<noteq> y)
         | Lt \<Rightarrow> truth (x < y)
         | Gt \<Rightarrow> truth (x > y)
         | Le \<Rightarrow> truth (x \<le> y)
         | Ge \<Rightarrow> truth (x \<ge> y)
         | ShiftL \<Rightarrow> (word_of_int (reading ua a * 2 ^ (unat b mod 64)), ua)
         | ShiftR \<Rightarrow> (word_of_int (reading ua a div 2 ^ (unat b mod 64)), ua)
         | Plus \<Rightarrow> arith (x + y)
         | Minus \<Rightarrow> arith (x - y)
         | Times \<Rightarrow> arith (x * y)
         | Divide \<Rightarrow> arith (if y = 0 then 0 else x sdiv y)
         | Modulo \<Rightarrow> arith (if y = 0 then 0 else x smod y))"

fun c_unop :: "pp_unop \<Rightarrow> pp_val \<Rightarrow> pp_val" where
  "c_unop LNot (a, u) = (if a = 0 then 1 else 0, False)"
| "c_unop UMinus (a, u) = (word_of_int (- reading u a), u)"
| "c_unop UPlus (a, u) = (a, u)"
| "c_unop BNot (a, u) = (word_of_int (NOT (reading u a)), u)"

fun pp_eval :: "bool \<Rightarrow> pp_expr \<Rightarrow> pp_val" where
  "pp_eval c23 (Lit n u) = (n, u)"
| "pp_eval c23 (Name s) = (if s = ''true'' \<and> c23 then 1 else 0, False)"
| "pp_eval c23 (IsDefined s) = (0, False)"
| "pp_eval c23 (Unary uop e) = c_unop uop (pp_eval c23 e)"
| "pp_eval c23 (Binary bop a b) = c_binop bop (pp_eval c23 a) (pp_eval c23 b)"
| "pp_eval c23 (Cond c t e) = (if fst (pp_eval c23 c) \<noteq> 0 then pp_eval c23 t else pp_eval c23 e)"

text \<open>
  In \<open>pp_eval\<close> the selected operand of a conditional expression keeps its own signedness, as in the code. The conversions of C give the result
  the common type of both operands, known without evaluating: \<open>c_unsigned\<close> tells whether it is unsigned, and \<open>c_eval\<close> is the value under
  these conversions. The two agree when the operands of each conditional expression have the same signedness.
\<close>

fun c_unsigned :: "pp_expr \<Rightarrow> bool" where
  "c_unsigned (Lit n u) = u"
| "c_unsigned (Unary uop e) = (uop \<noteq> LNot \<and> c_unsigned e)"
| "c_unsigned (Binary bop a b) =
     (case bop of
        Comma \<Rightarrow> c_unsigned b
      | ShiftL \<Rightarrow> c_unsigned a
      | ShiftR \<Rightarrow> c_unsigned a
      | _ \<Rightarrow> bop \<in> {BOr, BXor, BAnd, Plus, Minus, Times, Divide, Modulo} \<and> (c_unsigned a \<or> c_unsigned b))"
| "c_unsigned (Cond c t e) = (c_unsigned t \<or> c_unsigned e)"
| "c_unsigned e = False"

fun c_eval :: "bool \<Rightarrow> pp_expr \<Rightarrow> pp_val" where
  "c_eval c23 (Unary uop e) = c_unop uop (c_eval c23 e)"
| "c_eval c23 (Binary bop a b) = c_binop bop (c_eval c23 a) (c_eval c23 b)"
| "c_eval c23 (Cond c t e) =
     (fst (if fst (c_eval c23 c) \<noteq> 0 then c_eval c23 t else c_eval c23 e), c_unsigned t \<or> c_unsigned e)"
| "c_eval c23 e = pp_eval c23 e"

fun arms_agree :: "pp_expr \<Rightarrow> bool" where
  "arms_agree (Unary uop e) = arms_agree e"
| "arms_agree (Binary bop a b) = (arms_agree a \<and> arms_agree b)"
| "arms_agree (Cond c t e) = (arms_agree c \<and> arms_agree t \<and> arms_agree e \<and> c_unsigned t = c_unsigned e)"
| "arms_agree e = True"

lemma snd_c_unop: "snd (c_unop uop x) = (uop \<noteq> LNot \<and> snd x)"
  by (cases uop; cases x) simp_all

lemma snd_c_binop: "snd (c_binop bop x y) =
    (case bop of
       Comma \<Rightarrow> snd y
     | ShiftL \<Rightarrow> snd x
     | ShiftR \<Rightarrow> snd x
     | _ \<Rightarrow> bop \<in> {BOr, BXor, BAnd, Plus, Minus, Times, Divide, Modulo} \<and> (snd x \<or> snd y))"
  by (cases bop; cases x; cases y) (simp_all add: Let_def)

lemma c_eval_agrees: "arms_agree e \<Longrightarrow> c_eval c23 e = pp_eval c23 e \<and> snd (pp_eval c23 e) = c_unsigned e"
proof (induction e)
  case (Binary bop a b)
  then show ?case
    by (cases bop) (simp_all add: snd_c_binop del: c_binop.simps)
next
  case (Cond c t e)
  then show ?case
    by (cases "pp_eval c23 t"; cases "pp_eval c23 e") auto
qed (simp_all add: snd_c_unop)

text \<open>The undefined names of the operands that are evaluated, in order.\<close>

fun reported :: "bool \<Rightarrow> pp_expr \<Rightarrow> string list" where
  "reported c23 (Lit n u) = []"
| "reported c23 (Name s) = (if c23 \<and> (s = ''true'' \<or> s = ''false'') then [] else [s])"
| "reported c23 (IsDefined s) = []"
| "reported c23 (Unary uop e) = reported c23 e"
| "reported c23 (Binary bop a b) =
     reported c23 a @
     (if bop = LOr \<and> fst (pp_eval c23 a) \<noteq> 0 \<or> bop = LAnd \<and> fst (pp_eval c23 a) = 0 then [] else reported c23 b)"
| "reported c23 (Cond c t e) =
     reported c23 c @ (if fst (pp_eval c23 c) \<noteq> 0 then reported c23 t else reported c23 e)"

subsection \<open>Tokens\<close>

fun op_text :: "pp_binop \<Rightarrow> string" where
  "op_text Comma = '',''"
| "op_text LOr = ''||''"
| "op_text LAnd = ''&&''"
| "op_text BOr = ''|''"
| "op_text BXor = ''^''"
| "op_text BAnd = ''&''"
| "op_text Eq = ''==''"
| "op_text Ne = ''!=''"
| "op_text Lt = ''<''"
| "op_text Gt = ''>''"
| "op_text Le = ''<=''"
| "op_text Ge = ''>=''"
| "op_text ShiftL = ''<<''"
| "op_text ShiftR = ''>>''"
| "op_text Plus = ''+''"
| "op_text Minus = ''-''"
| "op_text Times = ''*''"
| "op_text Divide = ''/''"
| "op_text Modulo = ''%''"

fun op_level :: "pp_binop \<Rightarrow> nat" where
  "op_level Comma = 0"
| "op_level LOr = 2"
| "op_level LAnd = 3"
| "op_level BOr = 4"
| "op_level BXor = 5"
| "op_level BAnd = 6"
| "op_level Eq = 7"
| "op_level Ne = 7"
| "op_level Lt = 8"
| "op_level Gt = 8"
| "op_level Le = 8"
| "op_level Ge = 8"
| "op_level ShiftL = 9"
| "op_level ShiftR = 9"
| "op_level Plus = 10"
| "op_level Minus = 10"
| "op_level Times = 11"
| "op_level Divide = 11"
| "op_level Modulo = 11"

fun unop_text :: "pp_unop \<Rightarrow> string" where
  "unop_text LNot = ''!''"
| "unop_text UMinus = ''-''"
| "unop_text UPlus = ''+''"
| "unop_text BNot = ''~''"

fun level :: "pp_expr \<Rightarrow> nat" where
  "level (Binary bop a b) = op_level bop"
| "level (Cond c t e) = 1"
| "level _ = 12"

definition parenthesise :: "bool \<Rightarrow> expr_token list \<Rightarrow> expr_token list" where
  "parenthesise b ts = (if b then LParen # ts @ [RParen] else ts)"

fun print_at :: "nat \<Rightarrow> pp_expr \<Rightarrow> expr_token list" where
  "print_at l (Lit n u) = [Num n u]"
| "print_at l (Name s) = [Ident s]"
| "print_at l (IsDefined s) = [Defined, Ident s]"
| "print_at l (Unary uop e) = parenthesise (12 < l) (Op (unop_text uop) # print_at 12 e)"
| "print_at l (Binary bop a b) =
     parenthesise (op_level bop < l) (print_at (op_level bop) a @ Op (op_text bop) # print_at (op_level bop + 1) b)"
| "print_at l (Cond c t e) =
     parenthesise (1 < l) (print_at 2 c @ Op ''?'' # print_at 1 t @ Op '':'' # print_at 1 e)"

text \<open>The operators that would continue an expression read at level \<open>l\<close>.\<close>

definition stops :: "nat \<Rightarrow> expr_token list \<Rightarrow> bool" where
  "stops l rest \<longleftrightarrow>
     (\<forall>s ts. rest = Op s # ts \<longrightarrow> (\<forall>bop. op_text bop = s \<longrightarrow> op_level bop < l) \<and> (l \<le> 1 \<longrightarrow> s \<noteq> ''?''))"

subsection \<open>The operator tables of the code\<close>

definition level_ops :: "nat \<Rightarrow> string \<Rightarrow> (pp_val \<Rightarrow> pp_val \<Rightarrow> pp_val) option" where
  "level_ops l =
     (if l = 0 then comma_ops else if l = 2 then or_ops else if l = 3 then and_ops else if l = 4 then bitor_ops
      else if l = 5 then bitxor_ops else if l = 6 then bitand_ops else if l = 7 then equality_ops
      else if l = 8 then relational_ops else if l = 9 then shift_ops else if l = 10 then additive_ops
      else if l = 11 then multiplicative_ops else (\<lambda>s. None))"

lemmas ops_defs = comma_ops_def or_ops_def and_ops_def bitor_ops_def bitxor_ops_def bitand_ops_def equality_ops_def
  relational_ops_def shift_ops_def additive_ops_def multiplicative_ops_def

lemma word_of_reading [simp]: "word_of_int (reading u a) = a"
  by (simp add: reading_def)

definition all_binops :: "pp_binop list" where
  "all_binops = [Comma, LOr, LAnd, BOr, BXor, BAnd, Eq, Ne, Lt, Gt, Le, Ge, ShiftL, ShiftR, Plus, Minus, Times, Divide, Modulo]"

lemma level_ops_Some:
  assumes "level_ops l s = Some f"
  shows "\<exists>bop. op_text bop = s \<and> op_level bop = l"
proof -
  have "(s, l) \<in> set (map (\<lambda>b. (op_text b, op_level b)) all_binops)"
    using assms unfolding level_ops_def ops_defs all_binops_def by (simp split: if_splits)
  then show ?thesis by auto
qed

lemma level_ops_None:
  "(\<And>bop. op_text bop = s \<Longrightarrow> op_level bop \<noteq> l) \<Longrightarrow> level_ops l s = None"
  using level_ops_Some by (cases "level_ops l s") fast+

lemma shift_amount: "unat (ucast (b :: i64) :: u32) mod 64 = unat b mod 64"
proof -
  have "unat (ucast b :: u32) = unat b mod 2 ^ 32"
    by (simp add: unsigned_ucast_eq take_bit_eq_mod [of _ "unat b"])
  then show ?thesis by (simp add: mod_mod_cancel)
qed

lemma signed_overflow_quotient: "sint (a :: i64) = - (2 ^ 63) \<Longrightarrow> word_of_int (sint a sdiv - 1) = (word_of_int (- (2 ^ 63)) :: i64)"
  by (simp add: signed_divide_int_def)

lemma div_reading: "a div b = word_of_int (uint a sdiv uint b)" "a mod b = word_of_int (uint a smod uint b)" for a b :: i64
  by (simp_all add: nonneg_sdiv word_div_def word_mod_def)

lemma reading_zero [simp]: "reading u b = 0 \<longleftrightarrow> b = 0"
  by (simp add: reading_def unsigned_eq_0_iff signed_eq_0_iff)

lemma shift_reading:
  "push_bit k a = word_of_int (reading u a * 2 ^ k)"
  "drop_bit k a = word_of_int (uint a div 2 ^ k)"
  "signed_drop_bit k a = word_of_int (sint a div 2 ^ k)" for a :: i64
proof -
  show "push_bit k a = word_of_int (reading u a * 2 ^ k)"
    by (simp add: push_bit_eq_mult)
  show "drop_bit k a = word_of_int (uint a div 2 ^ k)"
  proof -
    have "int (unat (drop_bit k a)) = int (unat a div 2 ^ k)" by (simp only: unat_drop_bit_div)
    then have "uint (drop_bit k a) = uint a div 2 ^ k" by (simp add: zdiv_int)
    then show ?thesis by (metis word_of_int_uint)
  qed
  have "sint (signed_drop_bit k a) = sint a div 2 ^ k"
    by (simp add: sint_signed_drop_bit_eq drop_bit_eq_div)
  then show "signed_drop_bit k a = word_of_int (sint a div 2 ^ k)"
    by (metis of_int_sint scast_id)
qed

lemma level_ops_apply:
  "\<exists>f. level_ops (op_level bop) (op_text bop) = Some f \<and> (\<forall>x y. f x y = c_binop bop x y)"
  by (cases bop)
    (auto simp: level_ops_def ops_defs pp_bool_def reading_def shift_amount of_int_or_eq of_int_xor_eq of_int_and_eq push_bit_eq_mult shift_reading(2,3) div_reading
      unsigned_eq_0_iff signed_eq_0_iff signed_divide_int_def signed_modulo_int_def Let_def)

lemma op_level_range: "op_level bop \<le> 11" "op_level bop \<noteq> 1"
  by (cases bop; simp)+

subsection \<open>The parser reads printed expressions\<close>

definition level_skip :: "nat \<Rightarrow> (pp_val \<Rightarrow> bool) option" where
  "level_skip l = (if l = 2 then Some (\<lambda>left. fst left \<noteq> 0) else if l = 3 then Some (\<lambda>left. fst left = 0) else None)"

text \<open>The function of the code that reads level \<open>l\<close>; \<open>n\<close> bounds the recursion, \<open>m\<close> the loops.\<close>

definition parse_at :: "nat \<Rightarrow> nat \<Rightarrow> nat \<Rightarrow> parser \<Rightarrow> parse_result" where
  "parse_at n m l =
     (if l = 0 then parse_comma (parse_unary n) m else if l = 1 then parse_ternary (parse_unary n) m
      else if l = 2 then parse_or (parse_unary n) m else if l = 3 then parse_and (parse_unary n) m
      else if l = 4 then parse_bitor (parse_unary n) m else if l = 5 then parse_bitxor (parse_unary n) m
      else if l = 6 then parse_bitand (parse_unary n) m else if l = 7 then parse_equality (parse_unary n) m
      else if l = 8 then parse_relational (parse_unary n) m else if l = 9 then parse_shift (parse_unary n) m
      else if l = 10 then parse_additive (parse_unary n) m else if l = 11 then parse_multiplicative (parse_unary n) m
      else parse_unary n)"

lemma parse_at_simps:
  "parse_at n m 0 = parse_comma (parse_unary n) m" "parse_at n m 1 = parse_ternary (parse_unary n) m"
  "parse_at n m 2 = parse_or (parse_unary n) m" "parse_at n m 12 = parse_unary n"
  by (simp_all add: parse_at_def)

lemma level_cases:
  assumes "l \<le> 11" "l \<noteq> (1::nat)"
  obtains "l = 0" | "l = 2" | "l = 3" | "l = 4" | "l = 5" | "l = 6" | "l = 7" | "l = 8" | "l = 9" | "l = 10" | "l = 11"
proof -
  have "l = 0 \<or> l = 2 \<or> l = 3 \<or> l = 4 \<or> l = 5 \<or> l = 6 \<or> l = 7 \<or> l = 8 \<or> l = 9 \<or> l = 10 \<or> l = 11"
    using assms by presburger
  then show thesis using that by blast
qed

lemma parse_at_chain:
  assumes "l \<le> 11" "l \<noteq> 1"
  shows "parse_at n m l = chain (level_skip l) (level_ops l) (parse_at n m (Suc l)) m"
  using assms by (cases l rule: level_cases)
    (simp_all add: parse_at_def level_skip_def level_ops_def level_defs parse_comma_def)

definition consumed :: "pp_expr \<Rightarrow> expr_token list \<Rightarrow> parser \<Rightarrow> parser" where
  "consumed e rest p =
     p\<lparr>toks := rest, undefined_names := undefined_names p @ (if quiet p then [] else reported (c23_dialect p) e)\<rparr>"

lemma consumed_simps [simp]:
  "toks (consumed e rest p) = rest" "quiet (consumed e rest p) = quiet p" "c23_dialect (consumed e rest p) = c23_dialect p"
  by (simp_all add: consumed_def)

definition reads :: "nat \<Rightarrow> nat \<Rightarrow> nat \<Rightarrow> pp_expr \<Rightarrow> bool" where
  "reads n m l e \<longleftrightarrow>
     (\<forall>p rest. toks p = print_at l e @ rest \<longrightarrow> stops l rest \<longrightarrow> length (toks p) < m \<longrightarrow>
        parse_at n m l p = Some (pp_eval (c23_dialect p) e, consumed e rest p))"

lemma readsD:
  "reads n m l e \<Longrightarrow> toks p = print_at l e @ rest \<Longrightarrow> stops l rest \<Longrightarrow> length (toks p) < m \<Longrightarrow>
   parse_at n m l p = Some (pp_eval (c23_dialect p) e, consumed e rest p)"
  by (simp add: reads_def)

text \<open>
  A chain of operators of one level, read up to \<open>rest\<close>, leaves the loop of that level with the value so far: the form
  of left associativity.
\<close>

definition spine :: "nat \<Rightarrow> nat \<Rightarrow> nat \<Rightarrow> pp_expr \<Rightarrow> bool" where
  "spine n m l e \<longleftrightarrow>
     (\<forall>p rest. toks p = print_at l e @ rest \<longrightarrow> stops (Suc l) rest \<longrightarrow> length (toks p) < m \<longrightarrow>
        (\<exists>k > length rest. parse_at n m l p =
           chain_loop (level_skip l) (level_ops l) (parse_at n m (Suc l)) k (pp_eval (c23_dialect p) e) (consumed e rest p)))"

lemma stops_mono: "stops l rest \<Longrightarrow> stops (Suc l) rest"
  by (fastforce simp: stops_def)

lemma stops_other [simp]: "stops l []" "stops l (RParen # ts)" "stops l (Op '':'' # ts)"
proof -
  have "op_text bop \<noteq> '':''" for bop by (cases bop) simp_all
  then show "stops l (Op '':'' # ts)" by (auto simp: stops_def)
qed (simp_all add: stops_def)

lemma chain_loop_stops:
  assumes "stops l (toks p)" "0 < k"
  shows "chain_loop skip (level_ops l) sub k left p = Some (left, p)"
proof -
  have "level_ops l s = None" if "peek p = Some (Op s)" for s
    using assms(1) that by (intro level_ops_None) (auto simp: stops_def peek_Some)
  then show ?thesis
    using assms(2) by (cases k) (auto split: option.splits expr_token.splits)
qed

lemma spine_reads: "spine n m l e \<Longrightarrow> reads n m l e"
  unfolding reads_def
proof (intro allI impI)
  fix p :: parser and rest assume s: "spine n m l e" and p: "toks p = print_at l e @ rest" "stops l rest" "length (toks p) < m"
  then obtain k where "length rest < k" "parse_at n m l p =
      chain_loop (level_skip l) (level_ops l) (parse_at n m (Suc l)) k (pp_eval (c23_dialect p) e) (consumed e rest p)"
    unfolding spine_def using stops_mono by blast
  then show "parse_at n m l p = Some (pp_eval (c23_dialect p) e, consumed e rest p)"
    using p(2) by (simp add: chain_loop_stops)
qed

lemma print_at_Suc: "level e \<noteq> l \<Longrightarrow> print_at l e = print_at (Suc l) e" if "l \<le> 11"
  using that by (cases e) (auto simp: parenthesise_def)

lemma print_at_paren: "level e < l \<Longrightarrow> l \<le> 12 \<Longrightarrow> print_at l e = LParen # print_at 0 e @ [RParen]"
  by (cases e) (auto simp: parenthesise_def)

lemma spine_up:
  assumes "reads n m (Suc l) e" "level e \<noteq> l" "l \<le> 11" "l \<noteq> 1"
  shows "spine n m l e"
  unfolding spine_def
proof (intro allI impI)
  fix p :: parser and rest assume p: "toks p = print_at l e @ rest" "stops (Suc l) rest" "length (toks p) < m"
  then have "parse_at n m (Suc l) p = Some (pp_eval (c23_dialect p) e, consumed e rest p)"
    using assms by (intro readsD) (simp_all add: print_at_Suc)
  then show "\<exists>k > length rest. parse_at n m l p =
      chain_loop (level_skip l) (level_ops l) (parse_at n m (Suc l)) k (pp_eval (c23_dialect p) e) (consumed e rest p)"
    using p assms(3,4) by (intro exI [of _ m]) (simp add: parse_at_chain chain_def)
qed

lemma op_text_inj: "op_text a = op_text b \<longleftrightarrow> a = b"
  by (cases a; cases b; simp)

lemma stops_operator: "stops (Suc (op_level bop)) (Op (op_text bop) # ts)"
proof -
  have "op_text bop \<noteq> ''?''" by (cases bop) simp_all
  then show ?thesis by (auto simp: stops_def op_text_inj)
qed

lemma reported_binary:
  "reported c (Binary bop a b) = reported c a @
     (if (case level_skip (op_level bop) of None \<Rightarrow> False | Some g \<Rightarrow> g (pp_eval c a)) then [] else reported c b)"
  by (cases bop) (simp_all add: level_skip_def)

lemma spine_binary:
  assumes a: "spine n m l a" and b: "reads n m (Suc l) b" and l: "l = op_level bop"
  shows "spine n m l (Binary bop a b)"
  unfolding spine_def
proof (intro allI impI)
  fix p :: parser and rest assume p: "toks p = print_at l (Binary bop a b) @ rest" "stops (Suc l) rest" "length (toks p) < m"
  let ?c = "c23_dialect p"
  define rest' where "rest' = Op (op_text bop) # print_at (Suc l) b @ rest"
  have tp: "toks p = print_at l a @ rest'"
    using p(1) by (simp add: rest'_def l parenthesise_def)
  have "stops (Suc l) rest'" unfolding rest'_def l by (rule stops_operator)
  with a tp p(3) obtain k where k: "length rest' < k" "parse_at n m l p =
      chain_loop (level_skip l) (level_ops l) (parse_at n m (Suc l)) k (pp_eval ?c a) (consumed a rest' p)"
    unfolding spine_def by blast
  obtain k' where k': "k = Suc k'" using k(1) by (cases k) auto
  obtain f where f: "level_ops l (op_text bop) = Some f" "\<And>x y. f x y = c_binop bop x y"
    using level_ops_apply [of bop] l by blast
  let ?p1 = "advance (consumed a rest' p)"
  let ?p2 = "case level_skip l of None \<Rightarrow> ?p1 | Some g \<Rightarrow> ?p1\<lparr>quiet := quiet ?p1 \<or> g (pp_eval ?c a)\<rparr>"
  have p2: "toks ?p2 = print_at (Suc l) b @ rest" "c23_dialect ?p2 = ?c"
    by (cases "level_skip l"; simp add: rest'_def)+
  have len: "length (toks ?p2) < m"
    using p(3) unfolding tp p2(1) by (simp add: rest'_def)
  have sub: "parse_at n m (Suc l) ?p2 = Some (pp_eval ?c b, consumed b rest ?p2)"
    using readsD [OF b p2(1) p(2) len] p2(2) by simp
  let ?p3 = "case level_skip l of None \<Rightarrow> consumed b rest ?p2 | Some g \<Rightarrow> (consumed b rest ?p2)\<lparr>quiet := quiet ?p1\<rparr>"
  have p3: "?p3 = consumed (Binary bop a b) rest p"
    by (cases "level_skip l") (simp_all add: consumed_def reported_binary l [symmetric] advance_def del: reported.simps(5))
  have "peek (consumed a rest' p) = Some (Op (op_text bop))" by (simp add: peek_Some rest'_def)
  then have "chain_loop (level_skip l) (level_ops l) (parse_at n m (Suc l)) k (pp_eval ?c a) (consumed a rest' p) =
      chain_loop (level_skip l) (level_ops l) (parse_at n m (Suc l)) k' (f (pp_eval ?c a) (pp_eval ?c b)) ?p3"
    unfolding k' using f(1) sub by (simp add: Let_def)
  moreover have "length rest < k'" using k(1) by (simp add: k' rest'_def)
  ultimately show "\<exists>k > length rest. parse_at n m l p = chain_loop (level_skip l) (level_ops l) (parse_at n m (Suc l)) k
      (pp_eval ?c (Binary bop a b)) (consumed (Binary bop a b) rest p)"
    unfolding k(2) p3 f(2) by auto
qed

lemma print_at_nonempty [simp]: "print_at l e \<noteq> []"
  by (cases e) (simp_all add: parenthesise_def)

lemma parse_at_one: "parse_at n (Suc m) (Suc 0) p =
  (case parse_at n (Suc m) 2 p of
        None \<Rightarrow> None
      | Some (cond, p) \<Rightarrow>
          if peek_op p ''?'' then
            let p = advance p;
                q = quiet p
            in case parse_at n m (Suc 0) (p\<lparr>quiet := q \<or> fst cond = 0\<rparr>) of
                 None \<Rightarrow> None
               | Some (then_val, p) \<Rightarrow>
                   let p = (if peek_op p '':'' then advance p else p)
                   in case parse_at n m (Suc 0) (p\<lparr>quiet := q \<or> fst cond \<noteq> 0\<rparr>) of
                        None \<Rightarrow> None
                      | Some (else_val, p) \<Rightarrow>
                          Some (if fst cond \<noteq> 0 then then_val else else_val, p\<lparr>quiet := q\<rparr>)
          else Some (cond, p))"
  by (simp only: parse_at_simps parse_ternary.simps flip: One_nat_def)

lemma reads_ternary_other:
  assumes "\<And>m. m \<le> n \<Longrightarrow> reads n m 2 e" "level e \<noteq> 1" "m \<le> n"
  shows "reads n m 1 e"
  unfolding reads_def
proof (intro allI impI)
  fix p :: parser and rest assume p: "toks p = print_at 1 e @ rest" "stops 1 rest" "length (toks p) < m"
  obtain k where k: "m = Suc k" using p(3) by (cases m) auto
  have "stops 2 rest" using stops_mono [OF p(2)] by (simp add: numeral_2_eq_2)
  moreover have "toks p = print_at 2 e @ rest" using p(1) assms(2) print_at_Suc [of 1 e] by (simp add: numeral_2_eq_2)
  ultimately have "parse_at n m 2 p = Some (pp_eval (c23_dialect p) e, consumed e rest p)"
    using readsD [OF assms(1) [OF assms(3)]] p(3) by blast
  moreover have "\<not> peek_op (consumed e rest p) ''?''"
    using p(2) by (auto simp: peek_op_Cons stops_def)
  ultimately show "parse_at n m 1 p = Some (pp_eval (c23_dialect p) e, consumed e rest p)"
    unfolding k One_nat_def parse_at_one by simp
qed

lemma reads_cond:
  assumes c: "\<And>m. m \<le> n \<Longrightarrow> reads n m 2 c" and t: "\<And>m. m \<le> n \<Longrightarrow> reads n m 1 t" and e: "\<And>m. m \<le> n \<Longrightarrow> reads n m 1 e"
    and m: "m \<le> n"
  shows "reads n m 1 (Cond c t e)"
  unfolding reads_def
proof (intro allI impI)
  fix p :: parser and rest
  assume p: "toks p = print_at 1 (Cond c t e) @ rest" "stops 1 rest" "length (toks p) < m"
  obtain k where k: "m = Suc k" "k \<le> n" using p(3) m by (cases m) auto
  let ?C = "c23_dialect p"
  define r2 where "r2 = Op '':'' # print_at 1 e @ rest"
  define r1 where "r1 = Op ''?'' # print_at 1 t @ r2"
  have tp: "toks p = print_at 2 c @ r1" using p(1) by (simp add: r1_def r2_def parenthesise_def)
  have "op_text bop \<noteq> ''?''" for bop by (cases bop) simp_all
  then have "stops 2 r1" by (auto simp: stops_def r1_def)
  with readsD [OF c [OF m] tp] p(3) have 1: "parse_at n (Suc k) 2 p = Some (pp_eval ?C c, consumed c r1 p)"
    by (simp add: k(1))
  let ?p1 = "advance (consumed c r1 p)"
  let ?pt = "?p1\<lparr>quiet := quiet p \<or> fst (pp_eval ?C c) = 0\<rparr>"
  have len: "length (toks p) < Suc k" using p(3) k(1) by simp
  have "parse_at n k 1 ?pt = Some (pp_eval (c23_dialect ?pt) t, consumed t r2 ?pt)"
    using len unfolding tp by (intro readsD [OF t [OF k(2)]]) (simp_all add: r1_def r2_def)
  then have 2: "parse_at n k (Suc 0) ?pt = Some (pp_eval ?C t, consumed t r2 ?pt)" by simp
  let ?p2 = "advance (consumed t r2 ?pt)"
  let ?pe = "?p2\<lparr>quiet := quiet p \<or> fst (pp_eval ?C c) \<noteq> 0\<rparr>"
  have "parse_at n k 1 ?pe = Some (pp_eval (c23_dialect ?pe) e, consumed e rest ?pe)"
    using len p(2) unfolding tp by (intro readsD [OF e [OF k(2)]]) (simp_all add: r1_def r2_def)
  then have 3: "parse_at n k (Suc 0) ?pe = Some (pp_eval ?C e, consumed e rest ?pe)" by simp
  have q: "peek_op (consumed c r1 p) ''?''" "peek_op (consumed t r2 ?pt) '':''"
    by (simp_all add: peek_op_Cons r1_def r2_def)
  have fin: "(consumed e rest ?pe)\<lparr>quiet := quiet p\<rparr> = consumed (Cond c t e) rest p"
    by (simp add: consumed_def advance_def)
  show "parse_at n m 1 p = Some (pp_eval ?C (Cond c t e), consumed (Cond c t e) rest p)"
    unfolding k(1) One_nat_def parse_at_one using 1 2 3 q fin by (simp add: Let_def)
qed

lemma unary_atom:
  "reads n m 12 (Lit i u)" "reads n m 12 (Name s)" "reads n m 12 (IsDefined s)" if "m \<le> n"
proof -
  have fuel: "\<exists>k. n = Suc k" if "length (toks p) < m" for p :: parser
    using that \<open>m \<le> n\<close> by (cases n) auto
  have atom: "reads n m 12 a" if "\<And>k p rest. toks p = print_at 12 a @ rest \<Longrightarrow>
      parse_unary (Suc k) p = Some (pp_eval (c23_dialect p) a, consumed a rest p)" for a
    using fuel that unfolding reads_def parse_at_simps by metis
  show "reads n m 12 (Lit i u)"
    by (rule atom) (simp add: peek_op_def peek_def parse_primary_def consumed_def advance_def)
  show "reads n m 12 (Name s)"
    by (rule atom) (auto simp: peek_op_def peek_def parse_primary_def consumed_def advance_def Let_def)
  show "reads n m 12 (IsDefined s)"
    by (rule atom) (simp add: peek_op_def peek_def parse_primary_def consumed_def advance_def Let_def)
qed

lemma unary_reads:
  assumes "\<And>n. reads n n 12 e" "m \<le> n"
  shows "reads n m 12 (Unary uop e)"
  unfolding reads_def
proof (intro allI impI)
  fix p :: parser and rest assume p: "toks p = print_at 12 (Unary uop e) @ rest" "stops 12 rest" "length (toks p) < m"
  obtain k where k: "n = Suc k" using p(3) assms(2) by (cases n) auto
  have tp: "toks p = Op (unop_text uop) # print_at 12 e @ rest" using p(1) by (simp add: parenthesise_def)
  have "parse_at k k 12 (advance p) = Some (pp_eval (c23_dialect (advance p)) e, consumed e rest (advance p))"
    using p(2,3) assms(2) tp k by (intro readsD [OF assms(1)]) simp_all
  moreover have "consumed e rest (advance p) = consumed (Unary uop e) rest p"
    by (simp add: consumed_def advance_def)
  ultimately have "parse_unary k (advance p) = Some (pp_eval (c23_dialect p) e, consumed (Unary uop e) rest p)"
    by (simp add: parse_at_simps)
  then show "parse_at n m 12 p = Some (pp_eval (c23_dialect p) (Unary uop e), consumed (Unary uop e) rest p)"
    using tp unfolding k parse_at_simps
    by (cases uop; cases "pp_eval (c23_dialect p) e")
      (auto simp: peek_op_def peek_def pp_bool_def of_int_not_eq)
qed

lemma paren_reads:
  assumes "\<And>n. reads n n 0 e" "level e < 12" "m \<le> n"
  shows "reads n m 12 e"
  unfolding reads_def
proof (intro allI impI)
  fix p :: parser and rest assume p: "toks p = print_at 12 e @ rest" "stops 12 rest" "length (toks p) < m"
  obtain k where k: "n = Suc k" using p(3) assms(3) by (cases n) auto
  have tp: "toks p = LParen # print_at 0 e @ RParen # rest"
    using p(1) print_at_paren [of e 12] assms(2) by simp
  have "parse_at k k 0 (advance p) = Some (pp_eval (c23_dialect (advance p)) e, consumed e (RParen # rest) (advance p))"
    using p(3) assms(3) tp k by (intro readsD [OF assms(1)]) simp_all
  then have "parse_comma (parse_unary k) k (advance p) = Some (pp_eval (c23_dialect p) e, consumed e (RParen # rest) (advance p))"
    by (simp add: parse_at_simps)
  moreover have "advance (consumed e (RParen # rest) (advance p)) = consumed e rest p"
    by (simp add: consumed_def advance_def)
  ultimately show "parse_at n m 12 p = Some (pp_eval (c23_dialect p) e, consumed e rest p)"
    using tp unfolding k parse_at_simps
    by (simp add: peek_op_def peek_def parse_primary_def)
qed

subsection \<open>All levels\<close>

lemma reads_down:
  assumes "\<And>m. m \<le> n \<Longrightarrow> reads n m (Suc l) e" "level e \<noteq> l" "l \<le> 11" "m \<le> n"
  shows "reads n m l e"
proof (cases "l = 1")
  case True
  then show ?thesis using reads_ternary_other [of n e m] assms by (simp add: numeral_2_eq_2)
next
  case False
  then have "spine n m l e" using assms by (intro spine_up) simp_all
  then show ?thesis by (rule spine_reads)
qed

lemma reads_below:
  assumes top: "\<And>m. m \<le> n \<Longrightarrow> reads n m t e" and "\<And>l. lo \<le> l \<Longrightarrow> l < t \<Longrightarrow> level e \<noteq> l" "t \<le> 12"
    and l: "lo \<le> l" "l \<le> t" and "m \<le> n"
  shows "reads n m l e"
  using l assms(6)
proof (induction "t - l" arbitrary: l m)
  case 0
  then show ?case using top by simp
next
  case (Suc d)
  then have "reads n m' (Suc l) e" if "m' \<le> n" for m' using Suc.hyps(1) [of "Suc l" m'] that by simp
  then show ?case using Suc.prems Suc.hyps(2) assms(2) [of l] assms(3) by - (rule reads_down [of n], auto)
qed

lemma reads_every_level:
  assumes own: "\<And>n m. m \<le> n \<Longrightarrow> reads n m (level e) e" and "l \<le> 12" "m \<le> n" and le: "level e \<le> 12"
  shows "reads n m l e"
proof -
  have low: "reads n m l e" if "l \<le> level e" "m \<le> n" for n m l
    by (rule reads_below [where t = "level e" and lo = 0]) (use own le that in auto)
  have top: "reads n m 12 e" if "m \<le> n" for n m
  proof (cases "level e = 12")
    case True
    then show ?thesis using own [OF that] by simp
  next
    case False
    then show ?thesis using low [of 0] le that by - (rule paren_reads, simp_all)
  qed
  have high: "reads n m l e" if "level e < l"
    by (rule reads_below [where t = 12 and lo = "Suc (level e)"]) (use top assms(2,3) that in auto)
  show ?thesis using low [OF _ assms(3), of l] high by (cases "l \<le> level e") auto
qed

lemma level_le: "level e \<le> 12"
  using le_trans [OF op_level_range(1), of 12] by (cases e) simp_all

lemma parser_reads:
  "m \<le> n \<Longrightarrow> l \<le> 12 \<Longrightarrow> reads n m l e"
  "m \<le> n \<Longrightarrow> l \<le> 11 \<Longrightarrow> l \<noteq> 1 \<Longrightarrow> spine n m l e"
proof -
  have spine: "spine n m l e" if "\<And>n m l. m \<le> n \<Longrightarrow> l \<le> 12 \<Longrightarrow> reads n m l e"
      "level e \<noteq> l" "m \<le> n" "l \<le> 11" "l \<noteq> 1" for n m l e
    using that by (intro spine_up) simp_all
  have "(\<forall>n m l. m \<le> n \<longrightarrow> l \<le> 12 \<longrightarrow> reads n m l e) \<and> (\<forall>n m l. m \<le> n \<longrightarrow> l \<le> 11 \<longrightarrow> l \<noteq> 1 \<longrightarrow> spine n m l e)" for e
  proof (induction e)
    case (Lit i u)
    have "reads n m l (Lit i u)" if "m \<le> n" "l \<le> 12" for n m l
      using that unary_atom by - (rule reads_every_level, simp_all)
    then show ?case using spine by auto
  next
    case (Name s)
    have "reads n m l (Name s)" if "m \<le> n" "l \<le> 12" for n m l
      using that unary_atom by - (rule reads_every_level, simp_all)
    then show ?case using spine by auto
  next
    case (IsDefined s)
    have "reads n m l (IsDefined s)" if "m \<le> n" "l \<le> 12" for n m l
      using that unary_atom by - (rule reads_every_level, simp_all)
    then show ?case using spine by auto
  next
    case (Unary uop e)
    have "reads n m l (Unary uop e)" if "m \<le> n" "l \<le> 12" for n m l
      using that Unary.IH unary_reads [of e] by - (rule reads_every_level, simp_all)
    then show ?case using spine by auto
  next
    case (Binary bop a b)
    let ?L = "op_level bop"
    have sp: "spine n m ?L (Binary bop a b)" if "m \<le> n" for n m
      using that Binary.IH op_level_range [of bop] by (intro spine_binary) simp_all
    have rd: "reads n m l (Binary bop a b)" if "m \<le> n" "l \<le> 12" for n m l
      using that spine_reads [OF sp] level_le [of "Binary bop a b"] by - (rule reads_every_level, simp_all)
    show ?case
    proof (intro conjI allI impI)
      fix n m l :: nat assume "m \<le> n" "l \<le> 11" "l \<noteq> (1::nat)"
      then show "spine n m l (Binary bop a b)"
        using sp spine [OF rd] by (cases "l = ?L") auto
    qed (use rd in auto)
  next
    case (Cond c t e)
    have "reads n m 1 (Cond c t e)" if "m \<le> n" for n m
      using that Cond.IH by (intro reads_cond) simp_all
    then have rd: "reads n m l (Cond c t e)" if "m \<le> n" "l \<le> 12" for n m l
      using that by - (rule reads_every_level, simp_all)
    then show ?case using spine by auto
  qed
  then show "m \<le> n \<Longrightarrow> l \<le> 12 \<Longrightarrow> reads n m l e" "m \<le> n \<Longrightarrow> l \<le> 11 \<Longrightarrow> l \<noteq> 1 \<Longrightarrow> spine n m l e"
    by blast+
qed

lemma evaluate_condition_prefix:
  assumes "stops 1 rest"
  shows "evaluate_condition c23 (print_at 1 e @ rest) = Some (fst (pp_eval c23 e) \<noteq> 0, reported c23 e)"
proof -
  let ?ts = "print_at 1 e @ rest"
  let ?p = "new_parser c23 ?ts"
  have "parse_at (Suc (length ?ts)) (Suc (length ?ts)) 1 ?p = Some (pp_eval (c23_dialect ?p) e, consumed e rest ?p)"
    using assms by (intro readsD [OF parser_reads(1)]) (simp_all add: new_parser_def)
  then show ?thesis
    unfolding evaluate_condition_def Let_def parse_at_simps(2) [symmetric]
    by (simp only: option.case prod.case) (simp add: new_parser_def consumed_def)
qed

text \<open>
  C2: precedence, associativity, conversions, short-circuiting and diagnostics of preprocessor conditions. Evaluating
  the tokens of an expression tree, printed with only the parentheses precedence requires, gives the value of the tree, in which
  the selected operand of a conditional expression keeps its own signedness, and reports exactly the undefined names of the operands
  that count, in order. This value is the one under the conversions of C when the operands of each conditional expression have the same signedness,
  with division by zero giving zero and shift counts taken modulo 64.
\<close>

theorem evaluate_condition_denotes:
  "evaluate_condition c23 (print_at 1 e) = Some (fst (pp_eval c23 e) \<noteq> 0, reported c23 e) \<and>
   (arms_agree e \<longrightarrow> evaluate_condition c23 (print_at 1 e) = Some (fst (c_eval c23 e) \<noteq> 0, reported c23 e))"
  using evaluate_condition_prefix [of "[]"] c_eval_agrees by simp

theorem evaluate_condition_denotes_witness:
  "evaluate_condition False
     (print_at 1 (Binary Lt (Cond (Name ''X'') (Lit 3 True) (Unary UMinus (Lit 1 True))) (Lit 2 False))) = Some (False, [''X''])"
proof -
  let ?e = "Binary Lt (Cond (Name ''X'') (Lit 3 True) (Unary UMinus (Lit 1 True))) (Lit 2 False)"
  have "arms_agree ?e"
    by simp
  moreover have "fst (c_eval False ?e) = 0" "reported False ?e = [''X'']"
    by code_simp+
  ultimately show ?thesis
    using evaluate_condition_denotes [of False ?e] by simp
qed

text \<open>With operands of different signedness the code and C disagree: \<^verbatim>\<open>(1 ? -1 : 0u) > 0\<close> is false here and true in C.\<close>

lemma mixed_arms_diverge:
  "let e = Binary Gt (Cond (Lit 1 False) (Unary UMinus (Lit 1 False)) (Lit 0 True)) (Lit 0 False)
   in evaluate_condition c23 (print_at 1 e) = Some (False, []) \<and> fst (c_eval c23 e) \<noteq> 0"
proof -
  have "fst (pp_eval c23 (Binary Gt (Cond (Lit 1 False) (Unary UMinus (Lit 1 False)) (Lit 0 True)) (Lit 0 False))) = 0"
    by (simp add: reading_def)
  then show ?thesis
    using evaluate_condition_prefix [of "[]"] by (simp add: reading_def word_uint_eq_iff uint_word_ariths)
qed

text \<open>
  C36: a condition whose outermost operator is a comma is decided by its first operand, because the entry point reads one
  conditional expression and ignores the tokens after it; inside parentheses the comma has the value of its right
  operand.
\<close>

theorem evaluate_condition_ignores_top_comma:
  "evaluate_condition c23 (print_at 1 a @ Op '','' # ts) = Some (fst (pp_eval c23 a) \<noteq> 0, reported c23 a) \<and>
   evaluate_condition c23 (LParen # print_at 0 a @ Op '','' # print_at 1 b @ [RParen]) =
     Some (fst (pp_eval c23 b) \<noteq> 0, reported c23 a @ reported c23 b)"
proof
  have "op_text bop = '','' \<Longrightarrow> op_level bop = 0" for bop by (cases bop) simp_all
  then have "stops 1 (Op '','' # ts)" by (auto simp: stops_def)
  then show "evaluate_condition c23 (print_at 1 a @ Op '','' # ts) = Some (fst (pp_eval c23 a) \<noteq> 0, reported c23 a)"
    by (rule evaluate_condition_prefix)
  have "fst (c_binop Comma x y) = fst y" for x y by (cases x; cases y) simp
  then show "evaluate_condition c23 (LParen # print_at 0 a @ Op '','' # print_at 1 b @ [RParen]) =
     Some (fst (pp_eval c23 b) \<noteq> 0, reported c23 a @ reported c23 b)"
    using evaluate_condition_prefix [of "[]" c23 "Binary Comma a b"] by (simp add: parenthesise_def)
qed

end
