(* ===== verification/PpConditionals.thy ===== *)
theory PpConditionals
  imports PpExpr
begin

text \<open>
  Conditional inclusion: the stack of \<^verbatim>\<open>src/src/frontend/preprocessor/conditionals.rs\<close> and the dispatch of
  directives on it in \<^verbatim>\<open>src/src/frontend/preprocessor/pipeline.rs\<close>. The top of the stack is the head of the list.
  What other lines and the evaluation of conditions do to the rest of the preprocessor is a parameter of the dispatch.
\<close>

record conditional_state =
  any_branch_taken :: bool
  current_branch_active :: bool
  parent_active :: bool

type_synonym conditional_stack = "conditional_state list"

definition is_active :: "conditional_stack \<Rightarrow> bool" where
  "is_active st = (case st of [] \<Rightarrow> True | s # _ \<Rightarrow> current_branch_active s \<and> parent_active s)"

definition push_if :: "bool \<Rightarrow> conditional_stack \<Rightarrow> conditional_stack" where
  "push_if condition st =
     (let parent = is_active st; active = parent \<and> condition
      in \<lparr>any_branch_taken = condition, current_branch_active = active, parent_active = parent\<rparr> # st)"

definition needs_elif_evaluation :: "conditional_stack \<Rightarrow> bool" where
  "needs_elif_evaluation st = (case st of [] \<Rightarrow> False | s # _ \<Rightarrow> parent_active s \<and> \<not> any_branch_taken s)"

fun handle_elif :: "bool \<Rightarrow> conditional_stack \<Rightarrow> conditional_stack" where
  "handle_elif condition [] = []"
| "handle_elif condition (s # st) =
     (if any_branch_taken s then s\<lparr>current_branch_active := False\<rparr>
      else if parent_active s \<and> condition then s\<lparr>current_branch_active := True, any_branch_taken := True\<rparr>
      else s\<lparr>current_branch_active := False\<rparr>) # st"

fun handle_else :: "conditional_stack \<Rightarrow> conditional_stack" where
  "handle_else [] = []"
| "handle_else (s # st) =
     (if any_branch_taken s then s\<lparr>current_branch_active := False\<rparr>
      else s\<lparr>current_branch_active := parent_active s, any_branch_taken := True\<rparr>) # st"

definition handle_endif :: "conditional_stack \<Rightarrow> conditional_stack" where
  "handle_endif st = tl st"

subsection \<open>Directives\<close>

datatype ('c, 'l) directive =
    If 'c
  | Ifdef string
  | Ifndef string
  | Elif 'c
  | Elifdef string
  | Elifndef string
  | Else
  | Endif
  | Other 'l

record ('c, 'l, 's) preprocessor =
  is_defined :: "'s \<Rightarrow> string \<Rightarrow> bool"
  evaluate :: "'c \<Rightarrow> 's \<Rightarrow> bool \<times> 's"
  act :: "'l \<Rightarrow> 's \<Rightarrow> 's"
  invalid_directive :: "string \<Rightarrow> 's \<Rightarrow> 's"
  pp_elifdef :: bool

definition handle_ifdef :: "('c, 'l, 's) preprocessor \<Rightarrow> string \<Rightarrow> bool \<Rightarrow> conditional_stack \<times> 's \<Rightarrow> conditional_stack \<times> 's" where
  "handle_ifdef pp name negate = (\<lambda>(st, s).
     let defined = is_defined pp s name;
         condition = (if negate then \<not> defined else defined)
     in (push_if condition st, s))"

definition handle_if :: "('c, 'l, 's) preprocessor \<Rightarrow> 'c \<Rightarrow> conditional_stack \<times> 's \<Rightarrow> conditional_stack \<times> 's" where
  "handle_if pp c = (\<lambda>(st, s). let (condition, s) = evaluate pp c s in (push_if condition st, s))"

definition handle_elifdef :: "('c, 'l, 's) preprocessor \<Rightarrow> string \<Rightarrow> bool \<Rightarrow> conditional_stack \<times> 's \<Rightarrow> conditional_stack \<times> 's" where
  "handle_elifdef pp name negate = (\<lambda>(st, s).
     let defined = is_defined pp s name in (handle_elif (defined \<noteq> negate) st, s))"

definition handle_elif_expr :: "('c, 'l, 's) preprocessor \<Rightarrow> 'c \<Rightarrow> conditional_stack \<times> 's \<Rightarrow> conditional_stack \<times> 's" where
  "handle_elif_expr pp c = (\<lambda>(st, s).
     if \<not> needs_elif_evaluation st then (handle_elif False st, s)
     else let (condition, s) = evaluate pp c s in (handle_elif condition st, s))"

fun process_directive :: "('c, 'l, 's) preprocessor \<Rightarrow> ('c, 'l) directive \<Rightarrow> conditional_stack \<times> 's \<Rightarrow> conditional_stack \<times> 's" where
  "process_directive pp (If c) (st, s) =
     (if \<not> is_active st then (push_if False st, s) else handle_if pp c (st, s))"
| "process_directive pp (Ifdef name) (st, s) =
     (if \<not> is_active st then (push_if False st, s) else handle_ifdef pp name False (st, s))"
| "process_directive pp (Ifndef name) (st, s) =
     (if \<not> is_active st then (push_if False st, s) else handle_ifdef pp name True (st, s))"
| "process_directive pp (Elif c) (st, s) = handle_elif_expr pp c (st, s)"
| "process_directive pp (Elifdef name) (st, s) =
     (if pp_elifdef pp then handle_elifdef pp name False (st, s)
      else (st, if is_active st then invalid_directive pp ''elifdef'' s else s))"
| "process_directive pp (Elifndef name) (st, s) =
     (if pp_elifdef pp then handle_elifdef pp name True (st, s)
      else (st, if is_active st then invalid_directive pp ''elifndef'' s else s))"
| "process_directive pp Else (st, s) = (handle_else st, s)"
| "process_directive pp Endif (st, s) = (handle_endif st, s)"
| "process_directive pp (Other l) (st, s) = (st, if is_active st then act pp l s else s)"

subsection \<open>The stack invariant\<close>

fun consistent :: "conditional_stack \<Rightarrow> bool" where
  "consistent [] \<longleftrightarrow> True"
| "consistent (s # st) \<longleftrightarrow>
     parent_active s = is_active st \<and> (current_branch_active s \<longrightarrow> parent_active s \<and> any_branch_taken s) \<and> consistent st"

lemma consistent_operations:
  assumes "consistent st"
  shows "consistent (push_if b st)" "consistent (handle_elif b st)" "consistent (handle_else st)" "consistent (handle_endif st)"
  using assms by (cases st; auto simp: push_if_def handle_endif_def Let_def is_active_def)+

lemma process_directive_consistent:
  "consistent st \<Longrightarrow> consistent (fst (process_directive pp d (st, s)))"
  by (cases d) (auto simp: handle_if_def handle_ifdef_def handle_elifdef_def handle_elif_expr_def consistent_operations
      Let_def split: prod.splits)

text \<open>
  Whatever lines a file has, balanced or not, the stack of conditionals stays consistent: a branch is active only
  if its parent is and it is the branch taken, and every entry knows whether the lines around its group are active.
\<close>

theorem conditional_stack_consistent:
  "consistent (fst (fold (process_directive pp) ds ([], s)))"
proof -
  have "consistent (fst (fold (process_directive pp) ds x))" if "consistent (fst x)" for x
    using that
  proof (induction ds arbitrary: x)
    case (Cons d ds)
    have "consistent (fst (process_directive pp d x))"
      using process_directive_consistent [of "fst x" pp d "snd x"] Cons.prems by simp
    then show ?case using Cons.IH by simp
  qed simp
  then show ?thesis by simp
qed

subsection \<open>Groups\<close>

text \<open>The structure of a file whose conditionals are balanced, and what it means.\<close>

datatype 'c test = Expr 'c | Def string bool

datatype ('c, 'l) item =
    Line 'l
  | Group "'c test" "('c, 'l) items" "('c, 'l) branches"
and ('c, 'l) items =
    Done
  | Then "('c, 'l) item" "('c, 'l) items"
and ('c, 'l) branches =
    NoElse
  | ElseBranch "('c, 'l) items"
  | ElifBranch "'c test" "('c, 'l) items" "('c, 'l) branches"

fun run_test :: "('c, 'l, 's) preprocessor \<Rightarrow> 'c test \<Rightarrow> 's \<Rightarrow> bool \<times> 's" where
  "run_test pp (Expr c) s = evaluate pp c s"
| "run_test pp (Def name negate) s = (is_defined pp s name \<noteq> negate, s)"

text \<open>
  Where the dialect does not know \<^verbatim>\<open>#elifdef\<close>, such a line is an ordinary line of the branch around it: it is diagnosed if that
  branch is processed, and the branch goes on after it. \<open>run_branches\<close> is told whether the branch before was processed.
\<close>

fun unknown_test :: "('c, 'l, 's) preprocessor \<Rightarrow> 'c test \<Rightarrow> string option" where
  "unknown_test pp (Expr c) = None"
| "unknown_test pp (Def name negate) = (if pp_elifdef pp then None else Some (if negate then ''elifndef'' else ''elifdef''))"

primrec run_item :: "('c, 'l, 's) preprocessor \<Rightarrow> ('c, 'l) item \<Rightarrow> 's \<Rightarrow> 's"
  and run_items :: "('c, 'l, 's) preprocessor \<Rightarrow> ('c, 'l) items \<Rightarrow> 's \<Rightarrow> 's"
  and run_branches :: "('c, 'l, 's) preprocessor \<Rightarrow> ('c, 'l) branches \<Rightarrow> bool \<Rightarrow> 's \<Rightarrow> 's" where
  "run_item pp (Line l) s = act pp l s"
| "run_item pp (Group t body bs) s =
     (let (b, s) = run_test pp t s in run_branches pp bs b (if b then run_items pp body s else s))"
| "run_items pp Done s = s"
| "run_items pp (Then i is) s = run_items pp is (run_item pp i s)"
| "run_branches pp NoElse taken s = s"
| "run_branches pp (ElseBranch body) taken s = (if taken then s else run_items pp body s)"
| "run_branches pp (ElifBranch t body bs) taken s =
     (case unknown_test pp t of
        Some keyword \<Rightarrow> run_branches pp bs taken (if taken then run_items pp body (invalid_directive pp keyword s) else s)
      | None \<Rightarrow>
          if taken then s
          else let (b, s) = run_test pp t s in run_branches pp bs b (if b then run_items pp body s else s))"

fun if_line :: "'c test \<Rightarrow> ('c, 'l) directive" where
  "if_line (Expr c) = If c"
| "if_line (Def name negate) = (if negate then Ifndef name else Ifdef name)"

fun elif_line :: "'c test \<Rightarrow> ('c, 'l) directive" where
  "elif_line (Expr c) = Elif c"
| "elif_line (Def name negate) = (if negate then Elifndef name else Elifdef name)"

primrec item_lines :: "('c, 'l) item \<Rightarrow> ('c, 'l) directive list"
  and items_lines :: "('c, 'l) items \<Rightarrow> ('c, 'l) directive list"
  and branches_lines :: "('c, 'l) branches \<Rightarrow> ('c, 'l) directive list" where
  "item_lines (Line l) = [Other l]"
| "item_lines (Group t body bs) = if_line t # items_lines body @ branches_lines bs"
| "items_lines Done = []"
| "items_lines (Then i is) = item_lines i @ items_lines is"
| "branches_lines NoElse = [Endif]"
| "branches_lines (ElseBranch body) = Else # items_lines body @ [Endif]"
| "branches_lines (ElifBranch t body bs) = elif_line t # items_lines body @ branches_lines bs"

lemma process_if_line:
  "process_directive pp (if_line t) (st, s) =
     (if is_active st then let (b, s) = run_test pp t s in (push_if b st, s) else (push_if False st, s))"
  by (cases t) (auto simp: handle_if_def handle_ifdef_def Let_def split: prod.splits)

lemma process_elif_line:
  "process_directive pp (elif_line t) (f # st, s) =
     (case unknown_test pp t of
        Some keyword \<Rightarrow> (f # st, if is_active (f # st) then invalid_directive pp keyword s else s)
      | None \<Rightarrow>
          if parent_active f \<and> \<not> any_branch_taken f
          then let (b, s) = run_test pp t s
               in (f\<lparr>current_branch_active := b, any_branch_taken := b\<rparr> # st, s)
          else (f\<lparr>current_branch_active := False\<rparr> # st, s))"
  by (cases t) (auto simp: handle_elif_expr_def handle_elifdef_def needs_elif_evaluation_def Let_def split: prod.splits)

lemma is_active_Cons [simp]: "is_active (f # st) \<longleftrightarrow> current_branch_active f \<and> parent_active f"
  by (simp add: is_active_def)

lemma group_lines:
  shows "fold (process_directive pp) (item_lines i) (st, s) = (st, if is_active st then run_item pp i s else s)"
    and "fold (process_directive pp) (items_lines is) (st, s) = (st, if is_active st then run_items pp is s else s)"
    and "(current_branch_active f \<longrightarrow> parent_active f \<and> any_branch_taken f) \<Longrightarrow>
      fold (process_directive pp) (branches_lines bs) (f # st, s) =
        (st, if current_branch_active f \<or> parent_active f \<and> \<not> any_branch_taken f
             then run_branches pp bs (current_branch_active f) s else s)"
proof (induction i and "is" and bs arbitrary: st s and st s and f st s)
  case (Group t body bs)
  then show ?case
    by (cases "run_test pp t s") (auto simp: process_if_line push_if_def)
next
  case (ElifBranch t body bs)
  then show ?case
    by (cases "run_test pp t s"; cases "unknown_test pp t") (auto simp: process_elif_line)
qed (auto simp: handle_endif_def)

text \<open>
  C11: conditional inclusion implements the meaning of conditional groups: processing the lines of a structured file
  evaluates the conditions of a group in order up to the first true one and no further, acts on the lines of that
  branch, or of the else branch, alone, does neither inside a skipped group, however deeply groups nest, and restores
  the stack. This holds in every dialect; one without \<^verbatim>\<open>#elifdef\<close> diagnoses such a line in a processed branch and goes on with the branch.
\<close>

theorem process_directives_refine_groups:
  "fold (process_directive pp) (items_lines is) (st, s) = (st, if is_active st then run_items pp is s else s)"
  by (rule group_lines(2))

text \<open>A file with nested groups; lines are recorded, and the evaluated conditions too.\<close>

definition tracing_preprocessor :: "(bool \<times> nat, nat, nat list) preprocessor" where
  "tracing_preprocessor =
     \<lparr>is_defined = (\<lambda>s name. name = ''A''), evaluate = (\<lambda>c s. (fst c, s @ [snd c])), act = (\<lambda>l s. s @ [l]),
      invalid_directive = (\<lambda>_ s. s), pp_elifdef = True\<rparr>"

definition nested_file :: "(bool \<times> nat, nat) items" where
  "nested_file =
     Then (Group (Expr (False, 100)) (Then (Line 1) Done)
       (ElifBranch (Expr (True, 101)) (Then (Group (Def ''A'' True) (Then (Line 2) Done) (ElseBranch (Then (Line 3) Done))) Done)
         (ElifBranch (Expr (True, 102)) (Then (Line 4) Done) NoElse))) Done"

theorem process_directives_refine_groups_witness:
  "fold (process_directive tracing_preprocessor) (items_lines nested_file) ([], []) = ([], [100, 101, 3]) \<and>
   fold (process_directive (tracing_preprocessor\<lparr>pp_elifdef := False\<rparr>))
     (items_lines (Then (Group (Expr (True, 100)) (Then (Line 1) Done) (ElifBranch (Def ''A'' False) (Then (Line 2) Done) NoElse)) Done))
     ([], []) = ([], [100, 1, 2])"
  unfolding process_directives_refine_groups by (simp add: nested_file_def tracing_preprocessor_def is_active_def)

end
