(* ===== verification/SlotColoring.thy ===== *)
theory SlotColoring
  imports Prelude "HOL-Library.Product_Lexorder"
begin

text \<open>
  Sharing of stack slots between values that live across blocks,
  \<^verbatim>\<open>src/src/backend/stack_layout/graph_coloring.rs\<close>, with the slot allocators that the ARM and RISC-V back ends pass to
  it. Program points are natural numbers; the limit of the 32-bit type the code keeps them in is written out
  where the code reads it. The maps keyed by value or size become functions and lists in the order the code
  visits them; the debugging output is left out.
\<close>

type_synonym segment = "nat \<times> nat"

definition u32_max :: nat where
  "u32_max = 2 ^ 32 - 1"

subsection \<open>Interference\<close>

definition hull :: "segment list \<Rightarrow> segment" where
  "hull a =
     (let (s, e) = foldl (\<lambda>(s, e) (x, y). (min s x, max e y)) (u32_max, 0) a
      in if s = u32_max then (0, 0) else (s, e))"

definition hulls_interfere :: "segment list \<Rightarrow> segment list \<Rightarrow> bool" where
  "hulls_interfere a b =
     (let (as, ae) = hull a; (bs, be) = hull b in as \<le> be \<and> bs \<le> ae)"

fun segments_interfere :: "segment list \<Rightarrow> segment list \<Rightarrow> bool" where
  "segments_interfere ((as, ae) # a) ((bs, be) # b) =
     (if as \<le> be \<and> bs \<le> ae then True
      else if ae < bs then segments_interfere a ((bs, be) # b)
      else segments_interfere ((as, ae) # a) b)"
| "segments_interfere _ _ = False"

definition merge_piece :: "segment list \<Rightarrow> segment \<Rightarrow> segment list" where
  "merge_piece into = (\<lambda>(start, fin).
     if into \<noteq> [] \<and> start \<le> min (snd (last into) + 1) u32_max
     then butlast into @ [(fst (last into), max (snd (last into)) fin)]
     else into @ [(start, fin)])"

definition insert_union :: "segment list \<Rightarrow> segment list \<Rightarrow> segment list" where
  "insert_union into added = foldl merge_piece [] (sort (into @ added))"

subsection \<open>Coloring\<close>

definition add_piece :: "nat \<times> segment \<Rightarrow> (nat \<rightharpoonup> segment list) \<Rightarrow> (nat \<rightharpoonup> segment list)" where
  "add_piece = (\<lambda>(v, p) m. m(v \<mapsto> (case m v of None \<Rightarrow> [] | Some ps \<Rightarrow> ps) @ [p]))"

text \<open>The definitions of a function, block by block, each at its program point; a terminator takes a point too.\<close>

fun block_points :: "nat \<Rightarrow> nat option list \<Rightarrow> (nat \<times> segment) list \<times> nat" where
  "block_points pp [] = ([], pp + 1)"
| "block_points pp (dest # insts) =
     (let (ps, pp') = block_points (pp + 1) insts
      in (case dest of None \<Rightarrow> ps | Some v \<Rightarrow> (v, (pp, pp)) # ps, pp'))"

fun write_points :: "nat \<Rightarrow> nat option list list \<Rightarrow> (nat \<times> segment) list" where
  "write_points pp [] = []"
| "write_points pp (b # bs) = (let (ps, pp) = block_points pp b in ps @ write_points pp bs)"

definition value_segments :: "(nat \<times> segment) list \<Rightarrow> nat option list list \<Rightarrow> nat \<rightharpoonup> segment list" where
  "value_segments liveness blocks =
     (let segments = fold add_piece liveness Map.empty;
          segments = fold add_piece (write_points 0 blocks) segments
      in (\<lambda>v. map_option (\<lambda>pieces. insert_union [] (sort pieces)) (segments v)))"

type_synonym slot_assigner = "int \<Rightarrow> int \<Rightarrow> int \<Rightarrow> int \<times> int"

record layout =
  value_locations :: "nat \<rightharpoonup> int"
  non_local_space :: int

definition place_new :: "slot_assigner \<Rightarrow> int \<Rightarrow> nat \<Rightarrow> layout \<Rightarrow> int \<times> layout" where
  "place_new assign_slot sz v state =
     (let align = (if sz \<ge> 16 then 16 else 0);
          (slot, new_space) = assign_slot (non_local_space state) sz align
      in (slot, \<lparr>value_locations = (value_locations state)(v \<mapsto> slot), non_local_space = new_space\<rparr>))"

definition place_unshared :: "slot_assigner \<Rightarrow> nat set \<Rightarrow> (nat \<rightharpoonup> segment list) \<Rightarrow> (nat \<times> int) list \<Rightarrow> layout \<Rightarrow>
    layout \<times> (nat \<times> int) list" where
  "place_unshared assign_slot protected segments values state =
     foldl (\<lambda>(state, rest) (v, sz).
        if v \<in> protected \<or> segments v = None then (snd (place_new assign_slot sz v state), rest)
        else (state, rest @ [(v, sz)])) (state, []) values"

definition total_span :: "segment list \<Rightarrow> nat" where
  "total_span pieces = sum_list (map (\<lambda>(s, e). e - s + 1) pieces)"

definition class_order :: "(nat \<Rightarrow> segment list) \<Rightarrow> nat \<Rightarrow> int \<times> int \<times> nat" where
  "class_order live v = (- int (total_span (live v)), - int (length (live v)), v)"

definition occupy :: "bool \<Rightarrow> segment list \<Rightarrow> segment list \<Rightarrow> segment list" where
  "occupy per_segment live occupied =
     (if per_segment then insert_union occupied live
      else let (hs, he) = hull live; (os, oe) = hull occupied in [(min hs os, max he oe)])"

definition interferes :: "bool \<Rightarrow> segment list \<Rightarrow> segment list \<Rightarrow> bool" where
  "interferes per_segment live occupied =
     (if per_segment then segments_interfere live occupied else hulls_interfere live occupied)"

fun reuse_color :: "bool \<Rightarrow> segment list \<Rightarrow> (int \<times> segment list) list \<Rightarrow> (int \<times> (int \<times> segment list) list) option" where
  "reuse_color per_segment live [] = None"
| "reuse_color per_segment live ((slot, occupied) # colors) =
     (if \<not> interferes per_segment live occupied then Some (slot, (slot, occupy per_segment live occupied) # colors)
      else map_option (\<lambda>(s, cs). (s, (slot, occupied) # cs)) (reuse_color per_segment live colors))"

definition color_value :: "bool \<Rightarrow> slot_assigner \<Rightarrow> (nat \<Rightarrow> segment list) \<Rightarrow> int \<Rightarrow> nat \<Rightarrow>
    (int \<times> segment list) list \<times> layout \<Rightarrow> (int \<times> segment list) list \<times> layout" where
  "color_value per_segment assign_slot live sz v = (\<lambda>(colors, state).
     case reuse_color per_segment (live v) colors of
       Some (slot, colors) \<Rightarrow> (colors, state\<lparr>value_locations := (value_locations state)(v \<mapsto> slot)\<rparr>)
     | None \<Rightarrow> let (slot, state) = place_new assign_slot sz v state in (colors @ [(slot, live v)], state))"

definition color_class :: "bool \<Rightarrow> slot_assigner \<Rightarrow> (nat \<Rightarrow> segment list) \<Rightarrow> (nat \<times> int) list \<Rightarrow> int \<Rightarrow> layout \<Rightarrow> layout" where
  "color_class per_segment assign_slot live values sz state =
     (let vs = sort_key (class_order live) (map fst (filter (\<lambda>(v, s). s = sz) values))
      in snd (fold (color_value per_segment assign_slot live sz) vs ([], state)))"

definition color_stack_slots :: "bool \<Rightarrow> slot_assigner \<Rightarrow> (nat \<times> segment) list \<Rightarrow> nat option list list \<Rightarrow> nat set \<Rightarrow>
    (nat \<times> int) list \<Rightarrow> layout \<Rightarrow> layout" where
  "color_stack_slots per_segment assign_slot liveness blocks protected values state =
     (let segments = value_segments liveness blocks;
          (state, rest) = place_unshared assign_slot protected segments values state;
          sizes = rev (sort (remdups (map snd rest)))
      in fold (color_class per_segment assign_slot (\<lambda>v. the (segments v)) rest) sizes state)"

subsection \<open>The slot allocators of two back ends\<close>

definition arm_assign_slot :: slot_assigner where
  "arm_assign_slot space alloc_size align =
     (let effective_align = (if align > 0 then max align 8 else 8);
          slot = (space + effective_align - 1) AND NOT (effective_align - 1);
          new_space = slot + max ((alloc_size + 7) AND NOT 7) 8
      in (slot, new_space))"

definition riscv_assign_slot :: slot_assigner where
  "riscv_assign_slot space alloc_size align =
     (let effective_align = (if align > 0 then max align 8 else 8);
          alloc = max ((alloc_size + 7) AND NOT 7) 8;
          new_space = ((space + alloc + effective_align - 1) sdiv effective_align) * effective_align
      in (- new_space, new_space))"

end
