(* ===== verification/SlotSafety.thy ===== *)
theory SlotSafety
  imports SlotColoring
begin

text \<open>
  Safety of slot sharing. A locale states what coloring needs of an interference regime and is interpreted on the hull
  and on the per-segment regime of the code; a second one states what it needs of a slot allocator and is interpreted
  on the allocators of the ARM and RISC-V back ends; coloring is shown safe once, in their combination.
\<close>

subsection \<open>Live points\<close>

definition points :: "segment list \<Rightarrow> nat set" where
  "points a = (\<Union>(s, e) \<in> set a. {s..e})"

lemma points_simps [simp]: "points [] = {}" "points ((s, e) # a) = {s..e} \<union> points a" "points (a @ b) = points a \<union> points b"
  by (auto simp: points_def)

lemma points_iff: "x \<in> points a \<longleftrightarrow> (\<exists>s e. (s, e) \<in> set a \<and> s \<le> x \<and> x \<le> e)"
  unfolding points_def by fastforce

text \<open>The two-pointer walk agrees with the pairwise definition on lists ordered by their starts.\<close>

lemma segments_interfere_pairwise:
  "sorted (map fst a) \<Longrightarrow> sorted (map fst b) \<Longrightarrow>
   segments_interfere a b \<longleftrightarrow> (\<exists>as ae bs be. (as, ae) \<in> set a \<and> (bs, be) \<in> set b \<and> as \<le> be \<and> bs \<le> ae)"
  by (induction a b rule: segments_interfere.induct) (fastforce simp: not_le split: if_splits)+

lemma segments_disjoint:
  assumes "sorted (map fst a)" "sorted (map fst b)" "\<not> segments_interfere a b"
  shows "points a \<inter> points b = {}"
proof -
  have no: "\<not> (as \<le> be \<and> bs \<le> ae)" if "(as, ae) \<in> set a" "(bs, be) \<in> set b" for as ae bs be
    using assms(3) that segments_interfere_pairwise [OF assms(1,2)] by blast
  show ?thesis
  proof (rule ccontr)
    assume "points a \<inter> points b \<noteq> {}"
    then obtain x as ae bs be where "(as, ae) \<in> set a" "(bs, be) \<in> set b" "as \<le> x" "x \<le> ae" "bs \<le> x" "x \<le> be"
      by (auto simp: points_iff)
    then show False using no [of as ae bs be] by simp
  qed
qed

subsection \<open>Unions\<close>

lemma merge_piece_points:
  assumes "\<And>a. a \<in> fst ` set into \<Longrightarrow> a \<le> s"
  shows "points into \<union> {s..e} \<subseteq> points (merge_piece into (s, e))"
proof (cases "into = []")
  case False
  then obtain ys a b where i: "into = ys @ [(a, b)]" by (metis append_butlast_last_id surj_pair)
  then have "a \<le> s" using assms by simp
  then show ?thesis unfolding i merge_piece_def by auto
qed (simp add: merge_piece_def)

lemma merge_piece_starts: "fst ` set (merge_piece into (s, e)) \<subseteq> fst ` set into \<union> {s}"
proof (cases "into = []")
  case False
  then obtain ys a b where i: "into = ys @ [(a, b)]" by (metis append_butlast_last_id surj_pair)
  show ?thesis unfolding i merge_piece_def by auto
qed (simp add: merge_piece_def)

lemma foldl_merge_starts: "fst ` set (foldl merge_piece into xs) \<subseteq> fst ` set into \<union> fst ` set xs"
proof (induction xs arbitrary: into)
  case (Cons x xs)
  have "fst ` set (merge_piece into x) \<subseteq> fst ` set into \<union> {fst x}"
    using merge_piece_starts [of into "fst x" "snd x"] by simp
  then show ?case using Cons.IH [of "merge_piece into x"] by (simp, blast)
qed simp

lemma foldl_merge:
  assumes "sorted (map fst into)" "sorted (map fst xs)" "\<forall>a \<in> fst ` set into. \<forall>b \<in> fst ` set xs. a \<le> b"
  shows "sorted (map fst (foldl merge_piece into xs)) \<and> points into \<union> points xs \<subseteq> points (foldl merge_piece into xs)"
  using assms
proof (induction xs arbitrary: into)
  case (Cons x xs)
  obtain s e where x: "x = (s, e)" by (cases x)
  have "sorted (map fst (merge_piece into (s, e)))"
  proof (cases "into = []")
    case False
    then obtain ys a b where i: "into = ys @ [(a, b)]" by (metis append_butlast_last_id surj_pair)
    show ?thesis using Cons.prems unfolding i merge_piece_def by (auto simp: sorted_append x)
  qed (simp add: merge_piece_def)
  moreover have "\<forall>a \<in> fst ` set (merge_piece into (s, e)). \<forall>b \<in> fst ` set xs. a \<le> b"
    using merge_piece_starts [of into s e] Cons.prems by (fastforce simp: x)
  moreover have "points into \<union> {s..e} \<subseteq> points (merge_piece into (s, e))"
    using Cons.prems(3) by (intro merge_piece_points) (auto simp: x)
  moreover have "sorted (map fst xs)" using Cons.prems(2) by simp
  ultimately show ?case using Cons.IH [of "merge_piece into (s, e)"] by (auto simp: x)
qed simp

lemma sorted_fst: "sorted xs \<Longrightarrow> sorted (map fst xs)" for xs :: "segment list"
  by (induction xs) (auto simp: less_eq_prod_def)

definition bounded :: "segment list \<Rightarrow> bool" where
  "bounded a \<longleftrightarrow> (\<forall>s e. (s, e) \<in> set a \<longrightarrow> s < u32_max)"

lemma insert_union_props:
  assumes "bounded a" "bounded b"
  shows "points a \<union> points b \<subseteq> points (insert_union a b)" "sorted (map fst (insert_union a b))" "bounded (insert_union a b)"
proof -
  have ps: "points (sort xs) = points xs" for xs by (simp add: points_def)
  have "sorted (map fst (sort (a @ b)))" by (simp add: sorted_fst)
  from foldl_merge [OF _ this, of "[]"] show "points a \<union> points b \<subseteq> points (insert_union a b)" "sorted (map fst (insert_union a b))"
    by (simp_all only: insert_union_def ps) simp_all
  have "fst ` set (insert_union a b) \<subseteq> fst ` set a \<union> fst ` set b"
    using foldl_merge_starts [of "[]" "sort (a @ b)"] by (auto simp: insert_union_def)
  then show "bounded (insert_union a b)"
    using assms unfolding bounded_def by (fastforce)
qed

subsection \<open>Hulls\<close>

lemma hull_fold:
  fixes a :: "segment list"
  shows "foldl (\<lambda>(s, e) (x, y). (min s x, max e y)) (s0, e0) a = (s, e) \<Longrightarrow>
   s \<le> s0 \<and> e0 \<le> e \<and> (\<forall>x y. (x, y) \<in> set a \<longrightarrow> s \<le> x \<and> y \<le> e) \<and> (s = s0 \<or> s \<in> fst ` set a)"
proof (induction a arbitrary: s0 e0)
  case (Cons p a)
  obtain x y where p: "p = (x, y)" by (cases p)
  have "foldl (\<lambda>(s, e) (x, y). (min s x, max e y)) (min s0 x, max e0 y) a = (s, e)"
    using Cons.prems by (simp add: p)
  from Cons.IH [OF this] show ?case by (auto simp: p min_def max_def split: if_splits)
qed simp

definition hull_points :: "segment list \<Rightarrow> nat set" where
  "hull_points a = {fst (hull a)..snd (hull a)}"

lemma hull_covers:
  assumes "bounded a"
  shows "points a \<subseteq> hull_points a"
proof -
  obtain s e where se: "foldl (\<lambda>(s, e) (x, y). (min s x, max e y)) (u32_max, 0) a = (s, e)" by fastforce
  note h = hull_fold [OF se]
  show ?thesis
  proof (cases "a = []")
    case False
    then obtain x y where xy: "(x, y) \<in> set a" by (metis list.set_intros(1) neq_Nil_conv surj_pair)
    then have "s < u32_max" using h assms by (fastforce simp: bounded_def)
    then have "hull a = (s, e)" by (simp add: hull_def se)
    then show ?thesis using h by (auto simp: points_iff hull_points_def) fastforce+
  qed simp
qed

lemma hull_start: "fst (hull a) < u32_max"
proof -
  obtain s e where se: "foldl (\<lambda>(s, e) (x, y). (min s x, max e y)) (u32_max, 0) a = (s, e)" by fastforce
  then show ?thesis using hull_fold [OF se] by (auto simp: hull_def u32_max_def)
qed

lemma hull_single: "s < u32_max \<Longrightarrow> hull [(s, e)] = (s, e)"
  by (simp add: hull_def min_def)

lemma hulls_disjoint: "\<not> hulls_interfere a b \<Longrightarrow> hull_points a \<inter> hull_points b = {}"
  by (auto simp: hulls_interfere_def hull_points_def split: prod.splits)

subsection \<open>Occupancy\<close>

text \<open>
  What coloring needs of a regime: a value that does not interfere with an occupied slot shares no live point with what
  occupies it, and the occupancy covers every value put there.
\<close>

locale occupancy =
  fixes clash :: "segment list \<Rightarrow> segment list \<Rightarrow> bool"
    and merge :: "segment list \<Rightarrow> segment list \<Rightarrow> segment list"
    and cover :: "segment list \<Rightarrow> nat set"
    and valid :: "segment list \<Rightarrow> bool"
  assumes clash_free: "valid live \<Longrightarrow> valid occ \<Longrightarrow> \<not> clash live occ \<Longrightarrow> points live \<inter> cover occ = {}"
    and merge_covers: "valid live \<Longrightarrow> valid occ \<Longrightarrow> points live \<union> cover occ \<subseteq> cover (merge live occ)"
    and merge_valid: "valid live \<Longrightarrow> valid occ \<Longrightarrow> valid (merge live occ)"
    and covers_self: "valid live \<Longrightarrow> points live \<subseteq> cover live"

interpretation hull_regime: occupancy "interferes False" "occupy False" hull_points bounded
proof
  fix live occ assume v: "bounded live" "bounded occ"
  define m where "m = (min (fst (hull live)) (fst (hull occ)), max (snd (hull live)) (snd (hull occ)))"
  have occ: "occupy False live occ = [m]" by (simp add: occupy_def m_def split: prod.splits)
  have m: "fst m < u32_max" using hull_start [of live] by (simp add: m_def)
  then have h: "hull [m] = m" using hull_single [of "fst m" "snd m"] by simp
  show "points live \<union> hull_points occ \<subseteq> hull_points (occupy False live occ)"
  proof -
    have "hull_points live \<union> hull_points occ \<subseteq> {fst m..snd m}" by (auto simp: hull_points_def m_def)
    then show ?thesis using hull_covers [OF v(1)] unfolding occ hull_points_def [of "[m]"] h by blast
  qed
  show "bounded (occupy False live occ)" unfolding occ using m by (auto simp: bounded_def)
  show "points live \<inter> hull_points occ = {}" if "\<not> interferes False live occ"
    using hulls_disjoint [of live occ] hull_covers [OF v(1)] that by (auto simp: interferes_def)
  show "points live \<subseteq> hull_points live" by (rule hull_covers [OF v(1)])
qed

interpretation segment_regime: occupancy "interferes True" "occupy True" points
  "\<lambda>a. bounded a \<and> sorted (map fst a)"
proof
  fix live occ assume v: "bounded live \<and> sorted (map fst live)" "bounded occ \<and> sorted (map fst occ)"
  show "points live \<union> points occ \<subseteq> points (occupy True live occ)"
    using insert_union_props(1) [of occ live] v by (auto simp: occupy_def)
  show "bounded (occupy True live occ) \<and> sorted (map fst (occupy True live occ))"
    using insert_union_props(2,3) [of occ live] v by (simp add: occupy_def)
  show "points live \<inter> points occ = {}" if "\<not> interferes True live occ"
    using segments_disjoint [of live occ] v that by (simp add: interferes_def)
qed simp

subsection \<open>Slot allocators\<close>

text \<open>
  What coloring needs of the function that hands out slots: the bytes of a new slot lie in the part of the frame the
  allocation adds. \<open>at\<close> gives the position of a byte in the order in which the frame grows.
\<close>

definition slot_bytes :: "int \<Rightarrow> int \<Rightarrow> int set" where
  "slot_bytes slot sz = {slot..<slot + sz}"

locale slot_allocator =
  fixes assign_slot :: slot_assigner and at :: "int \<Rightarrow> int"
  assumes fresh: "0 \<le> space \<Longrightarrow> 0 < sz \<Longrightarrow> align = 0 \<or> align = 16 \<Longrightarrow>
      assign_slot space sz align = (slot, new_space) \<Longrightarrow>
      space < new_space \<and> at ` slot_bytes slot sz \<subseteq> {space..<new_space}"

lemma align_up:
  fixes x :: int
  assumes "a = 2 ^ n"
  shows "(x + a - 1) AND NOT (a - 1) = ((x + a - 1) div a) * a" "x \<le> ((x + a - 1) div a) * a" "x \<le> (x + a - 1) AND NOT (a - 1)"
proof -
  have a: "a - 1 = mask n" by (simp add: assms mask_eq_exp_minus_1)
  have "y AND NOT (mask n) = push_bit n (drop_bit n y)" for y :: int
    by (rule bit_eqI) (auto simp: bit_simps)
  then have "y AND NOT (mask n) = y div 2 ^ n * 2 ^ n" for y :: int
    by (simp add: push_bit_eq_mult drop_bit_eq_div)
  then show eq: "(x + a - 1) AND NOT (a - 1) = ((x + a - 1) div a) * a" unfolding a by (simp add: assms)
  have "0 < a" by (simp add: assms)
  then have "(x + a - 1) mod a < a" by simp
  moreover have "((x + a - 1) div a) * a = x + a - 1 - (x + a - 1) mod a" by (simp add: minus_mod_eq_div_mult)
  ultimately show "x \<le> ((x + a - 1) div a) * a" by linarith
  then show "x \<le> (x + a - 1) AND NOT (a - 1)" unfolding eq .
qed

lemma round_eight: "x \<le> (x + 7) AND NOT 7" for x :: int
  using align_up(3) [of 8 3 x] by (simp add: add.commute)

interpretation arm: slot_allocator arm_assign_slot id
proof
  fix space sz align slot new_space :: int
  assume a: "0 \<le> space" "0 < sz" "align = 0 \<or> align = 16" "arm_assign_slot space sz align = (slot, new_space)"
  define ea where "ea = (if align > 0 then max align 8 else 8)"
  have "ea = 2 ^ 3 \<or> ea = 2 ^ 4" using a(3) by (auto simp: ea_def)
  then have "space \<le> (space + ea - 1) AND NOT (ea - 1)" using align_up(3) [of ea _ space] by blast
  moreover have "slot = (space + ea - 1) AND NOT (ea - 1)" "new_space = slot + max ((sz + 7) AND NOT 7) 8"
    using a(4) by (simp_all add: arm_assign_slot_def Let_def ea_def)
  ultimately show "space < new_space \<and> id ` slot_bytes slot sz \<subseteq> {space..<new_space}"
    using round_eight [of sz] by (auto simp: slot_bytes_def)
qed

interpretation riscv: slot_allocator riscv_assign_slot "\<lambda>b. - b - 1"
proof
  fix space sz align slot new_space :: int
  assume a: "0 \<le> space" "0 < sz" "align = 0 \<or> align = 16" "riscv_assign_slot space sz align = (slot, new_space)"
  define ea where "ea = (if align > 0 then max align 8 else 8)"
  define alloc where "alloc = max ((sz + 7) AND NOT 7) 8"
  have ea: "ea = 2 ^ 3 \<or> ea = 2 ^ 4" using a(3) by (auto simp: ea_def)
  have al: "sz \<le> alloc" using round_eight [of sz] by (simp add: alloc_def)
  have "new_space = ((space + alloc + ea - 1) sdiv ea) * ea" "slot = - new_space"
    using a(4) by (simp_all add: riscv_assign_slot_def Let_def ea_def alloc_def)
  moreover have "(space + alloc + ea - 1) sdiv ea = (space + alloc + ea - 1) div ea"
    using ea a al by (intro nonneg_sdiv) auto
  ultimately have "space + alloc \<le> new_space" "slot = - new_space"
    using ea align_up(2) [of ea _ "space + alloc"] by auto
  then show "space < new_space \<and> (\<lambda>b. - b - 1) ` slot_bytes slot sz \<subseteq> {space..<new_space}"
    using al a by (auto simp: slot_bytes_def)
qed

subsection \<open>Coloring keeps live values apart\<close>

text \<open>Values placed so far have a slot inside the frame, and two that share bytes share no live point.\<close>

definition placed :: "(int \<Rightarrow> int) \<Rightarrow> (nat \<Rightarrow> int) \<Rightarrow> (nat \<Rightarrow> segment list) \<Rightarrow> nat set \<Rightarrow> layout \<Rightarrow> bool" where
  "placed at sz live D state \<longleftrightarrow>
     0 \<le> non_local_space state \<and>
     (\<forall>v \<in> D. \<exists>a. value_locations state v = Some a \<and> at ` slot_bytes a (sz v) \<subseteq> {..<non_local_space state}) \<and>
     (\<forall>v \<in> D. \<forall>w \<in> D. v \<noteq> w \<longrightarrow>
        slot_bytes (the (value_locations state v)) (sz v) \<inter> slot_bytes (the (value_locations state w)) (sz w) \<noteq> {} \<longrightarrow>
        points (live v) \<inter> points (live w) = {})"

definition color_ok :: "(int \<Rightarrow> int) \<Rightarrow> (segment list \<Rightarrow> nat set) \<Rightarrow> (segment list \<Rightarrow> bool) \<Rightarrow> (nat \<Rightarrow> int) \<Rightarrow>
    (nat \<Rightarrow> segment list) \<Rightarrow> nat set \<Rightarrow> layout \<Rightarrow> int \<Rightarrow> int \<times> segment list \<Rightarrow> bool" where
  "color_ok at cover valid sz live D state s = (\<lambda>(slot, occ).
     valid occ \<and> at ` slot_bytes slot s \<subseteq> {..<non_local_space state} \<and>
     (\<forall>v \<in> D. slot_bytes (the (value_locations state v)) (sz v) \<inter> slot_bytes slot s \<noteq> {} \<longrightarrow> points (live v) \<subseteq> cover occ))"

definition colors_ok :: "(int \<Rightarrow> int) \<Rightarrow> (segment list \<Rightarrow> nat set) \<Rightarrow> (segment list \<Rightarrow> bool) \<Rightarrow> (nat \<Rightarrow> int) \<Rightarrow>
    (nat \<Rightarrow> segment list) \<Rightarrow> nat set \<Rightarrow> layout \<Rightarrow> int \<Rightarrow> (int \<times> segment list) list \<Rightarrow> bool" where
  "colors_ok at cover valid sz live D state s colors \<longleftrightarrow>
     (\<forall>c \<in> set colors. color_ok at cover valid sz live D state s c) \<and>
     sorted_wrt (\<lambda>c d. slot_bytes (fst c) s \<inter> slot_bytes (fst d) s = {}) colors"

lemma disjoint_by_position: "at ` A \<subseteq> {..<m} \<Longrightarrow> at ` B \<subseteq> {m..<k} \<Longrightarrow> A \<inter> B = {}" for m :: int
  by (auto simp: image_subset_iff) fastforce

lemma reuse_color_Some:
  "reuse_color ps l colors = Some (slot, colors') \<Longrightarrow>
   \<exists>xs occ ys. colors = xs @ (slot, occ) # ys \<and> colors' = xs @ (slot, occupy ps l occ) # ys \<and> \<not> interferes ps l occ"
proof (induction ps l colors arbitrary: colors' rule: reuse_color.induct)
  case (2 ps live s occ colors)
  show ?case
  proof (cases "interferes ps live occ")
    case False
    then show ?thesis
      using "2.prems" by (intro exI [of _ "[]"] exI [of _ occ] exI [of _ colors]) auto
  next
    case True
    then obtain cs where cs: "reuse_color ps live colors = Some (slot, cs)" "colors' = (s, occ) # cs"
      using "2.prems" by auto
    then obtain xs o' ys where "colors = xs @ (slot, o') # ys" "cs = xs @ (slot, occupy ps live o') # ys" "\<not> interferes ps live o'"
      using "2.IH" True by blast
    then show ?thesis using cs(2) by (intro exI [of _ "(s, occ) # xs"]) simp
  qed
qed simp

context slot_allocator
begin

lemma place_new_placed:
  assumes p: "placed at sz live D state" and v: "v \<notin> D" "0 < sz v"
    and n: "place_new assign_slot (sz v) v state = (slot, state')"
  shows "placed at sz live (insert v D) state'" "value_locations state' = (value_locations state)(v \<mapsto> slot)"
    "non_local_space state < non_local_space state'" "at ` slot_bytes slot (sz v) \<subseteq> {non_local_space state..<non_local_space state'}"
proof -
  obtain sl sp where a: "assign_slot (non_local_space state) (sz v) (if sz v \<ge> 16 then 16 else 0) = (sl, sp)"
    by fastforce
  have sl: "sl = slot" "state' = \<lparr>value_locations = (value_locations state)(v \<mapsto> slot), non_local_space = sp\<rparr>"
    using n a by (auto simp: place_new_def Let_def)
  have sp: "0 \<le> non_local_space state" using p by (simp add: placed_def)
  have f: "non_local_space state < sp \<and> at ` slot_bytes slot (sz v) \<subseteq> {non_local_space state..<sp}"
    using fresh [OF sp v(2) _ a] sl(1) by simp
  then show "non_local_space state < non_local_space state'"
    "at ` slot_bytes slot (sz v) \<subseteq> {non_local_space state..<non_local_space state'}" by (simp_all add: sl)
  show l: "value_locations state' = (value_locations state)(v \<mapsto> slot)" by (simp add: sl)
  have old: "\<exists>a. value_locations state w = Some a \<and> at ` slot_bytes a (sz w) \<subseteq> {..<non_local_space state}" if "w \<in> D" for w
    using p that by (simp add: placed_def)
  have apart: "slot_bytes (the (value_locations state w)) (sz w) \<inter> slot_bytes slot (sz v) = {}" if "w \<in> D" for w
    using old [OF that] f disjoint_by_position by fastforce
  have "\<exists>a. value_locations state' w = Some a \<and> at ` slot_bytes a (sz w) \<subseteq> {..<sp}" if "w \<in> insert v D" for w
    using that old [of w] f v(1) by (cases "w = v") (auto simp: sl, fastforce+)
  moreover have "points (live u) \<inter> points (live w) = {}" if "u \<in> insert v D" "w \<in> insert v D" "u \<noteq> w"
    "slot_bytes (the (value_locations state' u)) (sz u) \<inter> slot_bytes (the (value_locations state' w)) (sz w) \<noteq> {}" for u w
    using that p apart v(1) unfolding placed_def l by (auto split: if_splits)
  ultimately show "placed at sz live (insert v D) state'"
    using sp f unfolding placed_def by (simp add: sl)
qed

end

locale slot_coloring = occupancy "interferes ps" "occupy ps" cover valid + slot_allocator assign_slot at
  for ps :: bool and cover valid assign_slot at
begin

lemma color_value_ok:
  assumes p: "placed at sz live D state" and c: "colors_ok at cover valid sz live D state (sz v) colors"
    and v: "v \<notin> D" "0 < sz v" "valid (live v)"
    and r: "color_value ps assign_slot live (sz v) v (colors, state) = (colors', state')"
  shows "placed at sz live (insert v D) state' \<and> colors_ok at cover valid sz live (insert v D) state' (sz v) colors'"
proof (cases "reuse_color ps (live v) colors")
  case None
  obtain slot where n: "place_new assign_slot (sz v) v state = (slot, state')" and cs: "colors' = colors @ [(slot, live v)]"
    using r None by (auto simp: color_value_def split: prod.splits)
  note pn = place_new_placed [OF p v(1,2) n]
  have old: "color_ok at cover valid sz live D state (sz v) d" if "d \<in> set colors" for d
    using c that by (simp add: colors_ok_def)
  have apart: "slot_bytes (fst d) (sz v) \<inter> slot_bytes slot (sz v) = {}" if "d \<in> set colors" for d
    using old [OF that] pn(4) disjoint_by_position by (fastforce simp: color_ok_def)
  have new: "color_ok at cover valid sz live (insert v D) state' (sz v) (slot, live v)"
  proof -
    have "slot_bytes (the (value_locations state w)) (sz w) \<inter> slot_bytes slot (sz v) = {}" if "w \<in> D" for w
    proof -
      have "\<exists>a. value_locations state w = Some a \<and> at ` slot_bytes a (sz w) \<subseteq> {..<non_local_space state}"
        using p that by (simp add: placed_def)
      then obtain a where "value_locations state w = Some a" "at ` slot_bytes a (sz w) \<subseteq> {..<non_local_space state}"
        by blast
      then show ?thesis using disjoint_by_position [OF _ pn(4)] by simp
    qed
    moreover have "at ` slot_bytes slot (sz v) \<subseteq> {..<non_local_space state'}" using pn(4) by auto
    ultimately show ?thesis
      using v covers_self by (auto simp: color_ok_def pn(2))
  qed
  have "color_ok at cover valid sz live (insert v D) state' (sz v) d" if "d \<in> set colors" for d
  proof -
    have "at ` slot_bytes (fst d) (sz v) \<subseteq> {..<non_local_space state'}"
    proof -
      have "at ` slot_bytes (fst d) (sz v) \<subseteq> {..<non_local_space state}"
        using old [OF that] by (cases d) (simp add: color_ok_def)
      then show ?thesis using pn(3) by (meson lessThan_subset_iff less_imp_le order_trans)
    qed
    then show ?thesis
      using old [OF that] apart [OF that] v(1) by (cases d) (auto simp: color_ok_def pn(2))
  qed
  then show ?thesis
    using pn(1) new c apart by (auto simp: colors_ok_def cs sorted_wrt_append)
next
  case (Some x)
  obtain slot where x: "x = (slot, colors')" and st: "state' = state\<lparr>value_locations := (value_locations state)(v \<mapsto> slot)\<rparr>"
    using r Some by (cases x) (auto simp: color_value_def)
  obtain xs occ ys where cs: "colors = xs @ (slot, occ) # ys" "colors' = xs @ (slot, occupy ps (live v) occ) # ys"
    and free: "\<not> interferes ps (live v) occ"
    using reuse_color_Some [of ps "live v" colors slot colors'] Some x by blast
  have oc: "color_ok at cover valid sz live D state (sz v) (slot, occ)" using c by (simp add: colors_ok_def cs)
  then have vo: "valid occ" and inside: "at ` slot_bytes slot (sz v) \<subseteq> {..<non_local_space state}"
    and cov: "\<And>w. w \<in> D \<Longrightarrow> slot_bytes (the (value_locations state w)) (sz w) \<inter> slot_bytes slot (sz v) \<noteq> {} \<Longrightarrow> points (live w) \<subseteq> cover occ"
    by (auto simp: color_ok_def)
  note cf = clash_free [OF v(3) vo free] and mc = merge_covers [OF v(3) vo]
  have l: "value_locations state' = (value_locations state)(v \<mapsto> slot)" "non_local_space state' = non_local_space state"
    by (simp_all add: st)
  have share: "points (live w) \<inter> points (live v) = {}"
    if "w \<in> D" "slot_bytes (the (value_locations state w)) (sz w) \<inter> slot_bytes slot (sz v) \<noteq> {}" for w
    using cov [OF that] cf by blast
  have "placed at sz live (insert v D) state'"
    using p inside share v(1) unfolding placed_def l by (auto simp: Int_commute)
  moreover have "color_ok at cover valid sz live (insert v D) state' (sz v) (slot, occupy ps (live v) occ)"
  proof -
    have "points (live w) \<subseteq> cover (occupy ps (live v) occ)"
      if "w \<in> D" "slot_bytes (the (value_locations state w)) (sz w) \<inter> slot_bytes slot (sz v) \<noteq> {}" for w
      using cov [OF that] mc by blast
    then show ?thesis using inside mc merge_valid [OF v(3) vo] by (simp add: color_ok_def l)
  qed
  moreover have "color_ok at cover valid sz live (insert v D) state' (sz v) d" if "d \<in> set xs \<union> set ys" for d
  proof -
    have "slot_bytes (fst d) (sz v) \<inter> slot_bytes slot (sz v) = {}"
      using c that by (auto simp: colors_ok_def cs(1) sorted_wrt_append Int_commute)
    moreover have "color_ok at cover valid sz live D state (sz v) d" using c that by (auto simp: colors_ok_def cs(1))
    ultimately show ?thesis using v(1) by (cases d) (auto simp: color_ok_def l)
  qed
  ultimately show ?thesis
    using c by (auto simp: colors_ok_def cs sorted_wrt_append)
qed

lemma color_values_ok:
  assumes "placed at sz live D state" "colors_ok at cover valid sz live D state s colors"
    and "distinct vs" "set vs \<inter> D = {}" "\<And>v. v \<in> set vs \<Longrightarrow> sz v = s \<and> valid (live v)" "0 < s"
  shows "placed at sz live (D \<union> set vs) (snd (fold (color_value ps assign_slot live s) vs (colors, state)))"
  using assms
proof (induction vs arbitrary: D colors state)
  case (Cons v vs)
  obtain colors' state' where r: "color_value ps assign_slot live s v (colors, state) = (colors', state')" by fastforce
  have "placed at sz live (insert v D) state' \<and> colors_ok at cover valid sz live (insert v D) state' s colors'"
    using color_value_ok [of sz live D state v colors colors' state'] Cons.prems r by simp
  then show ?case using Cons.IH [of "insert v D" state' colors'] Cons.prems r by (auto simp: insert_commute)
qed simp

lemma color_class_ok:
  assumes "placed at sz live D state" "distinct (map fst rest)" "0 < s"
    and "\<And>v s. (v, s) \<in> set rest \<Longrightarrow> sz v = s \<and> valid (live v)" "{v. (v, s) \<in> set rest} \<inter> D = {}"
  shows "placed at sz live (D \<union> {v. (v, s) \<in> set rest}) (color_class ps assign_slot live rest s state)"
proof -
  define vs where "vs = sort_key (class_order live) (map fst (filter (\<lambda>(v, s'). s' = s) rest))"
  have set: "set vs = {v. (v, s) \<in> set rest}" by (auto simp: vs_def image_iff)
  have "distinct vs" using assms(2) by (auto simp: vs_def distinct_map_filter)
  moreover have "colors_ok at cover valid sz live D state s []" by (simp add: colors_ok_def)
  ultimately have "placed at sz live (D \<union> set vs) (snd (fold (color_value ps assign_slot live s) vs ([], state)))"
    using assms set by (intro color_values_ok) auto
  then show ?thesis unfolding set by (simp add: color_class_def vs_def [symmetric] Let_def)
qed

lemma color_classes_ok:
  assumes "placed at sz live D state" "distinct (map fst rest)" "\<And>s. s \<in> set sizes \<Longrightarrow> 0 < s" "distinct sizes"
    and "\<And>v s. (v, s) \<in> set rest \<Longrightarrow> sz v = s \<and> valid (live v)" "fst ` set rest \<inter> D = {}"
  shows "placed at sz live (D \<union> {v. \<exists>s \<in> set sizes. (v, s) \<in> set rest})
    (fold (color_class ps assign_slot live rest) sizes state)"
proof -
  have "placed at sz live (E \<union> {v. \<exists>s \<in> set ss. (v, s) \<in> set rest}) (fold (color_class ps assign_slot live rest) ss st)"
    if "placed at sz live E st" "set ss \<subseteq> set sizes" "distinct ss" "\<And>v s. s \<in> set ss \<Longrightarrow> (v, s) \<in> set rest \<Longrightarrow> v \<notin> E" for E ss st
    using that
  proof (induction ss arbitrary: E st)
    case (Cons s ss)
    let ?S = "{v. (v, s) \<in> set rest}"
    have 1: "placed at sz live (E \<union> ?S) (color_class ps assign_slot live rest s st)"
      using Cons.prems assms(2,3,5) by (intro color_class_ok) auto
    have "v \<notin> E \<union> ?S" if "s' \<in> set ss" "(v, s') \<in> set rest" for v s'
    proof
      assume "v \<in> E \<union> ?S"
      then have "(v, s) \<in> set rest" using that Cons.prems(4) [of s' v] by auto
      then have "s = s'" using assms(5) that(2) by metis
      then show False using that(1) Cons.prems(3) by simp
    qed
    then have "placed at sz live ((E \<union> ?S) \<union> {v. \<exists>s \<in> set ss. (v, s) \<in> set rest})
        (fold (color_class ps assign_slot live rest) ss (color_class ps assign_slot live rest s st))"
      using Cons.prems 1 by (intro Cons.IH) auto
    moreover have "(E \<union> ?S) \<union> {v. \<exists>s \<in> set ss. (v, s) \<in> set rest} = E \<union> {v. \<exists>s' \<in> set (s # ss). (v, s') \<in> set rest}"
      by auto
    ultimately show ?case by simp
  qed simp
  from this [OF assms(1) _ assms(4)] show ?thesis using assms(6) by (force simp: image_iff)
qed

end

context slot_allocator
begin

lemma place_unshared_ok:
  assumes "placed at sz live D state" "distinct (map fst values)" "fst ` set values \<inter> D = {}"
    and "\<And>v s. (v, s) \<in> set values \<Longrightarrow> sz v = s \<and> 0 < s"
    and "place_unshared assign_slot protected segments values state = (state', rest)"
  shows "rest = filter (\<lambda>(v, s). \<not> (v \<in> protected \<or> segments v = None)) values"
    "placed at sz live (D \<union> {v \<in> fst ` set values. v \<in> protected \<or> segments v = None}) state'"
proof -
  let ?P = "\<lambda>v. v \<in> protected \<or> segments v = None"
  let ?f = "\<lambda>(state, rest) (v, s). if ?P v then (snd (place_new assign_slot s v state), rest) else (state, rest @ [(v, s)])"
  have "foldl ?f (st, r0) vs = (st', r') \<Longrightarrow> placed at sz live E st \<Longrightarrow> distinct (map fst vs) \<Longrightarrow> fst ` set vs \<inter> E = {} \<Longrightarrow>
      set vs \<subseteq> set values \<Longrightarrow>
      r' = r0 @ filter (\<lambda>(v, s). \<not> ?P v) vs \<and> placed at sz live (E \<union> {v \<in> fst ` set vs. ?P v}) st'" for st r0 vs st' r' E
  proof (induction vs arbitrary: st r0 E)
    case (Cons x vs)
    obtain v s where x: "x = (v, s)" by (cases x)
    have vs: "sz v = s" "0 < s" using assms(4) [of v s] Cons.prems(5) by (simp_all add: x)
    show ?case
    proof (cases "?P v")
      case True
      obtain slot st1 where n: "place_new assign_slot s v st = (slot, st1)" by fastforce
      have "placed at sz live (insert v E) st1"
        using place_new_placed(1) [OF Cons.prems(2), of v slot st1] n vs Cons.prems(4) by (simp add: x)
      then have "r' = r0 @ filter (\<lambda>(v, s). \<not> ?P v) vs \<and> placed at sz live (insert v E \<union> {v \<in> fst ` set vs. ?P v}) st'"
        using Cons.prems n True by (intro Cons.IH) (auto simp: x)
      moreover have "insert v E \<union> {v \<in> fst ` set vs. ?P v} = E \<union> {v \<in> fst ` set (x # vs). ?P v}"
        using True by (auto simp: x)
      ultimately show ?thesis using True by (simp add: x)
    next
      case False
      then have "r' = (r0 @ [(v, s)]) @ filter (\<lambda>(v, s). \<not> ?P v) vs \<and> placed at sz live (E \<union> {v \<in> fst ` set vs. ?P v}) st'"
        using Cons.prems by (intro Cons.IH) (auto simp: x)
      moreover have "{v \<in> fst ` set vs. ?P v} = {v \<in> fst ` set (x # vs). ?P v}"
        using False by (auto simp: x)
      ultimately show ?thesis using False by (simp add: x)
    qed
  qed simp
  from this [OF assms(5) [unfolded place_unshared_def] assms(1-3)]
  show "rest = filter (\<lambda>(v, s). \<not> ?P v) values" "placed at sz live (D \<union> {v \<in> fst ` set values. ?P v}) state'"
    by simp_all
qed

end

subsection \<open>Recorded live points\<close>

text \<open>A value is live at the points liveness records for it, and written at its definitions.\<close>

definition live_at :: "(nat \<times> segment) list \<Rightarrow> nat option list list \<Rightarrow> nat \<Rightarrow> nat \<Rightarrow> bool" where
  "live_at liveness blocks v x \<longleftrightarrow>
     (\<exists>s e. (v, (s, e)) \<in> set liveness \<union> set (write_points 0 blocks) \<and> s \<le> x \<and> x \<le> e)"

lemma fold_add_piece:
  "fold add_piece xs m v =
     (if v \<in> fst ` set xs then Some ((case m v of None \<Rightarrow> [] | Some ps \<Rightarrow> ps) @ map snd (filter (\<lambda>y. fst y = v) xs)) else m v)"
proof (induction xs arbitrary: m)
  case (Cons x xs)
  obtain w p where x: "x = (w, p)" by (cases x)
  show ?case unfolding x by (simp add: Cons.IH) (auto simp: add_piece_def filter_empty_conv split: option.splits)
qed simp

lemma value_segments_props:
  assumes b: "\<And>v s e. (v, (s, e)) \<in> set liveness \<union> set (write_points 0 blocks) \<Longrightarrow> s < u32_max"
  shows "value_segments liveness blocks v = None \<Longrightarrow> \<not> live_at liveness blocks v x"
    and "value_segments liveness blocks v = Some ps \<Longrightarrow>
      bounded ps \<and> sorted (map fst ps) \<and> (live_at liveness blocks v x \<longrightarrow> x \<in> points ps)"
proof -
  let ?W = "write_points 0 blocks"
  define raw where "raw = fold add_piece ?W (fold add_piece liveness Map.empty)"
  have vs: "value_segments liveness blocks v = map_option (\<lambda>pieces. insert_union [] (sort pieces)) (raw v)"
    by (simp add: value_segments_def raw_def Let_def)
  have raw: "raw v = None \<longleftrightarrow> v \<notin> fst ` set liveness \<union> fst ` set ?W"
    "raw v = Some r \<Longrightarrow> set r = {p. (v, p) \<in> set liveness \<union> set ?W}" for r
    unfolding raw_def fold_add_piece by (auto split: if_splits) (force+)?
  show "value_segments liveness blocks v = None \<Longrightarrow> \<not> live_at liveness blocks v x"
    unfolding vs by (force simp: raw(1) live_at_def)
  assume "value_segments liveness blocks v = Some ps"
  then obtain r where r: "raw v = Some r" "ps = insert_union [] (sort r)" unfolding vs by auto
  have br: "bounded (sort r)" using raw(2) [OF r(1)] b by (auto simp: bounded_def)
  have "x \<in> points ps" if "live_at liveness blocks v x"
  proof -
    have "x \<in> points (sort r)" using that raw(2) [OF r(1)] by (auto simp: live_at_def points_iff)
    then show ?thesis using insert_union_props(1) [of "[]" "sort r"] br unfolding r(2) by (auto simp: bounded_def)
  qed
  then show "bounded ps \<and> sorted (map fst ps) \<and> (live_at liveness blocks v x \<longrightarrow> x \<in> points ps)"
    using insert_union_props(2,3) [of "[]" "sort r"] br unfolding r(2) by (auto simp: bounded_def)
qed

subsection \<open>Soundness\<close>

context slot_coloring
begin

lemma color_stack_slots_placed:
  assumes seg: "segs = value_segments liveness blocks"
    and vals: "distinct (map fst values)" "\<And>v s. (v, s) \<in> set values \<Longrightarrow> sz v = s \<and> 0 < s" "0 \<le> non_local_space state"
    and ok: "\<And>v ps. segs v = Some ps \<Longrightarrow> valid ps"
  shows "placed at sz (\<lambda>v. the (segs v)) (fst ` set values) (color_stack_slots ps assign_slot liveness blocks protected values state)"
proof -
  let ?live = "\<lambda>v. the (segs v)"
  obtain st rest where u: "place_unshared assign_slot protected segs values state = (st, rest)" by fastforce
  have p0: "placed at sz ?live {} state" using vals(3) by (simp add: placed_def)
  note un = place_unshared_ok [OF p0 vals(1) _ vals(2) u]
  let ?P = "\<lambda>v. v \<in> protected \<or> segs v = None"
  have rest: "rest = filter (\<lambda>(v, s). \<not> ?P v) values" by (rule un(1)) simp_all
  have st: "placed at sz ?live {v \<in> fst ` set values. ?P v} st" using un(2) by simp
  let ?sizes = "rev (sort (remdups (map snd rest)))"
  have "placed at sz ?live ({v \<in> fst ` set values. ?P v} \<union> {v. \<exists>s \<in> set ?sizes. (v, s) \<in> set rest})
      (fold (color_class ps assign_slot ?live rest) ?sizes st)"
  proof (rule color_classes_ok [OF st])
    show "distinct (map fst rest)" unfolding rest using vals(1) by (simp add: distinct_map_filter)
    show "0 < s" if "s \<in> set ?sizes" for s using that vals(2) by (auto simp: rest)
    show "sz v = s \<and> valid (?live v)" if "(v, s) \<in> set rest" for v s
      using that vals(2) [of v s] ok [of v] by (auto simp: rest)
    show "fst ` set rest \<inter> {v \<in> fst ` set values. ?P v} = {}" by (auto simp: rest)
  qed simp
  moreover have "{v \<in> fst ` set values. ?P v} \<union> {v. \<exists>s \<in> set ?sizes. (v, s) \<in> set rest} = fst ` set values"
    by (force simp: rest)
  ultimately show ?thesis
    using u by (simp add: color_stack_slots_def Let_def seg)
qed

end

interpretation arm_hull: slot_coloring False hull_points bounded arm_assign_slot id ..

interpretation arm_segments: slot_coloring True points "\<lambda>a. bounded a \<and> sorted (map fst a)" arm_assign_slot id ..

interpretation riscv_hull: slot_coloring False hull_points bounded riscv_assign_slot "\<lambda>b. - b - 1" ..

interpretation riscv_segments: slot_coloring True points "\<lambda>a. bounded a \<and> sorted (map fst a)" riscv_assign_slot "\<lambda>b. - b - 1" ..

lemma placed_apart:
  "placed at sz live D state \<Longrightarrow> v \<in> D \<Longrightarrow> w \<in> D \<Longrightarrow> v \<noteq> w \<Longrightarrow>
   value_locations state v = Some i \<Longrightarrow> value_locations state w = Some j \<Longrightarrow>
   slot_bytes i (sz v) \<inter> slot_bytes j (sz w) \<noteq> {} \<Longrightarrow> points (live v) \<inter> points (live w) = {}"
  unfolding placed_def by (metis option.sel)

text \<open>
  C4: sharing stack slots is safe: under either interference regime and with the slot allocator of either back end, every
  value that spans blocks gets a slot, and two values whose slots have a byte in common are never live, or
  written, at the same program point. The values are listed once, with positive sizes, and their program points
  are below the largest 32-bit number.
\<close>

theorem color_stack_slots_sound:
  assumes "assign_slot = arm_assign_slot \<or> assign_slot = riscv_assign_slot"
    and "distinct (map fst values)" "\<forall>s \<in> snd ` set values. 0 < s" "0 \<le> non_local_space state"
    and "\<forall>(v, s, e) \<in> set liveness \<union> set (write_points 0 blocks). s < u32_max"
    and "(v, a) \<in> set values" "(w, b) \<in> set values" "v \<noteq> w"
  shows "\<exists>i j. value_locations (color_stack_slots per_segment assign_slot liveness blocks protected values state) v = Some i \<and>
     value_locations (color_stack_slots per_segment assign_slot liveness blocks protected values state) w = Some j \<and>
     ({i..<i + a} \<inter> {j..<j + b} \<noteq> {} \<longrightarrow> \<not> (live_at liveness blocks v x \<and> live_at liveness blocks w x))"
proof -
  define segs where "segs = value_segments liveness blocks"
  define sz where "sz = (\<lambda>v. the (map_of values v))"
  let ?st = "color_stack_slots per_segment assign_slot liveness blocks protected values state"
  have sz: "sz v = s \<and> 0 < s" if "(v, s) \<in> set values" for v s
    using that assms(2,3) by (force simp: sz_def)
  have below: "s < u32_max" if "(v, (s, e)) \<in> set liveness \<union> set (write_points 0 blocks)" for v s e
    using assms(5) that by fastforce
  have ok: "bounded ps \<and> sorted (map fst ps)" if "segs v = Some ps" for v ps
    using value_segments_props(2) [OF below] that by (simp add: segs_def)
  have arm: "placed id sz (\<lambda>v. the (segs v)) (fst ` set values)
      (color_stack_slots per_segment arm_assign_slot liveness blocks protected values state)"
    by (cases per_segment)
      (simp_all only:, (rule arm_segments.color_stack_slots_placed [OF segs_def assms(2)]
         arm_hull.color_stack_slots_placed [OF segs_def assms(2)]; use sz ok assms(4) in auto)+)
  have riscv: "placed (\<lambda>b. - b - 1) sz (\<lambda>v. the (segs v)) (fst ` set values)
      (color_stack_slots per_segment riscv_assign_slot liveness blocks protected values state)"
    by (cases per_segment)
      (simp_all only:, (rule riscv_segments.color_stack_slots_placed [OF segs_def assms(2)]
         riscv_hull.color_stack_slots_placed [OF segs_def assms(2)]; use sz ok assms(4) in auto)+)
  have "\<exists>at. placed at sz (\<lambda>v. the (segs v)) (fst ` set values) ?st"
    using assms(1) arm riscv by blast
  then obtain at where p: "placed at sz (\<lambda>v. the (segs v)) (fst ` set values) ?st" by blast
  have vw: "v \<in> fst ` set values" "w \<in> fst ` set values" using assms(6,7) by force+
  obtain i j where ij: "value_locations ?st v = Some i" "value_locations ?st w = Some j"
  proof -
    have "\<exists>i. value_locations ?st u = Some i" if "u \<in> fst ` set values" for u
      using p that by (auto simp: placed_def)
    then show thesis using vw that by blast
  qed
  have "\<not> (live_at liveness blocks v x \<and> live_at liveness blocks w x)" if "{i..<i + a} \<inter> {j..<j + b} \<noteq> {}"
  proof
    assume l: "live_at liveness blocks v x \<and> live_at liveness blocks w x"
    have "points (the (segs v)) \<inter> points (the (segs w)) = {}"
      using placed_apart [OF p vw assms(8) ij] that sz [OF assms(6)] sz [OF assms(7)] by (simp add: slot_bytes_def)
    moreover have "x \<in> points (the (segs u))" if "live_at liveness blocks u x" for u
      using value_segments_props [where v = u and x = x, OF below] that by (cases "segs u") (auto simp: segs_def)
    ultimately show False using l by blast
  qed
  with ij show ?thesis by blast
qed

theorem color_stack_slots_sound_witness:
  "distinct (map fst [(1::nat, 8::int), (2, 8)]) \<and>
   (\<exists>i j. value_locations (color_stack_slots False riscv_assign_slot [(1, (0, 2)), (2, (5, 7))] [[Some 1, None], [Some 2]] {}
        [(1, 8), (2, 8)] \<lparr>value_locations = Map.empty, non_local_space = 16\<rparr>) 1 = Some i \<and>
     value_locations (color_stack_slots False riscv_assign_slot [(1, (0, 2)), (2, (5, 7))] [[Some 1, None], [Some 2]] {}
        [(1, 8), (2, 8)] \<lparr>value_locations = Map.empty, non_local_space = 16\<rparr>) 2 = Some j \<and>
     ({i..<i + 8} \<inter> {j..<j + 8} \<noteq> {} \<longrightarrow>
        \<not> (live_at [(1, (0, 2)), (2, (5, 7))] [[Some 1, None], [Some 2]] 1 2 \<and>
           live_at [(1, (0, 2)), (2, (5, 7))] [[Some 1, None], [Some 2]] 2 2)))"
  by (rule conjI, simp) (rule color_stack_slots_sound, simp_all add: u32_max_def)

end
