(* ===== verification/IrConstants.thy ===== *)
theory IrConstants
  imports LongDouble "HOL-Library.Log_Nat"
begin

text \<open>
  The constants of the intermediate representation, \<^verbatim>\<open>src/src/ir/constants.rs\<close>: integer constants of five widths, binary
  and decimal floating-point constants as bit patterns, and long doubles with their binary128 payload. The
  conversions of integers to host floating-point types that the code writes as \<^verbatim>\<open>as f32\<close> and \<^verbatim>\<open>as f64\<close> round to
  nearest even.
\<close>

datatype IrConst =
    CI8 i8
  | CI16 i16
  | CI32 i32
  | CI64 i64
  | CI128 i128
  | CF32 u32
  | CF64 f64
  | CD32 u32
  | CD64 u64
  | CLongDouble f64 "u8 list"
  | CZero

datatype ConstHashKey =
    KI8 i8
  | KI16 i16
  | KI32 i32
  | KI64 i64
  | KI128 i128
  | KF32 u32
  | KF64 u64
  | KD32 u32
  | KD64 u64
  | KLongDouble "u8 list"
  | KZero

subsection \<open>Integers as floating-point numbers\<close>

text \<open>The pattern of an integer in the format with \<open>f\<close> fraction bits and exponent bias \<open>bias\<close>, without its sign.\<close>

definition magnitude_as_ieee :: "nat \<Rightarrow> nat \<Rightarrow> nat \<Rightarrow> nat" where
  "magnitude_as_ieee f bias m =
     (if m = 0 then 0
      else let e = floorlog 2 m - 1;
               sig = (if e \<le> f then m * 2 ^ (f - e)
                      else let q = m div 2 ^ (e - f);
                               r = m mod 2 ^ (e - f)
                           in if 2 * r > 2 ^ (e - f) \<or> (2 * r = 2 ^ (e - f) \<and> odd q) then q + 1 else q)
           in (e + bias - 1) * 2 ^ f + sig)"

definition int_as_f32 :: "int \<Rightarrow> u32" where
  "int_as_f32 v = (if v < 0 then push_bit 31 1 else 0) OR of_nat (magnitude_as_ieee 23 127 (nat \<bar>v\<bar>))"

definition int_as_f64 :: "int \<Rightarrow> f64" where
  "int_as_f64 v = (if v < 0 then push_bit 63 1 else 0) OR of_nat (magnitude_as_ieee 52 1023 (nat \<bar>v\<bar>))"

subsection \<open>Long double encodings\<close>

definition f64_to_f128_bytes :: "f64 \<Rightarrow> u8 list" where
  "f64_to_f128_bytes val =
     (let bits = val;
          sign = drop_bit 63 bits AND 1;
          exp11 = drop_bit 52 bits AND 0x7FF;
          mantissa52 = bits AND 0x000FFFFFFFFFFFFF
      in if exp11 = 0 \<and> mantissa52 = 0 then
           (let bytes = replicate 16 0 in if sign = 1 then bytes[15 := 0x80] else bytes)
         else if exp11 = 0x7FF then
           (let exp15 = 0x7FFF :: u16;
                bytes = replicate 16 0
            in if mantissa52 = 0
               then bytes[14 := ucast (exp15 AND 0xFF),
                          15 := ucast (drop_bit 8 exp15) OR push_bit 7 (ucast sign)]
               else bytes[13 := 0x80, 14 := ucast (exp15 AND 0xFF),
                          15 := ucast (drop_bit 8 exp15) OR push_bit 7 (ucast sign)])
         else if exp11 = 0 then
           (let (neg, significand53, e) = f64_normalize_significand val;
                exp15 = word_of_int (e + 16383) :: u16;
                mantissa112 = push_bit 60 (ucast significand53 :: u128) AND (push_bit 112 1 - 1);
                sign_bit = (if neg then push_bit 127 1 else 0)
            in to_le_bytes 16 (sign_bit OR push_bit 112 (ucast exp15) OR mantissa112))
         else
           (let exp15 = word_of_int (uint exp11 - 1023 + 16383) :: u16;
                mantissa112 = push_bit 60 (ucast mantissa52 :: u128);
                exp_sign = push_bit 112 (ucast exp15) OR push_bit 127 (ucast sign)
            in to_le_bytes 16 (mantissa112 OR exp_sign)))"

definition f64_to_x87_bytes :: "f64 \<Rightarrow> u8 list" where
  "f64_to_x87_bytes val =
     (let bits = val;
          sign = drop_bit 63 bits AND 1;
          exp11 = drop_bit 52 bits AND 0x7FF;
          mantissa52 = bits AND 0x000FFFFFFFFFFFFF
      in if exp11 = 0 \<and> mantissa52 = 0 then
           (let bytes = replicate 10 0 in if sign = 1 then bytes[9 := 0x80] else bytes)
         else if exp11 = 0x7FF then
           (if mantissa52 = 0
            then let exp15 = 0x7FFF :: u16
                 in (replicate 10 0)[7 := 0x80, 8 := ucast (exp15 AND 0xFF),
                                     9 := ucast (drop_bit 8 exp15) OR push_bit 7 (ucast sign)]
            else (replicate 10 0xFF)[8 := 0xFF, 9 := 0x7F OR push_bit 7 (ucast sign)])
         else if exp11 = 0 then
           (let (neg, significand53, e) = f64_normalize_significand val;
                exp15 = word_of_int (e + 16383) :: u16;
                mantissa64 = push_bit 11 significand53
            in to_le_bytes 8 mantissa64 @
               [ucast (exp15 AND 0xFF), ucast (drop_bit 8 exp15) OR push_bit 7 (if neg then 1 else 0)])
         else
           (let exp15 = word_of_int (uint exp11 - 1023 + 16383) :: u16;
                mantissa64 = push_bit 63 1 OR push_bit 11 mantissa52
            in to_le_bytes 8 mantissa64 @
               [ucast (exp15 AND 0xFF), ucast (drop_bit 8 exp15) OR push_bit 7 (ucast sign)]))"

subsection \<open>Decimal constants\<close>

definition decode_bid32 :: "u32 \<Rightarrow> (bool \<times> u32 \<times> int) option" where
  "decode_bid32 v =
     (if v AND 0x78000000 = 0x78000000 then None
      else let neg = (v AND 0x80000000 \<noteq> 0)
           in if v AND 0x60000000 = 0x60000000
              then let c = push_bit 23 1 OR (v AND 0x1FFFFF);
                       e = uint (drop_bit 21 v AND 0xFF) - 101
                   in Some (neg, if c > 9999999 then 0 else c, e)
              else let c = v AND 0x7FFFFF;
                       e = uint (drop_bit 23 v AND 0xFF) - 101
                   in Some (neg, c, e))"

definition decode_bid64 :: "u64 \<Rightarrow> (bool \<times> u64 \<times> int) option" where
  "decode_bid64 v =
     (if v AND 0x7800000000000000 = 0x7800000000000000 then None
      else let neg = (v AND 0x8000000000000000 \<noteq> 0)
           in if v AND 0x6000000000000000 = 0x6000000000000000
              then let c = push_bit 53 1 OR (v AND 0x7FFFFFFFFFFFF);
                       e = uint (drop_bit 51 v AND 0x3FF) - 398
                   in Some (neg, if c > 9999999999999999 then 0 else c, e)
              else let c = v AND 0x1FFFFFFFFFFFFF;
                       e = uint (drop_bit 53 v AND 0x3FF) - 398
                   in Some (neg, c, e))"

definition bid32_is_zero :: "u32 \<Rightarrow> bool" where
  "bid32_is_zero v = (case decode_bid32 v of Some (_, c, _) \<Rightarrow> c = 0 | None \<Rightarrow> False)"

definition bid64_is_zero :: "u64 \<Rightarrow> bool" where
  "bid64_is_zero v = (case decode_bid64 v of Some (_, c, _) \<Rightarrow> c = 0 \<or> c > 9999999999999999 | None \<Rightarrow> False)"

definition negate_bid32 :: "u32 \<Rightarrow> u32" where
  "negate_bid32 x = x XOR 0x80000000"

definition negate_bid64 :: "u64 \<Rightarrow> u64" where
  "negate_bid64 x = x XOR 0x8000000000000000"

subsection \<open>Predicates\<close>

text \<open>A binary pattern compares equal to zero when all its bits but the sign are clear.\<close>

fun is_zero :: "IrConst \<Rightarrow> bool" where
  "is_zero (CI8 v) = (v = 0)"
| "is_zero (CI16 v) = (v = 0)"
| "is_zero (CI32 v) = (v = 0)"
| "is_zero (CI64 v) = (v = 0)"
| "is_zero (CI128 v) = (v = 0)"
| "is_zero (CF32 v) = (v AND 0x7FFFFFFF = 0)"
| "is_zero (CF64 v) = (v AND 0x7FFFFFFFFFFFFFFF = 0)"
| "is_zero (CLongDouble _ bytes) = (push_bit 1 (from_le_bytes bytes :: u128) = 0)"
| "is_zero (CD32 v) = bid32_is_zero v"
| "is_zero (CD64 v) = bid64_is_zero v"
| "is_zero CZero = True"

fun is_all_zero_bits :: "IrConst \<Rightarrow> bool" where
  "is_all_zero_bits (CF32 v) = (v = 0)"
| "is_all_zero_bits (CF64 v) = (v = 0)"
| "is_all_zero_bits (CD32 bits) = (bits = 0)"
| "is_all_zero_bits (CD64 bits) = (bits = 0)"
| "is_all_zero_bits (CLongDouble _ bytes) = list_all (\<lambda>b. b = 0) bytes"
| "is_all_zero_bits other = is_zero other"

fun is_one :: "IrConst \<Rightarrow> bool" where
  "is_one (CI8 v) = (v = 1)"
| "is_one (CI16 v) = (v = 1)"
| "is_one (CI32 v) = (v = 1)"
| "is_one (CI64 v) = (v = 1)"
| "is_one (CI128 v) = (v = 1)"
| "is_one _ = False"

definition is_nonzero :: "IrConst \<Rightarrow> bool" where
  "is_nonzero c = (\<not> is_zero c)"

fun to_hash_key :: "IrConst \<Rightarrow> ConstHashKey" where
  "to_hash_key (CI8 v) = KI8 v"
| "to_hash_key (CI16 v) = KI16 v"
| "to_hash_key (CI32 v) = KI32 v"
| "to_hash_key (CI64 v) = KI64 v"
| "to_hash_key (CI128 v) = KI128 v"
| "to_hash_key (CF32 v) = KF32 v"
| "to_hash_key (CF64 v) = KF64 v"
| "to_hash_key (CD32 v) = KD32 v"
| "to_hash_key (CD64 v) = KD64 v"
| "to_hash_key (CLongDouble _ bytes) = KLongDouble bytes"
| "to_hash_key CZero = KZero"

subsection \<open>Extraction\<close>

fun to_i64 :: "IrConst \<Rightarrow> i64 option" where
  "to_i64 (CI8 v) = Some (scast v)"
| "to_i64 (CI16 v) = Some (scast v)"
| "to_i64 (CI32 v) = Some (scast v)"
| "to_i64 (CI64 v) = Some v"
| "to_i64 (CI128 v) = Some (ucast v)"
| "to_i64 CZero = Some 0"
| "to_i64 _ = None"

fun to_i128 :: "IrConst \<Rightarrow> i128 option" where
  "to_i128 (CI8 v) = Some (scast v)"
| "to_i128 (CI16 v) = Some (scast v)"
| "to_i128 (CI32 v) = Some (scast v)"
| "to_i128 (CI64 v) = Some (scast v)"
| "to_i128 (CI128 v) = Some v"
| "to_i128 CZero = Some 0"
| "to_i128 _ = None"

fun to_u64 :: "IrConst \<Rightarrow> u64 option" where
  "to_u64 (CI8 v) = Some (scast v)"
| "to_u64 (CI16 v) = Some (scast v)"
| "to_u64 (CI32 v) = Some (scast v)"
| "to_u64 (CI64 v) = Some v"
| "to_u64 (CI128 v) = Some (ucast v)"
| "to_u64 CZero = Some 0"
| "to_u64 _ = None"

definition to_u32 :: "IrConst \<Rightarrow> u32 option" where
  "to_u32 c = map_option ucast (to_i64 c)"

fun long_double_bytes :: "IrConst \<Rightarrow> u8 list option" where
  "long_double_bytes (CLongDouble _ bytes) = Some bytes"
| "long_double_bytes _ = None"

subsection \<open>Construction\<close>

definition long_double :: "f64 \<Rightarrow> IrConst" where
  "long_double v = CLongDouble v (f64_to_f128_bytes_lossless v)"

definition long_double_with_bytes :: "f64 \<Rightarrow> u8 list \<Rightarrow> IrConst" where
  "long_double_with_bytes v bytes = CLongDouble v bytes"

definition long_double_from_i64 :: "i64 \<Rightarrow> IrConst" where
  "long_double_from_i64 val = CLongDouble (int_as_f64 (sint val)) (i64_to_f128_bytes val)"

definition long_double_from_u64 :: "u64 \<Rightarrow> IrConst" where
  "long_double_from_u64 val = CLongDouble (int_as_f64 (uint val)) (u64_to_f128_bytes val)"

definition long_double_from_u128 :: "u128 \<Rightarrow> IrConst" where
  "long_double_from_u128 val = CLongDouble (int_as_f64 (uint val)) (u128_to_f128_bytes val)"

definition long_double_from_i128 :: "i128 \<Rightarrow> IrConst" where
  "long_double_from_i128 val = CLongDouble (int_as_f64 (sint val)) (i128_to_f128_bytes val)"

definition ptr_int :: "target \<Rightarrow> i64 \<Rightarrow> IrConst" where
  "ptr_int T val = (if target_is_32bit T then CI32 (ucast val) else CI64 val)"

fun from_i64 :: "target \<Rightarrow> i64 \<Rightarrow> IrType \<Rightarrow> IrConst" where
  "from_i64 T val I8 = CI8 (ucast val)"
| "from_i64 T val U8 = CI64 (ucast (ucast val :: u8))"
| "from_i64 T val I16 = CI16 (ucast val)"
| "from_i64 T val U16 = CI64 (ucast (ucast val :: u16))"
| "from_i64 T val I32 = CI32 (ucast val)"
| "from_i64 T val U32 = CI64 (ucast (ucast val :: u32))"
| "from_i64 T val Ptr = ptr_int T val"
| "from_i64 T val I128 = CI128 (scast val)"
| "from_i64 T val U128 = CI128 (ucast val)"
| "from_i64 T val F32 = CF32 (int_as_f32 (sint val))"
| "from_i64 T val F64 = CF64 (int_as_f64 (sint val))"
| "from_i64 T val F128 = long_double_from_i64 val"
| "from_i64 T val _ = CI64 val"

definition low_mask :: "target \<Rightarrow> IrType \<Rightarrow> nat \<Rightarrow> IrConst" where
  "low_mask T ty bits =
     (let width = min (ir_size T ty * 8) 128;
          bits = min bits width;
          mask = (if bits \<ge> 128 then - 1 else push_bit bits 1 - 1) :: u128
      in case ty of
           I128 \<Rightarrow> CI128 mask
         | U128 \<Rightarrow> CI128 mask
         | _ \<Rightarrow> from_i64 T (ucast mask) ty)"

definition bool_normalize :: "IrConst \<Rightarrow> IrConst" where
  "bool_normalize c = CI8 (if is_zero c then 0 else 1)"

fun zero_const :: "IrType \<Rightarrow> IrConst" where
  "zero_const I8 = CI8 0" | "zero_const U8 = CI8 0"
| "zero_const I16 = CI16 0" | "zero_const U16 = CI16 0"
| "zero_const I32 = CI32 0"
| "zero_const U32 = CI64 0"
| "zero_const F32 = CF32 0"
| "zero_const F64 = CF64 0"
| "zero_const F128 = long_double 0"
| "zero_const _ = CI64 0"

fun one_const :: "IrType \<Rightarrow> IrConst" where
  "one_const I8 = CI8 1" | "one_const U8 = CI8 1"
| "one_const I16 = CI16 1" | "one_const U16 = CI16 1"
| "one_const I32 = CI32 1"
| "one_const U32 = CI64 1"
| "one_const F32 = CF32 0x3F800000"
| "one_const F64 = CF64 0x3FF0000000000000"
| "one_const F128 = long_double 0x3FF0000000000000"
| "one_const _ = CI64 1"

subsection \<open>Serialisation\<close>

fun const_to_le_bytes :: "IrConst \<Rightarrow> u8 list" where
  "const_to_le_bytes (CI8 v) = [v]"
| "const_to_le_bytes (CI16 v) = to_le_bytes 2 v"
| "const_to_le_bytes (CI32 v) = to_le_bytes 4 v"
| "const_to_le_bytes (CI64 v) = to_le_bytes 8 v"
| "const_to_le_bytes (CI128 v) = to_le_bytes 16 v"
| "const_to_le_bytes (CF32 v) = to_le_bytes 4 v"
| "const_to_le_bytes (CF64 v) = to_le_bytes 8 v"
| "const_to_le_bytes (CD32 v) = to_le_bytes 4 v"
| "const_to_le_bytes (CD64 v) = to_le_bytes 8 v"
| "const_to_le_bytes (CLongDouble _ bytes) = bytes"
| "const_to_le_bytes CZero = [0]"

text \<open>The bytes that the code appends to its buffer.\<close>

fun push_le_bytes :: "IrConst \<Rightarrow> nat \<Rightarrow> u8 list" where
  "push_le_bytes (CF32 v) n = to_le_bytes 4 v"
| "push_le_bytes (CF64 v) n = to_le_bytes 8 v"
| "push_le_bytes (CLongDouble _ f128_bytes) n = f128_bytes"
| "push_le_bytes (CI128 v) n = take (min n 16) (to_le_bytes 16 v)"
| "push_le_bytes c n =
     (let le_bytes = to_le_bytes 8 (case to_i64 c of Some v \<Rightarrow> v | None \<Rightarrow> 0)
      in if n \<le> 8 then take n le_bytes else le_bytes @ replicate (n - 8) 0)"

fun push_le_bytes_x86 :: "IrConst \<Rightarrow> nat \<Rightarrow> u8 list" where
  "push_le_bytes_x86 (CLongDouble _ f128_bytes) n = take 10 (f128_bytes_to_x87_bytes f128_bytes) @ replicate 6 0"
| "push_le_bytes_x86 c n = push_le_bytes c n"

fun push_le_bytes_riscv :: "IrConst \<Rightarrow> nat \<Rightarrow> u8 list" where
  "push_le_bytes_riscv (CLongDouble _ f128_bytes) n = f128_bytes"
| "push_le_bytes_riscv c n = push_le_bytes c n"

subsection \<open>Integer constants hold and serialise the converted value\<close>

lemma to_le_bytes_eqI:
  fixes v :: "'a::len word" and w :: "'b::len word"
  assumes "\<And>k. k < 8 * n \<Longrightarrow> bit v k = bit w k"
  shows "to_le_bytes n v = to_le_bytes n w"
proof (rule nth_equalityI)
  fix i
  assume "i < length (to_le_bytes n v)"
  then have i: "i < n"
    by simp
  have "bit v (8 * i + k) = bit w (8 * i + k)" if "k < 8" for k
    using assms i that by simp
  then have "(ucast (drop_bit (8 * i) v) :: u8) = ucast (drop_bit (8 * i) w)"
    by (intro bit_word_eqI) (simp add: bit_simps add.commute)
  then show "to_le_bytes n v ! i = to_le_bytes n w ! i"
    using i by (simp add: nth_to_le_bytes)
qed simp

lemma take_to_le_bytes: "m \<le> n \<Longrightarrow> take m (to_le_bytes n w) = to_le_bytes m w"
  by (rule nth_equalityI) (auto simp: nth_to_le_bytes)

text \<open>
  C37: an integer constant of a type of at most 32 bits, or of a signed 64-bit type, holds the C conversion of the value it is made from, so a value of the type;
  and its bytes in memory, as many as the type has, are the low bytes of that value.
\<close>

theorem integer_constant_holds_conversion:
  assumes "ty \<in> {I8, U8, I16, U16, I32, U32, I64}"
  shows "\<exists>v. to_i64 (from_i64 T val ty) = Some v \<and> sint v = ir_wrap T ty (sint val) \<and> sint v \<in> ir_domain T ty \<and>
    push_le_bytes (from_i64 T val ty) (ir_size T ty) = to_le_bytes (ir_size T ty) val"
proof -
  have t: "to_i64 (from_i64 T val ty) = Some (truncate_i64 ty val)"
    using assms by auto
  have "bit (sint (truncate_i64 ty val)) k \<longleftrightarrow> bit (ir_wrap T ty (sint val)) k" for k
    using assms by (auto simp: ir_wrap_def ir_width_def is_unsigned_def bit_simps bit_sint_iff min_def dest: bit_imp_le_length)
  then have w: "sint (truncate_i64 ty val) = ir_wrap T ty (sint val)"
    by (rule bit_eqI)
  have "is_integer ty"
    using assms by (auto simp: ir_class_defs)
  from ir_wrap_in_domain [OF this] have d: "sint (truncate_i64 ty val) \<in> ir_domain T ty"
    by (simp add: w)
  have n: "ir_size T ty \<le> 8"
    using assms by auto
  have c: "push_le_bytes (from_i64 T val ty) (ir_size T ty) = take (ir_size T ty) (to_le_bytes 8 (truncate_i64 ty val))"
    using assms t n by auto
  have "take (ir_size T ty) (to_le_bytes 8 (truncate_i64 ty val)) = to_le_bytes (ir_size T ty) (truncate_i64 ty val)"
    by (rule take_to_le_bytes [OF n])
  moreover have "to_le_bytes (ir_size T ty) (truncate_i64 ty val) = to_le_bytes (ir_size T ty) val"
    by (rule to_le_bytes_eqI) (use assms in \<open>auto simp: bit_simps\<close>)
  ultimately show ?thesis
    using t w d c by simp
qed

theorem integer_constant_holds_conversion_witness:
  "\<exists>v. to_i64 (from_i64 \<lparr>target_ptr_size = 8, target_long_double_is_f128 = False\<rparr> 0x1FF U8) = Some v \<and> sint v = 255"
proof -
  let ?T = "\<lparr>target_ptr_size = 8, target_long_double_is_f128 = False\<rparr>"
  have "U8 \<in> {I8, U8, I16, U16, I32, U32, I64}"
    by simp
  from integer_constant_holds_conversion [OF this, where val = "0x1FF" and T = ?T]
  show ?thesis
    by (simp add: ir_wrap_def ir_width_def is_unsigned_def take_bit_eq_mod)
qed

subsection \<open>Masks\<close>

lemma low_mask_value: "(if n \<ge> 128 then - 1 else push_bit n 1 - 1 :: u128) = mask n"
  by (auto simp: mask_eq_exp_minus_1 push_bit_eq_mult not_less intro: bit_word_eqI simp: bit_simps bit_mask_iff dest: bit_imp_le_length)

text \<open>
  the mask constructor is exact at every integer type. The low bits of the constant, as many as the type has, are the mask of the requested length, or all
  ones when the request exceeds the type; no length wraps or truncates, 63, 64 and 128 included.
\<close>

theorem low_mask_exact:
  assumes "ty \<in> {I8, U8, I16, U16, I32, U32, I64, U64, I128, U128}"
  shows "\<exists>v. to_i128 (low_mask T ty bits) = Some v \<and> take_bit (ir_width T ty) v = mask (min bits (ir_width T ty))"
proof -
  have w: "ir_width T ty \<in> {8, 16, 32, 64, 128}"
    using assms by (auto simp: ir_width_def)
  let ?n = "min bits (ir_width T ty)"
  have width: "min (ir_size T ty * 8) 128 = ir_width T ty"
    using w by (auto simp: ir_width_def mult.commute)
  have m: "low_mask T ty bits = (case ty of I128 \<Rightarrow> CI128 (mask ?n) | U128 \<Rightarrow> CI128 (mask ?n) | _ \<Rightarrow> from_i64 T (ucast (mask ?n :: u128)) ty)"
    by (simp only: low_mask_def Let_def width low_mask_value)
  show ?thesis
    unfolding m using assms w
    by (auto simp: ir_width_def intro!: bit_word_eqI) (auto simp: bit_simps bit_mask_iff)
qed

theorem low_mask_exact_witness:
  "\<exists>v. to_i128 (low_mask \<lparr>target_ptr_size = 8, target_long_double_is_f128 = False\<rparr> U128 64) = Some v \<and> take_bit 128 v = mask 64"
proof -
  have "U128 \<in> {I8, U8, I16, U16, I32, U32, I64, U64, I128, U128}"
    by simp
  from low_mask_exact [OF this, of "\<lparr>target_ptr_size = 8, target_long_double_is_f128 = False\<rparr>" 64] show ?thesis
    by (simp add: ir_width_def)
qed

subsection \<open>Decimal constants\<close>

text \<open>
  the bytes of a decimal floating-point constant in an initialiser are zeros, whatever its value, although the constant's own serialisation gives its pattern.
\<close>

theorem push_le_bytes_loses_decimals:
  "push_le_bytes (CD32 a) 4 = replicate 4 0 \<and> push_le_bytes (CD64 b) 8 = replicate 8 0 \<and>
   const_to_le_bytes (CD32 a) = to_le_bytes 4 a \<and> const_to_le_bytes (CD64 b) = to_le_bytes 8 b"
  by (simp add: numeral_eq_Suc)

end
