(* ===== verification/PhiCopies.thy ===== *)
theory PhiCopies
  imports IrConstants "HOL-Library.Multiset"
begin

text \<open>
  Lowering of phi functions to copies, \<^verbatim>\<open>src/src/ir/mem2reg/phi_eliminate.rs\<close>: the plan that turns the parallel
  assignment of one edge into a sequence, the shared temporaries, and the place where the copies of an edge go.
  Value and block numbers are natural numbers. Of the instructions only the ones this pass looks into are spelt
  out; the others carry an opaque payload. The set of phi functions that need a temporary is visited by the code in
  the order of a hash table, which is an argument of the model. The environment variables that override the policy and the
  debugging output are left out.
\<close>

subsection \<open>Blocks\<close>

datatype Operand = Value nat | Const IrConst

datatype 'x Instruction =
    Phi nat IrType "(Operand \<times> nat) list"
  | BinOp nat IrBinOp Operand Operand IrType
  | InlineAsm "nat list"
  | Other 'x

datatype Terminator =
    Return "Operand option"
  | Branch nat
  | CondBranch Operand nat nat
  | IndirectBranch Operand "nat list"
  | Switch Operand "(i64 \<times> nat) list" nat IrType
  | Unreachable

record 'x BasicBlock =
  label :: nat
  instructions :: "'x Instruction list"
  terminator :: Terminator

definition insert_new :: "nat list \<Rightarrow> nat \<Rightarrow> nat list" where
  "insert_new seen l = (if l \<in> set seen then seen else seen @ [l])"

fun terminator_targets :: "Terminator \<Rightarrow> nat list" where
  "terminator_targets (Return _) = []"
| "terminator_targets Unreachable = []"
| "terminator_targets (Branch l) = [l]"
| "terminator_targets (CondBranch _ t f) = (if t \<noteq> f then [t, f] else [t])"
| "terminator_targets (IndirectBranch _ ts) = ts"
| "terminator_targets (Switch _ cases dflt _) = foldl insert_new [dflt] (map snd cases)"

fun goto_labels :: "'x Instruction \<Rightarrow> nat list" where
  "goto_labels (InlineAsm ls) = ls"
| "goto_labels _ = []"

definition block_successors :: "'x BasicBlock \<Rightarrow> nat list" where
  "block_successors block =
     foldl insert_new (terminator_targets (terminator block)) (concat (map goto_labels (instructions block)))"

definition successor_count :: "'x BasicBlock \<Rightarrow> nat" where
  "successor_count block = length (block_successors block)"

subsection \<open>Planning one edge\<close>

datatype CopyOrderPolicy = Legacy | Acyclic

text \<open>The destinations of an edge and the values they read; \<^const>\<open>None\<close> is a constant.\<close>

type_synonym edge_copies = "(nat \<times> nat option) list"

record EdgeCopyPlan =
  cyclic :: "nat list"
  ordered :: "nat list"

definition copy_order_policy :: "bool \<Rightarrow> CopyOrderPolicy" where
  "copy_order_policy narrow_gprs = (if narrow_gprs then Legacy else Acyclic)"

definition writer :: "edge_copies \<Rightarrow> nat \<Rightarrow> nat option" where
  "writer copies v = find (\<lambda>i. fst (copies ! i) = v) [0..<length copies]"

definition skippable :: "edge_copies \<Rightarrow> nat \<Rightarrow> bool" where
  "skippable copies i \<longleftrightarrow> snd (copies ! i) = Some (fst (copies ! i))"

definition preds :: "edge_copies \<Rightarrow> nat \<Rightarrow> nat list" where
  "preds copies j =
     filter (\<lambda>i. case snd (copies ! i) of
                   None \<Rightarrow> False
                 | Some src \<Rightarrow> src \<noteq> fst (copies ! i) \<and> writer copies src = Some j \<and> j \<noteq> i)
       [0..<length copies]"

definition ready :: "edge_copies \<Rightarrow> nat list \<Rightarrow> nat \<Rightarrow> bool" where
  "ready copies ord i \<longleftrightarrow> list_all (\<lambda>p. p \<in> set ord \<or> skippable copies p) (preds copies i)"

definition deferred :: "edge_copies \<Rightarrow> nat list list \<Rightarrow> nat list \<Rightarrow> nat list \<Rightarrow> nat \<Rightarrow> bool" where
  "deferred copies guards remaining ord i \<longleftrightarrow>
     ready copies ord i \<and>
     list_ex (\<lambda>k. k \<noteq> i \<and> k \<notin> set ord \<and> \<not> skippable copies k \<and> fst (copies ! i) \<in> set (guards ! k)) remaining"

text \<open>
  One scan over the remaining copies; a copy is emitted exactly when it is in the order so far. The result is the order and
  the blocked copies.
\<close>

fun scan_round :: "edge_copies \<Rightarrow> nat list list \<Rightarrow> nat list \<Rightarrow> nat list \<Rightarrow> nat list \<Rightarrow> nat list \<times> nat list" where
  "scan_round copies guards remaining [] ord = (ord, [])"
| "scan_round copies guards remaining (i # todo) ord =
     (if ready copies ord i \<and> \<not> deferred copies guards remaining ord i
      then scan_round copies guards remaining todo (ord @ [i])
      else let (ord', blocked) = scan_round copies guards remaining todo ord in (ord', i # blocked))"

fun scan_starved :: "edge_copies \<Rightarrow> nat list \<Rightarrow> nat list \<Rightarrow> nat list" where
  "scan_starved copies [] ord = ord"
| "scan_starved copies (i # blocked) ord = scan_starved copies blocked (if ready copies ord i then ord @ [i] else ord)"

definition plan_round :: "edge_copies \<Rightarrow> nat list list \<Rightarrow> nat list \<Rightarrow> nat list \<Rightarrow> nat list \<times> nat list" where
  "plan_round copies guards remaining ord =
     (let (ord', blocked) = scan_round copies guards remaining remaining ord;
          ord'' = (if ord' = ord then scan_starved copies blocked ord' else ord')
      in (ord'', filter (\<lambda>i. i \<notin> set ord'') blocked))"

lemma scan_round_shape:
  "scan_round copies guards remaining todo ord = (ord', blocked) \<Longrightarrow>
     \<exists>new. ord' = ord @ new \<and> mset todo = mset new + mset blocked"
proof (induction copies guards remaining todo ord arbitrary: ord' blocked rule: scan_round.induct)
  case (2 copies guards remaining i todo ord)
  show ?case
  proof (cases "ready copies ord i \<and> \<not> deferred copies guards remaining ord i")
    case True
    then show ?thesis
      using 2(1) [OF True] 2(3) by fastforce
  next
    case False
    obtain o1 b where r: "scan_round copies guards remaining todo ord = (o1, b)"
      by fastforce
    then have "ord' = o1" "blocked = i # b"
      using 2(3) False by auto
    then show ?thesis
      using 2(2) [OF False r] by auto
  qed
qed simp

lemma scan_starved_shape:
  "\<exists>new. scan_starved copies blocked ord = ord @ new \<and> set new \<subseteq> set blocked"
proof (induction copies blocked ord rule: scan_starved.induct)
  case (2 copies i blocked ord)
  then show ?case
    by (cases "ready copies ord i") auto
qed simp

lemma plan_round_shrinks:
  assumes "plan_round copies guards remaining ord = (ord', remaining')" and "ord' \<noteq> ord"
  shows "length remaining' < length remaining"
proof -
  obtain o1 blocked where s: "scan_round copies guards remaining remaining ord = (o1, blocked)"
    by fastforce
  obtain new where new: "o1 = ord @ new" "mset remaining = mset new + mset blocked"
    using scan_round_shape [OF s] by blast
  then have len: "length remaining = length new + length blocked"
    by (metis size_mset size_union)
  show ?thesis
  proof (cases "new = []")
    case False
    then have "remaining' = filter (\<lambda>i. i \<notin> set ord') blocked"
      using assms(1) s new(1) by (auto simp: plan_round_def Let_def)
    then have "length remaining' \<le> length blocked"
      by simp
    moreover have "length new > 0"
      using False by simp
    ultimately show ?thesis
      using len by linarith
  next
    case True
    then have r: "ord' = scan_starved copies blocked ord" "remaining' = filter (\<lambda>i. i \<notin> set ord') blocked"
      using assms(1) s new(1) by (auto simp: plan_round_def Let_def)
    obtain new2 where n2: "scan_starved copies blocked ord = ord @ new2" "set new2 \<subseteq> set blocked"
      using scan_starved_shape by blast
    with r(1) assms(2) have "new2 \<noteq> []"
      by auto
    then obtain i where "i \<in> set blocked" "i \<in> set ord'"
      using n2 r(1) by (metis hd_in_set in_mono set_append Un_iff)
    then have "length remaining' < length blocked"
      unfolding r(2) by (intro length_filter_less) auto
    then show ?thesis
      using len by linarith
  qed
qed

function plan_loop :: "edge_copies \<Rightarrow> nat list list \<Rightarrow> nat list \<Rightarrow> nat list \<Rightarrow> nat list \<times> nat list" where
  "plan_loop copies guards remaining ord =
     (let (ord', remaining') = plan_round copies guards remaining ord
      in if ord' = ord then (ord', remaining') else plan_loop copies guards remaining' ord')"
  by auto
termination
  by (relation "measure (\<lambda>(_, _, remaining, _). length remaining)") (auto dest: plan_round_shrinks [OF sym])

declare plan_loop.simps [simp del]

definition plan_edge_copies_acyclic_guards :: "edge_copies \<Rightarrow> nat list list \<Rightarrow> EdgeCopyPlan" where
  "plan_edge_copies_acyclic_guards copies guards =
     (let (ord, remaining) = plan_loop copies guards (filter (\<lambda>i. \<not> skippable copies i) [0..<length copies]) []
      in \<lparr>cyclic = remaining, ordered = ord\<rparr>)"

definition legacy_conflicts :: "edge_copies \<Rightarrow> nat list" where
  "legacy_conflicts copies =
     filter (\<lambda>i. case snd (copies ! i) of
                   None \<Rightarrow> False
                 | Some src \<Rightarrow> src \<noteq> fst (copies ! i) \<and> src \<in> set (map fst copies))
       [0..<length copies]"

definition plan_edge_copies_legacy :: "edge_copies \<Rightarrow> EdgeCopyPlan" where
  "plan_edge_copies_legacy copies =
     (let needs_temp = legacy_conflicts copies;
          conflicting_sources = List.map_filter (\<lambda>i. snd (copies ! i)) needs_temp;
          needs_temp = needs_temp @
            (if needs_temp = [] then []
             else filter (\<lambda>j. fst (copies ! j) \<in> set conflicting_sources \<and> j \<notin> set needs_temp) [0..<length copies])
      in \<lparr>cyclic = needs_temp, ordered = filter (\<lambda>i. i \<notin> set needs_temp) [0..<length copies]\<rparr>)"

definition plan_edge_copies_guards :: "edge_copies \<Rightarrow> nat list list \<Rightarrow> CopyOrderPolicy \<Rightarrow> EdgeCopyPlan" where
  "plan_edge_copies_guards copies guards policy =
     (case policy of
        Acyclic \<Rightarrow> plan_edge_copies_acyclic_guards copies guards
      | Legacy \<Rightarrow> plan_edge_copies_legacy copies)"

subsection \<open>The copies of one block\<close>

record PhiInfo =
  dest :: nat
  incoming :: "(Operand \<times> nat) list"

text \<open>A copy instruction is its destination and its source.\<close>

type_synonym copy = "nat \<times> Operand"

fun phi_info :: "'x Instruction \<Rightarrow> PhiInfo option" where
  "phi_info (Phi d _ inc) = Some \<lparr>dest = d, incoming = inc\<rparr>"
| "phi_info _ = None"

definition collect_block_phis :: "'x BasicBlock list \<Rightarrow> PhiInfo list list" where
  "collect_block_phis blocks = map (\<lambda>block. List.map_filter phi_info (instructions block)) blocks"

definition phi_src :: "PhiInfo \<Rightarrow> nat \<Rightarrow> Operand option" where
  "phi_src phi pred_label = map_of (rev (map (\<lambda>(src, pl). (pl, src)) (incoming phi))) pred_label"

definition edge_copies_info :: "PhiInfo list \<Rightarrow> nat \<Rightarrow> edge_copies" where
  "edge_copies_info phis pred_label =
     map (\<lambda>phi. (dest phi, case phi_src phi pred_label of Some (Value v) \<Rightarrow> Some v | _ \<Rightarrow> None)) phis"

definition is_pure_sinking_op :: "IrBinOp \<Rightarrow> bool" where
  "is_pure_sinking_op op \<longleftrightarrow>
     op \<in> {IrBinOp.Add, IrBinOp.Sub, IrBinOp.Mul, IrBinOp.And, IrBinOp.Or, IrBinOp.Xor, IrBinOp.Shl, IrBinOp.AShr,
            IrBinOp.LShr, IrBinOp.BitTest, IrBinOp.RotateLeft, IrBinOp.RotateRight}"

fun operand_values :: "Operand \<Rightarrow> nat list" where
  "operand_values (Value x) = [x]"
| "operand_values (Const _) = []"

fun computed_operands :: "nat \<Rightarrow> 'x Instruction \<Rightarrow> nat list option" where
  "computed_operands v (BinOp dv op lhs rhs _) =
     (if dv = v \<and> is_pure_sinking_op op then Some (operand_values lhs @ operand_values rhs) else None)"
| "computed_operands v _ = None"

fun computed_source_operands :: "'x Instruction list \<Rightarrow> nat \<Rightarrow> nat list option" where
  "computed_source_operands [] v = None"
| "computed_source_operands (inst # insts) v =
     (case computed_operands v inst of Some ops \<Rightarrow> Some ops | None \<Rightarrow> computed_source_operands insts v)"

definition edge_guards :: "'x BasicBlock \<Rightarrow> edge_copies \<Rightarrow> nat list list" where
  "edge_guards pred copies_info =
     map (\<lambda>(_, src). case src of
                        None \<Rightarrow> []
                      | Some v \<Rightarrow> (case computed_source_operands (instructions pred) v of Some ops \<Rightarrow> ops | None \<Rightarrow> []))
       copies_info"

definition label_index :: "'x BasicBlock list \<Rightarrow> nat \<Rightarrow> nat option" where
  "label_index blocks l = map_of (rev (zip (map label blocks) [0..<length blocks])) l"

definition plan_all_edges ::
  "PhiInfo list \<Rightarrow> nat list \<Rightarrow> 'x BasicBlock list \<Rightarrow> CopyOrderPolicy \<Rightarrow> (nat \<times> EdgeCopyPlan) list" where
  "plan_all_edges phis pred_labels blocks policy =
     List.map_filter
       (\<lambda>pred_label. case label_index blocks pred_label of
            None \<Rightarrow> None
          | Some pred_idx \<Rightarrow>
              (let copies_info = edge_copies_info phis pred_label
               in Some (pred_label,
                        plan_edge_copies_guards copies_info (edge_guards (blocks ! pred_idx) copies_info) policy)))
       pred_labels"

definition build_edge_copies :: "PhiInfo list \<Rightarrow> nat option list \<Rightarrow> nat \<Rightarrow> nat list \<Rightarrow> copy list" where
  "build_edge_copies phis phi_temps pred_label order =
     List.map_filter
       (\<lambda>i. case phi_temps ! i of
              None \<Rightarrow> None
            | Some tmp \<Rightarrow> map_option (Pair tmp) (phi_src (phis ! i) pred_label))
       [0..<length phis] @
     List.map_filter
       (\<lambda>i. if phi_temps ! i \<noteq> None then None
            else case phi_src (phis ! i) pred_label of
                   None \<Rightarrow> None
                 | Some src \<Rightarrow> if src = Value (dest (phis ! i)) then None else Some (dest (phis ! i), src))
       order"

subsection \<open>Placement\<close>

record TrampolineBlock =
  tramp_label :: nat
  copies :: "copy list"
  branch_target :: nat
  pred_idx :: nat
  old_target :: nat

record PhiElimCtx =
  label_to_idx :: "nat \<Rightarrow> nat option"
  multi_succ :: "bool list"
  is_indirect_branch :: "bool list"
  pred_copies :: "nat \<Rightarrow> copy list option"
  self_loop_copies :: "copy list list"
  target_copies :: "copy list list"
  trampolines :: "TrampolineBlock list"
  trampoline_map :: "nat \<times> nat \<Rightarrow> nat option"
  next_block_id :: nat
  next_value :: nat
  copy_order :: CopyOrderPolicy

datatype CopyPlacement = Predecessor | SelfLoop | Trampoline

definition classify_placement :: "PhiElimCtx \<Rightarrow> nat \<Rightarrow> nat \<Rightarrow> CopyPlacement" where
  "classify_placement ctx p target =
     (if \<not> multi_succ ctx ! p \<or> is_indirect_branch ctx ! p then Predecessor
      else if label_to_idx ctx target = Some p then SelfLoop else Trampoline)"

definition get_or_create_trampoline :: "PhiElimCtx \<Rightarrow> nat \<Rightarrow> nat \<Rightarrow> PhiElimCtx \<times> nat" where
  "get_or_create_trampoline ctx p target =
     (case trampoline_map ctx (p, target) of
        Some idx \<Rightarrow> (ctx, idx)
      | None \<Rightarrow>
          (let idx = length (trampolines ctx)
           in (ctx\<lparr>next_block_id := next_block_id ctx + 1,
                   trampolines := trampolines ctx @
                     [\<lparr>tramp_label = next_block_id ctx, copies = [], branch_target = target, pred_idx = p,
                        old_target = target\<rparr>],
                   trampoline_map := (trampoline_map ctx)((p, target) \<mapsto> idx)\<rparr>, idx)))"

definition place_copies :: "PhiElimCtx \<Rightarrow> nat \<Rightarrow> nat \<Rightarrow> copy list \<Rightarrow> PhiElimCtx" where
  "place_copies ctx p target cs =
     (if cs = [] then ctx
      else case classify_placement ctx p target of
             Predecessor \<Rightarrow>
               ctx\<lparr>pred_copies := (pred_copies ctx)(p \<mapsto> (case pred_copies ctx p of None \<Rightarrow> [] | Some old \<Rightarrow> old) @ cs)\<rparr>
           | SelfLoop \<Rightarrow> ctx\<lparr>self_loop_copies := (self_loop_copies ctx)[p := self_loop_copies ctx ! p @ cs]\<rparr>
           | Trampoline \<Rightarrow>
               (let (ctx, t) = get_or_create_trampoline ctx p target
                in ctx\<lparr>trampolines := (trampolines ctx)[t := (trampolines ctx ! t)\<lparr>copies := copies (trampolines ctx ! t) @ cs\<rparr>]\<rparr>))"

definition place_copy :: "PhiElimCtx \<Rightarrow> nat \<Rightarrow> nat \<Rightarrow> copy \<Rightarrow> PhiElimCtx" where
  "place_copy ctx p target c = place_copies ctx p target [c]"

fun emit_single_incoming :: "PhiInfo \<Rightarrow> nat \<Rightarrow> (Operand \<times> nat) list \<Rightarrow> PhiElimCtx \<Rightarrow> PhiElimCtx" where
  "emit_single_incoming phi target [] ctx = ctx"
| "emit_single_incoming phi target ((src, pred_label) # inc) ctx =
     emit_single_incoming phi target inc
       (case label_to_idx ctx pred_label of
          None \<Rightarrow> ctx
        | Some p \<Rightarrow> if src = Value (dest phi) then ctx else place_copy ctx p target (dest phi, src))"

definition emit_single_phi_copies :: "PhiInfo \<Rightarrow> nat \<Rightarrow> PhiElimCtx \<Rightarrow> PhiElimCtx" where
  "emit_single_phi_copies phi target ctx = emit_single_incoming phi target (incoming phi) ctx"

fun allocate_temps :: "nat list \<Rightarrow> nat option list \<Rightarrow> nat \<Rightarrow> nat option list \<times> nat" where
  "allocate_temps [] temps nv = (temps, nv)"
| "allocate_temps (i # order) temps nv = allocate_temps order (temps[i := Some nv]) (nv + 1)"

definition temp_restores :: "PhiInfo list \<Rightarrow> nat option list \<Rightarrow> copy list" where
  "temp_restores phis phi_temps =
     List.map_filter (\<lambda>i. map_option (\<lambda>tmp. (dest (phis ! i), Value tmp)) (phi_temps ! i)) [0..<length phis]"

fun place_edges :: "PhiInfo list \<Rightarrow> nat option list \<Rightarrow> nat \<Rightarrow> (nat \<times> EdgeCopyPlan) list \<Rightarrow> PhiElimCtx \<Rightarrow> PhiElimCtx" where
  "place_edges phis phi_temps target [] ctx = ctx"
| "place_edges phis phi_temps target ((pred_label, plan) # plans) ctx =
     place_edges phis phi_temps target plans
       (case label_to_idx ctx pred_label of
          None \<Rightarrow> ctx
        | Some p \<Rightarrow> place_copies ctx p target (build_edge_copies phis phi_temps pred_label (ordered plan)))"

definition pred_label_list :: "PhiInfo list \<Rightarrow> nat list" where
  "pred_label_list phis = foldl insert_new [] (concat (map (\<lambda>phi. map snd (incoming phi)) phis))"

definition emit_multi_phi_copies ::
  "(nat list \<Rightarrow> nat list) \<Rightarrow> PhiInfo list \<Rightarrow> nat \<Rightarrow> nat \<Rightarrow> 'x BasicBlock list \<Rightarrow> PhiElimCtx \<Rightarrow> PhiElimCtx" where
  "emit_multi_phi_copies hash_order phis block_idx target blocks ctx =
     (let edge_plans = plan_all_edges phis (pred_label_list phis) blocks (copy_order ctx);
          globally_needs_temp = foldl insert_new [] (concat (map (cyclic \<circ> snd) edge_plans));
          (phi_temps, nv) = allocate_temps (hash_order globally_needs_temp) (replicate (length phis) None) (next_value ctx);
          ctx = ctx\<lparr>next_value := nv,
                    target_copies := (target_copies ctx)[block_idx := target_copies ctx ! block_idx @ temp_restores phis phi_temps]\<rparr>
      in place_edges phis phi_temps target edge_plans ctx)"

definition initial_ctx :: "CopyOrderPolicy \<Rightarrow> 'x BasicBlock list \<Rightarrow> nat \<Rightarrow> nat \<Rightarrow> PhiElimCtx" where
  "initial_ctx policy blocks nb nv =
     \<lparr>label_to_idx = label_index blocks,
      multi_succ = map (\<lambda>b. successor_count b > 1) blocks,
      is_indirect_branch = map (\<lambda>b. case terminator b of IndirectBranch _ _ \<Rightarrow> True | _ \<Rightarrow> False) blocks,
      pred_copies = (\<lambda>_. None),
      self_loop_copies = replicate (length blocks) [],
      target_copies = replicate (length blocks) [],
      trampolines = [],
      trampoline_map = (\<lambda>_. None),
      next_block_id = nb,
      next_value = nv,
      copy_order = policy\<rparr>"

definition emit_block_phis ::
  "(nat list \<Rightarrow> nat list) \<Rightarrow> 'x BasicBlock list \<Rightarrow> PhiElimCtx \<Rightarrow> nat \<Rightarrow> PhiElimCtx" where
  "emit_block_phis hash_order blocks ctx block_idx =
     (let phis = collect_block_phis blocks ! block_idx;
          target = label (blocks ! block_idx)
      in if phis = [] then ctx
         else if length phis = 1 then emit_single_phi_copies (phis ! 0) target ctx
         else emit_multi_phi_copies hash_order phis block_idx target blocks ctx)"

definition place_phi_copies ::
  "(nat list \<Rightarrow> nat list) \<Rightarrow> CopyOrderPolicy \<Rightarrow> 'x BasicBlock list \<Rightarrow> nat \<Rightarrow> nat \<Rightarrow> PhiElimCtx" where
  "place_phi_copies hash_order policy blocks nb nv =
     foldl (emit_block_phis hash_order blocks) (initial_ctx policy blocks nb nv) [0..<length blocks]"

end
