(* ===== verification/PhiParallel.thy ===== *)
theory PhiParallel
  imports PhiCopies
begin

text \<open>
  The copies of an edge carry out the parallel assignment of the phi functions: first for one sequence of copies, then for
  the plans of both policies, then for the copies as they are placed on the edges of a function.
\<close>

subsection \<open>Sequences of copies\<close>

fun eval_operand :: "(IrConst \<Rightarrow> 'v) \<Rightarrow> Operand \<Rightarrow> (nat \<Rightarrow> 'v) \<Rightarrow> 'v" where
  "eval_operand konst (Value v) s = s v"
| "eval_operand konst (Const c) s = konst c"

fun exec_copies :: "(IrConst \<Rightarrow> 'v) \<Rightarrow> copy list \<Rightarrow> (nat \<Rightarrow> 'v) \<Rightarrow> nat \<Rightarrow> 'v" where
  "exec_copies konst [] s = s"
| "exec_copies konst ((d, src) # cs) s = exec_copies konst cs (s(d := eval_operand konst src s))"

lemma exec_copies_append: "exec_copies konst (cs @ ds) s = exec_copies konst ds (exec_copies konst cs s)"
  by (induction cs arbitrary: s) (auto split: prod.splits)

lemma eval_operand_other: "src \<noteq> Value d \<Longrightarrow> eval_operand konst src (s(d := x)) = eval_operand konst src s"
  by (cases src) auto

text \<open>No copy reads what an earlier one wrote.\<close>

definition reads_first :: "copy list \<Rightarrow> bool" where
  "reads_first cs \<longleftrightarrow> sorted_wrt (\<lambda>c c'. snd c' \<noteq> Value (fst c)) cs"

lemma exec_copies_parallel:
  assumes "reads_first cs" and "distinct (map fst cs)"
  shows "exec_copies konst cs s v = (case map_of cs v of Some src \<Rightarrow> eval_operand konst src s | None \<Rightarrow> s v)"
  using assms
proof (induction cs arbitrary: s)
  case (Cons c cs)
  obtain d src where c: "c = (d, src)"
    by fastforce
  have ih: "exec_copies konst cs (s(d := eval_operand konst src s)) v =
      (case map_of cs v of Some src' \<Rightarrow> eval_operand konst src' (s(d := eval_operand konst src s))
       | None \<Rightarrow> (s(d := eval_operand konst src s)) v)"
    using Cons by (auto simp: reads_first_def c)
  have "src' \<noteq> Value d" if "map_of cs v = Some src'" for src'
    using that Cons.prems(1) by (auto simp: reads_first_def c dest!: map_of_SomeD)
  moreover have "map_of cs d = None"
    using Cons.prems(2) by (simp add: map_of_eq_None_iff c)
  ultimately show ?case
    using ih by (auto simp: eval_operand_other c split: option.splits)
qed simp

lemma reads_first_append:
  "reads_first (cs @ ds) \<longleftrightarrow>
     reads_first cs \<and> reads_first ds \<and> (\<forall>c \<in> set cs. \<forall>c' \<in> set ds. snd c' \<noteq> Value (fst c))"
  by (simp add: reads_first_def sorted_wrt_append)

lemma distinct_sorted_wrt: "distinct xs \<longleftrightarrow> sorted_wrt (\<lambda>x y. x \<noteq> y) xs"
  by (induction xs) auto

lemma map_filter_sorted_wrt:
  assumes "sorted_wrt P xs"
    and "\<And>x y a b. x \<in> set xs \<Longrightarrow> y \<in> set xs \<Longrightarrow> P x y \<Longrightarrow> f x = Some a \<Longrightarrow> f y = Some b \<Longrightarrow> Q a b"
  shows "sorted_wrt Q (List.map_filter f xs)"
  using assms
proof (induction xs)
  case (Cons x xs)
  have "sorted_wrt Q (List.map_filter f xs)"
  proof (rule Cons.IH)
    show "sorted_wrt P xs"
      using Cons.prems(1) by simp
    show "Q a b" if "x' \<in> set xs" "y \<in> set xs" "P x' y" "f x' = Some a" "f y = Some b" for x' y a b
      using Cons.prems(2) [of x' y a b] that by simp
  qed
  moreover have "Q a b" if fx: "f x = Some a" and b: "b \<in> set (List.map_filter f xs)" for a b
  proof -
    obtain y where "y \<in> set xs" "f y = Some b"
      using b by (force simp: map_filter_def)
    then show ?thesis
      using Cons.prems(1) Cons.prems(2) [of x y a b] fx by auto
  qed
  ultimately show ?case
    by (auto simp: map_filter_simps split: option.splits)
qed (simp add: map_filter_simps)

lemma set_map_filter: "set (List.map_filter f xs) = {y. \<exists>x \<in> set xs. f x = Some y}"
  by (force simp: map_filter_def)

lemma distinct_map_filter:
  assumes "distinct xs" and "\<And>x y a b. x \<in> set xs \<Longrightarrow> y \<in> set xs \<Longrightarrow> x \<noteq> y \<Longrightarrow> f x = Some a \<Longrightarrow> f y = Some b \<Longrightarrow> g a \<noteq> g b"
  shows "distinct (map g (List.map_filter f xs))"
proof -
  have "sorted_wrt (\<lambda>a b. g a \<noteq> g b) (List.map_filter f xs)"
    using assms by (intro map_filter_sorted_wrt [where P = "\<lambda>x y. x \<noteq> y"]) (auto simp: distinct_sorted_wrt)
  then show ?thesis
    by (simp add: distinct_sorted_wrt sorted_wrt_map)
qed

subsection \<open>The plans\<close>

lemma find_distinct_dest:
  assumes "distinct (map fst cs)" and "j < length cs"
  shows "writer cs (fst (cs ! j)) = Some j"
proof -
  have uniq: "i = j" if "i < length cs" "fst (cs ! i) = fst (cs ! j)" for i
    using that assms by (metis length_map nth_eq_iff_index_eq nth_map)
  obtain i where "writer cs (fst (cs ! j)) = Some i"
    using assms(2) by (fastforce simp: writer_def find_None_iff)
  moreover from this have "i < length cs" "fst (cs ! i) = fst (cs ! j)"
    by (auto simp: writer_def find_Some_iff)
  ultimately show ?thesis
    using uniq by simp
qed

lemma preds_iff:
  assumes "distinct (map fst cs)" and "j < length cs"
  shows "i \<in> set (preds cs j) \<longleftrightarrow> i < length cs \<and> i \<noteq> j \<and> snd (cs ! i) = Some (fst (cs ! j))"
proof -
  have "writer cs v = Some j \<longleftrightarrow> v = fst (cs ! j)" for v
  proof
    assume "writer cs v = Some j"
    then show "v = fst (cs ! j)"
      by (auto simp: writer_def find_Some_iff)
  qed (simp add: find_distinct_dest assms)
  moreover have "snd (cs ! i) = Some (fst (cs ! j)) \<Longrightarrow> i < length cs \<Longrightarrow> i \<noteq> j \<Longrightarrow> fst (cs ! j) \<noteq> fst (cs ! i)"
    using assms by (metis length_map nth_eq_iff_index_eq nth_map)
  ultimately show ?thesis
    by (auto simp: preds_def split: option.splits)
qed

lemma preds_not_skippable: "p \<in> set (preds cs i) \<Longrightarrow> \<not> skippable cs p"
  by (auto simp: preds_def skippable_def split: option.splits)

lemma ready_iff: "ready cs ord i \<longleftrightarrow> set (preds cs i) \<subseteq> set ord"
  by (auto simp: ready_def list_all_iff dest: preds_not_skippable)

text \<open>An order in which the prerequisites of a copy precede it.\<close>

inductive topological :: "edge_copies \<Rightarrow> nat list \<Rightarrow> bool" for cs where
  topological_Nil: "topological cs []"
| topological_snoc: "topological cs ord \<Longrightarrow> set (preds cs i) \<subseteq> set ord \<Longrightarrow> i \<notin> set ord \<Longrightarrow> topological cs (ord @ [i])"

lemma topological_distinct: "topological cs ord \<Longrightarrow> distinct ord"
  by (induction rule: topological.induct) auto

lemma topological_closed: "topological cs ord \<Longrightarrow> i \<in> set ord \<Longrightarrow> set (preds cs i) \<subseteq> set ord"
  by (induction rule: topological.induct) auto

lemma topological_sorted: "topological cs ord \<Longrightarrow> sorted_wrt (\<lambda>a b. b \<notin> set (preds cs a)) ord"
proof (induction rule: topological.induct)
  case (topological_snoc ord i)
  then show ?case
    using topological_closed by (fastforce simp: sorted_wrt_append)
qed simp

lemma topological_append:
  "topological cs ord \<Longrightarrow> ready cs ord i \<Longrightarrow> i \<notin> set ord \<Longrightarrow> topological cs (ord @ [i])"
  by (simp add: ready_iff topological_snoc)

lemma scan_round_topological:
  assumes "scan_round cs guards remaining todo ord = (ord', blocked)" and "topological cs ord"
    and "distinct todo" and "set todo \<inter> set ord = {}"
  shows "topological cs ord'" and "set ord' \<inter> set blocked = {}" and "distinct blocked"
    and "set ord' \<union> set blocked = set ord \<union> set todo"
    and "ord' = ord \<Longrightarrow> blocked = todo"
  using assms
proof (atomize (full), induction cs guards remaining todo ord arbitrary: ord' blocked rule: scan_round.induct)
  case (2 cs guards remaining i todo ord)
  show ?case
  proof (cases "ready cs ord i \<and> \<not> deferred cs guards remaining ord i")
    case True
    then have t: "topological cs (ord @ [i])"
      using 2(4,6) by (simp add: topological_append)
    have r: "scan_round cs guards remaining todo (ord @ [i]) = (ord', blocked)"
      using 2(3) True by simp
    obtain new where "ord' = (ord @ [i]) @ new"
      using scan_round_shape [OF r] by blast
    then show ?thesis
      using 2(1) [OF True r t] 2(5,6) by auto
  next
    case False
    obtain o1 b where r: "scan_round cs guards remaining todo ord = (o1, b)"
      by fastforce
    then have "ord' = o1" "blocked = i # b"
      using 2(3) False by auto
    then show ?thesis
      using 2(2) [OF False r] 2(4,5,6) by auto
  qed
qed auto

lemma scan_starved_topological:
  assumes "topological cs ord" and "distinct blocked" and "set blocked \<inter> set ord = {}"
  shows "topological cs (scan_starved cs blocked ord)"
    and "set (scan_starved cs blocked ord) \<subseteq> set ord \<union> set blocked"
    and "scan_starved cs blocked ord = ord \<Longrightarrow> \<forall>i \<in> set blocked. \<not> ready cs ord i"
  using assms
proof (atomize (full), induction cs blocked ord rule: scan_starved.induct)
  case (2 cs i blocked ord)
  show ?case
  proof (cases "ready cs ord i")
    case True
    then have "topological cs (ord @ [i])"
      using 2(2,4) by (simp add: topological_append)
    moreover obtain new where "scan_starved cs blocked (ord @ [i]) = (ord @ [i]) @ new"
      using scan_starved_shape by blast
    ultimately show ?thesis
      using 2 True by auto
  next
    case False
    then show ?thesis
      using 2 by auto
  qed
qed auto

lemma plan_round_topological:
  assumes "plan_round cs guards remaining ord = (ord', remaining')" and "topological cs ord"
    and "distinct remaining" and "set remaining \<inter> set ord = {}"
  shows "topological cs ord'" and "set remaining' \<inter> set ord' = {}" and "distinct remaining'"
    and "set ord' \<union> set remaining' = set ord \<union> set remaining"
    and "ord' = ord \<Longrightarrow> \<forall>i \<in> set remaining'. \<not> ready cs ord' i"
proof -
  obtain o1 blocked where s: "scan_round cs guards remaining remaining ord = (o1, blocked)"
    by fastforce
  note t = scan_round_topological [OF s assms(2-4)]
  note u = scan_starved_topological [OF t(1,3)]
  have r: "ord' = (if o1 = ord then scan_starved cs blocked o1 else o1)" "remaining' = filter (\<lambda>i. i \<notin> set ord') blocked"
    using assms(1) s by (auto simp: plan_round_def Let_def)
  have d: "set blocked \<inter> set o1 = {}"
    using t(2) by blast
  obtain new where n: "scan_starved cs blocked o1 = o1 @ new"
    using scan_starved_shape by blast
  show "topological cs ord'"
    using t(1) u(1) [OF d] by (cases "o1 = ord") (simp_all add: r(1))
  show "set remaining' \<inter> set ord' = {}" "distinct remaining'"
    using t(3) by (auto simp: r(2))
  have "set o1 \<subseteq> set ord'" "set ord' \<subseteq> set o1 \<union> set blocked"
    unfolding r(1) using u(2) [OF d] n by auto
  then show "set ord' \<union> set remaining' = set ord \<union> set remaining"
    using t(4) by (auto simp: r(2))
  show "\<forall>i \<in> set remaining'. \<not> ready cs ord' i" if "ord' = ord"
  proof -
    obtain new1 where "o1 = ord @ new1"
      using scan_round_shape [OF s] by blast
    then have "o1 = ord"
      using that n by (auto simp: r(1) split: if_splits)
    then show ?thesis
      using u(3) [OF d] that by (auto simp: r)
  qed
qed

lemma plan_loop_topological:
  assumes "plan_loop cs guards remaining ord = (ord', remaining')" and "topological cs ord"
    and "distinct remaining" and "set remaining \<inter> set ord = {}"
  shows "topological cs ord' \<and> set ord' \<union> set remaining' = set ord \<union> set remaining \<and> set remaining' \<inter> set ord' = {} \<and>
    distinct remaining' \<and> (\<forall>i \<in> set remaining'. \<not> ready cs ord' i)"
  using assms
proof (induction cs guards remaining ord rule: plan_loop.induct)
  case (1 cs guards remaining ord)
  obtain o1 r1 where s: "plan_round cs guards remaining ord = (o1, r1)"
    by fastforce
  note t = plan_round_topological [OF s 1(3-5)]
  show ?case
  proof (cases "o1 = ord")
    case True
    then show ?thesis
      using t 1(2) s by (auto simp: plan_loop.simps [of cs guards remaining ord])
  next
    case False
    then show ?thesis
      using 1(1) [OF s [symmetric] refl False] 1(2) s t by (simp add: plan_loop.simps [of cs guards remaining ord])
  qed
qed

lemma acyclic_plan:
  fixes cs guards
  defines "plan \<equiv> plan_edge_copies_acyclic_guards cs guards"
  shows "topological cs (ordered plan)"
    and "set (ordered plan) \<union> set (cyclic plan) = {i. i < length cs \<and> \<not> skippable cs i}"
    and "\<forall>i \<in> set (cyclic plan). \<exists>p \<in> set (preds cs i). p \<in> set (cyclic plan)"
    and "set (ordered plan) \<inter> set (cyclic plan) = {}"
proof -
  let ?rem = "filter (\<lambda>i. \<not> skippable cs i) [0..<length cs]"
  obtain ord remaining where l: "plan_loop cs guards ?rem [] = (ord, remaining)"
    by fastforce
  then have p: "ordered plan = ord" "cyclic plan = remaining"
    by (auto simp: plan_def plan_edge_copies_acyclic_guards_def)
  note t = plan_loop_topological [OF l topological_Nil]
  show "topological cs (ordered plan)" "set (ordered plan) \<union> set (cyclic plan) = {i. i < length cs \<and> \<not> skippable cs i}"
    "set (ordered plan) \<inter> set (cyclic plan) = {}"
    using t by (auto simp: p)
  show "\<forall>i \<in> set (cyclic plan). \<exists>p \<in> set (preds cs i). p \<in> set (cyclic plan)"
  proof
    fix i
    assume i: "i \<in> set (cyclic plan)"
    then have "\<not> set (preds cs i) \<subseteq> set ord"
      using t by (auto simp: p ready_iff)
    then obtain q where q: "q \<in> set (preds cs i)" "q \<notin> set ord"
      by blast
    moreover have "q < length cs" "\<not> skippable cs q"
      using q(1) preds_not_skippable by (auto simp: preds_def)
    ultimately show "\<exists>p \<in> set (preds cs i). p \<in> set (cyclic plan)"
      using t by (auto simp: p)
  qed
qed

lemma legacy_conflicts_iff:
  "i \<in> set (legacy_conflicts cs) \<longleftrightarrow>
     i < length cs \<and> (\<exists>src. snd (cs ! i) = Some src \<and> src \<noteq> fst (cs ! i) \<and> src \<in> fst ` set cs)"
  by (cases "snd (cs ! i)") (auto simp: legacy_conflicts_def simp del: image_iff)

lemma legacy_plan:
  fixes cs
  defines "plan \<equiv> plan_edge_copies_legacy cs"
  shows "set (ordered plan) \<union> set (cyclic plan) = {i. i < length cs}" and "distinct (ordered plan)"
    and "\<forall>i \<in> set (ordered plan). \<forall>src. snd (cs ! i) = Some src \<longrightarrow> src = fst (cs ! i) \<or> src \<notin> fst ` set cs"
proof -
  have o: "ordered plan = filter (\<lambda>i. i \<notin> set (cyclic plan)) [0..<length cs]"
    by (simp add: plan_def plan_edge_copies_legacy_def Let_def)
  obtain extra where "cyclic plan = legacy_conflicts cs @ extra" "set extra \<subseteq> {i. i < length cs}"
    by (cases "legacy_conflicts cs = []") (auto simp: plan_def plan_edge_copies_legacy_def Let_def)
  then have c: "set (legacy_conflicts cs) \<subseteq> set (cyclic plan)" "set (cyclic plan) \<subseteq> {i. i < length cs}"
    by (auto simp: legacy_conflicts_iff)
  show "set (ordered plan) \<union> set (cyclic plan) = {i. i < length cs}" "distinct (ordered plan)"
    using c(2) by (auto simp: o)
  show "\<forall>i \<in> set (ordered plan). \<forall>src. snd (cs ! i) = Some src \<longrightarrow> src = fst (cs ! i) \<or> src \<notin> fst ` set cs"
    using c(1) by (auto simp: o legacy_conflicts_iff subset_iff simp del: image_iff)
qed

text \<open>What emission needs of a plan, whatever the policy.\<close>

definition sound_plan :: "edge_copies \<Rightarrow> EdgeCopyPlan \<Rightarrow> bool" where
  "sound_plan cs plan \<longleftrightarrow>
     distinct (ordered plan) \<and> set (ordered plan) \<union> set (cyclic plan) \<subseteq> {i. i < length cs} \<and>
     {i. i < length cs \<and> \<not> skippable cs i} \<subseteq> set (ordered plan) \<union> set (cyclic plan) \<and>
     sorted_wrt (\<lambda>a b. snd (cs ! b) \<noteq> Some (fst (cs ! a))) (ordered plan)"

lemma sorted_wrt_distinct_mono:
  assumes "sorted_wrt P xs" and "distinct xs"
    and "\<And>x y. x \<in> set xs \<Longrightarrow> y \<in> set xs \<Longrightarrow> x \<noteq> y \<Longrightarrow> P x y \<Longrightarrow> Q x y"
  shows "sorted_wrt Q xs"
  using assms by (induction xs) auto

lemma plan_edge_copies_sound:
  assumes "distinct (map fst cs)"
  shows "sound_plan cs (plan_edge_copies_guards cs guards policy)"
proof (cases policy)
  case Legacy
  note l = legacy_plan [of cs]
  have "sorted_wrt (\<lambda>a b. snd (cs ! b) \<noteq> Some (fst (cs ! a))) (ordered (plan_edge_copies_legacy cs))"
  proof (rule sorted_wrt_distinct_mono [where P = "\<lambda>_ _. True"])
    fix a b
    assume ab: "a \<in> set (ordered (plan_edge_copies_legacy cs))" "b \<in> set (ordered (plan_edge_copies_legacy cs))" "a \<noteq> b"
    then have "a < length cs" "b < length cs"
      using l(1) by auto
    moreover from this ab(3) have "fst (cs ! a) \<noteq> fst (cs ! b)"
      using assms by (metis length_map nth_eq_iff_index_eq nth_map)
    ultimately show "snd (cs ! b) \<noteq> Some (fst (cs ! a))"
      using l(3) ab(2) by auto
  qed (use l(2) in \<open>simp_all add: sorted_wrt_iff_nth_less\<close>)
  then show ?thesis
    using l Legacy by (auto simp: sound_plan_def plan_edge_copies_guards_def)
next
  case Acyclic
  note t = acyclic_plan [of cs guards]
  have "sorted_wrt (\<lambda>a b. snd (cs ! b) \<noteq> Some (fst (cs ! a))) (ordered (plan_edge_copies_acyclic_guards cs guards))"
  proof (rule sorted_wrt_distinct_mono [OF topological_sorted [OF t(1)] topological_distinct [OF t(1)]])
    fix a b
    assume "a \<in> set (ordered (plan_edge_copies_acyclic_guards cs guards))"
      "b \<in> set (ordered (plan_edge_copies_acyclic_guards cs guards))" "a \<noteq> b" "b \<notin> set (preds cs a)"
    then show "snd (cs ! b) \<noteq> Some (fst (cs ! a))"
      using t(2) preds_iff [OF assms, of a b] by auto
  qed
  then show ?thesis
    using t topological_distinct [OF t(1)] Acyclic by (auto simp: sound_plan_def plan_edge_copies_guards_def)
qed

subsection \<open>One edge\<close>

definition parallel_assign :: "(IrConst \<Rightarrow> 'v) \<Rightarrow> PhiInfo list \<Rightarrow> nat \<Rightarrow> (nat \<Rightarrow> 'v) \<Rightarrow> nat \<Rightarrow> 'v" where
  "parallel_assign konst phis pred_label s v =
     (case find (\<lambda>phi. dest phi = v) phis of
        None \<Rightarrow> s v
      | Some phi \<Rightarrow> (case phi_src phi pred_label of Some src \<Rightarrow> eval_operand konst src s | None \<Rightarrow> s v))"

fun operand_below :: "nat \<Rightarrow> Operand \<Rightarrow> bool" where
  "operand_below n (Value v) = (v < n)"
| "operand_below n (Const _) = True"

text \<open>The phi functions of a block, as seen from one predecessor.\<close>

definition phis_ok :: "nat \<Rightarrow> PhiInfo list \<Rightarrow> nat \<Rightarrow> bool" where
  "phis_ok n phis pred_label \<longleftrightarrow>
     distinct (map dest phis) \<and>
     list_all (\<lambda>phi. dest phi < n \<and> (case phi_src phi pred_label of None \<Rightarrow> False | Some src \<Rightarrow> operand_below n src)) phis"

definition temps_ok :: "nat \<Rightarrow> nat option list \<Rightarrow> bool" where
  "temps_ok n temps \<longleftrightarrow>
     (\<forall>i < length temps. \<forall>t. temps ! i = Some t \<longrightarrow> n \<le> t) \<and>
     (\<forall>i < length temps. \<forall>j < length temps. \<forall>t. temps ! i = Some t \<longrightarrow> temps ! j = Some t \<longrightarrow> i = j)"

lemma operand_below_neq: "operand_below n src \<Longrightarrow> n \<le> t \<Longrightarrow> src \<noteq> Value t"
  by (cases src) auto

lemma phis_okD:
  assumes "phis_ok n phis p" and "i < length phis"
  obtains src where "phi_src (phis ! i) p = Some src" and "operand_below n src" and "dest (phis ! i) < n"
proof (cases "phi_src (phis ! i) p")
  case None
  then show ?thesis
    using assms by (auto simp: phis_ok_def list_all_length)
next
  case (Some src)
  then show ?thesis
    using assms that [of src] by (auto simp: phis_ok_def list_all_length)
qed

lemma phis_ok_inj: "phis_ok n phis p \<Longrightarrow> i < length phis \<Longrightarrow> j < length phis \<Longrightarrow> dest (phis ! i) = dest (phis ! j) \<Longrightarrow> i = j"
  using nth_eq_iff_index_eq [of "map dest phis" i j] by (simp add: phis_ok_def)

lemma parallel_assign_dest:
  assumes "phis_ok n phis p" and "i < length phis"
  shows "parallel_assign konst phis p s (dest (phis ! i)) = eval_operand konst (the (phi_src (phis ! i) p)) s"
proof -
  obtain src where src: "phi_src (phis ! i) p = Some src"
    using phis_okD [OF assms] by blast
  have "find (\<lambda>phi. dest phi = dest (phis ! i)) phis = Some (phis ! i)"
  proof -
    obtain phi where f: "find (\<lambda>phi. dest phi = dest (phis ! i)) phis = Some phi"
      using assms(2) by (cases "find (\<lambda>phi. dest phi = dest (phis ! i)) phis") (auto simp: find_None_iff dest: nth_mem)
    then obtain j where "j < length phis" "phi = phis ! j" "dest (phis ! j) = dest (phis ! i)"
      by (auto simp: find_Some_iff)
    then show ?thesis
      using f phis_ok_inj [OF assms(1)] assms(2) by auto
  qed
  then show ?thesis
    using src by (simp add: parallel_assign_def)
qed

lemma parallel_assign_other: "v \<notin> dest ` set phis \<Longrightarrow> parallel_assign konst phis p s v = s v"
  by (auto simp: parallel_assign_def split: option.splits simp: find_Some_iff)

lemma build_edge_copies_mem:
  "(d, src) \<in> set (build_edge_copies phis temps p order) \<longleftrightarrow>
     (\<exists>i < length phis. temps ! i = Some d \<and> phi_src (phis ! i) p = Some src) \<or>
     (\<exists>i \<in> set order. temps ! i = None \<and> phi_src (phis ! i) p = Some src \<and> src \<noteq> Value (dest (phis ! i)) \<and> d = dest (phis ! i))"
  by (auto simp: build_edge_copies_def set_map_filter split: option.splits if_splits)

lemma temp_restores_mem:
  "(d, src) \<in> set (temp_restores phis temps) \<longleftrightarrow>
     (\<exists>i t. i < length phis \<and> temps ! i = Some t \<and> d = dest (phis ! i) \<and> src = Value t)"
  by (auto simp: temp_restores_def set_map_filter)

text \<open>Everything emission relies on for one edge.\<close>

definition edge_ok :: "nat \<Rightarrow> PhiInfo list \<Rightarrow> nat option list \<Rightarrow> nat \<Rightarrow> EdgeCopyPlan \<Rightarrow> bool" where
  "edge_ok n phis temps p plan \<longleftrightarrow>
     phis_ok n phis p \<and> temps_ok n temps \<and> length temps = length phis \<and>
     sound_plan (edge_copies_info phis p) plan \<and> (\<forall>i \<in> set (cyclic plan). temps ! i \<noteq> None)"

lemma edge_copies_info_nth:
  "i < length phis \<Longrightarrow> edge_copies_info phis p ! i =
     (dest (phis ! i), case phi_src (phis ! i) p of Some (Value v) \<Rightarrow> Some v | _ \<Rightarrow> None)"
  "length (edge_copies_info phis p) = length phis"
  by (simp_all add: edge_copies_info_def)

lemma edge_okD:
  assumes "edge_ok n phis temps p plan"
  shows "phis_ok n phis p" and "temps_ok n temps" and "length temps = length phis"
    and "distinct (ordered plan)" and "i \<in> set (ordered plan) \<Longrightarrow> i < length phis"
    and "i < length phis \<Longrightarrow> temps ! i = None \<Longrightarrow> phi_src (phis ! i) p \<noteq> Some (Value (dest (phis ! i))) \<Longrightarrow> i \<in> set (ordered plan)"
    and "sorted_wrt (\<lambda>a b. phi_src (phis ! b) p \<noteq> Some (Value (dest (phis ! a)))) (ordered plan)"
proof -
  note e = assms [unfolded edge_ok_def]
  note s = e [THEN conjunct2, THEN conjunct2, THEN conjunct2, THEN conjunct1, unfolded sound_plan_def edge_copies_info_nth(2)]
  show "phis_ok n phis p" "temps_ok n temps" "length temps = length phis" "distinct (ordered plan)"
    "i \<in> set (ordered plan) \<Longrightarrow> i < length phis"
    using e s by auto
  have in_range: "i < length phis" if "i \<in> set (ordered plan)" for i
    using s that by auto
  show "i \<in> set (ordered plan)"
    if i: "i < length phis" "temps ! i = None" "phi_src (phis ! i) p \<noteq> Some (Value (dest (phis ! i)))"
  proof -
    have "\<not> skippable (edge_copies_info phis p) i"
      using i by (auto simp: skippable_def edge_copies_info_nth split: option.splits Operand.splits)
    then have "i \<in> set (ordered plan) \<union> set (cyclic plan)"
      using s i(1) by blast
    then show ?thesis
      using e i(2) by auto
  qed
  have srt: "sorted_wrt (\<lambda>a b. snd (edge_copies_info phis p ! b) \<noteq> Some (fst (edge_copies_info phis p ! a))) (ordered plan)"
    using s by blast
  show "sorted_wrt (\<lambda>a b. phi_src (phis ! b) p \<noteq> Some (Value (dest (phis ! a)))) (ordered plan)"
    by (rule sorted_wrt_mono_rel [OF _ srt]) (auto simp: edge_copies_info_nth dest!: in_range)
qed

lemma build_edge_copies_well_ordered:
  assumes "edge_ok n phis temps p plan"
  shows "reads_first (build_edge_copies phis temps p (ordered plan))"
    and "distinct (map fst (build_edge_copies phis temps p (ordered plan)))"
proof -
  note e = edge_okD [OF assms]
  have src: "src \<noteq> Value t" if "temps ! i = Some t" "i < length phis" "phi_src (phis ! j) p = Some src" "j < length phis" for i j t src
    using that e(2,3) phis_okD [OF e(1) that(4)] by (metis operand_below_neq option.inject temps_ok_def)
  have dst: "dest (phis ! j) \<noteq> t" if "temps ! i = Some t" "i < length phis" "j < length phis" for i j t
    using that e(2,3) phis_okD [OF e(1) that(3)] by (metis leD temps_ok_def)
  show "reads_first (build_edge_copies phis temps p (ordered plan))"
    unfolding build_edge_copies_def reads_first_append
  proof (intro conjI ballI)
    show "reads_first (List.map_filter (\<lambda>i. case temps ! i of None \<Rightarrow> None | Some tmp \<Rightarrow> map_option (Pair tmp) (phi_src (phis ! i) p)) [0..<length phis])"
      unfolding reads_first_def
      by (rule map_filter_sorted_wrt [where P = "\<lambda>x y. x < y"])
        (auto simp: sorted_wrt_upt split: option.splits dest: src)
    show "reads_first (List.map_filter (\<lambda>i. if temps ! i \<noteq> None then None
           else case phi_src (phis ! i) p of None \<Rightarrow> None
                | Some src \<Rightarrow> if src = Value (dest (phis ! i)) then None else Some (dest (phis ! i), src)) (ordered plan))"
      unfolding reads_first_def
      by (rule map_filter_sorted_wrt [OF e(7)]) (auto split: option.splits if_splits)
  qed (use e(5) src in \<open>auto simp: set_map_filter split: option.splits if_splits\<close>)
  have "distinct (map fst (List.map_filter (\<lambda>i. case temps ! i of None \<Rightarrow> None | Some tmp \<Rightarrow> map_option (Pair tmp) (phi_src (phis ! i) p)) [0..<length phis]))"
    by (rule distinct_map_filter) (use e(2,3) in \<open>auto simp: temps_ok_def split: option.splits\<close>)
  moreover have "distinct (map fst (List.map_filter (\<lambda>i. if temps ! i \<noteq> None then None
           else case phi_src (phis ! i) p of None \<Rightarrow> None
                | Some src \<Rightarrow> if src = Value (dest (phis ! i)) then None else Some (dest (phis ! i), src)) (ordered plan)))"
    by (rule distinct_map_filter [OF e(4)])
      (use e(5) phis_ok_inj [OF e(1)] in \<open>auto split: option.splits if_splits\<close>)
  ultimately show "distinct (map fst (build_edge_copies phis temps p (ordered plan)))"
    unfolding build_edge_copies_def using e(5) dst
    by (auto simp: set_map_filter split: option.splits if_splits) (metis option.distinct(1))+
qed

lemma temp_restores_well_ordered:
  assumes "edge_ok n phis temps p plan"
  shows "reads_first (temp_restores phis temps)" and "distinct (map fst (temp_restores phis temps))"
proof -
  note e = edge_okD [OF assms]
  have dst: "t \<noteq> dest (phis ! j)" if "temps ! i = Some t" "i < length phis" "j < length phis" for i j t
    using that e(2,3) phis_okD [OF e(1) that(3)] by (metis leD temps_ok_def)
  show "reads_first (temp_restores phis temps)"
    unfolding reads_first_def temp_restores_def
    by (rule map_filter_sorted_wrt [where P = "\<lambda>x y. x < y"]) (auto simp: sorted_wrt_upt, metis dst order.strict_trans)
  show "distinct (map fst (temp_restores phis temps))"
    unfolding temp_restores_def
    by (rule distinct_map_filter) (use phis_ok_inj [OF e(1)] in auto)
qed

lemma temp_after_edge:
  assumes "edge_ok n phis temps p plan" and "i < length phis" and "temps ! i = Some t"
  shows "exec_copies konst (build_edge_copies phis temps p (ordered plan)) s t =
    eval_operand konst (the (phi_src (phis ! i) p)) s"
proof -
  obtain src where "phi_src (phis ! i) p = Some src"
    using phis_okD [OF edge_okD(1) [OF assms(1)] assms(2)] by blast
  moreover from this have "(t, src) \<in> set (build_edge_copies phis temps p (ordered plan))"
    using assms(2,3) by (auto simp: build_edge_copies_mem)
  ultimately show ?thesis
    using build_edge_copies_well_ordered [OF assms(1)] by (simp add: exec_copies_parallel)
qed

lemma value_after_edge:
  assumes "edge_ok n phis temps p plan" and "v < n" and "\<And>i. i < length phis \<Longrightarrow> dest (phis ! i) = v \<Longrightarrow> temps ! i = None"
  shows "exec_copies konst (build_edge_copies phis temps p (ordered plan)) s v = parallel_assign konst phis p s v"
proof -
  let ?cs = "build_edge_copies phis temps p (ordered plan)"
  note e = edge_okD [OF assms(1)]
  note w = build_edge_copies_well_ordered [OF assms(1)]
  have no_temp: "temps ! i \<noteq> Some v" if "i < length phis" for i
    using that e(2,3) assms(2) by (auto simp: temps_ok_def)
  show ?thesis
  proof (cases "v \<in> dest ` set phis")
    case False
    then have "(v, src) \<notin> set ?cs" for src
      using no_temp e(5) by (force simp: build_edge_copies_mem)
    then have "map_of ?cs v = None"
      by (force simp: map_of_eq_None_iff)
    then show ?thesis
      using False w by (simp add: exec_copies_parallel parallel_assign_other)
  next
    case True
    then obtain i where i: "i < length phis" "dest (phis ! i) = v"
      by (auto simp: in_set_conv_nth)
    obtain src where src: "phi_src (phis ! i) p = Some src"
      using phis_okD [OF e(1) i(1)] by blast
    have par: "parallel_assign konst phis p s v = eval_operand konst src s"
      using parallel_assign_dest [OF e(1) i(1)] i(2) src by simp
    show ?thesis
    proof (cases "src = Value v")
      case True
      have "(v, src') \<notin> set ?cs" for src'
      proof
        assume "(v, src') \<in> set ?cs"
        then obtain j where j: "j \<in> set (ordered plan)" "phi_src (phis ! j) p = Some src'" "src' \<noteq> Value v" "v = dest (phis ! j)"
          using no_temp by (auto simp: build_edge_copies_mem)
        then have "j = i"
          using e(5) phis_ok_inj [OF e(1) _ i(1)] i(2) by auto
        then show False
          using j src True by simp
      qed
      then have "map_of ?cs v = None"
        by (force simp: map_of_eq_None_iff)
      then show ?thesis
        using w True par by (simp add: exec_copies_parallel)
    next
      case False
      then have "(v, src) \<in> set ?cs"
        using e(6) [OF i(1)] assms(3) [OF i] src i by (auto simp: build_edge_copies_mem)
      then show ?thesis
        using w par by (simp add: exec_copies_parallel)
    qed
  qed
qed

theorem edge_assigns_in_parallel:
  assumes "edge_ok n phis temps p plan" and "v < n"
  shows "exec_copies konst (build_edge_copies phis temps p (ordered plan) @ temp_restores phis temps) s v =
    parallel_assign konst phis p s v"
proof -
  let ?s = "exec_copies konst (build_edge_copies phis temps p (ordered plan)) s"
  let ?rs = "temp_restores phis temps"
  note e = edge_okD [OF assms(1)]
  note w = temp_restores_well_ordered [OF assms(1)]
  show ?thesis
  proof (cases "\<exists>i t. i < length phis \<and> dest (phis ! i) = v \<and> temps ! i = Some t")
    case True
    then obtain i t where i: "i < length phis" "dest (phis ! i) = v" "temps ! i = Some t"
      by blast
    then have "(v, Value t) \<in> set ?rs"
      by (auto simp: temp_restores_mem)
    then have "exec_copies konst ?rs ?s v = ?s t"
      using w by (simp add: exec_copies_parallel)
    then show ?thesis
      using temp_after_edge [OF assms(1) i(1,3), of konst s] parallel_assign_dest [OF e(1) i(1), of konst s] i(2)
      by (simp add: exec_copies_append)
  next
    case False
    then have "(v, src) \<notin> set ?rs" for src
      by (auto simp: temp_restores_mem)
    then have "map_of ?rs v = None"
      by (force simp: map_of_eq_None_iff)
    then have "exec_copies konst ?rs ?s v = ?s v"
      using w by (simp add: exec_copies_parallel)
    moreover have "temps ! i = None" if "i < length phis" "dest (phis ! i) = v" for i
      using False that by (cases "temps ! i") auto
    ultimately show ?thesis
      using value_after_edge [OF assms] by (simp add: exec_copies_append)
  qed
qed

end
