(* ===== verification/PhiEdges.thy ===== *)
theory PhiEdges
  imports PhiParallel
begin

text \<open>
  The copies as they end up on the edges of a function: the placement keeps the edges apart, so every edge of a
  well-formed function carries out the parallel assignment of the phi functions of its target.
\<close>

subsection \<open>Placement keeps edges apart\<close>

text \<open>The copies that run when control passes along an edge, before the target's own copies.\<close>

definition copies_on_edge :: "PhiElimCtx \<Rightarrow> nat \<Rightarrow> nat \<Rightarrow> copy list" where
  "copies_on_edge ctx p target =
     (case classify_placement ctx p target of
        Predecessor \<Rightarrow> (case pred_copies ctx p of None \<Rightarrow> [] | Some cs \<Rightarrow> cs)
      | SelfLoop \<Rightarrow> self_loop_copies ctx ! p
      | Trampoline \<Rightarrow> (case trampoline_map ctx (p, target) of None \<Rightarrow> [] | Some t \<Rightarrow> copies (trampolines ctx ! t)))"

definition statics :: "PhiElimCtx \<Rightarrow> (nat \<Rightarrow> nat option) \<times> bool list \<times> bool list \<times> CopyOrderPolicy" where
  "statics ctx = (label_to_idx ctx, multi_succ ctx, is_indirect_branch ctx, copy_order ctx)"

definition ctx_ok :: "nat \<Rightarrow> PhiElimCtx \<Rightarrow> bool" where
  "ctx_ok n ctx \<longleftrightarrow>
     length (self_loop_copies ctx) = n \<and> length (target_copies ctx) = n \<and>
     (\<forall>k t. trampoline_map ctx k = Some t \<longrightarrow> t < length (trampolines ctx)) \<and>
     (\<forall>k k' t. trampoline_map ctx k = Some t \<longrightarrow> trampoline_map ctx k' = Some t \<longrightarrow> k = k')"

lemma classify_statics: "statics ctx = statics ctx' \<Longrightarrow> classify_placement ctx p t = classify_placement ctx' p t"
  by (simp add: statics_def classify_placement_def)

lemma place_copies_frame:
  assumes "ctx_ok n ctx"
  shows "statics (place_copies ctx p t cs) = statics ctx" and "ctx_ok n (place_copies ctx p t cs)"
    and "target_copies (place_copies ctx p t cs) = target_copies ctx"
    and "next_value (place_copies ctx p t cs) = next_value ctx"
proof -
  have "statics (place_copies ctx p t cs) = statics ctx \<and> target_copies (place_copies ctx p t cs) = target_copies ctx \<and>
      next_value (place_copies ctx p t cs) = next_value ctx"
    by (simp add: place_copies_def get_or_create_trampoline_def statics_def Let_def split: CopyPlacement.split option.split)
  then show "statics (place_copies ctx p t cs) = statics ctx" "target_copies (place_copies ctx p t cs) = target_copies ctx"
    "next_value (place_copies ctx p t cs) = next_value ctx"
    by auto
  show "ctx_ok n (place_copies ctx p t cs)"
  proof (cases "cs = []")
    case False
    show ?thesis
    proof (cases "classify_placement ctx p t")
      case Trampoline
      show ?thesis
      proof (cases "trampoline_map ctx (p, t)")
        case None
        then show ?thesis
          using assms False Trampoline unfolding ctx_ok_def place_copies_def get_or_create_trampoline_def
          by (auto simp: Let_def less_Suc_eq split: if_splits)
      qed (use assms False Trampoline in \<open>auto simp: ctx_ok_def place_copies_def get_or_create_trampoline_def Let_def\<close>)
    qed (use assms False in \<open>auto simp: ctx_ok_def place_copies_def\<close>)
  qed (use assms in \<open>simp add: place_copies_def\<close>)
qed

lemma copies_on_edge_statics:
  "statics ctx = statics ctx' \<Longrightarrow> classify_placement ctx p t = Predecessor \<Longrightarrow>
     copies_on_edge ctx p t = (case pred_copies ctx p of None \<Rightarrow> [] | Some cs \<Rightarrow> cs)"
  by (simp add: copies_on_edge_def)

lemma place_copies_here:
  assumes "ctx_ok n ctx" and "p < n"
  shows "copies_on_edge (place_copies ctx p t cs) p t = copies_on_edge ctx p t @ cs"
proof (cases "cs = []")
  case False
  have c: "classify_placement (place_copies ctx p t cs) p t = classify_placement ctx p t"
    by (rule classify_statics) (rule place_copies_frame(1) [OF assms(1)])
  show ?thesis
  proof (cases "classify_placement ctx p t")
    case Predecessor
    then show ?thesis
      using c False by (simp add: copies_on_edge_def, simp add: place_copies_def)
  next
    case SelfLoop
    then show ?thesis
      using c False assms by (simp add: copies_on_edge_def, simp add: place_copies_def ctx_ok_def)
  next
    case Trampoline
    then show ?thesis
      using c False assms unfolding copies_on_edge_def
      by (cases "trampoline_map ctx (p, t)")
        (auto simp: place_copies_def get_or_create_trampoline_def Let_def ctx_ok_def)
  qed
qed (simp add: place_copies_def)

text \<open>Two edges whose copies never share a place.\<close>

definition apart :: "PhiElimCtx \<Rightarrow> nat \<Rightarrow> nat \<Rightarrow> nat \<Rightarrow> nat \<Rightarrow> bool" where
  "apart ctx p t p' t' \<longleftrightarrow>
     p \<noteq> p' \<or> (t \<noteq> t' \<and> classify_placement ctx p t \<noteq> Predecessor \<and> classify_placement ctx p t' \<noteq> Predecessor \<and>
               \<not> (label_to_idx ctx t = Some p \<and> label_to_idx ctx t' = Some p))"

lemma place_copies_elsewhere:
  assumes "ctx_ok n ctx" and "p < n" and "apart ctx p t p' t'"
  shows "copies_on_edge (place_copies ctx p t cs) p' t' = copies_on_edge ctx p' t'"
proof (cases "cs = []")
  case False
  have c: "classify_placement (place_copies ctx p t cs) p' t' = classify_placement ctx p' t'"
    by (rule classify_statics) (rule place_copies_frame(1) [OF assms(1)])
  show ?thesis
  proof (cases "classify_placement ctx p t")
    case Predecessor
    then have "p \<noteq> p'"
      using assms(3) by (auto simp: apart_def)
    then show ?thesis
      using c False Predecessor unfolding copies_on_edge_def
      by (auto simp: place_copies_def split: CopyPlacement.split option.split)
  next
    case SelfLoop
    then have "p \<noteq> p' \<or> classify_placement ctx p' t' = Trampoline"
      using assms(3) by (cases "classify_placement ctx p' t'") (auto simp: apart_def classify_placement_def split: if_splits)
    then show ?thesis
      using c False SelfLoop unfolding copies_on_edge_def
      by (auto simp: place_copies_def split: CopyPlacement.split option.split)
  next
    case Trampoline
    have ne: "(p', t') \<noteq> (p, t)"
      using assms(3) by (auto simp: apart_def)
    show ?thesis
    proof (cases "trampoline_map ctx (p, t)")
      case None
      then show ?thesis
        using c False Trampoline ne assms(1) unfolding copies_on_edge_def ctx_ok_def
        by (auto simp: place_copies_def get_or_create_trampoline_def Let_def nth_append less_Suc_eq
            split: CopyPlacement.split option.split)
    next
      case (Some j)
      moreover have "j \<noteq> j'" if "trampoline_map ctx (p', t') = Some j'" for j'
        using assms(1) Some ne that unfolding ctx_ok_def by blast
      ultimately show ?thesis
        using c False Trampoline assms(1) unfolding copies_on_edge_def ctx_ok_def
        by (auto simp: place_copies_def get_or_create_trampoline_def Let_def split: CopyPlacement.split option.split)
    qed
  qed
qed (simp add: place_copies_def)

subsection \<open>All edges into one block\<close>

fun place_all :: "nat \<Rightarrow> (nat \<times> copy list) list \<Rightarrow> PhiElimCtx \<Rightarrow> PhiElimCtx" where
  "place_all t [] ctx = ctx"
| "place_all t ((l, cs) # edges) ctx =
     place_all t edges (case label_to_idx ctx l of None \<Rightarrow> ctx | Some p \<Rightarrow> place_copies ctx p t cs)"

lemma place_edges_eq:
  "place_edges phis temps t plans ctx =
     place_all t (map (\<lambda>(l, plan). (l, build_edge_copies phis temps l (ordered plan))) plans) ctx"
  by (induction plans arbitrary: ctx) (auto split: option.split)

lemma emit_single_incoming_eq:
  "emit_single_incoming phi t inc ctx =
     place_all t (map (\<lambda>(src, l). (l, if src = Value (dest phi) then [] else [(dest phi, src)])) inc) ctx"
proof (induction inc arbitrary: ctx)
  case (Cons e inc)
  then show ?case
    by (cases e) (simp add: place_copy_def place_copies_def split: option.split)
qed simp

definition labels_ok :: "nat \<Rightarrow> PhiElimCtx \<Rightarrow> bool" where
  "labels_ok n ctx \<longleftrightarrow>
     (\<forall>l p. label_to_idx ctx l = Some p \<longrightarrow> p < n) \<and>
     (\<forall>l l' p. label_to_idx ctx l = Some p \<longrightarrow> label_to_idx ctx l' = Some p \<longrightarrow> l = l')"

lemma labels_ok_statics: "statics ctx = statics ctx' \<Longrightarrow> labels_ok n ctx = labels_ok n ctx'"
  by (simp add: labels_ok_def statics_def)

lemma apart_statics: "statics ctx = statics ctx' \<Longrightarrow> apart ctx p t p' t' = apart ctx' p t p' t'"
  using classify_statics [of ctx ctx'] by (simp add: apart_def statics_def)

lemma place_all_step:
  fixes l t cs
  assumes "ctx_ok n ctx" and "labels_ok n ctx"
  defines "ctx' \<equiv> case label_to_idx ctx l of None \<Rightarrow> ctx | Some p \<Rightarrow> place_copies ctx p t cs"
  shows "statics ctx' = statics ctx" and "ctx_ok n ctx'" and "labels_ok n ctx'"
    and "target_copies ctx' = target_copies ctx" and "next_value ctx' = next_value ctx"
proof -
  show st: "statics ctx' = statics ctx" and "ctx_ok n ctx'"
    and "target_copies ctx' = target_copies ctx" and "next_value ctx' = next_value ctx"
    using assms(1) by (auto simp: ctx'_def place_copies_frame split: option.split)
  show "labels_ok n ctx'"
    using assms(2) labels_ok_statics [OF st] by simp
qed

lemma place_all_frame:
  assumes "ctx_ok n ctx" and "labels_ok n ctx"
  shows "statics (place_all t edges ctx) = statics ctx \<and> ctx_ok n (place_all t edges ctx) \<and>
    target_copies (place_all t edges ctx) = target_copies ctx \<and> next_value (place_all t edges ctx) = next_value ctx"
  using assms
proof (induction edges arbitrary: ctx)
  case (Cons e edges)
  obtain l cs where e: "e = (l, cs)"
    by fastforce
  note s = place_all_step [OF Cons.prems, where l = l and t = t and cs = cs]
  show ?case
    using Cons.IH [OF s(2,3)] s by (simp add: e)
qed simp

lemma place_all_elsewhere:
  assumes "ctx_ok n ctx" and "labels_ok n ctx"
    and "\<And>l cs p. (l, cs) \<in> set edges \<Longrightarrow> label_to_idx ctx l = Some p \<Longrightarrow> apart ctx p t p' t'"
  shows "copies_on_edge (place_all t edges ctx) p' t' = copies_on_edge ctx p' t'"
  using assms
proof (induction edges arbitrary: ctx)
  case (Cons e edges)
  obtain l cs where e: "e = (l, cs)"
    by fastforce
  note s = place_all_step [OF Cons.prems(1,2), where l = l and t = t and cs = cs]
  let ?ctx = "case label_to_idx ctx l of None \<Rightarrow> ctx | Some p \<Rightarrow> place_copies ctx p t cs"
  have "copies_on_edge (place_all t edges ?ctx) p' t' = copies_on_edge ?ctx p' t'"
  proof (rule Cons.IH [OF s(2,3)])
    fix l' cs' p
    assume "(l', cs') \<in> set edges" and "label_to_idx ?ctx l' = Some p"
    then show "apart ?ctx p t p' t'"
      using Cons.prems(3) [of l' cs' p] s(1) apart_statics [OF s(1)] by (simp add: statics_def)
  qed
  also have "\<dots> = copies_on_edge ctx p' t'"
  proof (cases "label_to_idx ctx l")
    case (Some p)
    then have "p < n" "apart ctx p t p' t'"
      using Cons.prems(2,3) by (auto simp: labels_ok_def e)
    then show ?thesis
      using Some place_copies_elsewhere [OF Cons.prems(1)] by simp
  qed simp
  finally show ?case
    by (simp add: e)
qed simp

lemma place_all_here:
  assumes "ctx_ok n ctx" and "labels_ok n ctx" and "distinct (map fst edges)"
    and "(l, cs) \<in> set edges" and "label_to_idx ctx l = Some p"
  shows "copies_on_edge (place_all t edges ctx) p t = copies_on_edge ctx p t @ cs"
  using assms
proof (induction edges arbitrary: ctx)
  case (Cons e edges)
  obtain l' cs' where e: "e = (l', cs')"
    by fastforce
  note s = place_all_step [OF Cons.prems(1,2), where l = l' and t = t and cs = cs']
  let ?ctx = "case label_to_idx ctx l' of None \<Rightarrow> ctx | Some p \<Rightarrow> place_copies ctx p t cs'"
  have pn: "p < n"
    using Cons.prems(2,5) by (auto simp: labels_ok_def)
  have other: "p'' \<noteq> p" if "label_to_idx ctx l'' = Some p''" "l'' \<noteq> l" for l'' p''
    using that Cons.prems(2,5) unfolding labels_ok_def by blast
  have lab: "label_to_idx ?ctx = label_to_idx ctx"
    using s(1) by (simp add: statics_def)
  show ?case
  proof (cases "l' = l")
    case True
    have notin: "l \<notin> fst ` set edges"
      using Cons.prems(3) True by (simp add: e)
    then have "(l, cs) \<notin> set edges"
      by (metis fst_conv image_eqI)
    then have "cs' = cs"
      using Cons.prems(4) e by simp
    have "copies_on_edge (place_all t edges ?ctx) p t = copies_on_edge ?ctx p t"
    proof (rule place_all_elsewhere [OF s(2,3)])
      fix l'' cs'' q
      assume "(l'', cs'') \<in> set edges" and "label_to_idx ?ctx l'' = Some q"
      moreover from this(1) have "l'' \<noteq> l"
        using notin by (metis fst_conv image_eqI)
      ultimately show "apart ?ctx q t p t"
        using other lab by (simp add: apart_def)
    qed
    also have "\<dots> = copies_on_edge ctx p t @ cs"
      using True Cons.prems(5) place_copies_here [OF Cons.prems(1) pn] \<open>cs' = cs\<close> by simp
    finally show ?thesis
      by (simp add: e)
  next
    case False
    then have "(l, cs) \<in> set edges"
      using Cons.prems(4) e by auto
    then have "copies_on_edge (place_all t edges ?ctx) p t = copies_on_edge ?ctx p t @ cs"
      using Cons.prems(3,5) lab by (intro Cons.IH [OF s(2,3)]) (auto simp: e)
    moreover have "copies_on_edge ?ctx p t = copies_on_edge ctx p t"
    proof (cases "label_to_idx ctx l'")
      case (Some q)
      then have "q \<noteq> p" "q < n"
        using other False Cons.prems(2) by (auto simp: labels_ok_def)
      then show ?thesis
        using Some place_copies_elsewhere [OF Cons.prems(1)] by (simp add: apart_def)
    qed simp
    ultimately show ?thesis
      by (simp add: e)
  qed
qed simp

subsection \<open>Well-formed functions\<close>

definition pred_labels :: "'x BasicBlock list \<Rightarrow> nat \<Rightarrow> nat list" where
  "pred_labels blocks b = map label (filter (\<lambda>blk. label (blocks ! b) \<in> set (block_successors blk)) blocks)"

text \<open>Every phi function has one incoming operand for each predecessor, and value numbers are below \<open>n\<close>.\<close>

definition wf_phi :: "nat \<Rightarrow> nat list \<Rightarrow> PhiInfo \<Rightarrow> bool" where
  "wf_phi n labels phi \<longleftrightarrow>
     dest phi < n \<and> distinct (map snd (incoming phi)) \<and> set (map snd (incoming phi)) = set labels \<and>
     list_all (\<lambda>(src, _). operand_below n src) (incoming phi)"

definition wf_blocks :: "nat \<Rightarrow> 'x BasicBlock list \<Rightarrow> bool" where
  "wf_blocks n blocks \<longleftrightarrow>
     distinct (map label blocks) \<and>
     list_all (\<lambda>b. distinct (map dest (collect_block_phis blocks ! b)) \<and>
                   list_all (wf_phi n (pred_labels blocks b)) (collect_block_phis blocks ! b))
       [0..<length blocks]"

lemma label_index_iff:
  assumes "distinct (map label blocks)"
  shows "label_index blocks l = Some p \<longleftrightarrow> p < length blocks \<and> label (blocks ! p) = l"
proof -
  have "label_index blocks l = Some p \<longleftrightarrow> (l, p) \<in> set (zip (map label blocks) [0..<length blocks])"
    using assms by (simp add: label_index_def map_of_eq_Some_iff rev_map [symmetric])
  also have "\<dots> \<longleftrightarrow> (\<exists>i < length blocks. label (blocks ! i) = l \<and> i = p)"
    by (auto simp: in_set_zip intro: exI [of _ p])
  finally show ?thesis
    by auto
qed

lemma phi_src_iff: "distinct (map snd (incoming phi)) \<Longrightarrow> phi_src phi l = Some src \<longleftrightarrow> (src, l) \<in> set (incoming phi)"
  unfolding phi_src_def by (subst map_of_eq_Some_iff) (force simp: rev_map [symmetric] comp_def case_prod_unfold)+

lemma foldl_insert_new: "set (foldl insert_new acc xs) = set acc \<union> set xs \<and> (distinct acc \<longrightarrow> distinct (foldl insert_new acc xs))"
  by (induction xs arbitrary: acc) (auto simp: insert_new_def)

lemma pred_labels_iff:
  "l \<in> set (pred_labels blocks b) \<longleftrightarrow> (\<exists>p < length blocks. label (blocks ! p) = l \<and> label (blocks ! b) \<in> set (block_successors (blocks ! p)))"
  by (auto simp: pred_labels_def in_set_conv_nth)

lemma wf_blocksD:
  assumes "wf_blocks n blocks"
  shows "distinct (map label blocks)"
    and "b < length blocks \<Longrightarrow> distinct (map dest (collect_block_phis blocks ! b))"
    and "b < length blocks \<Longrightarrow> phi \<in> set (collect_block_phis blocks ! b) \<Longrightarrow> wf_phi n (pred_labels blocks b) phi"
  using assms by (auto simp: wf_blocks_def list_all_iff)

lemma wf_phis_ok:
  assumes "wf_blocks n blocks" and "b < length blocks" and "l \<in> set (pred_labels blocks b)"
  shows "phis_ok n (collect_block_phis blocks ! b) l"
proof -
  have "dest phi < n \<and> (case phi_src phi l of None \<Rightarrow> False | Some src \<Rightarrow> operand_below n src)"
    if "phi \<in> set (collect_block_phis blocks ! b)" for phi
  proof -
    have w: "wf_phi n (pred_labels blocks b) phi"
      by (rule wf_blocksD(3) [OF assms(1,2) that])
    then have "l \<in> snd ` set (incoming phi)"
      using assms(3) by (simp add: wf_phi_def)
    then obtain src where src: "(src, l) \<in> set (incoming phi)"
      by auto
    then have "phi_src phi l = Some src"
      using w by (simp add: wf_phi_def phi_src_iff)
    then show ?thesis
      using w src by (auto simp: wf_phi_def list_all_iff)
  qed
  then show ?thesis
    using wf_blocksD(2) [OF assms(1,2)] by (simp add: phis_ok_def list_all_iff)
qed

subsection \<open>Temporaries\<close>

lemma allocate_temps_ok:
  assumes "allocate_temps order temps nv = (temps', nv')" and "temps_ok n temps" and "n \<le> nv"
    and "\<forall>i < length temps. \<forall>t. temps ! i = Some t \<longrightarrow> t < nv" and "set order \<subseteq> {i. i < length temps}"
  shows "temps_ok n temps' \<and> length temps' = length temps \<and> nv \<le> nv' \<and>
    (\<forall>i < length temps. temps' ! i = None \<longleftrightarrow> temps ! i = None \<and> i \<notin> set order)"
  using assms
proof (induction order temps nv rule: allocate_temps.induct)
  case (2 i order temps nv)
  let ?temps = "temps[i := Some nv]"
  have i: "i < length temps"
    using 2(6) by simp
  have "temps_ok n ?temps"
    using 2(3,4,5) i unfolding temps_ok_def by (auto simp: nth_list_update split: if_splits)
  moreover have "\<forall>j < length ?temps. \<forall>t. ?temps ! j = Some t \<longrightarrow> t < nv + 1"
    using 2(5) i by (auto simp: nth_list_update less_Suc_eq)
  ultimately have "temps_ok n temps' \<and> length temps' = length ?temps \<and> nv + 1 \<le> nv' \<and>
    (\<forall>j < length ?temps. temps' ! j = None \<longleftrightarrow> ?temps ! j = None \<and> j \<notin> set order)"
    using 2 by (intro 2(1)) auto
  then show ?case
    using i by (auto simp: nth_list_update)
qed auto

lemma temps_ok_replicate: "temps_ok n (replicate k None)"
  by (auto simp: temps_ok_def)

subsection \<open>One block\<close>

text \<open>An edge whose copies follow a plan that is sound for it.\<close>

definition edge_done :: "nat \<Rightarrow> 'x BasicBlock list \<Rightarrow> PhiElimCtx \<Rightarrow> nat \<Rightarrow> nat \<Rightarrow> bool" where
  "edge_done n blocks ctx p b \<longleftrightarrow>
     (let phis = collect_block_phis blocks ! b; l = label (blocks ! p)
      in \<exists>temps plan. edge_ok n phis temps l plan \<and>
           copies_on_edge ctx p (label (blocks ! b)) = build_edge_copies phis temps l (ordered plan) \<and>
           target_copies ctx ! b = temp_restores phis temps)"

text \<open>A control-flow edge that does not come from a computed jump.\<close>

definition direct_edge :: "'x BasicBlock list \<Rightarrow> nat \<Rightarrow> nat \<Rightarrow> bool" where
  "direct_edge blocks p b \<longleftrightarrow>
     p < length blocks \<and> b < length blocks \<and> label (blocks ! b) \<in> set (block_successors (blocks ! p)) \<and>
     (case terminator (blocks ! p) of IndirectBranch _ _ \<Rightarrow> False | _ \<Rightarrow> True)"

definition at_start :: "'x BasicBlock list \<Rightarrow> PhiElimCtx \<Rightarrow> bool" where
  "at_start blocks ctx \<longleftrightarrow>
     label_to_idx ctx = label_index blocks \<and> multi_succ ctx = map (\<lambda>b. successor_count b > 1) blocks \<and>
     is_indirect_branch ctx = map (\<lambda>b. case terminator b of IndirectBranch _ _ \<Rightarrow> True | _ \<Rightarrow> False) blocks \<and>
     ctx_ok (length blocks) ctx"

lemma at_start_statics:
  "statics ctx' = statics ctx \<Longrightarrow> ctx_ok (length blocks) ctx' \<Longrightarrow> at_start blocks ctx \<Longrightarrow> at_start blocks ctx'"
  by (simp add: at_start_def statics_def)

lemma at_start_labels_ok: "at_start blocks ctx \<Longrightarrow> wf_blocks n blocks \<Longrightarrow> labels_ok (length blocks) ctx"
  using label_index_iff [OF wf_blocksD(1), of n blocks] by (auto simp: at_start_def labels_ok_def)

lemma edges_apart:
  assumes "at_start blocks ctx" and "wf_blocks n blocks" and "direct_edge blocks p' b'" and "b < length blocks" and "b \<noteq> b'"
    and "p \<noteq> p' \<or> label (blocks ! b) \<in> set (block_successors (blocks ! p'))"
  shows "apart ctx p (label (blocks ! b)) p' (label (blocks ! b'))"
proof (cases "p = p'")
  case True
  note d = wf_blocksD(1) [OF assms(2)]
  have ne: "label (blocks ! b) \<noteq> label (blocks ! b')"
    using d assms(3,4,5) nth_eq_iff_index_eq [OF d, of b b'] by (auto simp: direct_edge_def)
  have "\<not> successor_count (blocks ! p') \<le> 1"
  proof
    assume "successor_count (blocks ! p') \<le> 1"
    then have "\<exists>x. set (block_successors (blocks ! p')) \<subseteq> {x}"
      by (cases "block_successors (blocks ! p')") (auto simp: successor_count_def)
    then show False
      using ne assms(3,6) True by (auto simp: direct_edge_def)
  qed
  then have "classify_placement ctx p' t \<noteq> Predecessor" for t
    using assms(1,3) by (auto simp: classify_placement_def at_start_def direct_edge_def split: Terminator.splits)
  moreover have "\<not> (label_to_idx ctx (label (blocks ! b)) = Some p \<and> label_to_idx ctx (label (blocks ! b')) = Some p)"
    using ne label_index_iff [OF d] assms(1) by (auto simp: at_start_def)
  ultimately show ?thesis
    using True ne by (simp add: apart_def)
qed (simp add: apart_def)

lemma single_phi_edge_ok:
  assumes "phis_ok n [phi] l"
  shows "edge_ok n [phi] [None] l \<lparr>cyclic = [], ordered = [0]\<rparr>"
  using assms by (auto simp: edge_ok_def temps_ok_def sound_plan_def edge_copies_info_nth)

lemma plan_all_edges_mem:
  "(l, plan) \<in> set (plan_all_edges phis labels blocks policy) \<longleftrightarrow>
     (l \<in> set labels \<and> (\<exists>p. label_index blocks l = Some p \<and>
        plan = plan_edge_copies_guards (edge_copies_info phis l) (edge_guards (blocks ! p) (edge_copies_info phis l)) policy))"
  by (auto simp: plan_all_edges_def set_map_filter Let_def split: option.splits)

lemma plan_all_edges_distinct:
  "distinct labels \<Longrightarrow> distinct (map fst (plan_all_edges phis labels blocks policy))"
  unfolding plan_all_edges_def by (rule distinct_map_filter) (auto simp: Let_def split: option.splits)

lemma emit_single_effect:
  assumes "at_start blocks ctx" and "wf_blocks n blocks" and "b < length blocks" and "collect_block_phis blocks ! b = [phi]"
  defines "ctx' \<equiv> emit_single_phi_copies phi (label (blocks ! b)) ctx"
  shows "at_start blocks ctx' \<and> statics ctx' = statics ctx \<and> next_value ctx' = next_value ctx \<and> target_copies ctx' = target_copies ctx"
    and "direct_edge blocks p b' \<Longrightarrow> b' \<noteq> b \<Longrightarrow>
           copies_on_edge ctx' p (label (blocks ! b')) = copies_on_edge ctx p (label (blocks ! b'))"
    and "direct_edge blocks p b \<Longrightarrow> copies_on_edge ctx p (label (blocks ! b)) = [] \<Longrightarrow> target_copies ctx ! b = [] \<Longrightarrow>
           edge_done n blocks ctx' p b"
proof -
  let ?t = "label (blocks ! b)"
  let ?edges = "map (\<lambda>(src, l). (l, if src = Value (dest phi) then [] else [(dest phi, src)])) (incoming phi)"
  have ctx': "ctx' = place_all ?t ?edges ctx"
    by (simp add: ctx'_def emit_single_phi_copies_def emit_single_incoming_eq)
  have ok: "ctx_ok (length blocks) ctx" "labels_ok (length blocks) ctx"
    using assms(1) at_start_labels_ok [OF assms(1,2)] by (auto simp: at_start_def)
  have w: "wf_phi n (pred_labels blocks b) phi"
    using wf_blocksD(3) [OF assms(2,3)] assms(4) by simp
  show fr: "at_start blocks ctx' \<and> statics ctx' = statics ctx \<and> next_value ctx' = next_value ctx \<and> target_copies ctx' = target_copies ctx"
    using place_all_frame [OF ok, of ?t ?edges] at_start_statics [OF _ _ assms(1)] by (auto simp: ctx')
  show "copies_on_edge ctx' p (label (blocks ! b')) = copies_on_edge ctx p (label (blocks ! b'))"
    if e: "direct_edge blocks p b'" "b' \<noteq> b"
    unfolding ctx'
  proof (rule place_all_elsewhere [OF ok])
    fix l cs q
    assume "(l, cs) \<in> set ?edges" and q: "label_to_idx ctx l = Some q"
    then have "l \<in> snd ` set (incoming phi)"
      by force
    then have "l \<in> set (pred_labels blocks b)"
      using w by (simp add: wf_phi_def)
    moreover have "label (blocks ! q) = l"
      using q label_index_iff [OF wf_blocksD(1) [OF assms(2)]] assms(1) by (auto simp: at_start_def)
    ultimately have "?t \<in> set (block_successors (blocks ! q))"
      using q label_index_iff [OF wf_blocksD(1) [OF assms(2)]] assms(1)
      by (metis at_start_def option.inject pred_labels_iff)
    then show "apart ctx q ?t p (label (blocks ! b'))"
      using edges_apart [OF assms(1,2) e(1) assms(3)] e(2) by metis
  qed
  show "edge_done n blocks ctx' p b"
    if e: "direct_edge blocks p b" and empty: "copies_on_edge ctx p ?t = []" "target_copies ctx ! b = []"
  proof -
    let ?l = "label (blocks ! p)"
    have l: "?l \<in> set (pred_labels blocks b)"
      using e by (auto simp: pred_labels_iff direct_edge_def)
    have pok: "phis_ok n [phi] ?l"
      using wf_phis_ok [OF assms(2,3) l] assms(4) by simp
    then obtain src where src: "phi_src phi ?l = Some src"
      using phis_okD [of n "[phi]" ?l 0] by auto
    then have "(src, ?l) \<in> set (incoming phi)"
      using w by (simp add: wf_phi_def phi_src_iff)
    then have "(?l, if src = Value (dest phi) then [] else [(dest phi, src)]) \<in> set ?edges"
      by force
    moreover have "distinct (map fst ?edges)"
      using w by (simp add: wf_phi_def comp_def case_prod_unfold)
    moreover have "label_to_idx ctx ?l = Some p"
      using e assms(1) label_index_iff [OF wf_blocksD(1) [OF assms(2)]] by (simp add: at_start_def direct_edge_def)
    ultimately have "copies_on_edge ctx' p ?t = copies_on_edge ctx p ?t @ (if src = Value (dest phi) then [] else [(dest phi, src)])"
      unfolding ctx' using place_all_here [OF ok] by blast
    then have "copies_on_edge ctx' p ?t = build_edge_copies [phi] [None] ?l [0]" "target_copies ctx' ! b = temp_restores [phi] [None]"
      using empty src fr by (auto simp: build_edge_copies_def temp_restores_def map_filter_simps)
    then show ?thesis
      using single_phi_edge_ok [OF pok] assms(4) by (force simp: edge_done_def Let_def)
  qed
qed

text \<open>A hash table visits exactly its elements.\<close>

definition visits_all :: "(nat list \<Rightarrow> nat list) \<Rightarrow> bool" where
  "visits_all hash_order \<longleftrightarrow> (\<forall>xs. distinct xs \<longrightarrow> set (hash_order xs) = set xs)"

lemma emit_multi_effect:
  fixes hash_order blocks ctx b
  defines "phis \<equiv> collect_block_phis blocks ! b"
  defines "ctx' \<equiv> emit_multi_phi_copies hash_order phis b (label (blocks ! b)) blocks ctx"
  assumes "at_start blocks ctx" and "wf_blocks n blocks" and "b < length blocks" and "n \<le> next_value ctx" and "phis \<noteq> []"
    and hash: "visits_all hash_order"
  shows "at_start blocks ctx' \<and> next_value ctx \<le> next_value ctx'"
    and "b' \<noteq> b \<Longrightarrow> target_copies ctx' ! b' = target_copies ctx ! b'"
    and "direct_edge blocks p b' \<Longrightarrow> b' \<noteq> b \<Longrightarrow>
           copies_on_edge ctx' p (label (blocks ! b')) = copies_on_edge ctx p (label (blocks ! b'))"
    and "direct_edge blocks p b \<Longrightarrow> copies_on_edge ctx p (label (blocks ! b)) = [] \<Longrightarrow> target_copies ctx ! b = [] \<Longrightarrow>
           edge_done n blocks ctx' p b"
proof -
  let ?t = "label (blocks ! b)"
  let ?plans = "plan_all_edges phis (pred_label_list phis) blocks (copy_order ctx)"
  let ?needs = "foldl insert_new [] (concat (map (cyclic \<circ> snd) ?plans))"
  obtain temps nv where a: "allocate_temps (hash_order ?needs) (replicate (length phis) None) (next_value ctx) = (temps, nv)"
    by fastforce
  define ctx1 where "ctx1 = ctx\<lparr>next_value := nv,
    target_copies := (target_copies ctx)[b := target_copies ctx ! b @ temp_restores phis temps]\<rparr>"
  let ?edges = "map (\<lambda>(l, plan). (l, build_edge_copies phis temps l (ordered plan))) ?plans"
  have ctx': "ctx' = place_all ?t ?edges ctx1"
    by (simp add: ctx'_def emit_multi_phi_copies_def a ctx1_def Let_def place_edges_eq)
  have lab: "label_to_idx ctx1 l = Some q \<longleftrightarrow> q < length blocks \<and> label (blocks ! q) = l" for l q
    using label_index_iff [OF wf_blocksD(1) [OF assms(4)]] assms(3) by (simp add: ctx1_def at_start_def)
  have start1: "at_start blocks ctx1"
    using assms(3) by (simp add: ctx1_def at_start_def ctx_ok_def)
  have ok: "ctx_ok (length blocks) ctx1" "labels_ok (length blocks) ctx1"
    using start1 at_start_labels_ok [OF start1 assms(4)] by (auto simp: at_start_def)
  have same: "copies_on_edge ctx1 q t = copies_on_edge ctx q t" for q t
    by (simp add: copies_on_edge_def ctx1_def classify_placement_def split: option.split)
  have wf: "wf_phi n (pred_labels blocks b) phi" if "phi \<in> set phis" for phi
    using wf_blocksD(3) [OF assms(4,5)] that by (simp add: phis_def)
  have labels: "set (pred_label_list phis) = set (pred_labels blocks b)" "distinct (pred_label_list phis)"
    using foldl_insert_new [of "[]"] wf assms(7) by (auto simp: pred_label_list_def wf_phi_def neq_Nil_conv)
  have cyc_range: "i < length phis" if "(l, plan) \<in> set ?plans" "i \<in> set (cyclic plan)" for l plan i
  proof -
    have "l \<in> set (pred_labels blocks b)"
      using that(1) labels(1) by (simp add: plan_all_edges_mem)
    then have "distinct (map fst (edge_copies_info phis l))"
      using wf_phis_ok [OF assms(4,5)] by (simp add: phis_def [symmetric] phis_ok_def edge_copies_info_def comp_def)
    then have "sound_plan (edge_copies_info phis l) plan"
      using that(1) plan_edge_copies_sound by (auto simp: plan_all_edges_mem)
    then show ?thesis
      using that(2) by (auto simp: sound_plan_def edge_copies_info_nth)
  qed
  have needs: "set (hash_order ?needs) = (\<Union>(l, plan) \<in> set ?plans. set (cyclic plan))"
    using hash foldl_insert_new [of "[]"] by (auto simp: comp_def visits_all_def)
  have t: "temps_ok n temps \<and> length temps = length phis \<and> next_value ctx \<le> nv \<and>
    (\<forall>i < length phis. temps ! i = None \<longleftrightarrow> i \<notin> set (hash_order ?needs))"
    using allocate_temps_ok [OF a temps_ok_replicate assms(6)] needs cyc_range by fastforce
  note fr = place_all_frame [OF ok, of ?t ?edges]
  show "at_start blocks ctx' \<and> next_value ctx \<le> next_value ctx'"
    using fr at_start_statics [OF _ _ start1, of ctx'] t by (simp add: ctx' [symmetric], simp add: ctx' ctx1_def)
  show "b' \<noteq> b \<Longrightarrow> target_copies ctx' ! b' = target_copies ctx ! b'"
    using fr by (simp add: ctx', simp add: ctx1_def)
  show "copies_on_edge ctx' p (label (blocks ! b')) = copies_on_edge ctx p (label (blocks ! b'))"
    if e: "direct_edge blocks p b'" "b' \<noteq> b"
  proof -
    have "copies_on_edge ctx' p (label (blocks ! b')) = copies_on_edge ctx1 p (label (blocks ! b'))"
      unfolding ctx'
    proof (rule place_all_elsewhere [OF ok])
      fix l cs q
      assume "(l, cs) \<in> set ?edges" and q: "label_to_idx ctx1 l = Some q"
      then obtain plan where "(l, plan) \<in> set ?plans"
        by auto
      then have "l \<in> set (pred_labels blocks b)"
        unfolding plan_all_edges_mem labels(1) by blast
      then have "?t \<in> set (block_successors (blocks ! q))"
        using q lab [of l q] wf_blocksD(1) [OF assms(4)] label_index_iff by (metis option.inject pred_labels_iff)
      then show "apart ctx1 q ?t p (label (blocks ! b'))"
        using edges_apart [OF start1 assms(4) e(1) assms(5)] e(2) by metis
    qed
    then show ?thesis
      by (simp add: same)
  qed
  show "edge_done n blocks ctx' p b"
    if e: "direct_edge blocks p b" and empty: "copies_on_edge ctx p ?t = []" "target_copies ctx ! b = []"
  proof -
    let ?l = "label (blocks ! p)"
    let ?info = "edge_copies_info phis ?l"
    have l: "?l \<in> set (pred_labels blocks b)" and p: "label_to_idx ctx1 ?l = Some p" "label_index blocks ?l = Some p"
      using e lab label_index_iff [OF wf_blocksD(1) [OF assms(4)]] by (auto simp: pred_labels_iff direct_edge_def)
    define plan where "plan = plan_edge_copies_guards ?info (edge_guards (blocks ! p) ?info) (copy_order ctx)"
    have mem: "(?l, plan) \<in> set ?plans"
      using l labels(1) p(2) by (auto simp: plan_all_edges_mem plan_def)
    have pok: "phis_ok n phis ?l"
      using wf_phis_ok [OF assms(4,5) l] by (simp add: phis_def)
    then have "sound_plan ?info plan"
      unfolding plan_def by (intro plan_edge_copies_sound) (simp add: phis_ok_def edge_copies_info_def comp_def)
    moreover have "temps ! i \<noteq> None" if "i \<in> set (cyclic plan)" for i
      using t needs mem cyc_range [OF mem that] that by blast
    ultimately have ok_edge: "edge_ok n phis temps ?l plan"
      using pok t by (simp add: edge_ok_def)
    have "(?l, build_edge_copies phis temps ?l (ordered plan)) \<in> set ?edges"
      using mem by force
    moreover have "distinct (map fst ?edges)"
      using plan_all_edges_distinct [OF labels(2)] by (simp add: comp_def case_prod_unfold)
    ultimately have "copies_on_edge ctx' p ?t = build_edge_copies phis temps ?l (ordered plan)"
      unfolding ctx' using place_all_here [OF ok _ _ p(1)] empty(1) same by fastforce
    moreover have "target_copies ctx' ! b = temp_restores phis temps"
      using fr empty(2) assms(3,5) by (simp add: ctx', simp add: ctx1_def at_start_def ctx_ok_def)
    ultimately show ?thesis
      using ok_edge by (auto simp: edge_done_def Let_def phis_def)
  qed
qed

subsection \<open>All blocks\<close>

definition blocks_done :: "nat \<Rightarrow> 'x BasicBlock list \<Rightarrow> nat \<Rightarrow> PhiElimCtx \<Rightarrow> bool" where
  "blocks_done n blocks k ctx \<longleftrightarrow>
     at_start blocks ctx \<and> n \<le> next_value ctx \<and>
     (\<forall>b. k \<le> b \<longrightarrow> b < length blocks \<longrightarrow> target_copies ctx ! b = []) \<and>
     (\<forall>p b. k \<le> b \<longrightarrow> direct_edge blocks p b \<longrightarrow> copies_on_edge ctx p (label (blocks ! b)) = []) \<and>
     (\<forall>p b. b < k \<longrightarrow> direct_edge blocks p b \<longrightarrow> collect_block_phis blocks ! b \<noteq> [] \<longrightarrow> edge_done n blocks ctx p b)"

lemma edge_done_cong:
  "edge_done n blocks ctx p b \<Longrightarrow> copies_on_edge ctx' p (label (blocks ! b)) = copies_on_edge ctx p (label (blocks ! b)) \<Longrightarrow>
     target_copies ctx' ! b = target_copies ctx ! b \<Longrightarrow> edge_done n blocks ctx' p b"
  by (simp add: edge_done_def)

lemma emit_block_phis_effect:
  fixes hash_order blocks ctx b
  defines "ctx' \<equiv> emit_block_phis hash_order blocks ctx b"
  assumes "at_start blocks ctx" and "wf_blocks n blocks" and "b < length blocks" and "n \<le> next_value ctx"
    and hash: "visits_all hash_order"
  shows "at_start blocks ctx' \<and> next_value ctx \<le> next_value ctx'"
    and "b' \<noteq> b \<Longrightarrow> target_copies ctx' ! b' = target_copies ctx ! b'"
    and "direct_edge blocks p b' \<Longrightarrow> b' \<noteq> b \<Longrightarrow>
           copies_on_edge ctx' p (label (blocks ! b')) = copies_on_edge ctx p (label (blocks ! b'))"
    and "collect_block_phis blocks ! b \<noteq> [] \<Longrightarrow> direct_edge blocks p b \<Longrightarrow> copies_on_edge ctx p (label (blocks ! b)) = [] \<Longrightarrow>
           target_copies ctx ! b = [] \<Longrightarrow> edge_done n blocks ctx' p b"
proof -
  let ?phis = "collect_block_phis blocks ! b"
  consider "?phis = []" | phi where "?phis = [phi]" | "?phis \<noteq> []" "length ?phis \<noteq> 1"
    by (metis One_nat_def length_0_conv length_Suc_conv)
  then have "(at_start blocks ctx' \<and> next_value ctx \<le> next_value ctx') \<and>
    (b' \<noteq> b \<longrightarrow> target_copies ctx' ! b' = target_copies ctx ! b') \<and>
    (direct_edge blocks p b' \<longrightarrow> b' \<noteq> b \<longrightarrow>
       copies_on_edge ctx' p (label (blocks ! b')) = copies_on_edge ctx p (label (blocks ! b'))) \<and>
    (?phis \<noteq> [] \<longrightarrow> direct_edge blocks p b \<longrightarrow> copies_on_edge ctx p (label (blocks ! b)) = [] \<longrightarrow>
       target_copies ctx ! b = [] \<longrightarrow> edge_done n blocks ctx' p b)" for b' p
  proof cases
    case 1
    then show ?thesis
      using assms(2) by (simp add: ctx'_def emit_block_phis_def)
  next
    case 2
    then show ?thesis
      using emit_single_effect [OF assms(2-4) 2] by (simp add: ctx'_def emit_block_phis_def)
  next
    case 3
    then show ?thesis
      using emit_multi_effect [OF assms(2-5) _ hash] by (simp add: ctx'_def emit_block_phis_def Let_def)
  qed
  then show "at_start blocks ctx' \<and> next_value ctx \<le> next_value ctx'"
    and "b' \<noteq> b \<Longrightarrow> target_copies ctx' ! b' = target_copies ctx ! b'"
    and "direct_edge blocks p b' \<Longrightarrow> b' \<noteq> b \<Longrightarrow>
           copies_on_edge ctx' p (label (blocks ! b')) = copies_on_edge ctx p (label (blocks ! b'))"
    and "?phis \<noteq> [] \<Longrightarrow> direct_edge blocks p b \<Longrightarrow> copies_on_edge ctx p (label (blocks ! b)) = [] \<Longrightarrow>
           target_copies ctx ! b = [] \<Longrightarrow> edge_done n blocks ctx' p b"
    by blast+
qed

lemma blocks_done_step:
  assumes "blocks_done n blocks k ctx" and "wf_blocks n blocks" and "k < length blocks"
    and hash: "visits_all hash_order"
  shows "blocks_done n blocks (Suc k) (emit_block_phis hash_order blocks ctx k)"
proof -
  let ?ctx = "emit_block_phis hash_order blocks ctx k"
  have d: "at_start blocks ctx" "n \<le> next_value ctx"
    "\<And>b. k \<le> b \<Longrightarrow> b < length blocks \<Longrightarrow> target_copies ctx ! b = []"
    "\<And>p b. k \<le> b \<Longrightarrow> direct_edge blocks p b \<Longrightarrow> copies_on_edge ctx p (label (blocks ! b)) = []"
    "\<And>p b. b < k \<Longrightarrow> direct_edge blocks p b \<Longrightarrow> collect_block_phis blocks ! b \<noteq> [] \<Longrightarrow> edge_done n blocks ctx p b"
    using assms(1) by (auto simp: blocks_done_def)
  note e = emit_block_phis_effect [OF d(1) assms(2,3) d(2), where hash_order = hash_order, OF hash]
  have "edge_done n blocks ?ctx p b" if b: "b < Suc k" "direct_edge blocks p b" "collect_block_phis blocks ! b \<noteq> []" for p b
  proof (cases "b = k")
    case True
    then show ?thesis
      using b d(3) [of k] d(4) [of k p] assms(3) e(4) [of p] by simp
  next
    case False
    then have "b < k"
      using b(1) by simp
    show ?thesis
      by (rule edge_done_cong [OF d(5) [OF \<open>b < k\<close> b(2,3)] e(3) [OF b(2) False] e(2) [OF False]])
  qed
  moreover have "target_copies ?ctx ! b = []" if "Suc k \<le> b" "b < length blocks" for b
    using e(2) [of b] d(3) [of b] that by simp
  moreover have "copies_on_edge ?ctx p (label (blocks ! b)) = []" if "Suc k \<le> b" "direct_edge blocks p b" for p b
    using e(3) [of p b] d(4) [of b p] that by simp
  moreover have "at_start blocks ?ctx" "n \<le> next_value ?ctx"
    using e(1) d(2) by auto
  ultimately show ?thesis
    unfolding blocks_done_def by blast
qed

lemma blocks_done_initial: "blocks_done n blocks 0 (initial_ctx policy blocks nb n)"
  by (auto simp: blocks_done_def at_start_def ctx_ok_def initial_ctx_def copies_on_edge_def direct_edge_def classify_placement_def)

lemma blocks_done_foldl:
  assumes "wf_blocks n blocks" and hash: "visits_all hash_order" and "k \<le> length blocks"
  shows "blocks_done n blocks k (foldl (emit_block_phis hash_order blocks) (initial_ctx policy blocks nb n) [0..<k])"
  using assms(3) by (induction k) (simp_all add: blocks_done_initial blocks_done_step [OF _ assms(1) _ hash])

lemma place_phi_copies_done:
  assumes "wf_blocks n blocks" and "visits_all hash_order"
    and "direct_edge blocks p b" and "collect_block_phis blocks ! b \<noteq> []"
  shows "edge_done n blocks (place_phi_copies hash_order policy blocks nb n) p b"
  using blocks_done_foldl [OF assms(1,2), where k = "length blocks"] assms(3,4)
  by (auto simp: place_phi_copies_def blocks_done_def direct_edge_def)

text \<open>
  C5: In a function whose phi functions have one operand per predecessor, the copies that the pass places on a control-flow
  edge, followed by the copies at the start of its target, leave in every value of the function what the parallel
  assignment of the target's phi functions leaves: the destinations get the operands of that edge, read before
  any of them is written, and nothing else changes. This holds for both policies, for any visiting order of the
  hash table, with edges split by trampolines, self-loops and single block_successors; edges of computed jumps are excluded.
\<close>

theorem phi_copies_assign_in_parallel:
  assumes "wf_blocks n blocks" and "visits_all hash_order"
    and "direct_edge blocks p b" and "collect_block_phis blocks ! b \<noteq> []" and "v < n"
  shows "let ctx = place_phi_copies hash_order policy blocks nb n
    in exec_copies konst (copies_on_edge ctx p (label (blocks ! b)) @ target_copies ctx ! b) s v =
       parallel_assign konst (collect_block_phis blocks ! b) (label (blocks ! p)) s v"
  using place_phi_copies_done [OF assms(1-4), of policy nb] edge_assigns_in_parallel [OF _ assms(5)]
  by (auto simp: edge_done_def Let_def)

text \<open>A loop that swaps two values on its back edge, which also leaves the loop.\<close>

definition swap_loop :: "unit BasicBlock list" where
  "swap_loop =
     [\<lparr>label = 10, instructions = [], terminator = Branch 11\<rparr>,
      \<lparr>label = 11,
        instructions = [Phi 1 I32 [(Const (CI32 5), 10), (Value 2, 11)], Phi 2 I32 [(Const (CI32 7), 10), (Value 1, 11)]],
        terminator = CondBranch (Value 1) 11 12\<rparr>,
      \<lparr>label = 12, instructions = [], terminator = Return None\<rparr>]"

lemma phi_copies_assign_in_parallel_witness:
  "let ctx = place_phi_copies id Acyclic swap_loop 13 3
   in exec_copies (\<lambda>_. 0) (copies_on_edge ctx 1 11 @ target_copies ctx ! 1) (\<lambda>v. 10 * v) 1 = (20 :: nat)"
proof -
  have wf: "wf_blocks 3 swap_loop"
    by code_simp
  have v: "visits_all id"
    by (simp add: visits_all_def)
  have e: "direct_edge swap_loop 1 1"
    by code_simp
  have ne: "collect_block_phis swap_loop ! 1 \<noteq> []"
    by code_simp
  have "collect_block_phis swap_loop ! 1 =
      [\<lparr>dest = 1, incoming = [(Const (CI32 5), 10), (Value 2, 11)]\<rparr>, \<lparr>dest = 2, incoming = [(Const (CI32 7), 10), (Value 1, 11)]\<rparr>]"
    by code_simp
  moreover have "label (swap_loop ! 1) = 11"
    by code_simp
  ultimately show ?thesis
    using phi_copies_assign_in_parallel [OF wf v e ne, where v = 1 and policy = Acyclic and nb = 13 and konst = "\<lambda>_. 0" and s = "\<lambda>v. 10 * v"]
    by (simp add: parallel_assign_def phi_src_def)
qed

text \<open>
  The cycle-accurate plan gives a temporary only to copies that wait, directly or through other waiting copies, for a
  cycle: when what reads what is free of cycles, every copy is emitted directly and no temporary is used.
\<close>

theorem acyclic_copies_need_no_temporary:
  assumes "acyclic {(i, j). i \<in> set (preds moves j)}"
  shows "cyclic (plan_edge_copies_acyclic_guards moves guards) = []"
proof -
  let ?r = "{(i, j). i \<in> set (preds moves j)}"
  have "finite ?r"
  proof (rule finite_subset)
    show "?r \<subseteq> {..<length moves} \<times> {..<length moves}"
      by (auto simp: preds_def writer_def find_Some_iff split: option.splits)
  qed simp
  then have wf: "wf ?r"
    using assms by (rule finite_acyclic_wf)
  let ?c = "set (cyclic (plan_edge_copies_acyclic_guards moves guards))"
  have "?c = {}"
  proof (rule ccontr)
    assume "?c \<noteq> {}"
    then obtain z where "z \<in> ?c" "\<And>y. (y, z) \<in> ?r \<Longrightarrow> y \<notin> ?c"
      using wfE_min [OF wf] by (metis ex_in_conv)
    then show False
      using acyclic_plan(3) [of moves guards] by auto
  qed
  then show ?thesis
    by simp
qed

text \<open>A rotation of three values.\<close>

lemma acyclic_copies_need_no_temporary_witness:
  "cyclic (plan_edge_copies_acyclic_guards [(1, Some 0), (2, Some 1), (3, Some 2)] [[], [], []]) = []"
proof (rule acyclic_copies_need_no_temporary)
  let ?cs = "[(1, Some 0), (2, Some 1), (3, Some 2)] :: edge_copies"
  have "i > j" if "i \<in> set (preds ?cs j)" for i j
    using that by (auto simp: preds_def writer_def upt_rec split: if_splits)
  then have "{(i, j). i \<in> set (preds ?cs j)} \<subseteq> {(i, j). j < i}"
    by auto
  then have "{(i, j). i \<in> set (preds ?cs j)} \<subseteq> less_than\<inverse>"
    by auto
  then show "acyclic {(i, j). i \<in> set (preds ?cs j)}"
    by (rule acyclic_subset [rotated]) (simp add: acyclic_converse wf_acyclic)
qed

end
