(* ===== verification/EhFrame.thy ===== *)
theory EhFrame
  imports Prelude
begin

text \<open>
  The structure of an unrelocated \<^verbatim>\<open>.eh_frame\<close> section, \<^verbatim>\<open>src/src/backend/linker_common/eh_frame.rs\<close>: its records (CIEs
  and FDEs), their count, and the CIE that an FDE uses. Offsets are natural numbers; sections are shorter than the address space, so
  a sum that would leave 64 bits is past the end of the section and refused by the same comparison.
\<close>

text \<open>\<^verbatim>\<open>get\<close> of a slice.\<close>

definition nth_opt :: "'a list \<Rightarrow> nat \<Rightarrow> 'a option" where
  "nth_opt xs i = (if i < length xs then Some (xs ! i) else None)"

definition read_u32_le :: "u8 list \<Rightarrow> nat \<Rightarrow> u32" where
  "read_u32_le data pos = from_le_bytes (take 4 (drop pos data))"

definition read_u64_le :: "u8 list \<Rightarrow> nat \<Rightarrow> u64" where
  "read_u64_le data pos = from_le_bytes (take 8 (drop pos data))"

record EhFrameRecord =
  rec_start :: nat
  rec_end :: nat
  is_fde :: bool
  iloc_offset :: "nat option"
  id_offset :: nat
  id_size :: nat

text \<open>The bounds of a record: start of its body, end, and size of its identifier field.\<close>

definition record_bounds :: "u8 list \<Rightarrow> nat \<Rightarrow> u32 \<Rightarrow> (nat \<times> nat \<times> nat) option" where
  "record_bounds data pos len =
     (if length data < pos \<or> length data - pos < 4 then None
      else if len = - 1 \<and> length data < pos + 12 then None
      else let (body, ident, n) = (if len = - 1 then (pos + 12, 8, unat (read_u64_le data (pos + 4)))
                                else (pos + 4, 4, unat len));
               stop = body + n
           in if ident \<le> n \<and> stop \<le> length data then Some (body, stop, ident) else None)"

definition read_id :: "u8 list \<Rightarrow> nat \<Rightarrow> nat \<Rightarrow> u64" where
  "read_id data pos n = (if n = 8 then read_u64_le data pos else ucast (read_u32_le data pos))"

lemma record_bounds_SomeD:
  "record_bounds data pos len = Some (body, stop, ident) \<Longrightarrow>
     pos < body \<and> body + ident \<le> stop \<and> stop \<le> length data \<and> 0 < ident"
  by (auto simp: record_bounds_def Let_def split: if_splits)

function scan_from :: "u8 list \<Rightarrow> nat \<Rightarrow> EhFrameRecord list" where
  "scan_from data pos =
     (if \<not> pos + 4 \<le> length data then []
      else let len = read_u32_le data pos
           in if len = 0 then scan_from data (pos + 4)
              else case record_bounds data pos len of
                     None \<Rightarrow> []
                   | Some (data_start, stop, n) \<Rightarrow>
                       (let fde = (read_id data data_start n \<noteq> 0)
                        in \<lparr>rec_start = pos, rec_end = stop, is_fde = fde,
                            iloc_offset = (if fde then Some (data_start + n) else None),
                            id_offset = data_start, id_size = n\<rparr> # scan_from data stop))"
  by auto
termination
  by (relation "measure (\<lambda>(data, pos). length data - pos)") (auto dest!: record_bounds_SomeD)

declare scan_from.simps [simp del]

definition scan_eh_frame_records :: "u8 list \<Rightarrow> EhFrameRecord list" where
  "scan_eh_frame_records data = scan_from data 0"

function count_from :: "u8 list \<Rightarrow> nat \<Rightarrow> nat \<Rightarrow> nat" where
  "count_from data pos count =
     (if \<not> pos + 4 \<le> length data then count
      else let len = read_u32_le data pos
           in if len = 0 then count_from data (pos + 4) count
              else case record_bounds data pos len of
                     None \<Rightarrow> count
                   | Some (data_start, stop, n) \<Rightarrow>
                       count_from data stop (if read_id data data_start n \<noteq> 0 then count + 1 else count))"
  by auto
termination
  by (relation "measure (\<lambda>(data, pos, _). length data - pos)") (auto dest!: record_bounds_SomeD)

declare count_from.simps [simp del]

definition count_eh_frame_fdes :: "u8 list \<Rightarrow> nat" where
  "count_eh_frame_fdes data = count_from data 0 0"

text \<open>The starts of the records ascend strictly, so a binary search finds the only record at a position, if there is one.\<close>

definition cie_at :: "EhFrameRecord list \<Rightarrow> nat \<Rightarrow> nat option" where
  "cie_at records pos =
     (case find (\<lambda>i. rec_start (records ! i) = pos) [0..<length records] of
        None \<Rightarrow> None
      | Some i \<Rightarrow> if is_fde (records ! i) then None else Some i)"

text \<open>The position that the CIE pointer of an FDE names.\<close>

definition cie_position :: "u8 list \<Rightarrow> EhFrameRecord \<Rightarrow> nat" where
  "cie_position data r = unat (of_nat (id_offset r) - read_id data (id_offset r) (id_size r))"

definition fde_cie_index :: "u8 list \<Rightarrow> EhFrameRecord list \<Rightarrow> nat \<Rightarrow> nat option" where
  "fde_cie_index data records fde =
     (if fde < length records \<and> is_fde (records ! fde)
      then cie_at records (cie_position data (records ! fde)) else None)"

subsection \<open>The records of a section\<close>

definition record_ok :: "nat \<Rightarrow> EhFrameRecord \<Rightarrow> bool" where
  "record_ok n r \<longleftrightarrow>
     rec_start r < id_offset r \<and> id_offset r + id_size r \<le> rec_end r \<and> rec_end r \<le> n \<and>
     iloc_offset r = (if is_fde r then Some (id_offset r + id_size r) else None)"

lemma scan_from_records:
  "list_all (record_ok (length data)) (scan_from data pos) \<and> list_all (\<lambda>r. pos \<le> rec_start r) (scan_from data pos) \<and>
     sorted_wrt (\<lambda>r r'. rec_end r \<le> rec_start r') (scan_from data pos)"
proof (induction data pos rule: scan_from.induct)
  case (1 data pos)
  show ?case
  proof (cases "pos + 4 \<le> length data")
    case True
    note t = True
    show ?thesis
    proof (cases "read_u32_le data pos = 0")
      case True
      then show ?thesis
        using 1(1) t by (subst (1 2 3) scan_from.simps) (auto simp: list_all_iff)
    next
      case False
      show ?thesis
      proof (cases "record_bounds data pos (read_u32_le data pos)")
        case None
        then show ?thesis
          using t False by (subst (1 2 3) scan_from.simps) simp
      next
        case (Some b)
        obtain body stop n where b: "b = (body, stop, n)"
          by (cases b)
        note d = record_bounds_SomeD [OF Some [unfolded b]]
        have ih: "list_all (record_ok (length data)) (scan_from data stop) \<and> list_all (\<lambda>r. stop \<le> rec_start r) (scan_from data stop) \<and>
            sorted_wrt (\<lambda>r r'. rec_end r \<le> rec_start r') (scan_from data stop)"
          using 1(2) t False Some b by blast
        show ?thesis
          using t False Some b d ih by (subst (1 2 3) scan_from.simps) (auto simp: Let_def record_ok_def list_all_iff)
      qed
    qed
  qed (subst (1 2 3) scan_from.simps, simp)
qed

lemma count_from_scan: "count_from data pos count = count + length (filter is_fde (scan_from data pos))"
proof (induction data pos count rule: count_from.induct)
  case (1 data pos count)
  then show ?case
    by (subst count_from.simps, subst scan_from.simps) (auto simp: Let_def split: option.split)
qed

end
