(* ===== verification/GcSections.thy ===== *)
theory GcSections
  imports EhFrame "HOL-Library.Sublist"
begin

text \<open>
  Garbage collection of input sections in the ELF64 linkers, \<^verbatim>\<open>src/src/backend/linker_common/gc_sections.rs\<close>: the
  candidate sections, the binding of names to sections, the roots, the sweep over relocations, and the pass that keeps what live
  \<^verbatim>\<open>.eh_frame\<close> records depend on. A section is named by the
  index of its object and its own index; hash sets are lists of their elements.
\<close>

type_synonym key = "nat \<times> nat"

record Elf64Section =
  sh_name_idx :: u32
  sec_name :: string
  sh_type :: u32
  flags :: u64
  sh_addr :: u64
  sh_offset :: u64
  sh_size :: u64
  sh_link :: u32
  sh_info :: u32
  addralign :: u64
  entsize :: u64

record Elf64Symbol =
  st_name_idx :: u32
  sym_name :: string
  info :: u8
  other :: u8
  shndx :: u16
  st_value :: u64
  st_size :: u64

record Elf64Rela =
  offset :: u64
  sym_idx :: u32
  rela_type :: u32
  addend :: i64

record Elf64Object =
  sections :: "Elf64Section list"
  symbols :: "Elf64Symbol list"
  section_data :: "u8 list list"
  relocations :: "Elf64Rela list list"
  source_name :: string
  e_flags :: u32

definition SHF_ALLOC :: u64 where "SHF_ALLOC = 0x2"
definition SHF_EXCLUDE :: u64 where "SHF_EXCLUDE = 0x80000000"
definition SHF_GNU_RETAIN :: u64 where "SHF_GNU_RETAIN = 0x200000"

definition SHN_UNDEF :: u16 where "SHN_UNDEF = 0"
definition SHN_ABS :: u16 where "SHN_ABS = 0xfff1"
definition SHN_COMMON :: u16 where "SHN_COMMON = 0xfff2"

subsection \<open>Candidates\<close>

text \<open>\<^verbatim>\<open>SHT_NULL | SHT_STRTAB | SHT_SYMTAB | SHT_RELA | SHT_REL | SHT_GROUP\<close>.\<close>

definition never_collected :: "u32 \<Rightarrow> bool" where
  "never_collected ty \<longleftrightarrow> ty \<in> {0, 3, 2, 4, 9, 17}"

definition collectable :: "key list \<Rightarrow> key \<Rightarrow> Elf64Section \<Rightarrow> bool" where
  "collectable discarded k sec \<longleftrightarrow>
     \<not> (flags sec AND SHF_ALLOC = 0 \<or> k \<in> set discarded) \<and> \<not> never_collected (sh_type sec) \<and>
     \<not> flags sec AND SHF_EXCLUDE \<noteq> 0"

definition section_keys :: "Elf64Object list \<Rightarrow> (key \<times> Elf64Section) list" where
  "section_keys objects =
     concat (map (\<lambda>(oi, obj). map (\<lambda>(si, sec). ((oi, si), sec)) (enumerate 0 (sections obj))) (enumerate 0 objects))"

definition all_sections :: "Elf64Object list \<Rightarrow> key list \<Rightarrow> key list" where
  "all_sections objects discarded =
     map fst (filter (\<lambda>(k, sec). collectable discarded k sec) (section_keys objects))"

subsection \<open>Symbol resolution\<close>

definition is_global_binding :: "u8 \<Rightarrow> bool" where
  "is_global_binding binding \<longleftrightarrow> binding = 1 \<or> binding = 2 \<or> binding = 10"

definition undefined_index :: "u16 \<Rightarrow> bool" where
  "undefined_index i \<longleftrightarrow> i = SHN_UNDEF \<or> i = SHN_ABS \<or> i = SHN_COMMON"

type_synonym bindings = "string \<Rightarrow> (key \<times> bool) option"

definition bind_symbol :: "Elf64Object list \<Rightarrow> key list \<Rightarrow> nat \<Rightarrow> Elf64Symbol \<Rightarrow> bindings \<Rightarrow> bindings" where
  "bind_symbol objects discarded oi sy m =
     (if undefined_index (shndx sy) then m
      else let binding = drop_bit 4 (info sy)
           in if \<not> is_global_binding binding \<or> sym_name sy = [] then m
              else let k = (oi, unat (shndx sy))
                   in if length (sections (objects ! oi)) \<le> snd k \<or> k \<in> set discarded then m
                      else let strong = (binding \<noteq> 2)
                           in case m (sym_name sy) of
                                None \<Rightarrow> m(sym_name sy \<mapsto> (k, strong))
                              | Some (_, was_strong) \<Rightarrow>
                                  if strong \<and> \<not> was_strong then m(sym_name sy \<mapsto> (k, True)) else m)"

definition symbol_list :: "Elf64Object list \<Rightarrow> (nat \<times> Elf64Symbol) list" where
  "symbol_list objects = concat (map (\<lambda>(oi, obj). map (Pair oi) (symbols obj)) (enumerate 0 objects))"

definition sym_to_section :: "Elf64Object list \<Rightarrow> key list \<Rightarrow> string \<Rightarrow> key option" where
  "sym_to_section objects discarded name =
     map_option fst
       (foldl (\<lambda>m (oi, sy). bind_symbol objects discarded oi sy m) (\<lambda>_. None) (symbol_list objects) name)"

subsection \<open>Roots\<close>

definition bracket_suffix :: "string \<Rightarrow> string option" where
  "bracket_suffix name =
     (if prefix ''__start_'' name then Some (drop 8 name)
      else if prefix ''__stop_'' name then Some (drop 7 name) else None)"

definition start_stop_referenced :: "Elf64Object list \<Rightarrow> string list" where
  "start_stop_referenced objects =
     List.map_filter (\<lambda>(oi, sy). if shndx sy \<noteq> SHN_UNDEF then None else bracket_suffix (sym_name sy)) (symbol_list objects)"

definition is_root_section :: "string list \<Rightarrow> Elf64Section \<Rightarrow> bool" where
  "is_root_section start_stop sec \<longleftrightarrow>
     flags sec AND SHF_ALLOC \<noteq> 0 \<and>
     (let name = sec_name sec
      in name = ''.init_array'' \<or> prefix ''.init_array.'' name \<or>
         name = ''.fini_array'' \<or> prefix ''.fini_array.'' name \<or>
         name = ''.ctors'' \<or> prefix ''.ctors.'' name \<or>
         name = ''.dtors'' \<or> prefix ''.dtors.'' name \<or>
         name = ''.preinit_array'' \<or> prefix ''.preinit_array.'' name \<or>
         name = ''.init'' \<or> name = ''.fini'' \<or>
         name = ''.eh_frame'' \<or> prefix ''.eh_frame.'' name \<or>
         prefix ''.note.'' name \<or>
         flags sec AND SHF_GNU_RETAIN \<noteq> 0 \<or>
         name \<in> set start_stop)"

definition entry_symbols :: "string list" where
  "entry_symbols = [''_start'', ''main'', ''__libc_csu_init'', ''__libc_csu_fini'']"

text \<open>The keys that the code marks before the sweep, in its order.\<close>

definition gc_roots :: "Elf64Object list \<Rightarrow> string list \<Rightarrow> key list \<Rightarrow> key list \<Rightarrow> key list" where
  "gc_roots objects extra_roots extra_section_roots discarded =
     List.map_filter (sym_to_section objects discarded) entry_symbols @
     List.map_filter (sym_to_section objects discarded) extra_roots @
     extra_section_roots @
     map fst (filter (\<lambda>(k, sec). is_root_section (start_stop_referenced objects) sec) (section_keys objects))"

subsection \<open>The sweep\<close>

record Sweep =
  objects :: "Elf64Object list"
  candidates :: "key list"
  bound :: "string \<Rightarrow> key option"

text \<open>Live sections and the work list.\<close>

type_synonym marking = "key list \<times> key list"

definition is_eh_frame_section :: "string \<Rightarrow> bool" where
  "is_eh_frame_section name \<longleftrightarrow> prefix ''.eh_frame'' name \<and> \<not> suffix ''_hdr'' name"

definition sweep_target :: "Sweep \<Rightarrow> nat \<Rightarrow> u32 \<Rightarrow> key option" where
  "sweep_target sw oi idx =
     (case nth_opt (symbols (objects sw ! oi)) (unat idx) of
        None \<Rightarrow> None
      | Some sy \<Rightarrow>
          (let local = (if undefined_index (shndx sy) then None else Some (oi, unat (shndx sy)))
           in if is_global_binding (drop_bit 4 (info sy)) \<and> sym_name sy \<noteq> []
              then (case bound sw (sym_name sy) of Some t \<Rightarrow> Some t | None \<Rightarrow> local)
              else local))"

definition mark :: "Sweep \<Rightarrow> key \<Rightarrow> marking \<Rightarrow> marking \<times> bool" where
  "mark sw k st =
     (let (live, wl) = st
      in if k \<in> set (candidates sw) \<and> k \<notin> set live then ((k # live, wl @ [k]), True) else ((live, wl), False))"

definition mark_target :: "Sweep \<Rightarrow> nat \<Rightarrow> Elf64Rela \<Rightarrow> marking \<Rightarrow> marking" where
  "mark_target sw oi rela st = (case sweep_target sw oi (sym_idx rela) of None \<Rightarrow> st | Some t \<Rightarrow> fst (mark sw t st))"

text \<open>The relocations the sweep follows from a section.\<close>

definition followed :: "Sweep \<Rightarrow> key \<Rightarrow> Elf64Rela list" where
  "followed sw k =
     (let obj = objects sw ! fst k
      in if (case nth_opt (sections obj) (snd k) of Some s \<Rightarrow> is_eh_frame_section (sec_name s) | None \<Rightarrow> False) then []
         else (case nth_opt (relocations obj) (snd k) of None \<Rightarrow> [] | Some relocs \<Rightarrow> relocs))"

definition drain_step :: "Sweep \<Rightarrow> key \<Rightarrow> marking \<Rightarrow> marking" where
  "drain_step sw k st = foldl (\<lambda>st rela. mark_target sw (fst k) rela st) st (followed sw k)"

definition unmarked :: "Sweep \<Rightarrow> key list \<Rightarrow> nat" where
  "unmarked sw live = card (set (candidates sw) - set live)"

lemma mark_shape:
  "mark sw k (live, wl) = (st, fresh) \<Longrightarrow>
     \<exists>new. st = (rev new @ live, wl @ new) \<and> set new \<inter> set live = {} \<and> set new \<subseteq> set (candidates sw) \<and> distinct new \<and>
       (fresh \<longleftrightarrow> new \<noteq> [])"
  by (auto simp: mark_def split: if_splits)

definition extends :: "Sweep \<Rightarrow> marking \<Rightarrow> marking \<Rightarrow> bool" where
  "extends sw st st' \<longleftrightarrow>
     (\<exists>new. st' = (rev new @ fst st, snd st @ new) \<and> set new \<inter> set (fst st) = {} \<and> set new \<subseteq> set (candidates sw) \<and> distinct new)"

lemma extends_refl: "extends sw st st"
  by (auto simp: extends_def intro: exI [of _ "[]"])

lemma extends_trans: "extends sw a b \<Longrightarrow> extends sw b c \<Longrightarrow> extends sw a c"
  unfolding extends_def by (elim exE conjE, rule_tac x = "new @ newa" in exI) auto

lemma mark_extends: "extends sw st (fst (mark sw k st))"
  by (cases st) (auto simp: extends_def mark_def intro: exI [of _ "[k]"] exI [of _ "[]"])

lemma mark_target_extends: "extends sw st (mark_target sw oi rela st)"
  by (auto simp: mark_target_def extends_refl mark_extends split: option.split)

lemma foldl_extends:
  assumes "\<And>x st. extends sw st (f st x)"
  shows "extends sw st (foldl f st xs)"
proof (induction xs arbitrary: st)
  case (Cons x xs)
  then show ?case
    using extends_trans [OF assms Cons.IH] by simp
qed (simp add: extends_refl)

lemma drain_step_extends: "extends sw st (drain_step sw k st)"
  unfolding drain_step_def by (rule foldl_extends) (rule mark_target_extends)

lemma unmarked_extends:
  assumes "extends sw (live, wl) (live', wl')"
  shows "unmarked sw live' \<le> unmarked sw live"
    and "unmarked sw live' = unmarked sw live \<Longrightarrow> live' = live \<and> wl' = wl"
proof -
  obtain new where n: "live' = rev new @ live" "wl' = wl @ new" "set new \<inter> set live = {}" "set new \<subseteq> set (candidates sw)"
    using assms by (auto simp: extends_def)
  have "set (candidates sw) - set live' = set (candidates sw) - set live - set new"
    by (auto simp: n(1))
  moreover have "set new \<subseteq> set (candidates sw) - set live"
    using n(3,4) by blast
  ultimately have c: "unmarked sw live' + card (set new) = unmarked sw live"
    by (simp add: unmarked_def card_Diff_subset card_mono)
  then show "unmarked sw live' \<le> unmarked sw live"
    by linarith
  show "live' = live \<and> wl' = wl" if "unmarked sw live' = unmarked sw live"
    using that c n(1,2) by simp
qed

function drain :: "Sweep \<Rightarrow> marking \<Rightarrow> marking" where
  "drain sw (live, []) = (live, [])"
| "drain sw (live, k # wl) = drain sw (drain_step sw k (live, wl))"
  by pat_completeness auto
termination
proof (relation "(\<lambda>(sw, live, wl). unmarked sw live) <*mlex*> measure (\<lambda>(sw, live, wl). length wl)")
  fix sw live k wl
  obtain live' wl' where s: "drain_step sw k (live, wl) = (live', wl')"
    by fastforce
  have e: "extends sw (live, wl) (live', wl')"
    using drain_step_extends [of sw "(live, wl)" k] s by simp
  show "((sw, drain_step sw k (live, wl)), sw, live, k # wl)
      \<in> (\<lambda>(sw, live, wl). unmarked sw live) <*mlex*> measure (\<lambda>(sw, live, wl). length wl)"
    using unmarked_extends [OF e] by (cases "unmarked sw live' = unmarked sw live") (auto simp: s intro: mlex_less mlex_leq)
qed (simp add: wf_mlex)

lemma drain_extends: "\<exists>wl'. snd (drain sw (live, wl)) = [] \<and> extends sw (live, wl) (fst (drain sw (live, wl)), wl')"
proof (induction sw "(live, wl)" arbitrary: live wl rule: drain.induct)
  case (1 sw live)
  then show ?case
    by (auto intro: extends_refl)
next
  case (2 sw live k wl)
  obtain live1 wl1 where s: "drain_step sw k (live, wl) = (live1, wl1)"
    by fastforce
  obtain wl' where ih: "snd (drain sw (live1, wl1)) = []" "extends sw (live1, wl1) (fst (drain sw (live1, wl1)), wl')"
    using 2 [of live1 wl1] s by auto
  have "extends sw (live, wl) (live1, wl1)"
    using drain_step_extends [of sw "(live, wl)" k] s by simp
  from extends_trans [OF this ih(2)] have "extends sw (live, wl) (fst (drain sw (live1, wl1)), wl')" .
  then have "extends sw (live, k # wl) (fst (drain sw (live1, wl1)), k # wl')"
    by (auto simp: extends_def)
  then show ?case
    using ih(1) s by auto
qed

subsection \<open>Unwind records\<close>

text \<open>The relocations whose offset lies in a range, in the order of their offsets.\<close>

definition in_range :: "Elf64Rela list \<Rightarrow> nat \<Rightarrow> nat \<Rightarrow> Elf64Rela list" where
  "in_range relocs lo hi =
     takeWhile (\<lambda>r. unat (offset r) < hi)
       (dropWhile (\<lambda>r. unat (offset r) < lo) (sort_key (\<lambda>r. unat (offset r)) relocs))"

text \<open>The function that an FDE describes, and the relocations of the FDE and of its CIE.\<close>

definition fde_func :: "Sweep \<Rightarrow> nat \<Rightarrow> Elf64Rela list \<Rightarrow> nat \<Rightarrow> key option" where
  "fde_func sw oi relocs iloc =
     (case in_range relocs iloc (iloc + 1) of [] \<Rightarrow> None | r # _ \<Rightarrow> sweep_target sw oi (sym_idx r))"

definition fde_relocs :: "u8 list \<Rightarrow> Elf64Rela list \<Rightarrow> EhFrameRecord list \<Rightarrow> nat \<Rightarrow> Elf64Rela list" where
  "fde_relocs data relocs records ri =
     (let r = records ! ri;
          cie = map_option (\<lambda>c. (rec_start (records ! c), rec_end (records ! c))) (fde_cie_index data records ri);
          ranges = (rec_start r, rec_end r) # (case cie of None \<Rightarrow> [] | Some rg \<Rightarrow> [rg])
      in concat (map (\<lambda>(lo, hi). in_range relocs lo hi) ranges))"

text \<open>Marking, handled records, and whether anything was marked in this round.\<close>

type_synonym fde_state = "marking \<times> (nat \<times> nat \<times> nat) list \<times> bool"

definition fde_mark :: "Sweep \<Rightarrow> nat \<Rightarrow> marking \<times> bool \<Rightarrow> Elf64Rela \<Rightarrow> marking \<times> bool" where
  "fde_mark sw oi mp rela =
     (case sweep_target sw oi (sym_idx rela) of
        None \<Rightarrow> mp
      | Some t \<Rightarrow> (let (m, fresh) = mark sw t (fst mp) in (m, snd mp \<or> fresh)))"

definition fde_step :: "Sweep \<Rightarrow> key \<Rightarrow> u8 list \<Rightarrow> Elf64Rela list \<Rightarrow> EhFrameRecord list \<Rightarrow> fde_state \<Rightarrow> nat \<Rightarrow> fde_state" where
  "fde_step sw k data relocs records st ri =
     (let (m, handled, progress) = st
      in case iloc_offset (records ! ri) of
           None \<Rightarrow> st
         | Some iloc \<Rightarrow>
             if (fst k, snd k, ri) \<in> set handled then st
             else if (case fde_func sw (fst k) relocs iloc of None \<Rightarrow> False | Some f \<Rightarrow> f \<notin> set (fst m)) then st
             else let (m, progress) = foldl (fde_mark sw (fst k)) (m, progress) (fde_relocs data relocs records ri)
                  in (m, (fst k, snd k, ri) # handled, progress))"

definition eh_section_step :: "Sweep \<Rightarrow> fde_state \<Rightarrow> key \<times> Elf64Section \<Rightarrow> fde_state" where
  "eh_section_step sw st ksec =
     (let (k, sec) = ksec; obj = objects sw ! fst k
      in if \<not> is_eh_frame_section (sec_name sec) \<or> k \<notin> set (fst (fst st)) then st
         else case nth_opt (section_data obj) (snd k) of
                None \<Rightarrow> st
              | Some data \<Rightarrow>
                  (let relocs = (case nth_opt (relocations obj) (snd k) of None \<Rightarrow> [] | Some rs \<Rightarrow> rs)
                   in if relocs = [] then st
                      else let records = scan_eh_frame_records data
                           in foldl (fde_step sw k data relocs records) st [0..<length records]))"

definition fde_round :: "Sweep \<Rightarrow> marking \<Rightarrow> (nat \<times> nat \<times> nat) list \<Rightarrow> fde_state" where
  "fde_round sw m handled = foldl (eh_section_step sw) (m, handled, False) (section_keys (objects sw))"

text \<open>A state whose marking grew, and whose flag says so.\<close>

definition tracks :: "Sweep \<Rightarrow> fde_state \<Rightarrow> fde_state \<Rightarrow> bool" where
  "tracks sw st st' \<longleftrightarrow> extends sw (fst st) (fst st') \<and> snd (snd st') = (snd (snd st) \<or> fst st' \<noteq> fst st)"

lemma extends_antisym: "extends sw a b \<Longrightarrow> extends sw b a \<Longrightarrow> b = a"
  by (cases a) (auto simp: extends_def)

lemma tracks_refl: "tracks sw st st"
  by (simp add: tracks_def extends_refl)

lemma tracks_trans:
  assumes "tracks sw a b" and "tracks sw b c"
  shows "tracks sw a c"
proof -
  have e: "extends sw (fst a) (fst b)" "extends sw (fst b) (fst c)"
    using assms by (auto simp: tracks_def)
  have "fst b = fst a" if "fst c = fst a"
    using extends_antisym [OF e(1)] e(2) that by simp
  then show ?thesis
    using assms extends_trans [OF e] by (auto simp: tracks_def)
qed

lemma foldl_tracks:
  assumes "\<And>x st. tracks sw st (f st x)"
  shows "tracks sw st (foldl f st xs)"
proof (induction xs arbitrary: st)
  case (Cons x xs)
  then show ?case
    using tracks_trans [OF assms Cons.IH] by simp
qed (simp add: tracks_refl)

lemma fde_mark_tracks: "tracks sw (m, h, p) (fst (fde_mark sw oi (m, p) rela), h, snd (fde_mark sw oi (m, p) rela))"
proof (cases "sweep_target sw oi (sym_idx rela)")
  case (Some t)
  then show ?thesis
    using mark_extends [of sw m t] by (cases m) (auto simp: fde_mark_def tracks_def mark_def Let_def)
qed (simp add: fde_mark_def tracks_refl)

lemma foldl_fde_mark_tracks:
  "tracks sw (m, h, p) (fst (foldl (fde_mark sw oi) (m, p) rs), h, snd (foldl (fde_mark sw oi) (m, p) rs))"
proof (induction rs arbitrary: m p)
  case (Cons r rs)
  obtain m1 p1 where f: "fde_mark sw oi (m, p) r = (m1, p1)"
    by fastforce
  have "tracks sw (m, h, p) (m1, h, p1)"
    using fde_mark_tracks [of sw m h p oi r] f by simp
  from tracks_trans [OF this Cons.IH] show ?case
    by (simp add: f)
qed (simp add: tracks_refl)

lemma fde_step_tracks: "tracks sw st (fde_step sw k data relocs records st ri)"
proof -
  obtain m h p where st: "st = (m, h, p)"
    by (cases st)
  show ?thesis
    using foldl_fde_mark_tracks [of sw m h p "fst k" "fde_relocs data relocs records ri"]
    by (auto simp: fde_step_def st extends_refl Let_def tracks_def split: option.split prod.split)
qed

lemma eh_section_step_tracks: "tracks sw st (eh_section_step sw st ksec)"
proof -
  have "tracks sw st (foldl (fde_step sw k data relocs records) st xs)" for k data relocs records xs
    by (rule foldl_tracks) (rule fde_step_tracks)
  then show ?thesis
    by (auto simp: eh_section_step_def tracks_refl Let_def split: prod.split option.split)
qed

lemma fde_round_tracks: "tracks sw (m, h, False) (fde_round sw m h)"
  unfolding fde_round_def by (rule foldl_tracks) (rule eh_section_step_tracks)

lemma fde_round_marks:
  assumes "fde_round sw m handled = (m', handled', True)"
  shows "unmarked sw (fst (drain sw m')) < unmarked sw (fst m)"
proof -
  obtain live wl live' wl' where m: "m = (live, wl)" "m' = (live', wl')"
    by fastforce
  have "tracks sw (m, handled, False) (m', handled', True)"
    using fde_round_tracks [of sw m handled] assms by simp
  then have e: "extends sw (live, wl) (live', wl')" and ne: "(live', wl') \<noteq> (live, wl)"
    by (auto simp: tracks_def m)
  then have "unmarked sw live' < unmarked sw live"
    using unmarked_extends [OF e] by fastforce
  moreover obtain wl2 where "extends sw (live', wl') (fst (drain sw (live', wl')), wl2)"
    using drain_extends by blast
  then have "unmarked sw (fst (drain sw m')) \<le> unmarked sw live'"
    using unmarked_extends(1) m(2) by blast
  ultimately show ?thesis
    by (simp add: m(1))
qed

function resurrect :: "Sweep \<Rightarrow> marking \<Rightarrow> (nat \<times> nat \<times> nat) list \<Rightarrow> marking" where
  "resurrect sw m handled =
     (let (m', handled', progress) = fde_round sw m handled;
          m'' = drain sw m'
      in if \<not> progress then m'' else resurrect sw m'' handled')"
  by auto
termination
  by (relation "measure (\<lambda>(sw, m, handled). unmarked sw (fst m))") (auto intro: fde_round_marks [OF sym])

declare resurrect.simps [simp del]

subsection \<open>The collector\<close>

definition gc_sweep :: "Elf64Object list \<Rightarrow> key list \<Rightarrow> Sweep" where
  "gc_sweep objs discarded =
     \<lparr>objects = objs, candidates = all_sections objs discarded, bound = sym_to_section objs discarded\<rparr>"

definition gc_live :: "Sweep \<Rightarrow> key list \<Rightarrow> key list" where
  "gc_live sw roots = fst (resurrect sw (drain sw (foldl (\<lambda>st k. fst (mark sw k st)) ([], []) roots)) [])"

definition gc_collect_sections_elf64_full ::
  "Elf64Object list \<Rightarrow> string list \<Rightarrow> key list \<Rightarrow> key list \<Rightarrow> key list" where
  "gc_collect_sections_elf64_full objs extra_roots extra_section_roots discarded =
     (let live = gc_live (gc_sweep objs discarded) (gc_roots objs extra_roots extra_section_roots discarded)
      in filter (\<lambda>k. k \<notin> set live) (all_sections objs discarded))"

definition gc_collect_sections_elf64_roots_and_sections :: "Elf64Object list \<Rightarrow> string list \<Rightarrow> key list \<Rightarrow> key list" where
  "gc_collect_sections_elf64_roots_and_sections objs extra_roots extra_section_roots =
     gc_collect_sections_elf64_full objs extra_roots extra_section_roots []"

definition gc_collect_sections_elf64_roots :: "Elf64Object list \<Rightarrow> string list \<Rightarrow> key list" where
  "gc_collect_sections_elf64_roots objs extra_roots = gc_collect_sections_elf64_roots_and_sections objs extra_roots []"

definition gc_collect_sections_elf64 :: "Elf64Object list \<Rightarrow> key list" where
  "gc_collect_sections_elf64 objs = gc_collect_sections_elf64_roots objs []"

end
