(* ===== verification/GcReach.thy ===== *)
theory GcReach
  imports GcSections
begin

text \<open>
  What the collector promises: it discards exactly the candidate sections that cannot be reached from the roots, where
  reachability follows relocations and, for unwind records of live functions, the dependencies of the record.
\<close>

subsection \<open>Resolution picks the first strong definition, else the first weak one\<close>

definition global_definitions :: "Elf64Object list \<Rightarrow> key list \<Rightarrow> (string \<times> key \<times> bool) list" where
  "global_definitions objs discarded =
     List.map_filter
       (\<lambda>(oi, sy).
          let binding = drop_bit 4 (info sy); k = (oi, unat (shndx sy))
          in if undefined_index (shndx sy) \<or> \<not> is_global_binding binding \<or> sym_name sy = [] \<or>
                length (sections (objs ! oi)) \<le> snd k \<or> k \<in> set discarded
             then None else Some (sym_name sy, k, binding \<noteq> 2))
       (symbol_list objs)"

definition resolve :: "(string \<times> key \<times> bool) list \<Rightarrow> string \<Rightarrow> key option" where
  "resolve defs name =
     (case find (\<lambda>(n, _, strong). n = name \<and> strong) defs of
        Some (_, k, _) \<Rightarrow> Some k
      | None \<Rightarrow> map_option (fst \<circ> snd) (find (\<lambda>(n, _, _). n = name) defs))"

definition bind_definition :: "bindings \<Rightarrow> string \<times> key \<times> bool \<Rightarrow> bindings" where
  "bind_definition m d =
     (case d of (name, k, strong) \<Rightarrow>
        (case m name of
           None \<Rightarrow> m(name \<mapsto> (k, strong))
         | Some (_, was_strong) \<Rightarrow> if strong \<and> \<not> was_strong then m(name \<mapsto> (k, True)) else m))"

lemma find_append: "find P (xs @ ys) = (case find P xs of None \<Rightarrow> find P ys | Some x \<Rightarrow> Some x)"
  by (induction xs) auto

lemma foldl_bind_definition:
  "foldl bind_definition (\<lambda>_. None) defs name =
     (case find (\<lambda>(n, _, strong). n = name \<and> strong) defs of
        Some (_, k, _) \<Rightarrow> Some (k, True)
      | None \<Rightarrow> map_option (\<lambda>(_, k, _). (k, False)) (find (\<lambda>(n, _, _). n = name) defs))"
proof (induction defs rule: rev_induct)
  case (snoc d defs)
  obtain n k s where d: "d = (n, k, s)"
    by (cases d)
  show ?case
  proof (cases "n = name")
    case True
    show ?thesis
    proof (cases "find (\<lambda>(n, _, strong). n = name \<and> strong) defs")
      case None
      show ?thesis
        using snoc None
        by (cases "find (\<lambda>(n, _, _). n = name) defs"; cases s) (auto simp: d True find_append bind_definition_def)
    next
      case (Some e)
      then show ?thesis
        using snoc by (cases e) (simp add: d True find_append bind_definition_def)
    qed
  next
    case False
    then have "foldl bind_definition (\<lambda>_. None) (defs @ [d]) name = foldl bind_definition (\<lambda>_. None) defs name"
      by (simp add: d bind_definition_def split: option.split)
    then show ?thesis
      using snoc False
      by (cases "find (\<lambda>(n, _, strong). n = name \<and> strong) defs"; cases "find (\<lambda>(n, _, _). n = name) defs")
        (simp_all add: d find_append)
  qed
qed simp

lemma bind_symbol_eq:
  "foldl (\<lambda>m (oi, sy). bind_symbol objs discarded oi sy m) m syms =
   foldl bind_definition m
     (List.map_filter
       (\<lambda>(oi, sy).
          let binding = drop_bit 4 (info sy); k = (oi, unat (shndx sy))
          in if undefined_index (shndx sy) \<or> \<not> is_global_binding binding \<or> sym_name sy = [] \<or>
                length (sections (objs ! oi)) \<le> snd k \<or> k \<in> set discarded
             then None else Some (sym_name sy, k, binding \<noteq> 2)) syms)"
proof (induction syms arbitrary: m)
  case (Cons s syms)
  obtain oi sy where s: "s = (oi, sy)"
    by fastforce
  show ?case
    by (simp add: s Cons.IH map_filter_simps) (simp add: bind_symbol_def bind_definition_def Let_def)
qed (simp add: map_filter_simps)

lemma sym_to_section_resolve: "sym_to_section objs discarded name = resolve (global_definitions objs discarded) name"
  unfolding sym_to_section_def bind_symbol_eq global_definitions_def [symmetric] foldl_bind_definition resolve_def
  by (cases "find (\<lambda>(n, _, strong). n = name \<and> strong) (global_definitions objs discarded)";
      cases "find (\<lambda>(n, _, _). n = name) (global_definitions objs discarded)") (auto split: prod.split)

subsection \<open>Reachability\<close>

text \<open>The data and relocations of an unwind section.\<close>

definition eh_unwind :: "Sweep \<Rightarrow> key \<Rightarrow> (u8 list \<times> Elf64Rela list) option" where
  "eh_unwind sw k =
     (if fst k < length (objects sw)
      then let obj = objects sw ! fst k
           in case (nth_opt (sections obj) (snd k), nth_opt (section_data obj) (snd k), nth_opt (relocations obj) (snd k)) of
                (Some sec, Some data, Some relocs) \<Rightarrow>
                  if is_eh_frame_section (sec_name sec) \<and> relocs \<noteq> [] then Some (data, relocs) else None
              | _ \<Rightarrow> None
      else None)"

inductive gc_reachable :: "Sweep \<Rightarrow> key set \<Rightarrow> key \<Rightarrow> bool" for sw roots where
  gc_root: "k \<in> roots \<Longrightarrow> k \<in> set (candidates sw) \<Longrightarrow> gc_reachable sw roots k"
| gc_relocation:
    "gc_reachable sw roots k \<Longrightarrow> rela \<in> set (followed sw k) \<Longrightarrow> sweep_target sw (fst k) (sym_idx rela) = Some t \<Longrightarrow>
     t \<in> set (candidates sw) \<Longrightarrow> gc_reachable sw roots t"
| gc_unwind:
    "gc_reachable sw roots k \<Longrightarrow> eh_unwind sw k = Some (data, relocs) \<Longrightarrow> ri < length (scan_eh_frame_records data) \<Longrightarrow>
     iloc_offset (scan_eh_frame_records data ! ri) = Some iloc \<Longrightarrow>
     fde_func sw (fst k) relocs iloc = Some f \<Longrightarrow> gc_reachable sw roots f \<Longrightarrow>
     rela \<in> set (fde_relocs data relocs (scan_eh_frame_records data) ri) \<Longrightarrow>
     sweep_target sw (fst k) (sym_idx rela) = Some t \<Longrightarrow> t \<in> set (candidates sw) \<Longrightarrow> gc_reachable sw roots t"
| gc_unwind_unattributed:
    "gc_reachable sw roots k \<Longrightarrow> eh_unwind sw k = Some (data, relocs) \<Longrightarrow> ri < length (scan_eh_frame_records data) \<Longrightarrow>
     iloc_offset (scan_eh_frame_records data ! ri) = Some iloc \<Longrightarrow> fde_func sw (fst k) relocs iloc = None \<Longrightarrow>
     rela \<in> set (fde_relocs data relocs (scan_eh_frame_records data) ri) \<Longrightarrow>
     sweep_target sw (fst k) (sym_idx rela) = Some t \<Longrightarrow> t \<in> set (candidates sw) \<Longrightarrow> gc_reachable sw roots t"

subsection \<open>Marking\<close>

abbreviation mark_all :: "Sweep \<Rightarrow> marking \<Rightarrow> key list \<Rightarrow> marking" where
  "mark_all sw st ks \<equiv> foldl (\<lambda>st k. fst (mark sw k st)) st ks"

definition targets :: "Sweep \<Rightarrow> nat \<Rightarrow> Elf64Rela list \<Rightarrow> key list" where
  "targets sw oi relas = List.map_filter (\<lambda>r. sweep_target sw oi (sym_idx r)) relas"

lemma set_targets: "t \<in> set (targets sw oi relas) \<longleftrightarrow> (\<exists>r \<in> set relas. sweep_target sw oi (sym_idx r) = Some t)"
  by (force simp: targets_def map_filter_def)

lemma mark_all_marks:
  assumes "mark_all sw (live, wl) ks = (live', wl')"
  shows "set live' = set live \<union> (set ks \<inter> set (candidates sw))" and "set wl' = set wl \<union> (set live' - set live)"
  using assms
proof (atomize (full), induction ks arbitrary: live wl)
  case (Cons k ks)
  obtain live1 wl1 where s: "fst (mark sw k (live, wl)) = (live1, wl1)"
    by fastforce
  then have "set live1 = set live \<union> ({k} \<inter> set (candidates sw))" "set wl1 = set wl \<union> (set live1 - set live)"
    by (auto simp: mark_def split: if_splits)
  then show ?case
    using Cons.IH [of live1 wl1] Cons.prems s by auto
qed simp

lemma drain_step_mark_all: "drain_step sw k st = mark_all sw st (targets sw (fst k) (followed sw k))"
proof -
  have "foldl (\<lambda>st rela. mark_target sw oi rela st) st rs = mark_all sw st (targets sw oi rs)" for oi rs st
    by (induction rs arbitrary: st) (auto simp: targets_def map_filter_simps mark_target_def split: option.split)
  then show ?thesis
    by (simp add: drain_step_def)
qed

lemma fde_mark_mark_all: "fst (foldl (fde_mark sw oi) (m, p) rs) = mark_all sw m (targets sw oi rs)"
  by (induction rs arbitrary: m p)
    (auto simp: targets_def map_filter_simps fde_mark_def Let_def split: option.split prod.split)

subsection \<open>The sweep closes the live set over relocations\<close>

definition closed_except :: "Sweep \<Rightarrow> key set \<Rightarrow> key set \<Rightarrow> bool" where
  "closed_except sw live todo \<longleftrightarrow>
     (\<forall>k \<in> live - todo. \<forall>t \<in> set (targets sw (fst k) (followed sw k)). t \<in> set (candidates sw) \<longrightarrow> t \<in> live)"

definition marking_ok :: "Sweep \<Rightarrow> key set \<Rightarrow> marking \<Rightarrow> bool" where
  "marking_ok sw roots m \<longleftrightarrow>
     set (snd m) \<subseteq> set (fst m) \<and> closed_except sw (set (fst m)) (set (snd m)) \<and> (\<forall>k \<in> set (fst m). gc_reachable sw roots k)"

lemma mark_all_ok:
  assumes "marking_ok sw roots (live, wl)"
    and "\<And>t. t \<in> set ks \<Longrightarrow> t \<in> set (candidates sw) \<Longrightarrow> gc_reachable sw roots t"
  shows "marking_ok sw roots (mark_all sw (live, wl) ks)"
proof -
  obtain live' wl' where m: "mark_all sw (live, wl) ks = (live', wl')"
    by fastforce
  note s = mark_all_marks [OF m]
  have "closed_except sw (set live') (set wl')"
    using assms(1) unfolding marking_ok_def closed_except_def s by auto
  then show ?thesis
    using assms s unfolding marking_ok_def m by auto
qed

lemma drain_ok:
  assumes "marking_ok sw roots (live, wl)"
  shows "marking_ok sw roots (drain sw (live, wl)) \<and> set live \<subseteq> set (fst (drain sw (live, wl)))"
  using assms
proof (induction sw "(live, wl)" arbitrary: live wl rule: drain.induct)
  case (2 sw live k wl)
  let ?ks = "targets sw (fst k) (followed sw k)"
  obtain live' wl' where m: "drain_step sw k (live, wl) = (live', wl')"
    by fastforce
  then have m': "mark_all sw (live, wl) ?ks = (live', wl')"
    by (simp add: drain_step_mark_all)
  note s = mark_all_marks [OF m']
  have k: "k \<in> set live" "gc_reachable sw roots k"
    using 2(2) by (auto simp: marking_ok_def)
  have "gc_reachable sw roots t" if "t \<in> set ?ks" "t \<in> set (candidates sw)" for t
    using that k(2) by (auto simp: set_targets intro: gc_relocation)
  moreover have "closed_except sw (set live') (set wl')"
    using 2(2) unfolding marking_ok_def closed_except_def s by auto
  ultimately have "marking_ok sw roots (live', wl')"
    using 2(2) s by (auto simp: marking_ok_def)
  then show ?case
    using 2(1) [of live' wl'] m s(1) by auto
qed simp

subsection \<open>Unwind records\<close>

lemma mem_concat_map: "y \<in> set (concat (map f xs)) \<longleftrightarrow> (\<exists>x \<in> set xs. y \<in> set (f x))"
  by auto

lemma mem_section_keys:
  "(k, sec) \<in> set (section_keys objs) \<longleftrightarrow>
     fst k < length objs \<and> nth_opt (sections (objs ! fst k)) (snd k) = Some sec"
proof -
  obtain oi si where k: "k = (oi, si)"
    by fastforce
  have "((oi, si), sec) \<in> set (section_keys objs) \<longleftrightarrow>
      (\<exists>obj. (oi, obj) \<in> set (enumerate 0 objs) \<and> (si, sec) \<in> set (enumerate 0 (sections obj)))"
  proof -
    have "((oi, si), sec) \<in> set (map (\<lambda>(si, sec). ((i, si), sec)) ys) \<longleftrightarrow> i = oi \<and> (si, sec) \<in> set ys" for i ys
      by force
    then show ?thesis
      unfolding section_keys_def mem_concat_map by (auto simp: case_prod_unfold Bex_def simp del: set_map)
  qed
  then show ?thesis
    by (auto simp: k in_set_enumerate_eq nth_opt_def)
qed

definition unwind_targets :: "Sweep \<Rightarrow> key \<Rightarrow> u8 list \<Rightarrow> Elf64Rela list \<Rightarrow> nat \<Rightarrow> key list" where
  "unwind_targets sw k data relocs ri = targets sw (fst k) (fde_relocs data relocs (scan_eh_frame_records data) ri)"

definition fde_live :: "Sweep \<Rightarrow> key \<Rightarrow> Elf64Rela list \<Rightarrow> EhFrameRecord \<Rightarrow> key set \<Rightarrow> bool" where
  "fde_live sw k relocs r live \<longleftrightarrow>
     (case iloc_offset r of
        None \<Rightarrow> False
      | Some iloc \<Rightarrow> (case fde_func sw (fst k) relocs iloc of None \<Rightarrow> True | Some f \<Rightarrow> f \<in> live))"

lemma fde_live_mono: "fde_live sw k relocs r live \<Longrightarrow> live \<subseteq> live' \<Longrightarrow> fde_live sw k relocs r live'"
  by (auto simp: fde_live_def split: option.splits)

lemma fde_step_eq:
  "fde_step sw k data relocs (scan_eh_frame_records data) (m, h, p) ri =
     (if fde_live sw k relocs (scan_eh_frame_records data ! ri) (set (fst m)) \<and> (fst k, snd k, ri) \<notin> set h
      then (mark_all sw m (unwind_targets sw k data relocs ri), (fst k, snd k, ri) # h,
            snd (foldl (fde_mark sw (fst k)) (m, p) (fde_relocs data relocs (scan_eh_frame_records data) ri)))
      else (m, h, p))"
  by (auto simp: fde_step_def fde_live_def unwind_targets_def fde_mark_mark_all [symmetric, where p = p] Let_def
      split: option.split prod.split)

lemma eh_section_step_eq:
  assumes "(k, sec) \<in> set (section_keys (objects sw))"
  shows "eh_section_step sw st (k, sec) =
     (if k \<in> set (fst (fst st))
      then (case eh_unwind sw k of
              None \<Rightarrow> st
            | Some (data, relocs) \<Rightarrow>
                foldl (fde_step sw k data relocs (scan_eh_frame_records data)) st [0..<length (scan_eh_frame_records data)])
      else st)"
  using assms by (auto simp: eh_section_step_def eh_unwind_def mem_section_keys Let_def split: option.split)

definition handled_ok :: "Sweep \<Rightarrow> key set \<Rightarrow> (nat \<times> nat \<times> nat) set \<Rightarrow> bool" where
  "handled_ok sw live h \<longleftrightarrow>
     (\<forall>oi si ri data relocs. (oi, si, ri) \<in> h \<longrightarrow> eh_unwind sw (oi, si) = Some (data, relocs) \<longrightarrow>
        set (unwind_targets sw (oi, si) data relocs ri) \<inter> set (candidates sw) \<subseteq> live)"

lemma handled_ok_mono: "handled_ok sw live h \<Longrightarrow> live \<subseteq> live' \<Longrightarrow> handled_ok sw live' h"
  unfolding handled_ok_def by blast

definition round_ok :: "Sweep \<Rightarrow> key set \<Rightarrow> fde_state \<Rightarrow> bool" where
  "round_ok sw roots st \<longleftrightarrow> marking_ok sw roots (fst st) \<and> handled_ok sw (set (fst (fst st))) (set (fst (snd st)))"

definition grows :: "fde_state \<Rightarrow> fde_state \<Rightarrow> bool" where
  "grows st st' \<longleftrightarrow> set (fst (fst st)) \<subseteq> set (fst (fst st')) \<and> set (fst (snd st)) \<subseteq> set (fst (snd st'))"

lemma grows_refl: "grows st st"
  by (simp add: grows_def)

lemma grows_trans: "grows a b \<Longrightarrow> grows b c \<Longrightarrow> grows a c"
  by (auto simp: grows_def)

lemma mark_all_grows: "set (fst m) \<subseteq> set (fst (mark_all sw m ks))"
proof -
  obtain live wl live' wl' where "m = (live, wl)" "mark_all sw m ks = (live', wl')"
    by fastforce
  then show ?thesis
    using mark_all_marks(1) [of sw live wl ks live' wl'] by auto
qed

lemma fde_step_ok:
  assumes ok: "round_ok sw roots st" and k: "k \<in> set (fst (fst st))"
    and un: "eh_unwind sw k = Some (data, relocs)" and ri: "ri < length (scan_eh_frame_records data)"
  defines "st' \<equiv> fde_step sw k data relocs (scan_eh_frame_records data) st ri"
  shows "round_ok sw roots st'" and "grows st st'"
    and "fde_live sw k relocs (scan_eh_frame_records data ! ri) (set (fst (fst st))) \<Longrightarrow> (fst k, snd k, ri) \<in> set (fst (snd st'))"
proof -
  obtain live wl h p where st: "st = ((live, wl), h, p)"
    by (metis prod.exhaust)
  let ?r = "scan_eh_frame_records data ! ri" and ?ts = "unwind_targets sw k data relocs ri"
  show "grows st st'"
    using mark_all_grows [of "(live, wl)" sw ?ts] by (auto simp: st'_def st fde_step_eq grows_def)
  show "(fst k, snd k, ri) \<in> set (fst (snd st'))" if "fde_live sw k relocs ?r (set (fst (fst st)))"
    using that by (simp add: st'_def st fde_step_eq)
  show "round_ok sw roots st'"
  proof (cases "fde_live sw k relocs ?r (set live) \<and> (fst k, snd k, ri) \<notin> set h")
    case True
    obtain live' wl' where m: "mark_all sw (live, wl) ?ts = (live', wl')"
      by fastforce
    have mok: "marking_ok sw roots (live, wl)" and hok: "handled_ok sw (set live) (set h)"
      using ok by (simp_all add: round_ok_def st)
    have live: "gc_reachable sw roots x" if "x \<in> set live" for x
      using mok that by (simp add: marking_ok_def)
    have "gc_reachable sw roots t" if t: "t \<in> set ?ts" "t \<in> set (candidates sw)" for t
    proof -
      obtain rela where r: "rela \<in> set (fde_relocs data relocs (scan_eh_frame_records data) ri)"
          "sweep_target sw (fst k) (sym_idx rela) = Some t"
        using t(1) by (auto simp: unwind_targets_def set_targets)
      obtain iloc where i: "iloc_offset ?r = Some iloc"
        using True by (auto simp: fde_live_def split: option.splits)
      have rk: "gc_reachable sw roots k"
        using live k by (simp add: st)
      show ?thesis
      proof (cases "fde_func sw (fst k) relocs iloc")
        case None
        show ?thesis
          by (rule gc_unwind_unattributed [OF rk un ri i None r t(2)])
      next
        case (Some f)
        then have "gc_reachable sw roots f"
          using True i live by (simp add: fde_live_def)
        then show ?thesis
          by (rule gc_unwind [OF rk un ri i Some _ r t(2)])
      qed
    qed
    then have mok': "marking_ok sw roots (live', wl')"
      using mark_all_ok [OF mok, of ?ts] m by simp
    have l: "set live' = set live \<union> (set ?ts \<inter> set (candidates sw))"
      using mark_all_marks(1) [OF m] .
    have "handled_ok sw (set live') (insert (fst k, snd k, ri) (set h))"
      using handled_ok_mono [OF hok, of "set live'"] l un unfolding handled_ok_def by auto
    then show ?thesis
      using mok' True by (simp add: st'_def st fde_step_eq m round_ok_def)
  next
    case False
    then show ?thesis
      using ok by (auto simp: st'_def st fde_step_eq)
  qed
qed

lemma fde_steps_ok:
  assumes "round_ok sw roots st" and "k \<in> set (fst (fst st))" and un: "eh_unwind sw k = Some (data, relocs)"
    and "set ris \<subseteq> {..<length (scan_eh_frame_records data)}"
  defines "st' \<equiv> foldl (fde_step sw k data relocs (scan_eh_frame_records data)) st ris"
  shows "round_ok sw roots st' \<and> grows st st' \<and>
    (\<forall>ri \<in> set ris. fde_live sw k relocs (scan_eh_frame_records data ! ri) (set (fst (fst st))) \<longrightarrow>
       (fst k, snd k, ri) \<in> set (fst (snd st')))"
  using assms(1,2,4) unfolding st'_def
proof (induction ris arbitrary: st)
  case (Cons ri ris)
  let ?f = "fde_step sw k data relocs (scan_eh_frame_records data)"
  have ri: "ri < length (scan_eh_frame_records data)"
    using Cons.prems(3) by simp
  note s = fde_step_ok [OF Cons.prems(1,2) un ri]
  have k: "k \<in> set (fst (fst (?f st ri)))"
    using s(2) Cons.prems(2) by (auto simp: grows_def)
  have ih: "round_ok sw roots (foldl ?f (?f st ri) ris)" "grows (?f st ri) (foldl ?f (?f st ri) ris)"
      "\<And>i. i \<in> set ris \<Longrightarrow> fde_live sw k relocs (scan_eh_frame_records data ! i) (set (fst (fst (?f st ri)))) \<Longrightarrow>
        (fst k, snd k, i) \<in> set (fst (snd (foldl ?f (?f st ri) ris)))"
    using Cons.IH [OF s(1) k] Cons.prems(3) by auto
  have "(fst k, snd k, i) \<in> set (fst (snd (foldl ?f (?f st ri) ris)))"
    if i: "i \<in> set (ri # ris)" and l: "fde_live sw k relocs (scan_eh_frame_records data ! i) (set (fst (fst st)))" for i
  proof (cases "i = ri")
    case True
    then show ?thesis
      using s(3) l ih(2) unfolding grows_def by blast
  next
    case False
    then show ?thesis
      using ih(3) i fde_live_mono [OF l] s(2) by (simp add: grows_def)
  qed
  then show ?case
    using ih(1) grows_trans [OF s(2) ih(2)] by simp
qed (simp add: grows_refl)

text \<open>Every record of a live unwind section whose function is live is handled.\<close>

definition sections_handled :: "Sweep \<Rightarrow> key set \<Rightarrow> key set \<Rightarrow> (nat \<times> nat \<times> nat) set \<Rightarrow> bool" where
  "sections_handled sw ks live h \<longleftrightarrow>
     (\<forall>k data relocs ri. k \<in> ks \<longrightarrow> k \<in> live \<longrightarrow> eh_unwind sw k = Some (data, relocs) \<longrightarrow>
        ri < length (scan_eh_frame_records data) \<longrightarrow> fde_live sw k relocs (scan_eh_frame_records data ! ri) live \<longrightarrow>
        (fst k, snd k, ri) \<in> h)"

lemma eh_section_step_ok:
  assumes ok: "round_ok sw roots st" and ks: "(k, sec) \<in> set (section_keys (objects sw))"
  defines "st' \<equiv> eh_section_step sw st (k, sec)"
  shows "round_ok sw roots st' \<and> grows st st' \<and> sections_handled sw {k} (set (fst (fst st))) (set (fst (snd st')))"
proof (cases "k \<in> set (fst (fst st)) \<and> eh_unwind sw k \<noteq> None")
  case True
  then obtain data relocs where un: "eh_unwind sw k = Some (data, relocs)"
    by auto
  let ?ris = "[0..<length (scan_eh_frame_records data)]"
  have "set ?ris \<subseteq> {..<length (scan_eh_frame_records data)}"
    by auto
  from fde_steps_ok [OF ok _ un this] True show ?thesis
    by (auto simp: st'_def eh_section_step_eq [OF ks] un sections_handled_def)
next
  case False
  then have "st' = st"
    by (auto simp: st'_def eh_section_step_eq [OF ks] split: option.split)
  then show ?thesis
    using ok False by (auto simp: grows_refl sections_handled_def)
qed

lemma sections_handled_mono:
  "sections_handled sw ks live h \<Longrightarrow> live' \<subseteq> live \<Longrightarrow> h \<subseteq> h' \<Longrightarrow> sections_handled sw ks live' h'"
  unfolding sections_handled_def using fde_live_mono by (meson in_mono)

lemma eh_section_steps_ok:
  assumes "round_ok sw roots st" and "set kss \<subseteq> set (section_keys (objects sw))"
  defines "st' \<equiv> foldl (eh_section_step sw) st kss"
  shows "round_ok sw roots st' \<and> grows st st' \<and> sections_handled sw (fst ` set kss) (set (fst (fst st))) (set (fst (snd st')))"
  using assms(1,2) unfolding st'_def
proof (induction kss arbitrary: st)
  case (Cons ks kss)
  obtain k sec where k: "ks = (k, sec)"
    by fastforce
  let ?f = "eh_section_step sw"
  have s: "round_ok sw roots (?f st ks)" "grows st (?f st ks)"
      "sections_handled sw {k} (set (fst (fst st))) (set (fst (snd (?f st ks))))"
    using eh_section_step_ok [OF Cons.prems(1), of k sec] Cons.prems(2) by (auto simp: k)
  have ih: "round_ok sw roots (foldl ?f (?f st ks) kss)" "grows (?f st ks) (foldl ?f (?f st ks) kss)"
      "sections_handled sw (fst ` set kss) (set (fst (fst (?f st ks)))) (set (fst (snd (foldl ?f (?f st ks) kss))))"
    using Cons.IH [OF s(1)] Cons.prems(2) by auto
  have "sections_handled sw {k} (set (fst (fst st))) (set (fst (snd (foldl ?f (?f st ks) kss))))"
    by (rule sections_handled_mono [OF s(3)]) (use ih(2) in \<open>auto simp: grows_def\<close>)
  moreover have "sections_handled sw (fst ` set kss) (set (fst (fst st))) (set (fst (snd (foldl ?f (?f st ks) kss))))"
    by (rule sections_handled_mono [OF ih(3)]) (use s(2) in \<open>auto simp: grows_def\<close>)
  ultimately have "sections_handled sw (fst ` set (ks # kss)) (set (fst (fst st))) (set (fst (snd (foldl ?f (?f st ks) kss))))"
    by (auto simp: sections_handled_def k)
  then show ?case
    using ih(1) grows_trans [OF s(2) ih(2)] by simp
qed (auto simp: grows_refl sections_handled_def)

subsection \<open>The collector keeps exactly the reachable sections\<close>

lemma fde_round_ok:
  assumes "marking_ok sw roots m" and "handled_ok sw (set (fst m)) (set h)" and r: "fde_round sw m h = (m', h', p)"
  shows "marking_ok sw roots m'" and "handled_ok sw (set (fst m')) (set h')" and "set (fst m) \<subseteq> set (fst m')"
    and "sections_handled sw (fst ` set (section_keys (objects sw))) (set (fst m)) (set h')"
  using eh_section_steps_ok [of sw roots "(m, h, False)" "section_keys (objects sw)"] assms
  by (simp_all add: fde_round_def round_ok_def grows_def)

definition unwind_closed :: "Sweep \<Rightarrow> key set \<Rightarrow> bool" where
  "unwind_closed sw live \<longleftrightarrow>
     (\<forall>k data relocs ri. k \<in> live \<longrightarrow> eh_unwind sw k = Some (data, relocs) \<longrightarrow>
        ri < length (scan_eh_frame_records data) \<longrightarrow> fde_live sw k relocs (scan_eh_frame_records data ! ri) live \<longrightarrow>
        set (unwind_targets sw k data relocs ri) \<inter> set (candidates sw) \<subseteq> live)"

lemma eh_unwind_section: "eh_unwind sw k = Some x \<Longrightarrow> k \<in> fst ` set (section_keys (objects sw))"
  unfolding eh_unwind_def image_iff Bex_def split_paired_Ex mem_section_keys
  by (cases k) (auto simp: Let_def split: if_splits option.splits)

lemma unwind_closedD:
  "unwind_closed sw live \<Longrightarrow> k \<in> live \<Longrightarrow> eh_unwind sw k = Some (data, relocs) \<Longrightarrow>
   ri < length (scan_eh_frame_records data) \<Longrightarrow> fde_live sw k relocs (scan_eh_frame_records data ! ri) live \<Longrightarrow>
   rela \<in> set (fde_relocs data relocs (scan_eh_frame_records data) ri) \<Longrightarrow> sweep_target sw (fst k) (sym_idx rela) = Some t \<Longrightarrow>
   t \<in> set (candidates sw) \<Longrightarrow> t \<in> live"
  unfolding unwind_closed_def unwind_targets_def by (meson IntI in_mono set_targets)

lemma handled_closed:
  assumes h: "handled_ok sw live h" and s: "sections_handled sw (fst ` set (section_keys (objects sw))) live h"
  shows "unwind_closed sw live"
  unfolding unwind_closed_def
proof (intro allI impI)
  fix k data relocs ri
  assume k: "k \<in> live" and un: "eh_unwind sw k = Some (data, relocs)" and ri: "ri < length (scan_eh_frame_records data)"
    and l: "fde_live sw k relocs (scan_eh_frame_records data ! ri) live"
  have "(fst k, snd k, ri) \<in> h"
    using s eh_unwind_section [OF un] k un ri l unfolding sections_handled_def by blast
  then show "set (unwind_targets sw k data relocs ri) \<inter> set (candidates sw) \<subseteq> live"
    using h un unfolding handled_ok_def by (metis prod.collapse)
qed

lemma resurrect_ok:
  assumes "marking_ok sw roots m" and "snd m = []" and "handled_ok sw (set (fst m)) (set h)"
  shows "marking_ok sw roots (resurrect sw m h) \<and> snd (resurrect sw m h) = [] \<and>
    set (fst m) \<subseteq> set (fst (resurrect sw m h)) \<and> unwind_closed sw (set (fst (resurrect sw m h)))"
  using assms
proof (induction sw m h rule: resurrect.induct)
  case (1 sw m h)
  obtain m' h' p where r: "fde_round sw m h = (m', h', p)"
    using prod_cases3 by blast
  note f = fde_round_ok [OF 1(2,4) r]
  obtain live' wl' where m': "m' = (live', wl')"
    by fastforce
  have d: "marking_ok sw roots (drain sw m')" "set (fst m') \<subseteq> set (fst (drain sw m'))" "snd (drain sw m') = []"
    using drain_ok [of sw roots live' wl'] f(1) drain_extends [of sw live' wl'] by (auto simp: m')
  show ?case
  proof (cases p)
    case True
    have "handled_ok sw (set (fst (drain sw m'))) (set h')"
      by (rule handled_ok_mono [OF f(2) d(2)])
    then show ?thesis
      using 1(1) [OF r [symmetric] refl refl refl] True d f(3) by (subst (1 2 3 4) resurrect.simps) (auto simp: r)
  next
    case False
    then have "m' = m"
      using fde_round_tracks [of sw m h] r by (simp add: tracks_def)
    moreover have "drain sw m = m"
      using 1(3) by (cases m) simp
    moreover have "unwind_closed sw (set (fst m))"
      using handled_closed [OF _ f(4)] f(2) \<open>m' = m\<close> by simp
    ultimately show ?thesis
      using 1(2,3) False by (simp add: resurrect.simps r)
  qed
qed

lemma gc_live_reachable: "set (gc_live sw roots) = {k. gc_reachable sw (set roots) k}"
proof -
  obtain live0 wl0 where m0: "mark_all sw ([], []) roots = (live0, wl0)"
    by fastforce
  have "marking_ok sw (set roots) ([], [])"
    by (simp add: marking_ok_def closed_except_def)
  then have "marking_ok sw (set roots) (live0, wl0)"
    using mark_all_ok [of sw "set roots" "[]" "[]" roots] m0 by (auto intro: gc_root)
  from drain_ok [OF this] have d: "marking_ok sw (set roots) (drain sw (live0, wl0))" "set live0 \<subseteq> set (fst (drain sw (live0, wl0)))"
    by auto
  have "snd (drain sw (live0, wl0)) = []"
    using drain_extends by blast
  from resurrect_ok [OF d(1) this, of "[]"] obtain m where m: "resurrect sw (drain sw (live0, wl0)) [] = m"
      "marking_ok sw (set roots) m" "snd m = []" "set (fst (drain sw (live0, wl0))) \<subseteq> set (fst m)" "unwind_closed sw (set (fst m))"
    by (auto simp: handled_ok_def)
  have "k \<in> set (fst m)" if "gc_reachable sw (set roots) k" for k
    using that
  proof induction
    case (gc_root k)
    then show ?case
      using mark_all_marks(1) [OF m0] d(2) m(4) by auto
  next
    case (gc_relocation k rela t)
    then have "t \<in> set (targets sw (fst k) (followed sw k))"
      by (auto simp: set_targets)
    then show ?case
      using m(2,3) gc_relocation by (simp add: marking_ok_def closed_except_def)
  next
    case (gc_unwind k data relocs ri iloc f rela t)
    then show ?case
      using unwind_closedD [OF m(5), of k data relocs ri rela t] by (simp add: fde_live_def)
  next
    case (gc_unwind_unattributed k data relocs ri iloc rela t)
    then show ?case
      using unwind_closedD [OF m(5), of k data relocs ri rela t] by (simp add: fde_live_def)
  qed
  moreover have "gc_reachable sw (set roots) k" if "k \<in> set (fst m)" for k
    using m(2) that by (simp add: marking_ok_def)
  ultimately show ?thesis
    by (auto simp: gc_live_def m0 m(1))
qed

text \<open>
  C6: the collector discards exactly the candidate sections that are not reachable from the roots, through the relocations of
  reachable sections and the dependencies of the unwind records whose function is reachable. Both loops end, and the result does not depend on
  the order in which the work list is served.
\<close>

theorem gc_discards_exactly_the_unreachable:
  "set (gc_collect_sections_elf64_full objs extra_roots extra_section_roots discarded) =
     {k \<in> set (all_sections objs discarded).
        \<not> gc_reachable (gc_sweep objs discarded) (set (gc_roots objs extra_roots extra_section_roots discarded)) k}"
  by (auto simp: gc_collect_sections_elf64_full_def Let_def gc_live_reachable)

text \<open>
  A name binds to its first strong definition among the global definitions of the link, in the order of objects and symbols, and to
  the first weak one if no definition is strong; definitions in discarded sections and outside the section table do not take part.
\<close>

theorem name_binds_to_first_strong_definition:
  "sym_to_section objs discarded name =
     (case find (\<lambda>(n, _, strong). n = name \<and> strong) (global_definitions objs discarded) of
        Some (_, k, _) \<Rightarrow> Some k
      | None \<Rightarrow> map_option (fst \<circ> snd) (find (\<lambda>(n, _, _). n = name) (global_definitions objs discarded)))"
  by (simp add: sym_to_section_resolve resolve_def)

end
