(* ===== verification/EhCompact.thy ===== *)
theory EhCompact
  imports EhFrame
begin

text \<open>
  Removing records from an unrelocated \<^verbatim>\<open>.eh_frame\<close> section, \<^verbatim>\<open>compact_records\<close> of
  \<^verbatim>\<open>src/src/backend/linker_common/eh_frame.rs\<close>: the survivors are packed, and the CIE pointer of every surviving FDE
  is encoded again for its new distance. Scanning the result gives exactly the survivors, each FDE with its CIE.
\<close>

text \<open>\<^verbatim>\<open>out[pos..pos + n].copy_from_slice(bytes)\<close>.\<close>

definition splice_bytes :: "u8 list \<Rightarrow> nat \<Rightarrow> u8 list \<Rightarrow> u8 list" where
  "splice_bytes out pos bytes = take pos out @ bytes @ drop (pos + length bytes) out"

definition byte_slice :: "'a list \<Rightarrow> nat \<Rightarrow> nat \<Rightarrow> 'a list" where
  "byte_slice xs lo hi = take (hi - lo) (drop lo xs)"

text \<open>The removed records have no new offset (\<^verbatim>\<open>usize::MAX\<close> in the code).\<close>

record EhFrameCompaction =
  packed :: "u8 list"
  old_records :: "EhFrameRecord list"
  new_start :: "nat option list"

fun place_records :: "(EhFrameRecord \<times> bool) list \<Rightarrow> nat \<Rightarrow> nat option list" where
  "place_records [] off = []"
| "place_records ((r, removed) # rs) off =
     (if removed then None # place_records rs off
      else Some off # place_records rs (off + (rec_end r - rec_start r)))"

definition packed_size :: "(EhFrameRecord \<times> bool) list \<Rightarrow> nat" where
  "packed_size rs = (\<Sum>(r, removed) \<leftarrow> rs. if removed then 0 else rec_end r - rec_start r)"

definition encode_cie_pointer :: "nat \<Rightarrow> nat \<Rightarrow> u8 list" where
  "encode_cie_pointer width v = (if width = 8 then to_le_bytes 8 (of_nat v :: u64) else to_le_bytes 4 (of_nat v :: u32))"

definition copy_record :: "u8 list \<Rightarrow> EhFrameRecord list \<Rightarrow> nat option list \<Rightarrow> u8 list \<Rightarrow> nat \<Rightarrow> u8 list" where
  "copy_record data records starts out i =
     (let r = records ! i
      in case starts ! i of
           None \<Rightarrow> out
         | Some dst \<Rightarrow>
             (let out = splice_bytes out dst (byte_slice data (rec_start r) (rec_end r))
              in if \<not> is_fde r then out
                 else case cie_at records (cie_position data r) of
                        None \<Rightarrow> out
                      | Some cie \<Rightarrow>
                          (case starts ! cie of
                             None \<Rightarrow> out
                           | Some cie_start \<Rightarrow>
                               (let field_pos = dst + (id_offset r - rec_start r)
                                in if field_pos \<le> cie_start then out
                                   else splice_bytes out field_pos (encode_cie_pointer (id_size r) (field_pos - cie_start))))))"

definition compact_records :: "u8 list \<Rightarrow> EhFrameRecord list \<Rightarrow> bool list \<Rightarrow> EhFrameCompaction" where
  "compact_records data records removed =
     (let starts = place_records (zip records removed) 0
      in \<lparr>packed = foldl (copy_record data records starts) (replicate (packed_size (zip records removed)) 0) [0..<length records],
          old_records = records, new_start = starts\<rparr>)"

definition compact_eh_frame :: "u8 list \<Rightarrow> EhFrameRecord list \<Rightarrow> bool list \<Rightarrow> EhFrameCompaction" where
  "compact_eh_frame data records prune = compact_records data records (map (\<lambda>(r, p). p \<and> is_fde r) (zip records prune))"

text \<open>
  Where a byte of the old section is in the packed one. The starts ascend, so the binary search of the code stops behind the records that
  start at or before the byte.
\<close>

definition map_offset :: "EhFrameCompaction \<Rightarrow> nat \<Rightarrow> nat option" where
  "map_offset c off =
     (case length (takeWhile (\<lambda>r. rec_start r \<le> off) (old_records c)) of
        0 \<Rightarrow> Some off
      | Suc i \<Rightarrow>
          if off < rec_end (old_records c ! i)
          then map_option (\<lambda>s. off - rec_start (old_records c ! i) + s) (new_start c ! i)
          else Some off)"

subsection \<open>Records are self-contained\<close>

definition parse_record :: "u8 list \<Rightarrow> nat \<Rightarrow> EhFrameRecord option" where
  "parse_record data pos =
     (if \<not> pos + 4 \<le> length data \<or> read_u32_le data pos = 0 then None
      else map_option
             (\<lambda>(data_start, stop, n). let fde = (read_id data data_start n \<noteq> 0)
                in \<lparr>rec_start = pos, rec_end = stop, is_fde = fde,
                    iloc_offset = (if fde then Some (data_start + n) else None), id_offset = data_start, id_size = n\<rparr>)
             (record_bounds data pos (read_u32_le data pos)))"

lemma scan_from_parse_record:
  "scan_from data pos =
     (if \<not> pos + 4 \<le> length data then []
      else if read_u32_le data pos = 0 then scan_from data (pos + 4)
      else case parse_record data pos of None \<Rightarrow> [] | Some r \<Rightarrow> r # scan_from data (rec_end r))"
  by (subst scan_from.simps) (auto simp: parse_record_def Let_def split: option.split)

lemma parse_record_start: "parse_record data pos = Some r \<Longrightarrow> rec_start r = pos"
  by (auto simp: parse_record_def Let_def split: if_splits)

lemma parse_record_advances: "parse_record data pos = Some r \<Longrightarrow> pos < rec_end r \<and> rec_end r \<le> length data"
  by (auto simp: parse_record_def Let_def split: if_splits dest!: record_bounds_SomeD)

lemma scan_from_parses: "r \<in> set (scan_from data pos) \<Longrightarrow> parse_record data (rec_start r) = Some r"
proof (induction "length data - pos" arbitrary: pos rule: less_induct)
  case less
  show ?case
  proof (cases "pos + 4 \<le> length data \<and> read_u32_le data pos = 0")
    case True
    then have "r \<in> set (scan_from data (pos + 4))"
      using less.prems by (subst (asm) scan_from_parse_record) simp
    then show ?thesis
      using less.hyps [of "pos + 4"] True by (simp add: diff_less_mono2)
  next
    case False
    then obtain r0 where r0: "pos + 4 \<le> length data" "parse_record data pos = Some r0" "r = r0 \<or> r \<in> set (scan_from data (rec_end r0))"
      using less.prems scan_from_parse_record [of data pos] by (auto split: if_splits option.splits)
    then show ?thesis
      using less.hyps [of "rec_end r0"] parse_record_start [OF r0(2)] parse_record_advances [OF r0(2)] by auto
  qed
qed

lemma scan_from_step:
  assumes "parse_record data pos = Some r"
  shows "scan_from data pos = r # scan_from data (rec_end r)"
proof -
  have "pos + 4 \<le> length data" "read_u32_le data pos \<noteq> 0"
    using assms by (auto simp: parse_record_def split: if_splits)
  then show ?thesis
    using assms by (subst scan_from_parse_record) simp
qed

text \<open>A record moved to another position.\<close>

definition moved :: "EhFrameRecord \<Rightarrow> nat \<Rightarrow> EhFrameRecord" where
  "moved r dst =
     r\<lparr>rec_start := dst, rec_end := dst + (rec_end r - rec_start r), id_offset := dst + (id_offset r - rec_start r),
       iloc_offset := map_option (\<lambda>i. dst + (i - rec_start r)) (iloc_offset r)\<rparr>"

lemma read_chunk:
  assumes "m + n \<le> length chunk"
  shows "take n (drop (length pre + m) (pre @ chunk @ post)) = take n (drop m chunk)"
  using assms by simp

lemma take_eq_sub: "take k xs = take k ys \<Longrightarrow> m + n \<le> k \<Longrightarrow> take n (drop m xs) = take n (drop m ys)"
  by (metis add.commute take_drop min.absorb1 take_take)

definition header_size :: "EhFrameRecord \<Rightarrow> nat" where
  "header_size r = id_offset r - rec_start r"

lemma parse_record_SomeD:
  assumes "parse_record data s = Some r"
  shows "rec_start r = s" and "id_size r = 4 \<or> id_size r = 8" and "id_offset r = s + header_size r"
    and "header_size r = (if id_size r = 8 then 12 else 4)" and "s + header_size r + id_size r \<le> rec_end r"
    and "rec_end r \<le> length data" and "is_fde r = (read_id data (id_offset r) (id_size r) \<noteq> 0)"
    and "iloc_offset r = (if is_fde r then Some (id_offset r + id_size r) else None)"
    and "read_u32_le data s \<noteq> 0" and "read_u32_le data s = - 1 \<longleftrightarrow> id_size r = 8"
    and "rec_end r = id_offset r + (if id_size r = 8 then unat (read_u64_le data (s + 4)) else unat (read_u32_le data s))"
  using assms by (auto simp: parse_record_def record_bounds_def header_size_def Let_def split: if_splits)

lemma parse_moved:
  assumes r: "parse_record data (rec_start r) = Some r"
    and len: "length chunk = rec_end r - rec_start r"
    and header: "take (header_size r) chunk = take (header_size r) (drop (rec_start r) data)"
    and fde: "read_id chunk (header_size r) (id_size r) = 0 \<longleftrightarrow> \<not> is_fde r"
  shows "parse_record (pre @ chunk @ post) (length pre) = Some (moved r (length pre))"
proof -
  note d = parse_record_SomeD [OF r]
  let ?out = "pre @ chunk @ post"
  have hs: "4 \<le> header_size r" and l: "header_size r + id_size r \<le> length chunk"
    using d(4,5) len by (auto split: if_splits)
  have u32: "read_u32_le ?out (length pre) = read_u32_le data (rec_start r)"
    using take_eq_sub [OF header, of 0 4] hs l read_chunk [of 0 4 chunk pre post] by (simp add: read_u32_le_def)
  have u64: "read_u64_le ?out (length pre + 4) = read_u64_le data (rec_start r + 4)" if "id_size r = 8"
    using take_eq_sub [OF header, of 4 8] d(4) that l read_chunk [of 4 8 chunk pre post]
    by (simp add: read_u64_le_def add.commute)
  have ident: "read_id ?out (length pre + header_size r) (id_size r) = read_id chunk (header_size r) (id_size r)"
    using d(2) l read_chunk [of "header_size r" _ chunk pre post] by (auto simp: read_id_def read_u32_le_def read_u64_le_def)
  have "record_bounds ?out (length pre) (read_u32_le data (rec_start r)) =
      Some (length pre + header_size r, length pre + (rec_end r - rec_start r), id_size r)"
    using d u64 l len unfolding record_bounds_def by (auto simp: Let_def)
  then have "parse_record ?out (length pre) =
      Some \<lparr>rec_start = length pre, rec_end = length pre + (rec_end r - rec_start r), is_fde = is_fde r,
        iloc_offset = (if is_fde r then Some (length pre + header_size r + id_size r) else None),
        id_offset = length pre + header_size r, id_size = id_size r\<rparr>"
    using ident fde hs l d(9) by (simp add: parse_record_def u32)
  moreover have "moved r (length pre) =
      \<lparr>rec_start = length pre, rec_end = length pre + (rec_end r - rec_start r), is_fde = is_fde r,
        iloc_offset = (if is_fde r then Some (length pre + header_size r + id_size r) else None),
        id_offset = length pre + header_size r, id_size = id_size r\<rparr>"
    by (rule EhFrameRecord.equality) (simp_all add: moved_def d(3,8) header_size_def [symmetric])
  ultimately show ?thesis
    by simp
qed

subsection \<open>Packing\<close>

text \<open>The new CIE pointer of a record, if it is written, and the bytes of a surviving record in the packed section.\<close>

definition new_pointer :: "u8 list \<Rightarrow> EhFrameRecord list \<Rightarrow> nat option list \<Rightarrow> nat \<Rightarrow> nat \<Rightarrow> nat option" where
  "new_pointer data records starts i dst =
     (if \<not> is_fde (records ! i) then None
      else case cie_at records (cie_position data (records ! i)) of
             None \<Rightarrow> None
           | Some cie \<Rightarrow>
               (case starts ! cie of
                  None \<Rightarrow> None
                | Some cie_start \<Rightarrow>
                    if dst + header_size (records ! i) \<le> cie_start then None
                    else Some (dst + header_size (records ! i) - cie_start)))"

definition record_chunk :: "u8 list \<Rightarrow> EhFrameRecord list \<Rightarrow> nat option list \<Rightarrow> nat \<Rightarrow> nat \<Rightarrow> u8 list" where
  "record_chunk data records starts i dst =
     (let r = records ! i; old = byte_slice data (rec_start r) (rec_end r)
      in case new_pointer data records starts i dst of
           None \<Rightarrow> old
         | Some v \<Rightarrow> splice_bytes old (header_size r) (encode_cie_pointer (id_size r) v))"

lemma new_pointer_bounds: "new_pointer data records starts i dst = Some v \<Longrightarrow> 0 < v \<and> v \<le> dst + header_size (records ! i) \<and> is_fde (records ! i)"
  by (auto simp: new_pointer_def split: if_splits option.splits)

lemma splice_middle:
  "length bytes = length mid \<Longrightarrow> splice_bytes (pre @ mid @ post) (length pre) bytes = pre @ bytes @ post"
  by (simp add: splice_bytes_def)

lemma splice_inside:
  "k + length bytes \<le> length mid \<Longrightarrow>
     splice_bytes (pre @ mid @ post) (length pre + k) bytes = pre @ splice_bytes mid k bytes @ post"
  by (simp add: splice_bytes_def)

lemma length_splice_bytes: "k + length bytes \<le> length out \<Longrightarrow> length (splice_bytes out k bytes) = length out"
  by (simp add: splice_bytes_def)

lemma nth_splice_bytes:
  "k < h \<or> h + length bytes \<le> k \<Longrightarrow> h + length bytes \<le> length out \<Longrightarrow> splice_bytes out h bytes ! k = out ! k"
  by (auto simp: splice_bytes_def nth_append)

lemma length_encode_cie_pointer: "width = 4 \<or> width = 8 \<Longrightarrow> length (encode_cie_pointer width v) = width"
  by (auto simp: encode_cie_pointer_def)

lemma length_byte_slice: "hi \<le> length xs \<Longrightarrow> length (byte_slice xs lo hi) = hi - lo"
  by (simp add: byte_slice_def)

lemma record_chunk_shape:
  assumes r: "parse_record data (rec_start (records ! i)) = Some (records ! i)"
  defines "r \<equiv> records ! i"
  shows "length (record_chunk data records starts i dst) = rec_end r - rec_start r"
    and "starts ! i = Some dst \<Longrightarrow> length pre = dst \<Longrightarrow> length gap = rec_end r - rec_start r \<Longrightarrow>
      copy_record data records starts (pre @ gap @ post) i = pre @ record_chunk data records starts i dst @ post"
proof -
  note d = parse_record_SomeD [OF r, folded r_def]
  let ?old = "byte_slice data (rec_start r) (rec_end r)"
  have old: "length ?old = rec_end r - rec_start r"
    using d(6) by (simp add: length_byte_slice)
  have enc: "header_size r + length (encode_cie_pointer (id_size r) v) \<le> length ?old" for v
    using d(2,5) by (simp add: length_encode_cie_pointer old)
  show "length (record_chunk data records starts i dst) = rec_end r - rec_start r"
    by (simp add: record_chunk_def r_def [symmetric] old Let_def length_splice_bytes [OF enc] split: option.split)
  assume a: "starts ! i = Some dst" "length pre = dst" "length gap = rec_end r - rec_start r"
  have "splice_bytes (pre @ gap @ post) dst ?old = pre @ ?old @ post"
    using splice_middle [of ?old gap pre post] a(2,3) old by simp
  then show "copy_record data records starts (pre @ gap @ post) i = pre @ record_chunk data records starts i dst @ post"
    using splice_inside [OF enc, of pre post] a
    by (auto simp: copy_record_def record_chunk_def new_pointer_def r_def [symmetric] Let_def header_size_def split: option.split)
qed

lemma place_records_nth:
  "i < length rs \<Longrightarrow> place_records rs off ! i = (if snd (rs ! i) then None else Some (off + packed_size (take i rs)))"
proof (induction rs arbitrary: i off)
  case (Cons x rs)
  then show ?case
    by (cases x; cases i) (auto simp: packed_size_def)
qed simp

lemma length_place_records: "length (place_records rs off) = length rs"
  by (induction rs off rule: place_records.induct) auto

lemma packed_size_take_Suc:
  assumes "i < length rs"
  shows "packed_size (take (Suc i) rs) =
    packed_size (take i rs) + (if snd (rs ! i) then 0 else rec_end (fst (rs ! i)) - rec_start (fst (rs ! i)))"
  using assms by (simp add: packed_size_def take_Suc_conv_app_nth case_prod_unfold)

lemma packed_size_mono: "k \<le> length rs \<Longrightarrow> packed_size (take k rs) \<le> packed_size rs"
  using append_take_drop_id [of k rs] by (metis (no_types, lifting) le_add1 map_append packed_size_def sum_list_append)

definition chunks :: "u8 list \<Rightarrow> EhFrameRecord list \<Rightarrow> nat option list \<Rightarrow> nat \<Rightarrow> u8 list" where
  "chunks data records starts i = (case starts ! i of None \<Rightarrow> [] | Some dst \<Rightarrow> record_chunk data records starts i dst)"

definition all_parse :: "u8 list \<Rightarrow> EhFrameRecord list \<Rightarrow> bool" where
  "all_parse data records \<longleftrightarrow> (\<forall>r \<in> set records. parse_record data (rec_start r) = Some r)"

lemma scan_all_parse: "all_parse data (scan_eh_frame_records data)"
  by (auto simp: all_parse_def scan_eh_frame_records_def scan_from_parses)

lemma length_chunks:
  assumes ok: "all_parse data records" and n: "length removed = length records" and k: "k \<le> length records"
  defines "starts \<equiv> place_records (zip records removed) 0"
  shows "length (concat (map (chunks data records starts) [0..<k])) = packed_size (take k (zip records removed))"
  using k
proof (induction k)
  case (Suc k)
  then have "k < length (zip records removed)"
    using n by simp
  moreover have "parse_record data (rec_start (records ! k)) = Some (records ! k)"
    using ok Suc.prems by (simp add: all_parse_def)
  ultimately show ?case
    using Suc n by (simp add: packed_size_take_Suc chunks_def starts_def place_records_nth record_chunk_shape(1))
qed (simp add: packed_size_def)

lemma copies_eq_chunks:
  assumes ok: "all_parse data records" and n: "length removed = length records" and k: "k \<le> length records"
  defines "starts \<equiv> place_records (zip records removed) 0" and "whole \<equiv> packed_size (zip records removed)"
  shows "foldl (copy_record data records starts) (replicate whole 0) [0..<k] =
    concat (map (chunks data records starts) [0..<k]) @ replicate (whole - packed_size (take k (zip records removed))) 0"
  using k
proof (induction k)
  case 0
  then show ?case
    by (simp add: packed_size_def)
next
  case (Suc k)
  let ?rs = "zip records removed" and ?pre = "concat (map (chunks data records starts) [0..<k])"
  have k: "k < length ?rs"
    using Suc.prems n by simp
  have p: "parse_record data (rec_start (records ! k)) = Some (records ! k)"
    using ok Suc.prems by (simp add: all_parse_def)
  have len: "length ?pre = packed_size (take k ?rs)"
    using length_chunks [OF ok n, of k] Suc.prems by (simp add: starts_def)
  have fold: "foldl (copy_record data records starts) (replicate whole 0) [0..<Suc k] =
      copy_record data records starts (?pre @ replicate (whole - packed_size (take k ?rs)) 0) k"
    using Suc by simp
  show ?case
  proof (cases "removed ! k")
    case True
    then have "starts ! k = None"
      using k n by (simp add: starts_def place_records_nth)
    then have "chunks data records starts k = []" "copy_record data records starts out k = out" for out
      by (simp_all add: copy_record_def chunks_def)
    then show ?thesis
      unfolding fold using True k packed_size_take_Suc [OF k] by simp
  next
    case False
    then have s: "starts ! k = Some (packed_size (take k ?rs))"
      using k n by (simp add: starts_def place_records_nth)
    have sz: "packed_size (take (Suc k) ?rs) = packed_size (take k ?rs) + (rec_end (records ! k) - rec_start (records ! k))"
      using packed_size_take_Suc [OF k] False k by simp
    moreover have "packed_size (take (Suc k) ?rs) \<le> whole"
      using packed_size_mono [of "Suc k" ?rs] k by (simp add: whole_def)
    ultimately have gap: "replicate (whole - packed_size (take k ?rs)) (0 :: u8) =
        replicate (rec_end (records ! k) - rec_start (records ! k)) 0 @ replicate (whole - packed_size (take (Suc k) ?rs)) 0"
      by (simp add: replicate_add [symmetric])
    have "chunks data records starts k = record_chunk data records starts k (packed_size (take k ?rs))"
      by (simp add: chunks_def s)
    then show ?thesis
      unfolding fold gap
      using record_chunk_shape(2) [OF p s len, of "replicate (rec_end (records ! k) - rec_start (records ! k)) 0"] by simp
  qed
qed

lemma packed_chunks:
  assumes ok: "all_parse data records" and n: "length removed = length records"
  shows "packed (compact_records data records removed) =
    concat (map (chunks data records (place_records (zip records removed) 0)) [0..<length records])"
  using copies_eq_chunks [OF ok n le_refl] n by (simp add: compact_records_def Let_def)

subsection \<open>Scanning the packed section\<close>

lemma packed_before:
  assumes ok: "all_parse data records" and so: "sorted_wrt (\<lambda>r r'. rec_end r \<le> rec_start r') records"
    and n: "length removed = length records" and i: "i < length records"
  shows "packed_size (take i (zip records removed)) \<le> rec_start (records ! i)"
  using i
proof (induction i)
  case (Suc i)
  have "rec_end (records ! i) \<le> rec_start (records ! Suc i)"
    using sorted_wrt_nth_less [OF so, of i "Suc i"] Suc.prems by simp
  moreover have "rec_start (records ! i) < rec_end (records ! i)"
    using ok parse_record_advances [of data "rec_start (records ! i)"] Suc.prems by (simp add: all_parse_def)
  ultimately show ?case
    using Suc n packed_size_take_Suc [of i "zip records removed"] by auto
qed (simp add: packed_size_def)

lemma read_patched:
  assumes "width = 4 \<or> width = 8" and "k + width \<le> length out" and "v < 2 ^ 32"
  shows "read_id (splice_bytes out k (encode_cie_pointer width v)) k width = of_nat v"
proof -
  have f: "take width (drop k (splice_bytes out k (encode_cie_pointer width v))) = encode_cie_pointer width v"
    using assms(1,2) by (auto simp: splice_bytes_def encode_cie_pointer_def)
  have "(of_nat v :: 64 word) = ucast (of_nat v :: 32 word)"
    using assms(3) by (intro word_unat_eq_iff [THEN iffD2]) (simp add: unat_ucast_up unsigned_of_nat take_bit_nat_eq_self)
  then show ?thesis
    using f assms(1) by (auto simp: read_id_def read_u32_le_def read_u64_le_def encode_cie_pointer_def from_to_le_bytes take_bit_word_eq_self)
qed

lemma read_byte_slice:
  assumes "k + width \<le> hi - lo" and "width = 4 \<or> width = 8"
  shows "read_id (byte_slice data lo hi) k width = read_id data (lo + k) width"
proof -
  have "take width (drop k (byte_slice data lo hi)) = take width (drop (lo + k) data)"
    using assms(1) by (simp add: byte_slice_def drop_take add.commute)
  then show ?thesis
    using assms(2) by (auto simp: read_id_def read_u32_le_def read_u64_le_def)
qed

lemma record_chunk_parses:
  assumes ok: "parse_record data (rec_start (records ! i)) = Some (records ! i)"
    and small: "length data < 2 ^ 32" and dst: "dst \<le> rec_start (records ! i)"
  shows "parse_record (pre @ record_chunk data records starts i dst @ post) (length pre) = Some (moved (records ! i) (length pre))"
proof (rule parse_moved [OF ok])
  let ?r = "records ! i" and ?chunk = "record_chunk data records starts i dst"
  let ?old = "byte_slice data (rec_start ?r) (rec_end ?r)"
  note d = parse_record_SomeD [OF ok]
  show "length ?chunk = rec_end ?r - rec_start ?r"
    by (rule record_chunk_shape(1) [OF ok])
  have old: "take (header_size ?r) ?old = take (header_size ?r) (drop (rec_start ?r) data)"
    using d(5) by (simp add: byte_slice_def min_def)
  have rd: "read_id ?old (header_size ?r) (id_size ?r) = read_id data (id_offset ?r) (id_size ?r)"
    using read_byte_slice [of "header_size ?r" "id_size ?r" "rec_end ?r" "rec_start ?r" data] d(2,3,5) by simp
  have "take (header_size ?r) ?chunk = take (header_size ?r) (drop (rec_start ?r) data) \<and>
      (read_id ?chunk (header_size ?r) (id_size ?r) = 0 \<longleftrightarrow> \<not> is_fde ?r)"
  proof (cases "new_pointer data records starts i dst")
    case None
    then show ?thesis
      using old rd d(7) by (simp add: record_chunk_def Let_def)
  next
    case (Some v)
    note b = new_pointer_bounds [OF Some]
    have v: "v < 2 ^ 32"
      using b dst d(5,6) small by linarith
    have l: "header_size ?r + id_size ?r \<le> length ?old"
      using d(5,6) by (simp add: length_byte_slice)
    have "unat (of_nat v :: 64 word) = v"
      using v by (simp add: unsigned_of_nat take_bit_nat_eq_self)
    then have "(of_nat v :: 64 word) \<noteq> 0"
      using b by (metis less_not_refl unsigned_0)
    moreover have "take (header_size ?r) (splice_bytes ?old (header_size ?r) bytes) = take (header_size ?r) ?old" for bytes
      using l by (simp add: splice_bytes_def)
    ultimately show ?thesis
      using b read_patched [OF d(2) l v] old by (simp add: record_chunk_def Some Let_def)
  qed
  then show "take (header_size ?r) ?chunk = take (header_size ?r) (drop (rec_start ?r) data)"
    and "read_id ?chunk (header_size ?r) (id_size ?r) = 0 \<longleftrightarrow> \<not> is_fde ?r"
    by blast+
qed

lemma packed_split:
  assumes ok: "all_parse data records" and n: "length removed = length records"
    and k: "k < length records" and kept: "\<not> removed ! k"
  defines "starts \<equiv> place_records (zip records removed) 0" and "dst \<equiv> packed_size (take k (zip records removed))"
  shows "starts ! k = Some dst"
    and "\<exists>pre post. length pre = dst \<and>
      concat (map (chunks data records starts) [0..<length records]) = pre @ record_chunk data records starts k dst @ post"
proof -
  let ?pre = "concat (map (chunks data records starts) [0..<k])" and ?post = "concat (map (chunks data records starts) [Suc k..<length records])"
  show s: "starts ! k = Some dst"
    using k n kept by (simp add: starts_def dst_def place_records_nth)
  have "[0..<length records] = [0..<k] @ k # [Suc k..<length records]"
    using k upt_add_eq_append [of 0 k "length records - k"] by (simp add: upt_conv_Cons)
  then have "concat (map (chunks data records starts) [0..<length records]) = ?pre @ record_chunk data records starts k dst @ ?post"
    by (simp add: chunks_def s)
  moreover have "length ?pre = dst"
    unfolding starts_def dst_def using length_chunks [OF ok n, of k] k by simp
  ultimately show "\<exists>pre post. length pre = dst \<and>
      concat (map (chunks data records starts) [0..<length records]) = pre @ record_chunk data records starts k dst @ post"
    by blast
qed

lemma scan_packed:
  assumes ok: "all_parse data records" and so: "sorted_wrt (\<lambda>r r'. rec_end r \<le> rec_start r') records"
    and n: "length removed = length records" and small: "length data < 2 ^ 32" and k: "k \<le> length records"
  defines "starts \<equiv> place_records (zip records removed) 0"
  defines "out \<equiv> concat (map (chunks data records starts) [0..<length records])"
  shows "scan_from out (packed_size (take k (zip records removed))) =
    map (\<lambda>i. moved (records ! i) (the (starts ! i))) (filter (\<lambda>i. \<not> removed ! i) [k..<length records])"
  using k
proof (induction k rule: inc_induct)
  case base
  have "length out = packed_size (take (length records) (zip records removed))"
    unfolding out_def starts_def by (rule length_chunks [OF ok n le_refl])
  then show ?case
    by (subst scan_from_parse_record) simp
next
  case (step k)
  let ?rs = "zip records removed"
  have k: "k < length ?rs"
    using step n by simp
  have up: "[k..<length records] = k # [Suc k..<length records]"
    using step by (simp add: upt_conv_Cons)
  show ?case
  proof (cases "removed ! k")
    case True
    then show ?thesis
      using step.IH packed_size_take_Suc [OF k] k by (simp add: up)
  next
    case False
    let ?dst = "packed_size (take k ?rs)"
    have kl: "k < length records"
      using step by simp
    note sp = packed_split [OF ok n kl False, folded starts_def, folded out_def]
    obtain pre post where o: "length pre = ?dst" "out = pre @ record_chunk data records starts k ?dst @ post"
      using sp(2) by blast
    have p: "parse_record data (rec_start (records ! k)) = Some (records ! k)"
      using ok kl by (simp add: all_parse_def)
    have "parse_record out ?dst = Some (moved (records ! k) ?dst)"
      using record_chunk_parses [OF p small packed_before [OF ok so n kl], of pre starts post] o by simp
    from scan_from_step [OF this] show ?thesis
      using step.IH packed_size_take_Suc [OF k] False k sp(1) by (simp add: up moved_def)
  qed
qed

lemma cie_position_packed:
  assumes ok: "all_parse data records" and so: "sorted_wrt (\<lambda>r r'. rec_end r \<le> rec_start r') records"
    and n: "length removed = length records" and small: "length data < 2 ^ 32" and i: "i < length records"
    and kept: "\<not> removed ! i" "\<not> removed ! cie" and cie: "fde_cie_index data records i = Some cie" "cie < i"
  defines "starts \<equiv> place_records (zip records removed) 0"
  defines "out \<equiv> concat (map (chunks data records starts) [0..<length records])"
  shows "cie_position out (moved (records ! i) (the (starts ! i))) = the (starts ! cie)"
proof -
  let ?r = "records ! i" and ?dst = "packed_size (take i (zip records removed))" and ?cs = "packed_size (take cie (zip records removed))"
  note sp = packed_split [OF ok n i kept(1), folded starts_def, folded out_def]
  have c: "starts ! cie = Some ?cs"
    using packed_split(1) [OF ok n _ kept(2)] i cie(2) by (simp add: starts_def)
  obtain pre post where o: "length pre = ?dst" "out = pre @ record_chunk data records starts i ?dst @ post"
    using sp(2) by blast
  have p: "parse_record data (rec_start ?r) = Some ?r"
    using ok i by (simp add: all_parse_def)
  note d = parse_record_SomeD [OF p]
  have le: "?cs \<le> ?dst"
    using packed_size_mono [of cie "take i (zip records removed)"] cie(2) i n by simp
  have f: "is_fde ?r" "cie_at records (cie_position data ?r) = Some cie"
    using cie(1) by (auto simp: fde_cie_index_def split: if_splits)
  let ?v = "?dst + header_size ?r - ?cs"
  have np: "new_pointer data records starts i ?dst = Some ?v"
    using f c le d(4) by (simp add: new_pointer_def)
  have v: "?v < 2 ^ 32" and field: "?dst + header_size ?r < 2 ^ 32"
    using packed_before [OF ok so n i] d(5,6) small by linarith+
  have l: "header_size ?r + id_size ?r \<le> length (byte_slice data (rec_start ?r) (rec_end ?r))"
    using d(5,6) by (simp add: length_byte_slice)
  have lc: "header_size ?r + id_size ?r \<le> length (record_chunk data records starts i ?dst)"
    using record_chunk_shape(1) [OF p] d(5) by simp
  have "read_id out (?dst + header_size ?r) (id_size ?r) = read_id (record_chunk data records starts i ?dst) (header_size ?r) (id_size ?r)"
    using read_chunk [OF lc, of pre post] d(2) o by (auto simp: read_id_def read_u32_le_def read_u64_le_def)
  also have "\<dots> = of_nat ?v"
    using read_patched [OF d(2) l v] by (simp add: record_chunk_def np Let_def)
  finally have "cie_position out (moved ?r ?dst) = unat (of_nat (?dst + header_size ?r) - of_nat ?v :: 64 word)"
    by (simp add: cie_position_def moved_def header_size_def)
  also have "(of_nat (?dst + header_size ?r) - of_nat ?v :: 64 word) = of_nat ?cs"
    using le by (simp add: of_nat_diff)
  finally show ?thesis
    using c sp(1) le field by (simp add: unsigned_of_nat take_bit_nat_eq_self)
qed

lemma packed_bytes:
  assumes ok: "all_parse data records" and n: "length removed = length records" and i: "i < length records" and kept: "\<not> removed ! i"
    and j: "rec_start (records ! i) \<le> j" "j < rec_end (records ! i)"
  defines "starts \<equiv> place_records (zip records removed) 0"
  defines "out \<equiv> concat (map (chunks data records starts) [0..<length records])"
  defines "j' \<equiv> j - rec_start (records ! i) + the (starts ! i)"
  shows "j' < length out"
    and "j < id_offset (records ! i) \<or> id_offset (records ! i) + id_size (records ! i) \<le> j \<or>
      new_pointer data records starts i (the (starts ! i)) = None \<Longrightarrow> out ! j' = data ! j"
proof -
  let ?r = "records ! i" and ?dst = "packed_size (take i (zip records removed))"
  let ?k = "j - rec_start ?r"
  note sp = packed_split [OF ok n i kept, folded starts_def, folded out_def]
  obtain pre post where o: "length pre = ?dst" "out = pre @ record_chunk data records starts i ?dst @ post"
    using sp(2) by blast
  have p: "parse_record data (rec_start ?r) = Some ?r"
    using ok i by (simp add: all_parse_def)
  note d = parse_record_SomeD [OF p]
  have k: "?k < length (record_chunk data records starts i ?dst)"
    using record_chunk_shape(1) [OF p] j by simp
  have j': "j' = length pre + ?k"
    using o(1) by (simp add: j'_def sp(1))
  show "j' < length out"
    using k by (simp add: j' o(2))
  assume "j < id_offset ?r \<or> id_offset ?r + id_size ?r \<le> j \<or> new_pointer data records starts i (the (starts ! i)) = None"
  then have out: "j < id_offset ?r \<or> id_offset ?r + id_size ?r \<le> j \<or> new_pointer data records starts i ?dst = None"
    by (simp add: sp(1))
  have old: "byte_slice data (rec_start ?r) (rec_end ?r) ! ?k = data ! j"
    using j d(6) by (simp add: byte_slice_def)
  have l: "header_size ?r + id_size ?r \<le> length (byte_slice data (rec_start ?r) (rec_end ?r))"
    using d(5,6) by (simp add: length_byte_slice)
  have outk: "?k < header_size ?r \<or> header_size ?r + id_size ?r \<le> ?k \<or> new_pointer data records starts i ?dst = None"
    using out j(1) d(3) by linarith
  have "record_chunk data records starts i ?dst ! ?k = data ! j"
    using outk l d(2) old by (auto simp: record_chunk_def Let_def length_encode_cie_pointer nth_splice_bytes split: option.split)
  then show "out ! j' = data ! j"
    using k by (simp add: j' o(2) nth_append)
qed

lemma map_offset_in_record:
  assumes so: "sorted_wrt (\<lambda>r r'. rec_end r \<le> rec_start r') (old_records c)" and len: "list_all (\<lambda>r. rec_start r < rec_end r) (old_records c)"
    and i: "i < length (old_records c)" and j: "rec_start (old_records c ! i) \<le> j" "j < rec_end (old_records c ! i)"
  shows "map_offset c j = map_option (\<lambda>s. j - rec_start (old_records c ! i) + s) (new_start c ! i)"
proof -
  let ?rs = "old_records c"
  have "takeWhile (\<lambda>r. rec_start r \<le> j) ?rs = take (Suc i) ?rs"
  proof (rule takeWhile_eq_take_P_nth)
    fix k
    assume k: "k < Suc i" "k < length ?rs"
    show "rec_start (?rs ! k) \<le> j"
    proof (cases "k = i")
      case False
      then have "rec_end (?rs ! k) \<le> rec_start (?rs ! i)"
        using sorted_wrt_nth_less [OF so, of k i] i k by simp
      moreover have "rec_start (?rs ! k) < rec_end (?rs ! k)"
        using len k(2) by (simp add: list_all_length)
      ultimately show ?thesis
        using j(1) by linarith
    qed (use j in simp)
  next
    assume "Suc i < length ?rs"
    then show "\<not> rec_start (?rs ! Suc i) \<le> j"
      using sorted_wrt_nth_less [OF so, of i "Suc i"] j(2) by simp
  qed
  then have "length (takeWhile (\<lambda>r. rec_start r \<le> j) ?rs) = Suc i"
    using i by simp
  then show ?thesis
    using j(2) by (simp add: map_offset_def)
qed

text \<open>A CIE pointer is rewritten exactly if it leads back to a CIE that survives, and survivors are placed without gaps.\<close>

lemma kept_pointer:
  assumes "all_parse data records" and so: "sorted_wrt (\<lambda>r r'. rec_end r \<le> rec_start r') records"
    and n: "length removed = length records" and i: "i < length records" "\<not> removed ! i"
    and dangling: "\<And>cie. fde_cie_index data records i = Some cie \<Longrightarrow> cie < i \<Longrightarrow> removed ! cie"
  defines "starts \<equiv> place_records (zip records removed) 0"
  shows "new_pointer data records starts i (the (starts ! i)) = None"
proof (cases "fde_cie_index data records i")
  case None
  then show ?thesis
    by (auto simp: new_pointer_def fde_cie_index_def i(1) split: if_splits option.splits)
next
  case (Some cie)
  then have f: "is_fde (records ! i)" "cie_at records (cie_position data (records ! i)) = Some cie"
    by (auto simp: fde_cie_index_def i(1) split: if_splits)
  have c: "cie < length records" "\<not> is_fde (records ! cie)"
    using f(2) by (auto simp: cie_at_def find_Some_iff split: option.splits if_splits)
  show ?thesis
  proof (cases "removed ! cie")
    case True
    then show ?thesis
      using f c n by (simp add: new_pointer_def starts_def place_records_nth)
  next
    case False
    then have "i < cie"
      using dangling [OF Some] c(2) f(1) by (cases i cie rule: linorder_cases) auto
    have "header_size (records ! i) \<le> rec_end (records ! i) - rec_start (records ! i)"
      using parse_record_SomeD [of data "rec_start (records ! i)" "records ! i"] assms(1) i(1) by (auto simp: all_parse_def)
    moreover have "packed_size (take (Suc i) (zip records removed)) \<le> packed_size (take cie (zip records removed))"
      using packed_size_mono [of "Suc i" "take cie (zip records removed)"] \<open>i < cie\<close> c(1) n by (simp add: min_def)
    ultimately show ?thesis
      using f c n i False packed_size_take_Suc [of i "zip records removed"]
      by (simp add: new_pointer_def starts_def place_records_nth)
  qed
qed

lemma packed_size_survivors:
  assumes "length removed = length records" and "i \<le> length records"
  shows "packed_size (take i (zip records removed)) =
    (\<Sum>k \<leftarrow> filter (\<lambda>k. \<not> removed ! k) [0..<i]. rec_end (records ! k) - rec_start (records ! k))"
  using assms(2)
proof (induction i)
  case (Suc i)
  then show ?case
    using packed_size_take_Suc [of i "zip records removed"] assms(1) by simp
qed (simp add: packed_size_def)

lemma compaction_exact:
  assumes "length data < 2 ^ 32" and "length removed = length (scan_eh_frame_records data)"
  shows "let records = scan_eh_frame_records data; c = compact_records data records removed
    in scan_eh_frame_records (packed c) =
         map (\<lambda>i. moved (records ! i) (the (new_start c ! i))) (filter (\<lambda>i. \<not> removed ! i) [0..<length records]) \<and>
       (\<forall>i cie. i < length records \<and> \<not> removed ! i \<and> fde_cie_index data records i = Some cie \<and> cie < i \<and> \<not> removed ! cie \<longrightarrow>
          cie_position (packed c) (moved (records ! i) (the (new_start c ! i))) = the (new_start c ! cie)) \<and>
       (\<forall>i j. i < length records \<and> rec_start (records ! i) \<le> j \<and> j < rec_end (records ! i) \<longrightarrow>
          (if removed ! i then map_offset c j = None
           else \<exists>j'. map_offset c j = Some j' \<and> j' < length (packed c) \<and>
                  (j < id_offset (records ! i) \<or> id_offset (records ! i) + id_size (records ! i) \<le> j \<or>
                   \<not> (\<exists>cie < i. fde_cie_index data records i = Some cie \<and> \<not> removed ! cie) \<longrightarrow>
                   packed c ! j' = data ! j))) \<and>
       length (packed c) = (\<Sum>k \<leftarrow> filter (\<lambda>k. \<not> removed ! k) [0..<length records]. rec_end (records ! k) - rec_start (records ! k)) \<and>
       (\<forall>i < length records. new_start c ! i =
          (if removed ! i then None
           else Some (\<Sum>k \<leftarrow> filter (\<lambda>k. \<not> removed ! k) [0..<i]. rec_end (records ! k) - rec_start (records ! k))))"
proof -
  let ?rs = "scan_eh_frame_records data"
  let ?c = "compact_records data ?rs removed"
  have ok: "all_parse data ?rs"
    by (rule scan_all_parse)
  have so: "sorted_wrt (\<lambda>r r'. rec_end r \<le> rec_start r') ?rs"
    using scan_from_records [of data 0] by (simp add: scan_eh_frame_records_def)
  have len: "list_all (\<lambda>r. rec_start r < rec_end r) ?rs"
    using ok parse_record_advances by (fastforce simp: all_parse_def list_all_iff)
  have c: "old_records ?c = ?rs" "new_start ?c = place_records (zip ?rs removed) 0"
    by (simp_all add: compact_records_def Let_def)
  note p = packed_chunks [OF ok assms(2)]
  have scan: "scan_eh_frame_records (packed ?c) =
      map (\<lambda>i. moved (?rs ! i) (the (new_start ?c ! i))) (filter (\<lambda>i. \<not> removed ! i) [0..<length ?rs])"
    using scan_packed [OF ok so assms(2,1), of 0] by (simp add: c p scan_eh_frame_records_def [of "concat _"] packed_size_def)
  have cie: "cie_position (packed ?c) (moved (?rs ! i) (the (new_start ?c ! i))) = the (new_start ?c ! cie)"
    if "i < length ?rs" "\<not> removed ! i" "fde_cie_index data ?rs i = Some cie" "cie < i" "\<not> removed ! cie" for i cie
    using cie_position_packed [OF ok so assms(2,1) that(1,2,5,3,4)] by (simp add: c p)
  have bytes: "if removed ! i then map_offset ?c j = None
      else \<exists>j'. map_offset ?c j = Some j' \<and> j' < length (packed ?c) \<and>
             (j < id_offset (?rs ! i) \<or> id_offset (?rs ! i) + id_size (?rs ! i) \<le> j \<or>
              \<not> (\<exists>cie < i. fde_cie_index data ?rs i = Some cie \<and> \<not> removed ! cie) \<longrightarrow> packed ?c ! j' = data ! j)"
    if i: "i < length ?rs" and j: "rec_start (?rs ! i) \<le> j" "j < rec_end (?rs ! i)" for i j
  proof -
    have m: "map_offset ?c j = map_option (\<lambda>s. j - rec_start (?rs ! i) + s) (new_start ?c ! i)"
      using map_offset_in_record [of ?c i j] so len i j by (simp add: c)
    show ?thesis
    proof (cases "removed ! i")
      case True
      then show ?thesis
        using m i assms(2) by (simp add: c place_records_nth)
    next
      case False
      then show ?thesis
        using m packed_bytes [OF ok assms(2) i False j] packed_split(1) [OF ok assms(2) i False]
          kept_pointer [OF ok so assms(2) i False] by (auto simp: c p)
    qed
  qed
  have size: "length (packed ?c) = (\<Sum>k \<leftarrow> filter (\<lambda>k. \<not> removed ! k) [0..<length ?rs]. rec_end (?rs ! k) - rec_start (?rs ! k))"
    unfolding packed_size_survivors [OF assms(2) le_refl, symmetric] p
    using length_chunks [OF ok assms(2) le_refl] by simp
  have starts: "new_start ?c ! i =
      (if removed ! i then None
       else Some (\<Sum>k \<leftarrow> filter (\<lambda>k. \<not> removed ! k) [0..<i]. rec_end (?rs ! k) - rec_start (?rs ! k)))"
    if "i < length ?rs" for i
    using packed_size_survivors [OF assms(2), of i] that assms(2) by (simp add: c place_records_nth)
  show ?thesis
    unfolding Let_def using scan cie bytes size starts by blast
qed

text \<open>
  C16: removing records from an unwind section below 4 GiB packs the survivors: they follow each other from the start without gaps, in order, and
  nothing follows the last one. Scanning the packed section gives exactly them, moved to their new starts. The offset map sends no byte of a
  removed record anywhere and each byte of a survivor to an equal byte, except for the CIE pointer of an FDE whose CIE precedes it and
  survives, and that pointer leads to the CIE at its new place.
\<close>

theorem compaction_keeps_records:
  assumes "length data < 2 ^ 32" and "length removed = length (scan_eh_frame_records data)"
  shows "let records = scan_eh_frame_records data; c = compact_records data records removed
    in scan_eh_frame_records (packed c) =
         map (\<lambda>i. moved (records ! i) (the (new_start c ! i))) (filter (\<lambda>i. \<not> removed ! i) [0..<length records]) \<and>
       (\<forall>i cie. i < length records \<and> \<not> removed ! i \<and> fde_cie_index data records i = Some cie \<and> cie < i \<and> \<not> removed ! cie \<longrightarrow>
          cie_position (packed c) (moved (records ! i) (the (new_start c ! i))) = the (new_start c ! cie)) \<and>
       (\<forall>i j. i < length records \<and> rec_start (records ! i) \<le> j \<and> j < rec_end (records ! i) \<longrightarrow>
          (if removed ! i then map_offset c j = None
           else \<exists>j'. map_offset c j = Some j' \<and> j' < length (packed c) \<and>
                  (j < id_offset (records ! i) \<or> id_offset (records ! i) + id_size (records ! i) \<le> j \<or>
                   \<not> (\<exists>cie < i. fde_cie_index data records i = Some cie \<and> \<not> removed ! cie) \<longrightarrow>
                   packed c ! j' = data ! j))) \<and>
       length (packed c) = (\<Sum>k \<leftarrow> filter (\<lambda>k. \<not> removed ! k) [0..<length records]. rec_end (records ! k) - rec_start (records ! k)) \<and>
       (\<forall>i < length records. new_start c ! i =
          (if removed ! i then None
           else Some (\<Sum>k \<leftarrow> filter (\<lambda>k. \<not> removed ! k) [0..<i]. rec_end (records ! k) - rec_start (records ! k))))"
  using assms by (rule compaction_exact)

text \<open>A CIE and two FDEs that use it.\<close>

definition sample_unwind :: "u8 list" where
  "sample_unwind =
     [4, 0, 0, 0, 0, 0, 0, 0,
      8, 0, 0, 0, 12, 0, 0, 0, 1, 2, 3, 4,
      8, 0, 0, 0, 24, 0, 0, 0, 5, 6, 7, 8]"

lemma sample_unwind_records: "length (scan_eh_frame_records sample_unwind) = 3"
  by code_simp

theorem compaction_keeps_records_witness:
  "length sample_unwind < 2 ^ 32 \<and>
   (let records = scan_eh_frame_records sample_unwind; c = compact_records sample_unwind records [False, True, False]
    in scan_eh_frame_records (packed c) =
         map (\<lambda>i. moved (records ! i) (the (new_start c ! i))) (filter (\<lambda>i. \<not> [False, True, False] ! i) [0..<length records]) \<and>
       length (packed c) = 20 \<and> new_start c ! 2 = Some 8)"
proof -
  have l: "length sample_unwind < 2 ^ 32"
    by (simp add: sample_unwind_def)
  have sizes: "map (\<lambda>r. rec_end r - rec_start r) (scan_eh_frame_records sample_unwind) = [8, 12, 12]"
    by code_simp
  have size: "rec_end (scan_eh_frame_records sample_unwind ! k) - rec_start (scan_eh_frame_records sample_unwind ! k) = [8, 12, 12] ! k" if "k < 3" for k
    using arg_cong [OF sizes, of "\<lambda>xs. xs ! k"] that by (simp add: sample_unwind_records)
  let ?rs = "scan_eh_frame_records sample_unwind" and ?removed = "[False, True, False]"
  let ?c = "compact_records sample_unwind ?rs ?removed"
  have u: "[0..<3] = [0, 1, 2 :: nat]" "[0..<2] = [0, 1 :: nat]"
    by (simp_all add: upt_rec)
  have n: "length ?removed = length ?rs"
    by (simp add: sample_unwind_records)
  note T = compaction_keeps_records [OF l n, unfolded Let_def]
  have "length (packed ?c) = 20"
    using T [THEN conjunct2, THEN conjunct2, THEN conjunct2, THEN conjunct1] by (simp add: sample_unwind_records u size)
  moreover have "new_start ?c ! 2 = Some 8"
    using T [THEN conjunct2, THEN conjunct2, THEN conjunct2, THEN conjunct2, THEN spec, of 2] by (simp add: sample_unwind_records u size)
  ultimately show ?thesis
    unfolding Let_def using T [THEN conjunct1] l by blast
qed

end
