(* ===== verification/PruneFdes.thy ===== *)
theory PruneFdes
  imports GcReach EhCompact
begin

text \<open>
  \<^verbatim>\<open>prune_dead_fdes\<close> of \<^verbatim>\<open>src/src/backend/linker_common/eh_frame.rs\<close>: dropping the unwind records of collected functions, and its
  agreement with the collector, which decides what the remaining records depend on.
\<close>

text \<open>The first relocation at an offset.\<close>

definition reloc_at :: "Elf64Rela list \<Rightarrow> nat \<Rightarrow> Elf64Rela option" where
  "reloc_at relocs off = find (\<lambda>r. unat (offset r) = off) relocs"

text \<open>Does the record describe a function in one of the given sections of its own object?\<close>

definition prune_fde :: "Elf64Symbol list \<Rightarrow> key list \<Rightarrow> nat \<Rightarrow> Elf64Rela list \<Rightarrow> EhFrameRecord \<Rightarrow> bool" where
  "prune_fde syms dead oi relocs r =
     (case iloc_offset r of
        None \<Rightarrow> False
      | Some iloc \<Rightarrow>
          (case reloc_at relocs iloc of
             None \<Rightarrow> False
           | Some rela \<Rightarrow>
               (case nth_opt syms (unat (sym_idx rela)) of
                  None \<Rightarrow> False
                | Some sy \<Rightarrow> \<not> undefined_index (shndx sy) \<and> (oi, unat (shndx sy)) \<in> set dead)))"

text \<open>The relocations of a packed section.\<close>

definition move_relocs :: "EhFrameCompaction \<Rightarrow> Elf64Rela list \<Rightarrow> Elf64Rela list" where
  "move_relocs c relocs =
     sort_key offset
       (List.map_filter (\<lambda>r. map_option (\<lambda>off. r\<lparr>offset := of_nat off\<rparr>) (map_offset c (unat (offset r)))) relocs)"

definition prune_section :: "key list \<Rightarrow> nat \<Rightarrow> Elf64Object \<times> nat \<Rightarrow> nat \<Rightarrow> Elf64Object \<times> nat" where
  "prune_section dead oi st si =
     (let (obj, dropped) = st; sec = sections obj ! si
      in if \<not> prefix ''.eh_frame'' (sec_name sec) \<or> suffix ''_hdr'' (sec_name sec) then st
         else case nth_opt (section_data obj) si of
                None \<Rightarrow> st
              | Some data \<Rightarrow>
                  (let records = scan_eh_frame_records data
                   in if records = [] then st
                      else let relocs = (case nth_opt (relocations obj) si of None \<Rightarrow> [] | Some rs \<Rightarrow> rs);
                               prune = map (prune_fde (symbols obj) dead oi relocs) records
                           in if True \<notin> set prune then st
                              else let compacted = compact_eh_frame data records prune;
                                       new_relocs = move_relocs compacted relocs;
                                       out = packed compacted
                                   in (obj\<lparr>sections := (sections obj)[si := sec\<lparr>sh_size := of_nat (length out)\<rparr>],
                                           section_data := (section_data obj)[si := out],
                                           relocations := (if si < length (relocations obj) then (relocations obj)[si := new_relocs]
                                                           else relocations obj)\<rparr>,
                                       dropped + length (filter id prune))))"

definition prune_object :: "key list \<Rightarrow> Elf64Object list \<times> nat \<Rightarrow> nat \<Rightarrow> Elf64Object list \<times> nat" where
  "prune_object dead st oi =
     (let (objs, dropped) = st;
          (obj, dropped) = foldl (prune_section dead oi) (objs ! oi, dropped) [0..<length (sections (objs ! oi))]
      in (objs[oi := obj], dropped))"

definition prune_dead_fdes :: "Elf64Object list \<Rightarrow> key list \<Rightarrow> Elf64Object list \<times> nat" where
  "prune_dead_fdes objs dead =
     (if dead = [] then (objs, 0) else foldl (prune_object dead) (objs, 0) [0..<length objs])"

subsection \<open>The collector and the pruner look at the same relocation\<close>

lemma in_range_filter:
  "in_range relocs lo hi = filter (\<lambda>r. lo \<le> unat (offset r) \<and> unat (offset r) < hi) (sort_key (\<lambda>r. unat (offset r)) relocs)"
proof -
  have "takeWhile (\<lambda>r. f r < hi) (dropWhile (\<lambda>r. f r < lo) xs) = filter (\<lambda>r. lo \<le> f r \<and> f r < hi) xs"
    if "sorted (map f xs)" for f :: "Elf64Rela \<Rightarrow> nat" and xs
    using that
  proof (induction xs)
    case (Cons x xs)
    show ?case
    proof (cases "f x < lo")
      case False
      then have "\<forall>y \<in> set (x # xs). lo \<le> f y"
        using Cons.prems by auto
      then have "dropWhile (\<lambda>r. f r < lo) (x # xs) = x # xs"
        and "filter (\<lambda>r. lo \<le> f r \<and> f r < hi) (x # xs) = filter (\<lambda>r. f r < hi) (x # xs)"
        using False by (auto intro: filter_cong)
      moreover have "takeWhile (\<lambda>r. f r < hi) ys = filter (\<lambda>r. f r < hi) ys" if "sorted (map f ys)" for ys
        using that by (induction ys) (force simp: filter_empty_conv eq_commute [of "[]"])+
      from this [OF Cons.prems] have "takeWhile (\<lambda>r. f r < hi) (x # xs) = filter (\<lambda>r. f r < hi) (x # xs)" .
      ultimately show ?thesis
        by (simp only:)
    qed (use Cons in simp)
  qed simp
  then show ?thesis
    by (simp add: in_range_def)
qed

lemma fde_func_reloc_at:
  "fde_func sw oi relocs iloc = (case reloc_at relocs iloc of None \<Rightarrow> None | Some r \<Rightarrow> sweep_target sw oi (sym_idx r))"
proof -
  have "in_range relocs iloc (iloc + 1) = filter (\<lambda>r. unat (offset r) = iloc) (sort_key (\<lambda>r. unat (offset r)) relocs)"
    unfolding in_range_filter by (rule filter_cong) auto
  then have "in_range relocs iloc (iloc + 1) = filter (\<lambda>r. unat (offset r) = iloc) relocs"
    by (simp add: sort_key_stable)
  moreover have "find P xs = (case filter P xs of [] \<Rightarrow> None | x # _ \<Rightarrow> Some x)" for P and xs :: "Elf64Rela list"
    by (induction xs) auto
  ultimately show ?thesis
    by (simp add: fde_func_def reloc_at_def split: list.split)
qed

text \<open>The section of its own object in which a symbol is defined.\<close>

definition own_section :: "Elf64Symbol list \<Rightarrow> nat \<Rightarrow> u32 \<Rightarrow> key option" where
  "own_section syms oi idx =
     (case nth_opt syms (unat idx) of
        None \<Rightarrow> None
      | Some sy \<Rightarrow> if undefined_index (shndx sy) then None else Some (oi, unat (shndx sy)))"

lemma prune_fde_own_section:
  "prune_fde syms dead oi relocs r \<longleftrightarrow>
     (\<exists>iloc rela f. iloc_offset r = Some iloc \<and> reloc_at relocs iloc = Some rela \<and>
        own_section syms oi (sym_idx rela) = Some f \<and> f \<in> set dead)"
  by (auto simp: prune_fde_def own_section_def split: option.split)

text \<open>
  The function symbol of a record, if it has one, is bound to the definition of its own object, which is in a section that takes part in
  collection or was discarded before.
\<close>

definition fde_at_home :: "Elf64Object list \<Rightarrow> key list \<Rightarrow> nat \<Rightarrow> Elf64Rela list \<Rightarrow> EhFrameRecord \<Rightarrow> bool" where
  "fde_at_home objs discarded oi relocs r =
     (case iloc_offset r of
        None \<Rightarrow> False
      | Some iloc \<Rightarrow>
          (case reloc_at relocs iloc of
             None \<Rightarrow> True
           | Some rela \<Rightarrow>
               (let own = own_section (symbols (objs ! oi)) oi (sym_idx rela)
                in sweep_target (gc_sweep objs discarded) oi (sym_idx rela) = own \<and>
                   (case own of None \<Rightarrow> True | Some f \<Rightarrow> f \<in> set (all_sections objs discarded) \<or> f \<in> set discarded))))"

lemma unpruned_fde_live:
  assumes "fde_at_home objs discarded oi relocs r" and "\<not> prune_fde (symbols (objs ! oi)) (dead @ discarded) oi relocs r"
    and "set (all_sections objs discarded) \<subseteq> live \<union> set dead"
  shows "fde_live (gc_sweep objs discarded) (oi, si) relocs r live"
  using assms
  by (auto simp: fde_at_home_def prune_fde_own_section fde_live_def fde_func_reloc_at Let_def split: option.splits)

lemma live_unwind_record_reaches:
  assumes "gc_reachable sw roots k" and "eh_unwind sw k = Some (data, relocs)" and "ri < length (scan_eh_frame_records data)"
    and "fde_live sw k relocs (scan_eh_frame_records data ! ri) {f. gc_reachable sw roots f}"
    and "rela \<in> set (fde_relocs data relocs (scan_eh_frame_records data) ri)" and "sweep_target sw (fst k) (sym_idx rela) = Some t"
    and "t \<in> set (candidates sw)"
  shows "gc_reachable sw roots t"
proof -
  obtain iloc where i: "iloc_offset (scan_eh_frame_records data ! ri) = Some iloc"
    using assms(4) by (auto simp: fde_live_def split: option.splits)
  show ?thesis
  proof (cases "fde_func sw (fst k) relocs iloc")
    case None
    show ?thesis
      by (rule gc_unwind_unattributed [OF assms(1-3) i None assms(5-7)])
  next
    case (Some f)
    then have "gc_reachable sw roots f"
      using assms(4) i by (simp add: fde_live_def)
    then show ?thesis
      by (rule gc_unwind [OF assms(1-3) i Some _ assms(5-7)])
  qed
qed

lemma gc_collect_iff:
  "k \<in> set (gc_collect_sections_elf64_full objs extra_roots extra_section_roots discarded) \<longleftrightarrow>
     k \<in> set (all_sections objs discarded) \<and>
     \<not> gc_reachable (gc_sweep objs discarded) (set (gc_roots objs extra_roots extra_section_roots discarded)) k"
  by (auto simp: gc_collect_sections_elf64_full_def Let_def gc_live_reachable)

text \<open>
  C7: what a surviving unwind record depends on survives. Let the collector run, and the pruner with the sections it collected and those
  discarded before. Take a record of a kept unwind section that the pruner keeps and whose function symbol is bound to the definition
  of its own object. Then the sections that the record and its CIE refer to (language-specific data, personality) are not collected.
\<close>

theorem kept_unwind_records_keep_their_data:
  fixes objs :: "Elf64Object list" and extra_roots :: "string list" and extra_section_roots discarded :: "key list"
  defines "dead \<equiv> gc_collect_sections_elf64_full objs extra_roots extra_section_roots discarded"
  assumes "(oi, si) \<in> set (all_sections objs discarded)" and "(oi, si) \<notin> set dead"
    and "eh_unwind (gc_sweep objs discarded) (oi, si) = Some (data, relocs)"
    and "ri < length (scan_eh_frame_records data)"
    and "fde_at_home objs discarded oi relocs (scan_eh_frame_records data ! ri)"
    and "\<not> prune_fde (symbols (objs ! oi)) (dead @ discarded) oi relocs (scan_eh_frame_records data ! ri)"
    and "rela \<in> set (fde_relocs data relocs (scan_eh_frame_records data) ri)"
    and "sweep_target (gc_sweep objs discarded) oi (sym_idx rela) = Some t"
  shows "t \<notin> set dead"
proof -
  let ?sw = "gc_sweep objs discarded" and ?roots = "set (gc_roots objs extra_roots extra_section_roots discarded)"
  have dead: "x \<in> set dead \<longleftrightarrow> x \<in> set (all_sections objs discarded) \<and> \<not> gc_reachable ?sw ?roots x" for x
    unfolding dead_def by (rule gc_collect_iff)
  have k: "gc_reachable ?sw ?roots (oi, si)"
    using assms(2,3) dead by blast
  have "fde_live ?sw (oi, si) relocs (scan_eh_frame_records data ! ri) {f. gc_reachable ?sw ?roots f}"
    by (rule unpruned_fde_live [OF assms(6,7)]) (use dead in auto)
  from live_unwind_record_reaches [OF k assms(4,5) this assms(8)] show ?thesis
    using assms(9) dead by (auto simp: gc_sweep_def)
qed

text \<open>An object with a retained function, its unwind section with one FDE, and the data that the FDE refers to.\<close>

definition sample_section :: "string \<Rightarrow> u64 \<Rightarrow> Elf64Section" where
  "sample_section name fl =
     \<lparr>sh_name_idx = 0, sec_name = name, sh_type = (if name = [] then 0 else 1), flags = fl, sh_addr = 0, sh_offset = 0, sh_size = 0,
      sh_link = 0, sh_info = 0, addralign = 1, entsize = 0\<rparr>"

definition sample_symbol :: "string \<Rightarrow> u8 \<Rightarrow> u16 \<Rightarrow> Elf64Symbol" where
  "sample_symbol name binding shn =
     \<lparr>st_name_idx = 0, sym_name = name, info = binding, other = 0, shndx = shn, st_value = 0, st_size = 0\<rparr>"

definition sample_unwind_data :: "u8 list" where
  "sample_unwind_data = [4, 0, 0, 0, 0, 0, 0, 0, 12, 0, 0, 0, 12, 0, 0, 0, 0, 0, 0, 0, 0, 0, 0, 0]"

definition sample_relocs :: "Elf64Rela list" where
  "sample_relocs =
     [\<lparr>offset = 16, sym_idx = 1, rela_type = 2, addend = 0\<rparr>, \<lparr>offset = 20, sym_idx = 2, rela_type = 2, addend = 0\<rparr>]"

definition sample_user :: "string \<Rightarrow> u8 \<Rightarrow> Elf64Object" where
  "sample_user name binding =
     \<lparr>sections = [sample_section [] 0, sample_section ''.text.f'' 0x200006, sample_section ''.eh_frame'' 2,
                 sample_section ''.gcc_except_table'' 2],
      symbols = [sample_symbol [] 0 0, sample_symbol name binding 1, sample_symbol [] 3 3],
      section_data = [[], [0], sample_unwind_data, [0]], relocations = [[], [], sample_relocs, []],
      source_name = ''user.o'', e_flags = 0\<rparr>"

definition sample_strong :: "Elf64Object" where
  "sample_strong =
     \<lparr>sections = [sample_section [] 0, sample_section ''.text.f'' 6],
      symbols = [sample_symbol [] 0 0, sample_symbol ''f'' 0x12 1],
      section_data = [[], [0]], relocations = [[], []], source_name = ''strong.o'', e_flags = 0\<rparr>"

theorem kept_unwind_records_keep_their_data_witness:
  "(0, 2) \<in> set (all_sections [sample_user [] 3] []) \<and>
   (0, 2) \<notin> set (gc_collect_sections_elf64_full [sample_user [] 3] [] [] []) \<and>
   eh_unwind (gc_sweep [sample_user [] 3] []) (0, 2) = Some (sample_unwind_data, sample_relocs) \<and>
   fde_at_home [sample_user [] 3] [] 0 sample_relocs (scan_eh_frame_records sample_unwind_data ! 1) \<and>
   (0, 3) \<notin> set (gc_collect_sections_elf64_full [sample_user [] 3] [] [] [])"
proof -
  let ?objs = "[sample_user [] 3]" and ?r = "\<lparr>offset = 20, sym_idx = 2, rela_type = 2, addend = 0\<rparr>"
  have h1: "(0, 2) \<in> set (all_sections ?objs [])"
    and h2: "(0, 2) \<notin> set (gc_collect_sections_elf64_full ?objs [] [] [])"
    and h3: "eh_unwind (gc_sweep ?objs []) (0, 2) = Some (sample_unwind_data, sample_relocs)"
    and h4: "1 < length (scan_eh_frame_records sample_unwind_data)"
    and h5: "fde_at_home ?objs [] 0 sample_relocs (scan_eh_frame_records sample_unwind_data ! 1)"
    and h6: "\<not> prune_fde (symbols (?objs ! 0)) (gc_collect_sections_elf64_full ?objs [] [] [] @ []) 0 sample_relocs
      (scan_eh_frame_records sample_unwind_data ! 1)"
    and h7: "?r \<in> set (fde_relocs sample_unwind_data sample_relocs (scan_eh_frame_records sample_unwind_data) 1)"
    and h8: "sweep_target (gc_sweep ?objs []) 0 (sym_idx ?r) = Some (0, 3)"
    by code_simp+
  show ?thesis
    using kept_unwind_records_keep_their_data [OF h1 h2 h3 h4 h5 h6 h7 h8] h1 h2 h3 h5 by blast
qed

text \<open>
  without the binding condition the two passes disagree. When a retained weak function loses its name to a strong definition that is collected,
  the collector takes the record for dead and collects its language-specific data, while the pruner, which looks at the symbol's own section,
  keeps the record.
\<close>

theorem overridden_function_loses_unwind_data:
  "(1, 3) \<in> set (gc_collect_sections_elf64_full [sample_strong, sample_user ''f'' 0x22] [] [] []) \<and>
   (1, 1) \<notin> set (gc_collect_sections_elf64_full [sample_strong, sample_user ''f'' 0x22] [] [] []) \<and>
   \<not> prune_fde (symbols (sample_user ''f'' 0x22)) (gc_collect_sections_elf64_full [sample_strong, sample_user ''f'' 0x22] [] [] []) 1
     sample_relocs (scan_eh_frame_records sample_unwind_data ! 1)"
  by code_simp

subsection \<open>What the pruner leaves of each section\<close>

definition pruned_section :: "key list \<Rightarrow> nat \<Rightarrow> Elf64Object \<Rightarrow> nat \<Rightarrow> EhFrameCompaction option" where
  "pruned_section dead oi obj si =
     (case nth_opt (section_data obj) si of
        None \<Rightarrow> None
      | Some data \<Rightarrow>
          (let records = scan_eh_frame_records data;
               relocs = (case nth_opt (relocations obj) si of None \<Rightarrow> [] | Some rs \<Rightarrow> rs);
               prune = map (prune_fde (symbols obj) dead oi relocs) records
           in if is_eh_frame_section (sec_name (sections obj ! si)) \<and> True \<in> set prune
              then Some (compact_eh_frame data records prune) else None))"

lemma prune_section_data:
  "section_data (fst (prune_section dead oi (obj, d) si)) =
     (case pruned_section dead oi obj si of None \<Rightarrow> section_data obj | Some c \<Rightarrow> (section_data obj)[si := packed c])"
  by (auto simp: prune_section_def pruned_section_def is_eh_frame_section_def Let_def split: option.split)

lemma prune_section_relocations:
  "relocations (fst (prune_section dead oi (obj, d) si)) =
     (case pruned_section dead oi obj si of
        None \<Rightarrow> relocations obj
      | Some c \<Rightarrow> (relocations obj)[si := move_relocs c (relocations obj ! si)])"
  by (auto simp: prune_section_def pruned_section_def is_eh_frame_section_def Let_def nth_opt_def list_update_beyond split: option.split)

lemma prune_section_frame:
  "symbols (fst (prune_section dead oi (obj, d) si)) = symbols obj"
  "length (sections (fst (prune_section dead oi (obj, d) si))) = length (sections obj)"
  "map sec_name (sections (fst (prune_section dead oi (obj, d) si))) = map sec_name (sections obj)"
proof -
  have "map sec_name ((sections obj)[si := (sections obj ! si)\<lparr>sh_size := n\<rparr>]) = map sec_name (sections obj)" for n
    by (cases "si < length (sections obj)") (simp_all add: map_update list_update_beyond list_update_same_conv)
  then show "map sec_name (sections (fst (prune_section dead oi (obj, d) si))) = map sec_name (sections obj)"
    by (auto simp: prune_section_def Let_def split: option.split)
qed (auto simp: prune_section_def Let_def split: option.split)

text \<open>The fields of an object that the treatment of a section reads.\<close>

definition agree_at :: "Elf64Object \<Rightarrow> Elf64Object \<Rightarrow> nat \<Rightarrow> bool" where
  "agree_at obj obj' si \<longleftrightarrow>
     nth_opt (section_data obj') si = nth_opt (section_data obj) si \<and> nth_opt (relocations obj') si = nth_opt (relocations obj) si \<and>
     symbols obj' = symbols obj \<and> map sec_name (sections obj') = map sec_name (sections obj)"

lemma agree_pruned_section:
  assumes "agree_at obj obj' si" and "si < length (sections obj)"
  shows "pruned_section dead oi obj' si = pruned_section dead oi obj si"
proof -
  have l: "length (sections obj') = length (sections obj)"
    using assms(1) unfolding agree_at_def by (metis length_map)
  then have "sec_name (sections obj' ! si) = sec_name (sections obj ! si)"
    using assms nth_map [of si "sections obj" sec_name] nth_map [of si "sections obj'" sec_name] by (simp add: agree_at_def)
  then show ?thesis
    using assms(1) by (simp add: pruned_section_def agree_at_def Let_def cong: option.case_cong)
qed

lemma prune_section_agree:
  assumes "si \<noteq> sj"
  shows "agree_at obj (fst (prune_section dead oi (obj, d) sj)) si"
  using assms prune_section_frame [of dead oi obj d sj]
  by (auto simp: agree_at_def prune_section_data prune_section_relocations nth_opt_def split: option.split)

lemma agree_at_trans: "agree_at a b si \<Longrightarrow> agree_at b c si \<Longrightarrow> agree_at a c si"
  by (simp add: agree_at_def)

lemma prune_sections_agree:
  "si \<notin> set sis \<Longrightarrow> agree_at obj (fst (foldl (prune_section dead oi) (obj, d) sis)) si"
proof (induction sis arbitrary: obj d)
  case (Cons sj sis)
  obtain obj' d' where s: "prune_section dead oi (obj, d) sj = (obj', d')"
    by fastforce
  have "agree_at obj obj' si"
    using prune_section_agree [of si sj obj dead oi d] Cons.prems s by simp
  then show ?case
    using agree_at_trans Cons.IH [of obj' d'] Cons.prems s by simp
qed (simp add: agree_at_def)

lemma prune_sections_data:
  assumes si: "si < length (sections obj)" "si < length (section_data obj)"
    and obj'_def: "obj' = fst (foldl (prune_section dead oi) (obj, d) [0..<length (sections obj)])"
  shows "nth_opt (section_data obj') si =
      Some (case pruned_section dead oi obj si of None \<Rightarrow> section_data obj ! si | Some c \<Rightarrow> packed c)"
    and "nth_opt (relocations obj') si =
      (case pruned_section dead oi obj si of
         None \<Rightarrow> nth_opt (relocations obj) si
       | Some c \<Rightarrow> map_option (move_relocs c) (nth_opt (relocations obj) si))"
proof -
  obtain obj1 d1 where s1: "foldl (prune_section dead oi) (obj, d) [0..<si] = (obj1, d1)"
    by fastforce
  obtain obj2 d2 where s2: "prune_section dead oi (obj1, d1) si = (obj2, d2)"
    by fastforce
  have split: "[0..<length (sections obj)] = [0..<si] @ si # [Suc si..<length (sections obj)]"
    using si(1) upt_add_eq_append [of 0 si "length (sections obj) - si"] by (simp add: upt_conv_Cons)
  have a1: "agree_at obj obj1 si"
    using prune_sections_agree [of si "[0..<si]" obj dead oi d] s1 by simp
  have "obj' = fst (foldl (prune_section dead oi) (obj2, d2) [Suc si..<length (sections obj)])"
    by (simp add: obj'_def split s1 s2)
  then have a2: "agree_at obj2 obj' si"
    using prune_sections_agree [of si "[Suc si..<length (sections obj)]" obj2 dead oi d2] by simp
  have p: "pruned_section dead oi obj1 si = pruned_section dead oi obj si"
    by (rule agree_pruned_section [OF a1 si(1)])
  have d1: "nth_opt (section_data obj1) si = Some (section_data obj ! si)"
    using a1 si(2) by (simp add: agree_at_def nth_opt_def)
  show "nth_opt (section_data obj') si =
      Some (case pruned_section dead oi obj si of None \<Rightarrow> section_data obj ! si | Some c \<Rightarrow> packed c)"
    using a2 d1 prune_section_data [of dead oi obj1 d1 si]
    by (auto simp: agree_at_def s2 p nth_opt_def split: option.splits if_splits)
  show "nth_opt (relocations obj') si =
      (case pruned_section dead oi obj si of
         None \<Rightarrow> nth_opt (relocations obj) si
       | Some c \<Rightarrow> map_option (move_relocs c) (nth_opt (relocations obj) si))"
    using a1 a2 prune_section_relocations [of dead oi obj1 d1 si]
    by (auto simp: agree_at_def s2 p nth_opt_def split: option.splits if_splits)
qed

lemma prune_objects_nth:
  assumes "oi < length objs" and "k \<le> length objs"
  shows "length (fst (foldl (prune_object dead) (objs, d) [0..<k])) = length objs \<and>
    (if oi < k
     then \<exists>d'. fst (foldl (prune_object dead) (objs, d) [0..<k]) ! oi =
            fst (foldl (prune_section dead oi) (objs ! oi, d') [0..<length (sections (objs ! oi))])
     else fst (foldl (prune_object dead) (objs, d) [0..<k]) ! oi = objs ! oi)"
  using assms(2)
proof (induction k)
  case (Suc k)
  obtain objs1 d1 where s1: "foldl (prune_object dead) (objs, d) [0..<k] = (objs1, d1)"
    by fastforce
  obtain obj2 d2 where s2: "foldl (prune_section dead k) (objs1 ! k, d1) [0..<length (sections (objs1 ! k))] = (obj2, d2)"
    by fastforce
  have r: "foldl (prune_object dead) (objs, d) [0..<Suc k] = (objs1[k := obj2], d2)"
    by (simp add: s1 prune_object_def s2)
  show ?case
    using Suc s1 s2 assms(1) unfolding r by (cases "oi = k") (auto simp: less_Suc_eq intro: exI [of _ d1])
qed simp

text \<open>What a record is, its position apart.\<close>

definition record_kind :: "EhFrameRecord \<Rightarrow> bool \<times> nat \<times> nat" where
  "record_kind r = (is_fde r, id_size r, rec_end r - rec_start r)"

lemma prune_fde_is_fde: "all_parse data records \<Longrightarrow> r \<in> set records \<Longrightarrow> prune_fde syms dead oi relocs r \<Longrightarrow> is_fde r"
  by (fastforce simp: all_parse_def prune_fde_def dest: parse_record_SomeD(8) split: option.splits if_splits)

lemma compact_eh_frame_fdes:
  assumes "\<And>r. r \<in> set records \<Longrightarrow> p r \<Longrightarrow> is_fde r"
  shows "compact_eh_frame data records (map p records) = compact_records data records (map p records)"
proof -
  have "map (\<lambda>(r, b). b \<and> is_fde r) (zip records (map p records)) = map p records"
    using assms by (induction records) auto
  then show ?thesis
    by (simp add: compact_eh_frame_def)
qed

lemma compaction_kinds:
  assumes "length data < 2 ^ 32"
  shows "map record_kind (scan_eh_frame_records (packed (compact_records data (scan_eh_frame_records data) (map p (scan_eh_frame_records data))))) =
    map record_kind (filter (\<lambda>r. \<not> p r) (scan_eh_frame_records data))"
proof -
  let ?rs = "scan_eh_frame_records data"
  have l: "length (map p ?rs) = length ?rs"
    by simp
  have m: "record_kind (moved r d) = record_kind r" for r d
    by (simp add: record_kind_def moved_def)
  have "map record_kind (scan_eh_frame_records (packed (compact_records data ?rs (map p ?rs)))) =
      map (\<lambda>i. record_kind (?rs ! i)) (filter (\<lambda>i. \<not> map p ?rs ! i) [0..<length ?rs])"
    using compaction_exact [OF assms l] by (simp add: Let_def m)
  also have "\<dots> = map record_kind (map (\<lambda>i. ?rs ! i) (filter (\<lambda>i. \<not> p (?rs ! i)) [0..<length ?rs]))"
    by (auto intro!: map_cong filter_cong)
  also have "map (\<lambda>i. ?rs ! i) (filter (\<lambda>i. \<not> p (?rs ! i)) [0..<length ?rs]) = filter (\<lambda>r. \<not> p r) ?rs"
    using filter_map [of "\<lambda>r. \<not> p r" "\<lambda>i. ?rs ! i" "[0..<length ?rs]"] by (simp add: comp_def map_nth)
  finally show ?thesis .
qed

text \<open>
  pruning drops exactly the unwind records of functions in the given sections. Scanning an unwind section of the pruned link gives the other
  records of the section in their order, with their kind and length.
\<close>

theorem prune_dead_fdes_keeps_other_records:
  assumes "dead \<noteq> []" and "oi < length objs" and "si < length (sections (objs ! oi))"
    and "is_eh_frame_section (sec_name (sections (objs ! oi) ! si))"
    and "nth_opt (section_data (objs ! oi)) si = Some data" and "nth_opt (relocations (objs ! oi)) si = Some relocs"
    and "length data < 2 ^ 32"
  shows "map record_kind (scan_eh_frame_records (section_data (fst (prune_dead_fdes objs dead) ! oi) ! si)) =
    map record_kind
      (filter (\<lambda>r. \<not> prune_fde (symbols (objs ! oi)) dead oi relocs r) (scan_eh_frame_records data))"
proof -
  let ?obj = "objs ! oi" and ?rs = "scan_eh_frame_records data"
  let ?p = "prune_fde (symbols ?obj) dead oi relocs"
  obtain d where d: "fst (prune_dead_fdes objs dead) ! oi = fst (foldl (prune_section dead oi) (?obj, d) [0..<length (sections ?obj)])"
    using prune_objects_nth [of oi objs "length objs" dead 0] assms(1,2) by (auto simp: prune_dead_fdes_def)
  have "si < length (section_data ?obj)" "section_data ?obj ! si = data"
    using assms(5) by (auto simp: nth_opt_def split: if_splits)
  from prune_sections_data(1) [OF assms(3) this(1) d] have new: "section_data (fst (prune_dead_fdes objs dead) ! oi) ! si =
      (case pruned_section dead oi ?obj si of None \<Rightarrow> data | Some c \<Rightarrow> packed c)"
    using \<open>section_data ?obj ! si = data\<close> by (auto simp: nth_opt_def split: if_splits option.splits)
  have cmp: "compact_eh_frame data ?rs (map ?p ?rs) = compact_records data ?rs (map ?p ?rs)"
    by (rule compact_eh_frame_fdes) (rule prune_fde_is_fde [OF scan_all_parse])
  show ?thesis
  proof (cases "True \<in> set (map ?p ?rs)")
    case True
    then show ?thesis
      using compaction_kinds [OF assms(7), of ?p] by (simp add: new pruned_section_def assms(4-6) cmp Let_def)
  next
    case False
    then have "filter (\<lambda>r. \<not> ?p r) ?rs = ?rs"
      by (auto simp: filter_id_conv)
    moreover have "pruned_section dead oi ?obj si = None"
      using False by (auto simp: pruned_section_def assms(5,6) Let_def)
    ultimately show ?thesis
      by (simp add: new)
  qed
qed

theorem prune_dead_fdes_keeps_other_records_witness:
  "snd (prune_dead_fdes [sample_user [] 3] [(0, 1)]) = 1 \<and>
   map record_kind (scan_eh_frame_records (section_data (fst (prune_dead_fdes [sample_user [] 3] [(0, 1)]) ! 0) ! 2)) =
   map record_kind
     (filter (\<lambda>r. \<not> prune_fde (symbols (sample_user [] 3)) [(0, 1)] 0 sample_relocs r) (scan_eh_frame_records sample_unwind_data))"
proof -
  let ?objs = "[sample_user [] 3]"
  have h: "0 < length ?objs" "2 < length (sections (?objs ! 0))" "is_eh_frame_section (sec_name (sections (?objs ! 0) ! 2))"
      "nth_opt (section_data (?objs ! 0)) 2 = Some sample_unwind_data" "nth_opt (relocations (?objs ! 0)) 2 = Some sample_relocs"
      "snd (prune_dead_fdes ?objs [(0, 1)]) = 1"
    by code_simp+
  have l: "length sample_unwind_data < 2 ^ 32"
    by (simp add: sample_unwind_data_def)
  show ?thesis
    using prune_dead_fdes_keeps_other_records [of "[(0, 1)]", OF _ h(1-5) l] h(6) by simp
qed

end
