(* ===== verification/EhFrameHdr.thy ===== *)
theory EhFrameHdr
  imports EhCompact "HOL-Library.Monad_Syntax"
begin

text \<open>
  The binary-search table over the FDEs of a relocated \<^verbatim>\<open>.eh_frame\<close> section, \<^verbatim>\<open>src/src/backend/linker_common/eh_frame.rs\<close>: the
  bounded LEB readers, the pointer encoding that a CIE gives its FDEs, decoding of encoded pointers, the list of FDEs with its memo table, and
  the header itself.
\<close>

subsection \<open>LEB128\<close>

fun uleb_loop :: "u8 list \<Rightarrow> nat \<Rightarrow> u128 \<Rightarrow> (u64 \<times> nat) option" where
  "uleb_loop [] i acc = None"
| "uleb_loop (byte # bytes) i acc =
     (let acc = acc OR push_bit (i * 7) (ucast (byte AND 0x7f))
      in if byte AND 0x80 = 0 then (if uint acc < 2 ^ 64 then Some (ucast acc, i + 1) else None)
         else uleb_loop bytes (i + 1) acc)"

definition read_uleb128 :: "u8 list \<Rightarrow> nat \<Rightarrow> (u64 \<times> nat) option" where
  "read_uleb128 data off = (if off \<le> length data then uleb_loop (take 10 (drop off data)) 0 0 else None)"

fun sleb_loop :: "u8 list \<Rightarrow> nat \<Rightarrow> i128 \<Rightarrow> (i64 \<times> nat) option" where
  "sleb_loop [] i acc = None"
| "sleb_loop (byte # bytes) i acc =
     (let shift = (i + 1) * 7; acc = acc OR push_bit (i * 7) (ucast (byte AND 0x7f))
      in if byte AND 0x80 = 0
         then let acc = (if byte AND 0x40 \<noteq> 0 then acc OR push_bit shift (- 1) else acc)
              in if - (2 ^ 63) \<le> sint acc \<and> sint acc < 2 ^ 63 then Some (ucast acc, i + 1) else None
         else sleb_loop bytes (i + 1) acc)"

definition read_sleb128 :: "u8 list \<Rightarrow> nat \<Rightarrow> (i64 \<times> nat) option" where
  "read_sleb128 data off = (if off \<le> length data then sleb_loop (take 10 (drop off data)) 0 0 else None)"

subsection \<open>The encoding of the FDEs of a CIE\<close>

definition eh_pointer_size :: "u8 \<Rightarrow> bool \<Rightarrow> nat" where
  "eh_pointer_size encoding is_64bit =
     (let e = encoding AND 0x0F
      in if e = 0x00 then if is_64bit then 8 else 4
         else if e = 0x02 \<or> e = 0x0A then 2
         else if e = 0x03 \<or> e = 0x0B then 4
         else if e = 0x04 \<or> e = 0x0C then 8 else 0)"

text \<open>The loop over the augmentation string behind its \<^verbatim>\<open>z\<close>: \<^verbatim>\<open>R\<close>, \<^verbatim>\<open>L\<close>, \<^verbatim>\<open>P\<close>, and \<^verbatim>\<open>S\<close> and \<^verbatim>\<open>B\<close>.\<close>

fun augmentation_loop :: "u8 list \<Rightarrow> nat \<Rightarrow> bool \<Rightarrow> u8 list \<Rightarrow> nat \<Rightarrow> u8 option" where
  "augmentation_loop data aug_end is_64bit [] cur = Some 0x00"
| "augmentation_loop data aug_end is_64bit (ch # chs) cur =
     (let at_cur = (if cur < aug_end then nth_opt data cur else None);
          continue = (\<lambda>cur. if aug_end < cur then None else augmentation_loop data aug_end is_64bit chs cur)
      in if ch = 0x52 then at_cur
         else if ch = 0x4C then continue (cur + 1)
         else if ch = 0x50
         then do {
                enc \<leftarrow> at_cur;
                let n = eh_pointer_size enc is_64bit;
                if n = 0 then None else continue (cur + 1 + n)
              }
         else if ch = 0x53 \<or> ch = 0x42 then continue cur
         else None)"

text \<open>\<^verbatim>\<open>position(|&b| b == 0)\<close>.\<close>

definition zero_position :: "u8 list \<Rightarrow> nat option" where
  "zero_position bs = (let n = length (takeWhile (\<lambda>b. b \<noteq> 0) bs) in if n < length bs then Some n else None)"

definition parse_cie_fde_encoding :: "u8 list \<Rightarrow> nat \<Rightarrow> bool \<Rightarrow> u8 option" where
  "parse_cie_fde_encoding data cie_pos is_64bit =
     (if length data < cie_pos \<or> length data - cie_pos < 4 then None
      else do {
        (start, stop, n) \<leftarrow> record_bounds data cie_pos (read_u32_le data cie_pos);
        if read_id data start n \<noteq> 0 then None else do {
        version \<leftarrow> (if start + n < stop then nth_opt data (start + n) else None);
        if version \<notin> {1, 2, 3, 4} then None else do {
        let aug_start = start + n + 1;
        aug_len \<leftarrow> zero_position (byte_slice data aug_start stop);
        let aug = byte_slice data aug_start (aug_start + aug_len);
        let cie = take stop data;
        cur \<leftarrow> (let cur = aug_start + aug_len + 1
               in if version = 4
                  then do {
                         address_size \<leftarrow> nth_opt cie cur;
                         segment_selector_size \<leftarrow> nth_opt cie (cur + 1);
                         if address_size \<noteq> (if is_64bit then 8 else 4) \<or> segment_selector_size \<noteq> 0 then None else Some (cur + 2)
                       }
                  else Some cur);
        (_, n) \<leftarrow> read_uleb128 cie cur;
        let cur = cur + n;
        (_, n) \<leftarrow> read_sleb128 cie cur;
        let cur = cur + n;
        cur \<leftarrow> (if version = 1 then (if stop \<le> cur then None else Some (cur + 1))
               else do {
                      (_, n) \<leftarrow> read_uleb128 cie cur;
                      Some (cur + n)
                    });
        if nth_opt aug 0 \<noteq> Some 0x7A then Some 0x00 else do {
        (len, n) \<leftarrow> read_uleb128 cie cur;
        let cur = cur + n;
        if stop < cur + unat len then None
        else augmentation_loop data (cur + unat len) is_64bit (drop 1 aug) cur
        }}}})"

subsection \<open>Encoded pointers\<close>

definition enough :: "u8 list \<Rightarrow> nat \<Rightarrow> nat \<Rightarrow> bool" where
  "enough data offset n \<longleftrightarrow> \<not> (length data < offset \<or> length data - offset < n)"

definition read_u16_le :: "u8 list \<Rightarrow> nat \<Rightarrow> u16" where
  "read_u16_le data pos = from_le_bytes (take 2 (drop pos data))"

text \<open>The value of a pointer before its base is applied, and whether it is signed.\<close>

definition raw_eh_pointer :: "u8 list \<Rightarrow> nat \<Rightarrow> u8 \<Rightarrow> bool \<Rightarrow> (u64 \<times> bool) option" where
  "raw_eh_pointer data offset base_enc is_64bit =
     (if base_enc = 0x00
      then if is_64bit then if enough data offset 8 then Some (read_u64_le data offset, False) else None
           else if enough data offset 4 then Some (ucast (read_u32_le data offset), False) else None
      else if base_enc = 0x01 then map_option (\<lambda>(v, _). (v, False)) (read_uleb128 data offset)
      else if base_enc = 0x02 then if enough data offset 2 then Some (ucast (read_u16_le data offset), False) else None
      else if base_enc = 0x03 then if enough data offset 4 then Some (ucast (read_u32_le data offset), False) else None
      else if base_enc = 0x04 then if enough data offset 8 then Some (read_u64_le data offset, False) else None
      else if base_enc = 0x09 then map_option (\<lambda>(v, _). (v, True)) (read_sleb128 data offset)
      else if base_enc = 0x0A then if enough data offset 2 then Some (scast (read_u16_le data offset), True) else None
      else if base_enc = 0x0B then if enough data offset 4 then Some (scast (read_u32_le data offset), True) else None
      else if base_enc = 0x0C then if enough data offset 8 then Some (read_u64_le data offset, True) else None
      else None)"

definition checked_add_signed :: "u64 \<Rightarrow> i64 \<Rightarrow> u64 option" where
  "checked_add_signed a b = (let s = uint a + sint b in if 0 \<le> s \<and> s < 2 ^ 64 then Some (word_of_int s) else None)"

definition checked_add :: "u64 \<Rightarrow> u64 \<Rightarrow> u64 option" where
  "checked_add a b = (let s = uint a + uint b in if s < 2 ^ 64 then Some (word_of_int s) else None)"

definition decode_eh_pointer :: "u8 list \<Rightarrow> nat \<Rightarrow> u8 \<Rightarrow> u64 \<Rightarrow> bool \<Rightarrow> u64 option" where
  "decode_eh_pointer data offset encoding pc is_64bit =
     (if encoding = 0xFF then None
      else let base_enc = encoding AND 0x0F; rel = encoding AND 0x70
      in if encoding AND 0x80 \<noteq> 0 then None
         else do {
           (raw_val, is_signed) \<leftarrow> raw_eh_pointer data offset base_enc is_64bit;
           if rel = 0x00 then Some raw_val
           else if rel = 0x10 then if is_signed then checked_add_signed pc raw_val else checked_add pc raw_val
           else None
         })"

subsection \<open>The FDEs of a section\<close>

record EhFrameFde =
  initial_location :: u64
  fde_vaddr :: u64

type_synonym cie_cache = "(nat \<times> u8 option) list"

definition cached_encoding :: "u8 list \<Rightarrow> bool \<Rightarrow> nat \<Rightarrow> cie_cache \<Rightarrow> u8 option \<times> cie_cache" where
  "cached_encoding data is_64bit cie_pos cache =
     (case find (\<lambda>(p, _). p = cie_pos) cache of
        Some (_, enc) \<Rightarrow> (enc, cache)
      | None \<Rightarrow> (let enc = parse_cie_fde_encoding data cie_pos is_64bit in (enc, cache @ [(cie_pos, enc)])))"

text \<open>The FDE with the given bounds, once the encoding is known.\<close>

definition located_fde :: "u8 list \<Rightarrow> u64 \<Rightarrow> bool \<Rightarrow> nat \<Rightarrow> nat \<Rightarrow> nat \<Rightarrow> u8 option \<Rightarrow> EhFrameFde option" where
  "located_fde data base_vaddr is_64bit entry_start iloc_pos entry_end encoding =
     do {
       fde_encoding \<leftarrow> encoding;
       if entry_end - iloc_pos < 4 then None else do {
       vaddr \<leftarrow> checked_add base_vaddr (of_nat entry_start);
       iloc \<leftarrow> decode_eh_pointer (take entry_end data) iloc_pos fde_encoding (base_vaddr + of_nat iloc_pos) is_64bit;
       Some \<lparr>initial_location = iloc, fde_vaddr = vaddr\<rparr>
     }}"

definition add_fde :: "u8 list \<Rightarrow> u64 \<Rightarrow> bool \<Rightarrow> nat \<Rightarrow> nat \<times> nat \<times> nat \<Rightarrow> EhFrameFde list \<times> cie_cache \<Rightarrow> EhFrameFde list \<times> cie_cache" where
  "add_fde data base_vaddr is_64bit entry_start bounds st =
     (let (entry_data_start, entry_end, n) = bounds;
          (fdes, cache) = st;
          cie_id = read_id data entry_data_start n
      in if cie_id = 0 then st
         else if entry_data_start < unat cie_id then st
         else let (encoding, cache) = cached_encoding data is_64bit (entry_data_start - unat cie_id) cache
              in case located_fde data base_vaddr is_64bit entry_start (entry_data_start + n) entry_end encoding of
                   None \<Rightarrow> (fdes, cache)
                 | Some fde \<Rightarrow> (fdes @ [fde], cache))"

function fdes_from :: "u8 list \<Rightarrow> u64 \<Rightarrow> bool \<Rightarrow> nat \<Rightarrow> EhFrameFde list \<times> cie_cache \<Rightarrow> EhFrameFde list \<times> cie_cache" where
  "fdes_from data base_vaddr is_64bit pos st =
     (if \<not> pos + 4 \<le> length data then st
      else let len = read_u32_le data pos
           in if len = 0 then fdes_from data base_vaddr is_64bit (pos + 4) st
              else case record_bounds data pos len of
                     None \<Rightarrow> st
                   | Some (data_start, stop, n) \<Rightarrow>
                       fdes_from data base_vaddr is_64bit stop (add_fde data base_vaddr is_64bit pos (data_start, stop, n) st))"
  by auto
termination
  by (relation "measure (\<lambda>(data, _, _, pos, _). length data - pos)") (auto dest!: record_bounds_SomeD)

declare fdes_from.simps [simp del]

definition parse_eh_frame_fdes :: "u8 list \<Rightarrow> u64 \<Rightarrow> bool \<Rightarrow> EhFrameFde list" where
  "parse_eh_frame_fdes data base_vaddr is_64bit =
     sort_key initial_location (fst (fdes_from data base_vaddr is_64bit 0 ([], [])))"

subsection \<open>The header\<close>

definition i32_try_from :: "int \<Rightarrow> i32 option" where
  "i32_try_from x = (if - (2 ^ 31) \<le> x \<and> x < 2 ^ 31 then Some (word_of_int x) else None)"

text \<open>The bytes of the table; no table if one displacement does not fit.\<close>

fun hdr_table :: "u64 \<Rightarrow> EhFrameFde list \<Rightarrow> u8 list option" where
  "hdr_table hdr_vaddr [] = Some []"
| "hdr_table hdr_vaddr (fde # fdes) =
     do {
       loc_rel \<leftarrow> i32_try_from (uint (initial_location fde) - uint hdr_vaddr);
       fde_rel \<leftarrow> i32_try_from (uint (fde_vaddr fde) - uint hdr_vaddr);
       rest \<leftarrow> hdr_table hdr_vaddr fdes;
       Some (to_le_bytes 4 loc_rel @ to_le_bytes 4 fde_rel @ rest)
     }"

definition build_eh_frame_hdr :: "u8 list \<Rightarrow> u64 \<Rightarrow> u64 \<Rightarrow> bool \<Rightarrow> u8 list" where
  "build_eh_frame_hdr eh_frame_data eh_frame_vaddr eh_frame_hdr_vaddr is_64bit =
     (let fdes = parse_eh_frame_fdes eh_frame_data eh_frame_vaddr is_64bit
      in case i32_try_from (uint eh_frame_vaddr - (uint eh_frame_hdr_vaddr + 4)) of
           None \<Rightarrow> []
         | Some eh_frame_ptr \<Rightarrow>
             if 2 ^ 32 \<le> int (length fdes) then []
             else case hdr_table eh_frame_hdr_vaddr fdes of
                    None \<Rightarrow> []
                  | Some table \<Rightarrow>
                      [1, 0x1b, 0x03, 0x3b] @ to_le_bytes 4 eh_frame_ptr @ to_le_bytes 4 (of_nat (length fdes) :: u32) @ table)"

definition write_eh_frame_hdr :: "u8 list \<Rightarrow> u8 list \<Rightarrow> u64 \<Rightarrow> u64 \<Rightarrow> bool \<Rightarrow> u8 list \<times> bool" where
  "write_eh_frame_hdr slot eh_frame_data eh_frame_vaddr eh_frame_hdr_vaddr is_64bit =
     (let hdr = build_eh_frame_hdr eh_frame_data eh_frame_vaddr eh_frame_hdr_vaddr is_64bit;
          slot = replicate (length slot) 0
      in if hdr \<noteq> [] \<and> length hdr \<le> length slot then (splice_bytes slot 0 hdr, True)
         else case i32_try_from (uint eh_frame_vaddr - (uint eh_frame_hdr_vaddr + 4)) of
                Some ptr \<Rightarrow>
                  if 8 \<le> length slot
                  then (splice_bytes (splice_bytes slot 0 [1, 0x1b, 0xff, 0xff]) 4 (to_le_bytes 4 ptr), False)
                  else (slot, False)
              | None \<Rightarrow> (slot, False))"

subsection \<open>The memo table does not change the result\<close>

text \<open>The FDE of a record, without memo table.\<close>

definition fde_of_record :: "u8 list \<Rightarrow> u64 \<Rightarrow> bool \<Rightarrow> EhFrameRecord \<Rightarrow> EhFrameFde option" where
  "fde_of_record data base_vaddr is_64bit r =
     (if \<not> is_fde r \<or> id_offset r < unat (read_id data (id_offset r) (id_size r)) then None
      else located_fde data base_vaddr is_64bit (rec_start r) (id_offset r + id_size r) (rec_end r)
             (parse_cie_fde_encoding data (id_offset r - unat (read_id data (id_offset r) (id_size r))) is_64bit))"

definition cache_ok :: "u8 list \<Rightarrow> bool \<Rightarrow> cie_cache \<Rightarrow> bool" where
  "cache_ok data is_64bit cache \<longleftrightarrow> (\<forall>(p, enc) \<in> set cache. enc = parse_cie_fde_encoding data p is_64bit)"

lemma cached_encoding_ok:
  assumes "cache_ok data is_64bit cache"
  shows "fst (cached_encoding data is_64bit p cache) = parse_cie_fde_encoding data p is_64bit"
    and "cache_ok data is_64bit (snd (cached_encoding data is_64bit p cache))"
proof -
  have "enc = parse_cie_fde_encoding data p is_64bit" if "find (\<lambda>(p', _). p' = p) cache = Some (p', enc)" for p' enc
    using that assms by (auto simp: find_Some_iff cache_ok_def in_set_conv_nth)
  then show "fst (cached_encoding data is_64bit p cache) = parse_cie_fde_encoding data p is_64bit"
    by (auto simp: cached_encoding_def Let_def split: option.split)
  show "cache_ok data is_64bit (snd (cached_encoding data is_64bit p cache))"
    using assms by (auto simp: cached_encoding_def cache_ok_def Let_def split: option.split)
qed

lemma add_fde_parse:
  assumes "parse_record data pos = Some r" and "cache_ok data is_64bit cache"
  obtains cache' where "cache_ok data is_64bit cache'"
    and "add_fde data base_vaddr is_64bit pos (id_offset r, rec_end r, id_size r) (fdes, cache) =
      (fdes @ (case fde_of_record data base_vaddr is_64bit r of None \<Rightarrow> [] | Some fde \<Rightarrow> [fde]), cache')"
proof -
  note d = parse_record_SomeD [OF assms(1)]
  let ?p = "id_offset r - unat (read_id data (id_offset r) (id_size r))"
  obtain enc cache' where e: "cached_encoding data is_64bit ?p cache = (enc, cache')"
    by fastforce
  have enc: "enc = parse_cie_fde_encoding data ?p is_64bit" and c': "cache_ok data is_64bit cache'"
    using cached_encoding_ok [OF assms(2), of ?p] e by auto
  show ?thesis
  proof (cases "\<not> is_fde r \<or> id_offset r < unat (read_id data (id_offset r) (id_size r))")
    case True
    then have "add_fde data base_vaddr is_64bit pos (id_offset r, rec_end r, id_size r) (fdes, cache) = (fdes, cache)"
      using d(7) by (auto simp: add_fde_def)
    then show ?thesis
      using that [OF assms(2)] True by (auto simp: fde_of_record_def)
  next
    case False
    then show ?thesis
      using that [OF c'] d(1,7) enc by (auto simp: add_fde_def fde_of_record_def e split: option.split)
  qed
qed

lemma fdes_from_scan:
  assumes "cache_ok data is_64bit cache"
  shows "fst (fdes_from data base_vaddr is_64bit pos (fdes, cache)) =
    fdes @ List.map_filter (fde_of_record data base_vaddr is_64bit) (scan_from data pos)"
  using assms
proof (induction "length data - pos" arbitrary: pos fdes cache rule: less_induct)
  case less
  show ?case
  proof (cases "pos + 4 \<le> length data")
    case True
    note t = True
    show ?thesis
    proof (cases "read_u32_le data pos = 0")
      case True
      have "length data - (pos + 4) < length data - pos"
        using t by linarith
      from less.hyps [OF this less.prems] show ?thesis
        using t True by (subst fdes_from.simps, subst scan_from.simps) simp
    next
      case False
      show ?thesis
      proof (cases "record_bounds data pos (read_u32_le data pos)")
        case None
        then show ?thesis
          using t False by (subst fdes_from.simps, subst scan_from.simps) (simp add: map_filter_simps)
      next
        case (Some b)
        obtain body stop n where b: "b = (body, stop, n)"
          by (cases b)
        obtain r where r: "parse_record data pos = Some r" "id_offset r = body" "rec_end r = stop" "id_size r = n"
          using t False Some b by (auto simp: parse_record_def Let_def)
        obtain cache' where c: "cache_ok data is_64bit cache'"
            "add_fde data base_vaddr is_64bit pos (body, stop, n) (fdes, cache) =
             (fdes @ (case fde_of_record data base_vaddr is_64bit r of None \<Rightarrow> [] | Some fde \<Rightarrow> [fde]), cache')"
          using add_fde_parse [OF r(1) less.prems, of base_vaddr fdes] r(2-4) by metis
        have "length data - stop < length data - pos"
          using parse_record_advances [OF r(1)] r(3) by linarith
        from less.hyps [OF this c(1)] show ?thesis
          using t False Some b c(2) scan_from_step [OF r(1)] r(3)
          by (subst fdes_from.simps) (simp add: map_filter_simps split: option.split)
      qed
    qed
  qed (subst fdes_from.simps, subst scan_from.simps, simp add: map_filter_simps)
qed

lemma parse_eh_frame_fdes_scan:
  "parse_eh_frame_fdes data base_vaddr is_64bit =
     sort_key initial_location (List.map_filter (fde_of_record data base_vaddr is_64bit) (scan_eh_frame_records data))"
  by (simp add: parse_eh_frame_fdes_def fdes_from_scan cache_ok_def scan_eh_frame_records_def)

subsection \<open>The table\<close>

definition fits_i32 :: "int \<Rightarrow> bool" where
  "fits_i32 x \<longleftrightarrow> - (2 ^ 31) \<le> x \<and> x < 2 ^ 31"

lemma i32_try_from_Some: "i32_try_from x = Some w \<longleftrightarrow> fits_i32 x \<and> w = word_of_int x"
  by (auto simp: i32_try_from_def fits_i32_def)

lemma i32_try_from_None: "i32_try_from x = None \<longleftrightarrow> \<not> fits_i32 x"
  by (simp add: i32_try_from_def fits_i32_def)

lemma sint_fits_i32: "fits_i32 x \<Longrightarrow> sint (word_of_int x :: i32) = x"
  by (simp add: fits_i32_def sint_sbintrunc' signed_take_bit_int_eq_self)

lemma read_u32_le_append:
  "m + 4 \<le> length bs \<Longrightarrow> read_u32_le (pre @ bs) (length pre + m) = read_u32_le bs m"
  by (simp add: read_u32_le_def)

lemma read_u32_le_prefix: "m + 4 \<le> length bs \<Longrightarrow> read_u32_le (bs @ post) m = read_u32_le bs m"
  by (simp add: read_u32_le_def)

lemma read_u32_le_bytes: "read_u32_le (to_le_bytes 4 (w :: 32 word)) 0 = w"
  by (simp add: read_u32_le_def from_to_le_bytes take_bit_word_eq_self)

definition entry_at :: "u8 list \<Rightarrow> nat \<Rightarrow> int \<times> int" where
  "entry_at bs k = (sint (read_u32_le bs k), sint (read_u32_le bs (k + 4)))"

definition entry_of :: "u64 \<Rightarrow> EhFrameFde \<Rightarrow> int \<times> int" where
  "entry_of hdr_vaddr f = (uint (initial_location f) - uint hdr_vaddr, uint (fde_vaddr f) - uint hdr_vaddr)"

lemma entry_at_append: "m + 8 \<le> length bs \<Longrightarrow> entry_at (pre @ bs @ post) (length pre + m) = entry_at bs m"
  using read_u32_le_append [of m "bs @ post" pre] read_u32_le_append [of "m + 4" "bs @ post" pre]
    read_u32_le_prefix [of m bs post] read_u32_le_prefix [of "m + 4" bs post]
  by (simp add: entry_at_def add.assoc)

lemma entry_at_pair:
  "entry_at (to_le_bytes 4 (a :: 32 word) @ to_le_bytes 4 (b :: 32 word) @ post) 0 = (sint a, sint b)"
  using read_u32_le_prefix [of 0 "to_le_bytes 4 a" "to_le_bytes 4 b @ post"]
    read_u32_le_append [of 0 "to_le_bytes 4 b @ post" "to_le_bytes 4 a"] read_u32_le_prefix [of 0 "to_le_bytes 4 b" post]
  by (simp add: entry_at_def read_u32_le_bytes del: to_le_bytes.simps)

lemma hdr_table_Some:
  "hdr_table h fdes = Some t \<Longrightarrow>
     length t = 8 * length fdes \<and> (\<forall>i < length fdes. entry_at t (8 * i) = entry_of h (fdes ! i))"
proof (induction fdes arbitrary: t)
  case (Cons f fdes)
  obtain a b rest where s: "i32_try_from (uint (initial_location f) - uint h) = Some a"
      "i32_try_from (uint (fde_vaddr f) - uint h) = Some b" "hdr_table h fdes = Some rest"
      "t = to_le_bytes 4 a @ to_le_bytes 4 b @ rest"
    using Cons.prems by (auto split: bind_splits)
  note ih = Cons.IH [OF s(3)]
  have ab: "sint a = uint (initial_location f) - uint h" "sint b = uint (fde_vaddr f) - uint h"
    using s(1,2) by (metis i32_try_from_Some sint_fits_i32)+
  have "entry_at t (8 * i) = entry_of h ((f # fdes) ! i)" if i: "i < Suc (length fdes)" for i
  proof (cases i)
    case 0
    then show ?thesis
      using entry_at_pair [of a b rest] by (simp add: s(4) entry_of_def ab)
  next
    case (Suc j)
    have "entry_at t (8 * i) = entry_at rest (8 * j)"
      using entry_at_append [of "8 * j" rest "to_le_bytes 4 a @ to_le_bytes 4 b" "[]"] ih i Suc
      by (simp add: s(4) del: to_le_bytes.simps)
    then show ?thesis
      using ih i Suc by simp
  qed
  then show ?case
    using ih by (simp add: s(4) del: to_le_bytes.simps)
qed simp

lemma hdr_table_None: "hdr_table h fdes = None \<longleftrightarrow> \<not> list_all (\<lambda>f. fits_i32 (fst (entry_of h f)) \<and> fits_i32 (snd (entry_of h f))) fdes"
  by (induction fdes) (auto simp: entry_of_def i32_try_from_None bind_eq_None_conv i32_try_from_Some)

text \<open>The condition under which a table is written.\<close>

definition hdr_fits :: "u64 \<Rightarrow> u64 \<Rightarrow> EhFrameFde list \<Rightarrow> bool" where
  "hdr_fits vaddr hdr_vaddr fdes \<longleftrightarrow>
     fits_i32 (uint vaddr - (uint hdr_vaddr + 4)) \<and> int (length fdes) < 2 ^ 32 \<and>
     list_all (\<lambda>f. fits_i32 (fst (entry_of hdr_vaddr f)) \<and> fits_i32 (snd (entry_of hdr_vaddr f))) fdes"

lemma build_eh_frame_hdr_Nil:
  "build_eh_frame_hdr data vaddr hdr_vaddr is_64bit = [] \<longleftrightarrow> \<not> hdr_fits vaddr hdr_vaddr (parse_eh_frame_fdes data vaddr is_64bit)"
  using hdr_table_None [of hdr_vaddr "parse_eh_frame_fdes data vaddr is_64bit"]
  by (auto simp: build_eh_frame_hdr_def hdr_fits_def Let_def i32_try_from_None i32_try_from_Some split: option.split)

lemma build_eh_frame_hdr_table:
  assumes "hdr_fits vaddr hdr_vaddr (parse_eh_frame_fdes data vaddr is_64bit)"
  defines "fdes \<equiv> parse_eh_frame_fdes data vaddr is_64bit" and "hdr \<equiv> build_eh_frame_hdr data vaddr hdr_vaddr is_64bit"
  shows "length hdr = 12 + 8 * length fdes" and "entry_at hdr 4 = (uint vaddr - (uint hdr_vaddr + 4), sint (of_nat (length fdes) :: 32 word))"
    and "i < length fdes \<Longrightarrow> entry_at hdr (12 + 8 * i) = entry_of hdr_vaddr (fdes ! i)"
    and "take 4 hdr = [1, 0x1b, 0x03, 0x3b]" and "unat (read_u32_le hdr 8) = length fdes"
proof -
  obtain t where t: "hdr_table hdr_vaddr fdes = Some t"
    using assms(1) hdr_table_None [of hdr_vaddr fdes] by (auto simp: hdr_fits_def fdes_def)
  let ?p = "word_of_int (uint vaddr - (uint hdr_vaddr + 4)) :: 32 word" and ?n = "of_nat (length fdes) :: 32 word"
  have f: "fits_i32 (uint vaddr - (uint hdr_vaddr + 4))" "int (length fdes) < 2 ^ 32"
    using assms(1) by (auto simp: hdr_fits_def fdes_def)
  then have p: "i32_try_from (uint vaddr - (uint hdr_vaddr + 4)) = Some ?p"
    by (simp add: i32_try_from_Some)
  obtain magic :: "u8 list" where magic: "magic = [1, 0x1b, 0x03, 0x3b]" and lm: "length magic = 4"
    by simp
  have hdr: "hdr = magic @ to_le_bytes 4 ?p @ to_le_bytes 4 ?n @ t"
    using f(2) by (simp add: hdr_def build_eh_frame_hdr_def Let_def p fdes_def [symmetric] t magic del: to_le_bytes.simps)
  note ht = hdr_table_Some [OF t]
  show "take 4 hdr = [1, 0x1b, 0x03, 0x3b]"
    using lm by (simp add: hdr magic del: to_le_bytes.simps)
  have "read_u32_le hdr 8 = ?n"
    using read_u32_le_append [of 0 "to_le_bytes 4 ?n @ t" "magic @ to_le_bytes 4 ?p"] read_u32_le_prefix [of 0 "to_le_bytes 4 ?n" t] lm
    by (simp add: hdr read_u32_le_bytes del: to_le_bytes.simps)
  then show "unat (read_u32_le hdr 8) = length fdes"
    using f(2) by (simp add: unsigned_of_nat take_bit_nat_eq_self)
  show "length hdr = 12 + 8 * length fdes"
    using ht lm by (simp add: hdr del: to_le_bytes.simps)
  have "entry_at hdr 4 = entry_at (to_le_bytes 4 ?p @ to_le_bytes 4 ?n @ t) 0"
    using entry_at_append [of 0 "to_le_bytes 4 ?p @ to_le_bytes 4 ?n @ t" magic "[]"] lm
    by (simp add: hdr del: to_le_bytes.simps)
  then show "entry_at hdr 4 = (uint vaddr - (uint hdr_vaddr + 4), sint ?n)"
    unfolding entry_at_pair sint_fits_i32 [OF f(1)] .
  show "entry_at hdr (12 + 8 * i) = entry_of hdr_vaddr (fdes ! i)" if "i < length fdes"
    using entry_at_append [of "8 * i" t "magic @ to_le_bytes 4 ?p @ to_le_bytes 4 ?n" "[]"] ht that lm
    by (simp add: hdr del: to_le_bytes.simps)
qed

lemma length_map_filter_le: "length (List.map_filter f xs) \<le> length (filter (\<lambda>x. f x \<noteq> None) xs)"
  by (simp add: map_filter_def)

lemma fdes_le_count: "length (parse_eh_frame_fdes data vaddr is_64bit) \<le> count_eh_frame_fdes data"
proof -
  let ?rs = "scan_eh_frame_records data"
  have "length (filter (\<lambda>r. fde_of_record data vaddr is_64bit r \<noteq> None) ?rs) \<le> length (filter is_fde ?rs)"
    by (simp add: length_filter_conv_card) (rule card_mono, auto simp: fde_of_record_def)
  then show ?thesis
    using length_map_filter_le [of "fde_of_record data vaddr is_64bit" ?rs]
    by (simp add: parse_eh_frame_fdes_scan count_eh_frame_fdes_def count_from_scan scan_eh_frame_records_def)
qed

text \<open>
  C17: the header written into the slot that layout reserved for it. The slot is always large enough, so a table is written exactly when the displacements and the
  count fit their fields. Then the slot holds the version and encodings, the address of the section, the number of FDEs, one entry per FDE in the order of the
  function addresses, each displacement exact, and zeros. Otherwise it holds the header without table, or zeros if even the address of the section does not
  fit. The FDEs are those whose address the parser can decode from their record and CIE; any other FDE is left out, and a table is written without it.
\<close>

theorem eh_frame_hdr_indexes_decoded_fdes:
  assumes "length slot = 12 + 8 * count_eh_frame_fdes data"
  shows "let (slot', written) = write_eh_frame_hdr slot data vaddr hdr_vaddr is_64bit;
             fdes = parse_eh_frame_fdes data vaddr is_64bit;
             ptr = uint vaddr - (uint hdr_vaddr + 4)
         in fdes = sort_key initial_location (List.map_filter (fde_of_record data vaddr is_64bit) (scan_eh_frame_records data)) \<and>
            length slot' = length slot \<and> (written \<longleftrightarrow> hdr_fits vaddr hdr_vaddr fdes) \<and>
            (if written
             then take 4 slot' = [1, 0x1b, 0x03, 0x3b] \<and> fst (entry_at slot' 4) = ptr \<and> unat (read_u32_le slot' 8) = length fdes \<and>
               (\<forall>i < length fdes. entry_at slot' (12 + 8 * i) = entry_of hdr_vaddr (fdes ! i)) \<and>
               drop (12 + 8 * length fdes) slot' = replicate (length slot - (12 + 8 * length fdes)) 0
             else slot' =
               (if fits_i32 ptr then [1, 0x1b, 0xff, 0xff] @ to_le_bytes 4 (word_of_int ptr :: 32 word) @ replicate (length slot - 8) 0
                else replicate (length slot) 0))"
proof -
  let ?fdes = "parse_eh_frame_fdes data vaddr is_64bit" and ?hdr = "build_eh_frame_hdr data vaddr hdr_vaddr is_64bit"
  let ?ptr = "uint vaddr - (uint hdr_vaddr + 4)"
  obtain slot' written where w: "write_eh_frame_hdr slot data vaddr hdr_vaddr is_64bit = (slot', written)"
    by fastforce
  show ?thesis
  proof (cases "hdr_fits vaddr hdr_vaddr ?fdes")
    case True
    note b = build_eh_frame_hdr_table [OF True]
    have "?hdr \<noteq> []" and l: "length ?hdr \<le> length slot"
      using b(1) fdes_le_count [of data vaddr is_64bit] assms by auto
    then have s: "written" "slot' = ?hdr @ drop (length ?hdr) (replicate (length slot) 0)"
      using w by (auto simp: write_eh_frame_hdr_def Let_def splice_bytes_def)
    have e: "entry_at slot' k = entry_at ?hdr k" if "k + 8 \<le> length ?hdr" for k
      using entry_at_append [of k ?hdr "[]" "drop (length ?hdr) (replicate (length slot) 0)"] that s(2) by simp
    have n: "read_u32_le slot' 8 = read_u32_le ?hdr 8"
      using read_u32_le_prefix [of 8 ?hdr] b(1) s(2) by simp
    have "take 4 slot' = take 4 ?hdr" "drop (length ?hdr) slot' = replicate (length slot - length ?hdr) 0" "length slot' = length slot"
      using b(1) l by (simp_all add: s(2))
    then show ?thesis
      using s(1) True b e n by (simp add: w parse_eh_frame_fdes_scan [symmetric])
  next
    case False
    then have "?hdr = []"
      by (simp add: build_eh_frame_hdr_Nil)
    moreover have big: "8 \<le> length slot"
      using assms by simp
    ultimately have w': "write_eh_frame_hdr slot data vaddr hdr_vaddr is_64bit =
        (case i32_try_from ?ptr of
           Some p \<Rightarrow> (splice_bytes (splice_bytes (replicate (length slot) 0) 0 [1, 0x1b, 0xff, 0xff]) 4 (to_le_bytes 4 p), False)
         | None \<Rightarrow> (replicate (length slot) 0, False))"
      using big by (simp add: write_eh_frame_hdr_def Let_def split: option.split)
    have z: "splice_bytes (splice_bytes (replicate (length slot) 0) 0 [1, 0x1b, 0xff, 0xff]) 4 (to_le_bytes 4 p) =
        [1, 0x1b, 0xff, 0xff] @ to_le_bytes 4 p @ replicate (length slot - 8) 0" for p :: "32 word"
      by (simp add: splice_bytes_def del: to_le_bytes.simps)
    have "\<not> written \<and> slot' =
        (if fits_i32 ?ptr then [1, 0x1b, 0xff, 0xff] @ to_le_bytes 4 (word_of_int ?ptr :: 32 word) @ replicate (length slot - 8) 0
         else replicate (length slot) 0)"
    proof (cases "i32_try_from ?ptr")
      case None
      moreover from this have "\<not> fits_i32 ?ptr"
        using i32_try_from_None by blast
      ultimately show ?thesis
        using w w' by auto
    next
      case (Some p)
      then have "fits_i32 ?ptr" "p = word_of_int ?ptr"
        by (simp_all add: i32_try_from_Some)
      then show ?thesis
        using w w' z Some by (simp del: to_le_bytes.simps)
    qed
    moreover have "length slot' = length slot"
      using assms calculation by (simp del: to_le_bytes.simps)
    ultimately show ?thesis
      using False by (simp add: w parse_eh_frame_fdes_scan [symmetric] del: to_le_bytes.simps)
  qed
qed

text \<open>A CIE whose FDEs have signed 32-bit addresses relative to their position, and one FDE.\<close>

definition sample_frame :: "u8 list" where
  "sample_frame =
     [20, 0, 0, 0, 0, 0, 0, 0, 1, 0x7a, 0x52, 0, 1, 0x78, 16, 1, 0x1b, 0, 0, 0, 0, 0, 0, 0,
      12, 0, 0, 0, 28, 0, 0, 0, 0, 0xff, 0xff, 0xff, 0, 0, 0, 0]"

theorem eh_frame_hdr_indexes_decoded_fdes_witness:
  "length (replicate 20 (0 :: u8)) = 12 + 8 * count_eh_frame_fdes sample_frame \<and>
   snd (write_eh_frame_hdr (replicate 20 0) sample_frame 0x1000 0x2000 True) \<and>
   entry_at (fst (write_eh_frame_hdr (replicate 20 0) sample_frame 0x1000 0x2000 True)) 12 =
     entry_of 0x2000 \<lparr>initial_location = 0xf20, fde_vaddr = 0x1018\<rparr> \<and>
   parse_eh_frame_fdes sample_frame 0x1000 True = [\<lparr>initial_location = 0xf20, fde_vaddr = 0x1018\<rparr>]"
proof -
  have l: "length (replicate 20 (0 :: u8)) = 12 + 8 * count_eh_frame_fdes sample_frame"
    by code_simp
  have f: "parse_eh_frame_fdes sample_frame 0x1000 True = [\<lparr>initial_location = 0xf20, fde_vaddr = 0x1018\<rparr>]"
    by code_simp
  then have fits: "hdr_fits 0x1000 0x2000 (parse_eh_frame_fdes sample_frame 0x1000 True)"
    by (simp add: hdr_fits_def entry_of_def fits_i32_def)
  note T = eh_frame_hdr_indexes_decoded_fdes [OF l, of "0x1000" "0x2000" True, unfolded Let_def case_prod_unfold]
  have w: "snd (write_eh_frame_hdr (replicate 20 0) sample_frame 0x1000 0x2000 True)"
    using T [THEN conjunct2, THEN conjunct2, THEN conjunct1] fits by blast
  have "entry_at (fst (write_eh_frame_hdr (replicate 20 0) sample_frame 0x1000 0x2000 True)) 12 =
     entry_of 0x2000 \<lparr>initial_location = 0xf20, fde_vaddr = 0x1018\<rparr>"
    using T [THEN conjunct2, THEN conjunct2, THEN conjunct2, unfolded if_P [OF w] f] by simp
  with l f w show ?thesis
    by blast
qed

end
