(* ===== verification/EhPack.thy ===== *)
theory EhPack
  imports PruneFdes
begin

text \<open>
  Preparing the \<^verbatim>\<open>.eh_frame\<close> inputs of a link for concatenation, \<^verbatim>\<open>src/src/backend/linker_common/eh_frame.rs\<close>: identical CIEs are
  merged across sections, the last record of each section is lengthened to close alignment gaps, and the CIE pointers that cross sections are written
  once the sections have their places. Hash maps are functions from keys; a missing new start reads as \<^verbatim>\<open>usize::MAX\<close>.
\<close>

record CieRedirect =
  redirect_obj :: nat
  redirect_sec :: nat
  field :: nat
  width :: nat
  redirect_target :: "nat \<times> nat \<times> nat"

record EhFramePacking =
  redirects :: "CieRedirect list"
  merged :: nat
  padded :: nat

definition pad_last_record :: "u8 list \<Rightarrow> nat \<Rightarrow> nat \<Rightarrow> nat \<Rightarrow> u8 list \<times> bool" where
  "pad_last_record buf start n unit_size =
     (let pad = (unit_size - length buf mod unit_size) mod unit_size
      in if pad = 0 then (buf, False)
         else if n = 8
         then let len = read_u64_le buf (start + 4) + of_nat pad
              in (splice_bytes buf (start + 4) (to_le_bytes 8 len) @ replicate pad 0, True)
         else let len = uint (read_u32_le buf start) + int pad
              in if len < 0xfffffff0 then (splice_bytes buf start (to_le_bytes 4 (word_of_int len :: u32)) @ replicate pad 0, True)
                 else (buf, False))"

datatype CieRelocTarget =
  Global string
| Local nat u32

type_synonym CieKey = "u8 list \<times> (nat \<times> u32 \<times> i64 \<times> CieRelocTarget) list"

type_synonym place = "nat \<times> nat \<times> nat"

function tile_loop :: "u8 list \<Rightarrow> nat \<Rightarrow> EhFrameRecord list \<Rightarrow> bool" where
  "tile_loop data pos rs =
     (if \<not> pos < length data then True
      else case rs of
             r # rs' \<Rightarrow>
               if rec_start r = pos then tile_loop data (rec_end r) rs'
               else if pos + 4 \<le> length data \<and> read_u32_le data pos = 0 then tile_loop data (pos + 4) rs else False
           | [] \<Rightarrow> if pos + 4 \<le> length data \<and> read_u32_le data pos = 0 then tile_loop data (pos + 4) rs else False)"
  by auto
termination
  by (relation "(\<lambda>(data, pos, rs). length rs) <*mlex*> measure (\<lambda>(data, pos, rs). length data - pos)")
    (auto intro: mlex_less mlex_leq simp: wf_mlex)

declare tile_loop.simps [simp del]

definition tiled_records :: "u8 list \<Rightarrow> EhFrameRecord list option" where
  "tiled_records data = (let records = scan_eh_frame_records data in if tile_loop data 0 records then Some records else None)"

subsection \<open>Merging CIEs\<close>

definition reloc_identity :: "nat \<Rightarrow> Elf64Symbol list \<Rightarrow> u32 \<Rightarrow> CieRelocTarget" where
  "reloc_identity oi syms idx =
     (case nth_opt syms (unat idx) of
        Some sy \<Rightarrow> if drop_bit 4 (info sy) \<noteq> 0 \<and> sym_name sy \<noteq> [] then Global (sym_name sy) else Local oi idx
      | None \<Rightarrow> Local oi idx)"

definition key_of :: "nat \<Rightarrow> Elf64Symbol list \<Rightarrow> u8 list \<Rightarrow> Elf64Rela list \<Rightarrow> EhFrameRecord \<Rightarrow> CieKey" where
  "key_of oi syms data relocs r =
     (byte_slice data (rec_start r) (rec_end r),
      sort_key fst
        (map (\<lambda>rela. (unat (offset rela) - rec_start r, rela_type rela, addend rela, reloc_identity oi syms (sym_idx rela)))
          (filter (\<lambda>rela. rec_start r \<le> unat (offset rela) \<and> unat (offset rela) < rec_end r) relocs)))"

text \<open>For each record: is it dropped, where is its survivor, and under which key is it registered.\<close>

fun classify_cies ::
  "(CieKey \<rightharpoonup> place) \<Rightarrow> key \<Rightarrow> (EhFrameRecord \<Rightarrow> CieKey) \<Rightarrow> (CieKey \<rightharpoonup> nat) \<Rightarrow> nat \<Rightarrow> EhFrameRecord list \<Rightarrow>
   (bool \<times> place option \<times> CieKey option) list" where
  "classify_cies canon k kf local_first i [] = []"
| "classify_cies canon k kf local_first i (r # rs) =
     (if is_fde r then (False, None, None) # classify_cies canon k kf local_first (i + 1) rs
      else case canon (kf r) of
             Some t \<Rightarrow> (True, Some t, None) # classify_cies canon k kf local_first (i + 1) rs
           | None \<Rightarrow>
               (case local_first (kf r) of
                  Some first \<Rightarrow> (True, Some (fst k, snd k, first), None) # classify_cies canon k kf local_first (i + 1) rs
                | None \<Rightarrow>
                    (False, None, Some (kf r)) # classify_cies canon k kf (local_first(kf r \<mapsto> i)) (i + 1) rs))"

definition start_or_max :: "nat option list \<Rightarrow> nat \<Rightarrow> nat" where
  "start_or_max starts i = (case starts ! i of Some s \<Rightarrow> s | None \<Rightarrow> 2 ^ 64 - 1)"

definition register_cies :: "key \<Rightarrow> (nat \<Rightarrow> nat) \<Rightarrow> CieKey option list \<Rightarrow> (CieKey \<rightharpoonup> place) \<Rightarrow> (CieKey \<rightharpoonup> place)" where
  "register_cies k start_of keys canon =
     foldl (\<lambda>canon (i, key). case key of None \<Rightarrow> canon | Some key \<Rightarrow> canon(key \<mapsto> (fst k, snd k, start_of i)))
       canon (enumerate 0 keys)"

definition is_candidate :: "key list \<Rightarrow> key \<Rightarrow> Elf64Section \<Rightarrow> bool" where
  "is_candidate dead k sec \<longleftrightarrow> sec_name sec = ''.eh_frame'' \<and> flags sec AND SHF_ALLOC \<noteq> 0 \<and> k \<notin> set dead"

definition padding_unit :: "Elf64Object list \<Rightarrow> key list \<Rightarrow> nat" where
  "padding_unit objs dead =
     (let aligns = map (\<lambda>(k, sec). unat (addralign sec)) (filter (\<lambda>(k, sec). is_candidate dead k sec) (section_keys objs));
          m = (if aligns = [] then 1 else Max (set aligns))
      in min 8 (max 1 m))"

definition cie_redirects :: "key \<Rightarrow> u8 list \<Rightarrow> EhFrameRecord list \<Rightarrow> nat option list \<Rightarrow> place option list \<Rightarrow> CieRedirect list" where
  "cie_redirects k data records starts target_of =
     List.map_filter
       (\<lambda>i. let r = records ! i
            in if \<not> is_fde r then None
               else case starts ! i of
                      None \<Rightarrow> None
                    | Some s \<Rightarrow>
                        (case cie_at records (cie_position data r) of
                           None \<Rightarrow> None
                         | Some cie \<Rightarrow>
                             map_option
                               (\<lambda>t. \<lparr>redirect_obj = fst k, redirect_sec = snd k, field = s + (id_offset r - rec_start r),
                                     width = id_size r, redirect_target = t\<rparr>)
                               (target_of ! cie)))
       [0..<length records]"

type_synonym pack_state = "Elf64Object \<times> (CieKey \<rightharpoonup> place) \<times> EhFramePacking"

definition replace_section :: "nat \<Rightarrow> u8 list \<Rightarrow> Elf64Object \<Rightarrow> Elf64Object" where
  "replace_section si buf obj =
     obj\<lparr>sections := (sections obj)[si := (sections obj ! si)\<lparr>sh_size := of_nat (length buf)\<rparr>],
         section_data := (section_data obj)[si := buf]\<rparr>"

text \<open>A section without CIEs to drop: only its last record may grow.\<close>

definition pack_untouched :: "nat \<Rightarrow> nat \<Rightarrow> u8 list \<Rightarrow> EhFrameRecord list \<Rightarrow> Elf64Object \<Rightarrow> EhFramePacking \<Rightarrow> Elf64Object \<times> EhFramePacking" where
  "pack_untouched unit_size si data records obj res =
     (if records = [] \<or> rec_end (List.last records) \<noteq> length data then (obj, res)
      else let (buf, changed) = pad_last_record data (rec_start (List.last records)) (id_size (List.last records)) unit_size
           in if changed then (replace_section si buf obj, res\<lparr>padded := padded res + 1\<rparr>) else (obj, res))"

text \<open>A section that loses CIEs.\<close>

definition pack_merged ::
  "nat \<Rightarrow> key \<Rightarrow> u8 list \<Rightarrow> Elf64Rela list \<Rightarrow> EhFrameRecord list \<Rightarrow> (bool \<times> place option \<times> CieKey option) list \<Rightarrow> pack_state \<Rightarrow> pack_state" where
  "pack_merged unit_size k data relocs records cls st =
     (let (obj, canon, res) = st;
          removed = map fst cls;
          compacted = compact_records data records removed;
          starts = new_start compacted;
          target_of = map (map_option (\<lambda>(o1, s1, x). if (o1, s1) = k then (o1, s1, start_or_max starts x) else (o1, s1, x)))
                        (map (fst \<circ> snd) cls);
          canon = register_cies k (start_or_max starts) (map (snd \<circ> snd) cls) canon;
          res = res\<lparr>redirects := redirects res @ cie_redirects k data records starts target_of,
                    merged := merged res + length (filter id removed)\<rparr>;
          (buf, changed) = (case find (\<lambda>i. starts ! i \<noteq> None) (rev [0..<length records]) of
                              None \<Rightarrow> (packed compacted, False)
                            | Some i \<Rightarrow> pad_last_record (packed compacted) (start_or_max starts i) (id_size (records ! i)) unit_size);
          obj = replace_section (snd k) buf obj
      in (obj\<lparr>relocations := (if snd k < length (relocations obj) then (relocations obj)[snd k := move_relocs compacted relocs]
                              else relocations obj)\<rparr>,
          canon, if changed then res\<lparr>padded := padded res + 1\<rparr> else res))"

definition pack_section :: "nat \<Rightarrow> key list \<Rightarrow> nat \<Rightarrow> pack_state \<Rightarrow> nat \<Rightarrow> pack_state" where
  "pack_section unit_size dead oi st si =
     (let (obj, canon, res) = st
      in if \<not> is_candidate dead (oi, si) (sections obj ! si) then st
         else case nth_opt (section_data obj) si of
                None \<Rightarrow> st
              | Some data \<Rightarrow>
                  (case tiled_records data of
                     None \<Rightarrow> st
                   | Some records \<Rightarrow>
                       (let relocs = (case nth_opt (relocations obj) si of None \<Rightarrow> [] | Some rs \<Rightarrow> rs);
                            cls = classify_cies canon (oi, si) (key_of oi (symbols obj) data relocs) Map.empty 0 records
                        in if True \<notin> fst ` set cls
                           then let canon = register_cies (oi, si) (\<lambda>i. rec_start (records ! i)) (map (snd \<circ> snd) cls) canon;
                                    (obj, res) = pack_untouched unit_size si data records obj res
                                in (obj, canon, res)
                           else pack_merged unit_size (oi, si) data relocs records cls (obj, canon, res))))"

definition pack_object :: "nat \<Rightarrow> key list \<Rightarrow> Elf64Object list \<times> (CieKey \<rightharpoonup> place) \<times> EhFramePacking \<Rightarrow> nat \<Rightarrow>
    Elf64Object list \<times> (CieKey \<rightharpoonup> place) \<times> EhFramePacking" where
  "pack_object unit_size dead st oi =
     (let (objs, canon, res) = st;
          (obj, canon, res) = foldl (pack_section unit_size dead oi) (objs ! oi, canon, res) [0..<length (sections (objs ! oi))]
      in (objs[oi := obj], canon, res))"

definition pack_eh_frame_sections :: "Elf64Object list \<Rightarrow> key list \<Rightarrow> Elf64Object list \<times> EhFramePacking" where
  "pack_eh_frame_sections objs dead =
     (let (objs, canon, res) = foldl (pack_object (padding_unit objs dead) dead)
            (objs, Map.empty, \<lparr>redirects = [], merged = 0, padded = 0\<rparr>) [0..<length objs]
      in (objs, res))"

subsection \<open>Pointers across sections\<close>

datatype redirect_error =
  Unplaced_section
| Not_preceding u64 u64
| Pointer_overflow u64

definition redirect_bytes :: "(key \<Rightarrow> (nat \<times> u64) option) \<Rightarrow> CieRedirect \<Rightarrow> (redirect_error, u8 list) result" where
  "redirect_bytes section_map r =
     (let (to, ts, tpos) = redirect_target r
      in case (section_map (redirect_obj r, redirect_sec r), section_map (to, ts)) of
           (Some (fde_out, fde_base), Some (cie_out, cie_base)) \<Rightarrow>
             (let field_pos = fde_base + of_nat (field r); cie = cie_base + of_nat tpos
              in if fde_out \<noteq> cie_out \<or> field_pos \<le> cie then Inl (Not_preceding cie field_pos)
                 else let v = field_pos - cie
                      in if width r = 8 then Inr (to_le_bytes 8 v)
                         else if uint v < 2 ^ 32 then Inr (to_le_bytes 4 (ucast v :: u32)) else Inl (Pointer_overflow v))
         | _ \<Rightarrow> Inl Unplaced_section)"

fun patch_redirects ::
  "Elf64Object list \<Rightarrow> (key \<Rightarrow> (nat \<times> u64) option) \<Rightarrow> CieRedirect list \<Rightarrow> (key \<rightharpoonup> u8 list) \<Rightarrow> (redirect_error, key \<rightharpoonup> u8 list) result" where
  "patch_redirects objs section_map [] patched = Inr patched"
| "patch_redirects objs section_map (r # rs) patched =
     (case redirect_bytes section_map r of
        Inl e \<Rightarrow> Inl e
      | Inr bytes \<Rightarrow>
          (let k = (redirect_obj r, redirect_sec r);
               buf = (case patched k of Some buf \<Rightarrow> buf | None \<Rightarrow> section_data (objs ! redirect_obj r) ! redirect_sec r)
           in patch_redirects objs section_map rs (patched(k \<mapsto> splice_bytes buf (field r) bytes))))"

definition apply_cie_redirects ::
  "Elf64Object list \<Rightarrow> (key \<Rightarrow> (nat \<times> u64) option) \<Rightarrow> EhFramePacking \<Rightarrow> (redirect_error, Elf64Object list) result" where
  "apply_cie_redirects objs section_map dedup =
     map_sum id
       (\<lambda>patched. map (\<lambda>(oi, obj). obj\<lparr>section_data :=
            map (\<lambda>(si, data). case patched (oi, si) of Some buf \<Rightarrow> buf | None \<Rightarrow> data) (enumerate 0 (section_data obj))\<rparr>)
          (enumerate 0 objs))
       (patch_redirects objs section_map (redirects dedup) Map.empty)"

subsection \<open>Redirected pointers lead to the surviving CIE\<close>

definition buf_of :: "Elf64Object list \<Rightarrow> (key \<rightharpoonup> u8 list) \<Rightarrow> key \<Rightarrow> u8 list" where
  "buf_of objs patched k = (case patched k of Some buf \<Rightarrow> buf | None \<Rightarrow> section_data (objs ! fst k) ! snd k)"

abbreviation home :: "CieRedirect \<Rightarrow> key" where
  "home r \<equiv> (redirect_obj r, redirect_sec r)"

lemma buf_of_upd: "buf_of objs (patched(k \<mapsto> buf)) k = buf"
  by (simp add: buf_of_def)

lemma patch_redirects_Cons:
  "redirect_bytes section_map r = Inr bytes \<Longrightarrow>
     patch_redirects objs section_map (r # rs) patched =
     patch_redirects objs section_map rs (patched(home r \<mapsto> splice_bytes (buf_of objs patched (home r)) (field r) bytes))"
  by (cases "patched (home r)") (simp_all add: buf_of_def)

definition apart :: "CieRedirect \<Rightarrow> CieRedirect \<Rightarrow> bool" where
  "apart r r' \<longleftrightarrow> home r \<noteq> home r' \<or> field r + width r \<le> field r' \<or> field r' + width r' \<le> field r"

definition in_bounds :: "Elf64Object list \<Rightarrow> CieRedirect \<Rightarrow> bool" where
  "in_bounds objs r \<longleftrightarrow>
     redirect_obj r < length objs \<and> redirect_sec r < length (section_data (objs ! redirect_obj r)) \<and>
     (width r = 4 \<or> width r = 8) \<and> field r + width r \<le> length (section_data (objs ! redirect_obj r) ! redirect_sec r)"

lemma redirect_bytes_length: "redirect_bytes section_map r = Inr bytes \<Longrightarrow> width r = 4 \<or> width r = 8 \<Longrightarrow> length bytes = width r"
  by (auto simp: redirect_bytes_def Let_def split: prod.splits option.splits if_splits)

lemma take_drop_splice_apart:
  "f + w \<le> k \<or> k + length bytes \<le> f \<Longrightarrow> k + length bytes \<le> length buf \<Longrightarrow>
     take w (drop f (splice_bytes buf k bytes)) = take w (drop f buf)"
  by (auto simp: splice_bytes_def take_drop add.commute)

lemma patch_redirects_frame:
  assumes "patch_redirects objs section_map rs patched = Inr patched'" and "list_all (in_bounds objs) rs"
    and "\<And>k. length (buf_of objs patched k) = length (section_data (objs ! fst k) ! snd k)"
  shows "length (buf_of objs patched' k) = length (section_data (objs ! fst k) ! snd k)"
    and "list_all (\<lambda>r. home r \<noteq> k \<or> f + w \<le> field r \<or> field r + width r \<le> f) rs \<Longrightarrow>
      take w (drop f (buf_of objs patched' k)) = take w (drop f (buf_of objs patched k))"
  using assms
proof (atomize (full), induction rs arbitrary: patched)
  case (Cons r rs)
  obtain bytes where b: "redirect_bytes section_map r = Inr bytes"
    using Cons.prems by (auto split: sum.splits)
  let ?p = "patched(home r \<mapsto> splice_bytes (buf_of objs patched (home r)) (field r) bytes)"
  have ib: "in_bounds objs r" "list_all (in_bounds objs) rs"
    using Cons.prems by auto
  have len: "field r + length bytes \<le> length (buf_of objs patched (home r))" "length bytes = width r"
    using ib(1) redirect_bytes_length [OF b] Cons.prems by (auto simp: in_bounds_def)
  have p: "patch_redirects objs section_map rs ?p = Inr patched'"
    using Cons.prems by (simp only: patch_redirects_Cons [OF b])
  have bo: "buf_of objs ?p k' = (if k' = home r then splice_bytes (buf_of objs patched (home r)) (field r) bytes else buf_of objs patched k')" for k'
    by (simp add: buf_of_def)
  have l: "length (buf_of objs ?p k') = length (section_data (objs ! fst k') ! snd k')" for k'
    using Cons.prems length_splice_bytes [OF len(1)] by (simp add: bo)
  have ih: "length (buf_of objs patched' k) = length (section_data (objs ! fst k) ! snd k) \<and>
      (list_all (\<lambda>r. home r \<noteq> k \<or> f + w \<le> field r \<or> field r + width r \<le> f) rs \<longrightarrow>
        take w (drop f (buf_of objs patched' k)) = take w (drop f (buf_of objs ?p k)))"
    using Cons.IH [of ?p] p ib(2) l by blast
  have "take w (drop f (buf_of objs ?p k)) = take w (drop f (buf_of objs patched k))"
    if "home r \<noteq> k \<or> f + w \<le> field r \<or> field r + width r \<le> f"
    using that take_drop_splice_apart [of f w "field r" bytes "buf_of objs patched (home r)"] len by (auto simp: bo)
  then show ?case
    using ih by auto
qed simp

lemma patch_redirects_writes:
  assumes "patch_redirects objs section_map rs patched = Inr patched'" and "list_all (in_bounds objs) rs" and "sorted_wrt apart rs"
    and "\<And>k. length (buf_of objs patched k) = length (section_data (objs ! fst k) ! snd k)" and "r \<in> set rs"
  shows "\<exists>bytes. redirect_bytes section_map r = Inr bytes \<and>
    take (width r) (drop (field r) (buf_of objs patched' (home r))) = bytes"
  using assms
proof (induction rs arbitrary: patched)
  case (Cons q rs)
  obtain bytes where b: "redirect_bytes section_map q = Inr bytes"
    using Cons.prems(1) by (auto split: sum.splits)
  let ?p = "patched(home q \<mapsto> splice_bytes (buf_of objs patched (home q)) (field q) bytes)"
  have ib: "in_bounds objs q" "list_all (in_bounds objs) rs"
    using Cons.prems(2) by auto
  have len: "field q + length bytes \<le> length (buf_of objs patched (home q))" "length bytes = width q"
    using ib(1) redirect_bytes_length [OF b] Cons.prems(4) by (auto simp: in_bounds_def)
  have p: "patch_redirects objs section_map rs ?p = Inr patched'"
    using Cons.prems(1) by (simp only: patch_redirects_Cons [OF b])
  have l: "length (buf_of objs ?p k') = length (section_data (objs ! fst k') ! snd k')" for k'
    using Cons.prems(4) length_splice_bytes [OF len(1)] by (auto simp: buf_of_def)
  show ?case
  proof (cases "r = q")
    case True
    have "list_all (\<lambda>x. home x \<noteq> home q \<or> field q + width q \<le> field x \<or> field x + width x \<le> field q) rs"
      using Cons.prems(3) by (auto simp: apart_def list_all_iff)
    from patch_redirects_frame(2) [OF p ib(2) l this]
    have "take (width q) (drop (field q) (buf_of objs patched' (home q))) = take (width q) (drop (field q) (buf_of objs ?p (home q)))" .
    also have "\<dots> = bytes"
      using len buf_of_upd [of objs patched "home q"] by (simp add: splice_bytes_def)
    finally show ?thesis
      using b True by simp
  next
    case False
    then show ?thesis
      using Cons.IH [OF p ib(2) _ l] Cons.prems(3,5) by simp
  qed
qed simp

lemma redirect_bytes_reads:
  assumes "redirect_bytes section_map r = Inr bytes" and "width r = 4 \<or> width r = 8" and "redirect_target r = (o1, s1, x)"
    and "take (width r) (drop (field r) buf) = bytes"
  shows "\<exists>out fde_base cie_base. section_map (home r) = Some (out, fde_base) \<and> section_map (o1, s1) = Some (out, cie_base) \<and>
    cie_base + of_nat x < fde_base + of_nat (field r) \<and>
    fde_base + of_nat (field r) - read_id buf (field r) (width r) = cie_base + of_nat x"
proof -
  obtain out fde_base out' cie_base where m: "section_map (home r) = Some (out, fde_base)" "section_map (o1, s1) = Some (out', cie_base)"
    using assms(1,3) by (auto simp: redirect_bytes_def split: option.splits)
  let ?f = "fde_base + of_nat (field r)" and ?c = "cie_base + of_nat x"
  have c: "out' = out" "?c < ?f"
    using assms(1,3) m by (auto simp: redirect_bytes_def Let_def split: if_splits)
  have "read_id buf (field r) (width r) = ?f - ?c"
  proof (cases "width r = 8")
    case True
    then have "bytes = to_le_bytes 8 (?f - ?c)"
      using assms(1,3) m c by (auto simp: redirect_bytes_def Let_def split: if_splits simp del: to_le_bytes.simps)
    then show ?thesis
      using assms(4) True by (simp add: read_id_def read_u64_le_def from_to_le_bytes take_bit_word_eq_self del: to_le_bytes.simps)
  next
    case False
    then have b: "bytes = to_le_bytes 4 (ucast (?f - ?c) :: u32)" "uint (?f - ?c) < 2 ^ 32"
      using assms(1,3) m c by (auto simp: redirect_bytes_def Let_def split: if_splits)
    then have "read_id buf (field r) (width r) = ucast (ucast (?f - ?c) :: u32)"
      using assms(2,4) False by (auto simp: read_id_def read_u32_le_def from_to_le_bytes take_bit_word_eq_self simp del: to_le_bytes.simps)
    also have "\<dots> = ?f - ?c"
      using b(2) by (intro word_uint_eq_iff [THEN iffD2]) (simp add: unsigned_ucast_eq unsigned_take_bit_eq take_bit_int_eq_self)
    finally show ?thesis .
  qed
  then show ?thesis
    using m c by simp
qed

text \<open>
  C40: writing the CIE pointers that cross sections. When it succeeds, and the recorded fields lie in their sections and do not overlap, every recorded FDE
  lies behind its recorded target in the same output section, and the distance stored in the FDE's pointer field, subtracted from the output address of
  the field, is the output address of that target.
\<close>

theorem redirects_lead_to_their_targets:
  assumes "apply_cie_redirects objs section_map packing = Inr objs'"
    and "list_all (in_bounds objs) (redirects packing)" and "sorted_wrt apart (redirects packing)"
    and "r \<in> set (redirects packing)" and "redirect_target r = (o1, s1, x)"
  shows "\<exists>out fde_base cie_base. section_map (redirect_obj r, redirect_sec r) = Some (out, fde_base) \<and>
    section_map (o1, s1) = Some (out, cie_base) \<and> cie_base + of_nat x < fde_base + of_nat (field r) \<and>
    fde_base + of_nat (field r) - read_id (section_data (objs' ! redirect_obj r) ! redirect_sec r) (field r) (width r) =
      cie_base + of_nat x"
proof -
  obtain patched where p: "patch_redirects objs section_map (redirects packing) Map.empty = Inr patched"
      and o': "objs' = map (\<lambda>(oi, obj). obj\<lparr>section_data :=
            map (\<lambda>(si, data). case patched (oi, si) of Some buf \<Rightarrow> buf | None \<Rightarrow> data) (enumerate 0 (section_data obj))\<rparr>)
          (enumerate 0 objs)"
    using assms(1) by (cases "patch_redirects objs section_map (redirects packing) Map.empty") (auto simp: apply_cie_redirects_def)
  have ib: "in_bounds objs r"
    using assms(2,4) by (simp add: list_all_iff)
  have buf: "section_data (objs' ! redirect_obj r) ! redirect_sec r = buf_of objs patched (home r)"
    using ib by (simp add: o' in_bounds_def nth_enumerate_eq buf_of_def split: option.split)
  obtain bytes where "redirect_bytes section_map r = Inr bytes"
      "take (width r) (drop (field r) (buf_of objs patched (home r))) = bytes"
    using patch_redirects_writes [OF p assms(2,3) _ assms(4)] by (auto simp: buf_of_def)
  then show ?thesis
    using redirect_bytes_reads [OF _ _ assms(5)] ib unfolding buf by (simp add: in_bounds_def)
qed

definition sample_packing :: EhFramePacking where
  "sample_packing =
     \<lparr>redirects = [\<lparr>redirect_obj = 0, redirect_sec = 2, field = 12, width = 4, redirect_target = (0, 2, 0)\<rparr>], merged = 1, padded = 0\<rparr>"

definition sample_map :: "key \<Rightarrow> (nat \<times> u64) option" where
  "sample_map k = (if k = (0, 2) then Some (7, 0x100) else None)"

theorem redirects_lead_to_their_targets_witness:
  "\<exists>objs'. apply_cie_redirects [sample_user [] 3] sample_map sample_packing = Inr objs' \<and>
    0x100 + of_nat 12 - read_id (section_data (objs' ! 0) ! 2) 12 4 = (0x100 :: u64)"
proof -
  let ?objs = "[sample_user [] 3]" and ?r = "hd (redirects sample_packing)"
  obtain objs' where a: "apply_cie_redirects ?objs sample_map sample_packing = Inr objs'"
    by (cases "apply_cie_redirects ?objs sample_map sample_packing")
      (simp_all add: apply_cie_redirects_def sample_packing_def redirect_bytes_def sample_map_def Let_def)
  have h: "list_all (in_bounds ?objs) (redirects sample_packing)" "sorted_wrt apart (redirects sample_packing)"
      "?r \<in> set (redirects sample_packing)" "redirect_target ?r = (0, 2, 0)"
    by code_simp+
  show ?thesis
    using redirects_lead_to_their_targets [OF a h] a by (auto simp: sample_packing_def sample_map_def)
qed

end
