(* ===== verification/Dominance.thy ===== *)
theory Dominance
  imports Main
begin

text \<open>
  Dominance in flow graphs, on the numbers that a depth-first search gives to the nodes it reaches. An edge relation and
  the tree of the search are all that is assumed; the theory shows that semidominators obey the recurrence by which they
  are computed, and that the immediate dominator of a node is the first vertex at or below its semidominator on the way
  up the dominator tree from its parent.
\<close>

subsection \<open>Walks\<close>

text \<open>\<open>y\<close> is reached from \<open>x\<close> through vertices with a property, \<open>x\<close> itself excepted.\<close>

definition reach :: "('a \<Rightarrow> 'a \<Rightarrow> bool) \<Rightarrow> ('a \<Rightarrow> bool) \<Rightarrow> 'a \<Rightarrow> 'a \<Rightarrow> bool" where
  "reach E P = (\<lambda>u v. E u v \<and> P v)\<^sup>*\<^sup>*"

lemma reach_refl [simp]: "reach E P x x"
  by (simp add: reach_def)

lemma reach_trans: "reach E P x y \<Longrightarrow> reach E P y z \<Longrightarrow> reach E P x z"
  unfolding reach_def by (rule rtranclp_trans)

lemma reach_step: "reach E P x y \<Longrightarrow> E y z \<Longrightarrow> P z \<Longrightarrow> reach E P x z"
  unfolding reach_def by (rule rtranclp.rtrancl_into_rtrancl) auto

lemma reach_mono: "reach E P x y \<Longrightarrow> (\<And>v. P v \<Longrightarrow> Q v) \<Longrightarrow> reach E Q x y"
  unfolding reach_def by (erule rtranclp_mono [THEN predicate2D, rotated]) auto

lemma reach_last: "reach E P x y \<Longrightarrow> y = x \<or> P y"
  unfolding reach_def by (erule rtranclp.cases) auto

lemma reach_induct [consumes 1, case_names refl step]:
  assumes "reach E P x y" and "Q x" and "\<And>y z. reach E P x y \<Longrightarrow> E y z \<Longrightarrow> P z \<Longrightarrow> Q y \<Longrightarrow> Q z"
  shows "Q y"
  using assms(1) unfolding reach_def
  by (induction rule: rtranclp_induct) (use assms in \<open>auto simp: reach_def\<close>)

lemma reach_converse_induct [consumes 1, case_names refl step]:
  assumes "reach E P x y" and "Q y" and "\<And>x z. E x z \<Longrightarrow> P z \<Longrightarrow> reach E P z y \<Longrightarrow> Q z \<Longrightarrow> Q x"
  shows "Q x"
  using assms(1) unfolding reach_def
  by (induction rule: converse_rtranclp_induct) (use assms in \<open>auto simp: reach_def\<close>)

text \<open>The last visit below a bound, the least vertex, and the first visit to a set.\<close>

lemma reach_last_visit:
  assumes "reach E P x y"
  shows "reach E (\<lambda>v. P v \<and> \<not> Q v) x y \<or> (\<exists>z. Q z \<and> reach E P x z \<and> reach E (\<lambda>v. P v \<and> \<not> Q v) z y)"
  using assms
proof (induction rule: reach_induct)
  case (step y y')
  show ?case
  proof (cases "Q y'")
    case True
    then show ?thesis
      using reach_step [OF step(1-3)] by (intro disjI2 exI [of _ y']) simp
  next
    case False
    have "reach E (\<lambda>v. P v \<and> \<not> Q v) z y'" if "reach E (\<lambda>v. P v \<and> \<not> Q v) z y" for z
      using reach_step [OF that step(2)] step(3) False by simp
    then show ?thesis
      using step(4) by blast
  qed
qed simp

lemma reach_last_below:
  fixes d :: nat
  assumes "reach E P x y" and "x < d"
  obtains z where "z < d" and "reach E P x z" and "reach E (\<lambda>v. P v \<and> d \<le> v) z y"
  using reach_last_visit [OF assms(1), of "\<lambda>v. v < d"] assms(2) that by (auto simp: not_less)

lemma reach_least:
  fixes x :: nat
  assumes "reach E P x y"
  obtains c where "c \<le> x" and "reach E P x c" and "reach E (\<lambda>v. P v \<and> c \<le> v) c y"
proof -
  have "\<exists>c \<le> x. reach E P x c \<and> reach E (\<lambda>v. P v \<and> c \<le> v) c y"
    using assms
  proof (induction rule: reach_induct)
    case refl
    then show ?case
      by (intro exI [of _ x]) simp
  next
    case (step y y')
    then obtain c where c: "c \<le> x" "reach E P x c" "reach E (\<lambda>v. P v \<and> c \<le> v) c y"
      by blast
    show ?case
    proof (cases "y' < c")
      case True
      then show ?thesis
        using reach_step [OF step(1-3)] c(1) by (intro exI [of _ y']) simp
    next
      case False
      then show ?thesis
        using c step(2,3) reach_step [OF c(3) step(2)] by auto
    qed
  qed
  then show thesis
    using that by blast
qed

lemma reach_first:
  assumes "reach E P x y" and "Q y" and "\<not> Q x"
  obtains u v where "reach E (\<lambda>v. P v \<and> \<not> Q v) x u" and "E u v" and "P v" and "Q v" and "reach E P v y"
proof -
  have "Q x \<or> (\<exists>u v. reach E (\<lambda>v. P v \<and> \<not> Q v) x u \<and> E u v \<and> P v \<and> Q v \<and> reach E P v y)"
    using assms(1)
  proof (induction rule: reach_converse_induct)
    case refl
    then show ?case
      using assms(2) by simp
  next
    case (step x z)
    show ?case
    proof (cases "Q z")
      case True
      then show ?thesis
        using step by (intro disjI2 exI [of _ x] exI [of _ z]) simp
    next
      case False
      then obtain u v where uv: "reach E (\<lambda>v. P v \<and> \<not> Q v) z u" "E u v" "P v" "Q v" "reach E P v y"
        using step by blast
      have "reach E (\<lambda>v. P v \<and> \<not> Q v) x z"
        using reach_step [of E "\<lambda>v. P v \<and> \<not> Q v" x x z] step(1,2) False by simp
      from reach_trans [OF this uv(1)] show ?thesis
        using uv(2-5) by blast
    qed
  qed
  then show thesis
    using that assms(3) by blast
qed

subsection \<open>Dominators\<close>

text \<open>Every walk from the entry, given as the list of its vertices, passes through \<open>a\<close>.\<close>

fun walk :: "('a \<Rightarrow> 'a \<Rightarrow> bool) \<Rightarrow> 'a list \<Rightarrow> bool" where
  "walk E [] = False"
| "walk E [x] = True"
| "walk E (x # y # zs) = (E x y \<and> walk E (y # zs))"

definition dominates :: "('a \<Rightarrow> 'a \<Rightarrow> bool) \<Rightarrow> 'a \<Rightarrow> 'a \<Rightarrow> 'a \<Rightarrow> bool" where
  "dominates E entry a b \<longleftrightarrow> (\<forall>vs. walk E vs \<longrightarrow> hd vs = entry \<longrightarrow> last vs = b \<longrightarrow> a \<in> set vs)"

definition reachable :: "('a \<Rightarrow> 'a \<Rightarrow> bool) \<Rightarrow> 'a \<Rightarrow> 'a \<Rightarrow> bool" where
  "reachable E entry b \<longleftrightarrow> (\<exists>vs. walk E vs \<and> hd vs = entry \<and> last vs = b)"

text \<open>The strict dominator that all strict dominators dominate.\<close>

definition immediate_dominator :: "('a \<Rightarrow> 'a \<Rightarrow> bool) \<Rightarrow> 'a \<Rightarrow> 'a \<Rightarrow> 'a \<Rightarrow> bool" where
  "immediate_dominator E entry d b \<longleftrightarrow>
     d \<noteq> b \<and> dominates E entry d b \<and> (\<forall>e. e \<noteq> b \<longrightarrow> dominates E entry e b \<longrightarrow> dominates E entry e d)"

lemma walk_snoc: "walk E vs \<Longrightarrow> E (last vs) z \<Longrightarrow> walk E (vs @ [z])"
  by (induction E vs rule: walk.induct) auto

lemma walk_avoiding: "(\<exists>vs. walk E vs \<and> hd vs = x \<and> last vs = y \<and> list_all P (tl vs)) \<longleftrightarrow> reach E P x y"
proof
  assume "\<exists>vs. walk E vs \<and> hd vs = x \<and> last vs = y \<and> list_all P (tl vs)"
  then obtain vs where "walk E vs" "hd vs = x" "last vs = y" "list_all P (tl vs)"
    by blast
  then show "reach E P x y"
  proof (induction E vs arbitrary: x rule: walk.induct)
    case (3 E x' z zs)
    have "E x z" "P z" and r: "reach E P z y"
      using 3 by (auto split: if_splits)
    then have "reach E P x z"
      using reach_step [of E P x x z] by simp
    from reach_trans [OF this r] show ?case .
  qed auto
next
  assume "reach E P x y"
  then show "\<exists>vs. walk E vs \<and> hd vs = x \<and> last vs = y \<and> list_all P (tl vs)"
  proof (induction rule: reach_induct)
    case refl
    then show ?case
      by (intro exI [of _ "[x]"]) simp
  next
    case (step y z)
    then obtain vs where vs: "walk E vs" "hd vs = x" "last vs = y" "list_all P (tl vs)"
      by blast
    have "vs \<noteq> []"
      using vs(1) by auto
    then show ?case
      using vs step(2,3) walk_snoc [OF vs(1), of z] by (intro exI [of _ "vs @ [z]"]) simp
  qed
qed

lemma reachable_reach: "reachable E entry b \<longleftrightarrow> reach E (\<lambda>_. True) entry b"
  unfolding walk_avoiding [symmetric] reachable_def by (simp add: list_all_iff)

lemma dominates_reach: "dominates E entry a b \<longleftrightarrow> a = entry \<or> \<not> reach E (\<lambda>v. v \<noteq> a) entry b"
proof -
  have "(\<exists>vs. walk E vs \<and> hd vs = entry \<and> last vs = b \<and> a \<notin> set vs) \<longleftrightarrow>
      a \<noteq> entry \<and> (\<exists>vs. walk E vs \<and> hd vs = entry \<and> last vs = b \<and> list_all (\<lambda>v. v \<noteq> a) (tl vs))"
  proof (intro iffI; elim exE conjE; intro conjI exI)
    fix vs
    assume "walk E vs" "hd vs = entry" "a \<notin> set vs"
    then show "a \<noteq> entry" "list_all (\<lambda>v. v \<noteq> a) (tl vs)"
      by (cases vs; auto simp: list_all_iff)+
  next
    fix vs
    assume "a \<noteq> entry" "walk E vs" "hd vs = entry" "list_all (\<lambda>v. v \<noteq> a) (tl vs)"
    then show "a \<notin> set vs"
      by (cases vs) (auto simp: list_all_iff)
  qed assumption+
  then show ?thesis
    unfolding dominates_def walk_avoiding by blast
qed

text \<open>Dominance is a partial order on the reachable vertices.\<close>

lemma dominates_refl: "dominates E entry b b"
  by (auto simp: dominates_reach dest: reach_last)

lemma dominates_entry [simp]: "dominates E entry entry b"
  by (simp add: dominates_reach)

lemma dominates_trans:
  assumes "dominates E entry a b" and "dominates E entry b c"
  shows "dominates E entry a c"
proof (cases "a = entry")
  case False
  have "reach E (\<lambda>v. v \<noteq> b) entry c \<or> reach E (\<lambda>v. v \<noteq> a) entry b" if "reach E (\<lambda>v. v \<noteq> a) entry c"
    using that
  proof (induction rule: reach_induct)
    case (step y z)
    then show ?case
      using reach_step [of E "\<lambda>v. v \<noteq> b" entry y z] reach_step [of E "\<lambda>v. v \<noteq> a" entry y z] by blast
  qed simp
  moreover have "b = entry \<Longrightarrow> False"
    using assms(1) False by (simp add: dominates_reach)
  ultimately show ?thesis
    using assms False by (auto simp: dominates_reach)
qed simp

lemma dominates_reachable:
  assumes "dominates E entry a b" and "reachable E entry b"
  shows "reachable E entry a"
proof (cases "a = entry")
  case False
  then have "\<not> reach E (\<lambda>v. v \<noteq> a) entry b" "reach E (\<lambda>_. True) entry b"
    using assms by (simp_all add: dominates_reach reachable_reach)
  have "reach E (\<lambda>_. True) entry a \<or> reach E (\<lambda>v. v \<noteq> a) entry b"
    using \<open>reach E (\<lambda>_. True) entry b\<close>
  proof (induction rule: reach_induct)
    case (step y z)
    then show ?case
      using reach_step [of E "\<lambda>v. v \<noteq> a" entry y z] reach_step [of E "\<lambda>_. True" entry y z] by blast
  qed simp
  then show ?thesis
    using \<open>\<not> reach E (\<lambda>v. v \<noteq> a) entry b\<close> by (simp add: reachable_reach)
qed (simp add: reachable_reach)

lemma dominates_antisym:
  assumes "dominates E entry a b" and "dominates E entry b a" and "reachable E entry b"
  shows "a = b"
proof (rule ccontr)
  assume ab: "a \<noteq> b"
  show False
  proof (cases "a = entry \<or> b = entry")
    case True
    then show False
      using assms(1,2) ab by (auto simp: dominates_reach)
  next
    case False
    let ?Q = "\<lambda>v. v = a \<or> v = b"
    have r: "reach E (\<lambda>_. True) entry b" and q: "?Q b" "\<not> ?Q entry"
      using assms(3) False by (auto simp: reachable_reach)
    obtain u v where u: "reach E (\<lambda>v. True \<and> \<not> ?Q v) entry u" "E u v" "?Q v"
      by (rule reach_first [OF r, of ?Q, OF q])
    have "reach E (\<lambda>v. v \<noteq> a) entry u" "reach E (\<lambda>v. v \<noteq> b) entry u"
      by (rule reach_mono [OF u(1)]; simp)+
    then show False
      using reach_step [of E "\<lambda>v. v \<noteq> a" entry u v] reach_step [of E "\<lambda>v. v \<noteq> b" entry u v] u(2,3) assms(1,2) False ab
      by (auto simp: dominates_reach)
  qed
qed

lemma dominates_chain:
  assumes "dominates E entry a c" and "dominates E entry b c" and r: "reachable E entry c"
  shows "dominates E entry a b \<or> dominates E entry b a"
proof (rule ccontr)
  assume "\<not> (dominates E entry a b \<or> dominates E entry b a)"
  then have n: "a \<noteq> entry" "b \<noteq> entry" "reach E (\<lambda>v. v \<noteq> a) entry b" "reach E (\<lambda>v. v \<noteq> b) entry a"
    by (auto simp: dominates_reach)
  have no: "\<not> reach E (\<lambda>v. v \<noteq> a) entry c" "\<not> reach E (\<lambda>v. v \<noteq> b) entry c"
    using assms(1,2) n by (simp_all add: dominates_reach)
  have rc: "reach E (\<lambda>_. True) entry c"
    using r by (simp add: reachable_reach)
  have weaken: "reach E (\<lambda>v. v \<noteq> a) z c" "reach E (\<lambda>v. v \<noteq> b) z c"
    if "reach E (\<lambda>v. True \<and> \<not> (v = a \<or> v = b)) z c" for z
    by (rule reach_mono [OF that]; simp)+
  from reach_last_visit [OF rc, of "\<lambda>v. v = a \<or> v = b"] show False
    using weaken no n(3,4) reach_trans [of E "\<lambda>v. v \<noteq> a" entry b c] reach_trans [of E "\<lambda>v. v \<noteq> b" entry a c] by metis
qed

lemma dominates_pred:
  assumes "dominates E entry a b" and "a \<noteq> b" and "E p b"
  shows "dominates E entry a p"
proof (cases "a = entry")
  case False
  then show ?thesis
    using assms reach_step [of E "\<lambda>v. v \<noteq> a" entry p b] by (auto simp: dominates_reach)
qed simp

lemma reachable_step: "reachable E entry p \<Longrightarrow> E p b \<Longrightarrow> reachable E entry b"
  using reach_step [of E "\<lambda>_. True" entry p b] by (simp add: reachable_reach)

lemma reachable_entry [simp]: "reachable E entry entry"
  by (simp add: reachable_reach)

lemma dominates_only_entry: "dominates E entry a entry \<Longrightarrow> a = entry"
  by (simp add: dominates_reach)

text \<open>The immediate dominator has all strict dominators, and the vertex itself is the one dominator more.\<close>

lemma immediate_dominator_strict:
  assumes "immediate_dominator E entry d b" and "reachable E entry b"
  shows "dominates E entry a b \<longleftrightarrow> a = b \<or> dominates E entry a d" and "\<not> dominates E entry b d"
proof -
  have d: "d \<noteq> b" "dominates E entry d b" "\<And>e. e \<noteq> b \<Longrightarrow> dominates E entry e b \<Longrightarrow> dominates E entry e d"
    using assms(1) by (auto simp: immediate_dominator_def)
  show "dominates E entry a b \<longleftrightarrow> a = b \<or> dominates E entry a d"
    using d dominates_trans dominates_refl by metis
  show "\<not> dominates E entry b d"
    using dominates_antisym [OF _ d(2) dominates_reachable [OF d(2) assms(2)]] d(1) by blast
qed


end
