(* ===== verification/SearchTree.thy ===== *)
theory SearchTree
  imports Dominance
begin

text \<open>
  What a depth-first numbering promises, as a locale, and what follows for dominators. Vertices are the preorder numbers \<open>0\<close> to
  \<open>n - 1\<close>, the entry is \<open>0\<close>, and \<open>par\<close> is the tree of the search.
\<close>

definition ancestor_of :: "(nat \<Rightarrow> nat) \<Rightarrow> nat \<Rightarrow> nat \<Rightarrow> bool" where
  "ancestor_of par a b \<longleftrightarrow> (\<exists>k. (par ^^ k) b = a)"

lemma ancestor_refl [simp]: "ancestor_of par a a"
  by (auto simp: ancestor_of_def intro: exI [of _ 0])

lemma ancestor_par: "ancestor_of par (par b) b"
  by (auto simp: ancestor_of_def intro: exI [of _ 1])

lemma ancestor_trans: "ancestor_of par a b \<Longrightarrow> ancestor_of par b c \<Longrightarrow> ancestor_of par a c"
  unfolding ancestor_of_def by (metis comp_apply funpow_add)

lemma ancestor_cases: "ancestor_of par a b \<Longrightarrow> a = b \<or> ancestor_of par a (par b)"
proof -
  assume "ancestor_of par a b"
  then obtain k where k: "(par ^^ k) b = a"
    by (auto simp: ancestor_of_def)
  then show ?thesis
    by (cases k) (auto simp: ancestor_of_def funpow_swap1)
qed

locale search_tree =
  fixes n :: nat and E :: "nat \<Rightarrow> nat \<Rightarrow> bool" and par :: "nat \<Rightarrow> nat"
  assumes edge_bounds: "E u v \<Longrightarrow> u < n \<and> v < n"
    and par_edge: "0 < w \<Longrightarrow> w < n \<Longrightarrow> par w < w \<and> E (par w) w"
    and par_entry: "par 0 = 0"
    and forward_edges: "E v w \<Longrightarrow> v < w \<Longrightarrow> ancestor_of par v w"
    and subtree_interval: "ancestor_of par c a \<Longrightarrow> a < n \<Longrightarrow> c \<le> b \<Longrightarrow> b \<le> a \<Longrightarrow> ancestor_of par c b"
begin

abbreviation anc :: "nat \<Rightarrow> nat \<Rightarrow> bool" where
  "anc \<equiv> ancestor_of par"

lemma par_le: "w < n \<Longrightarrow> par w \<le> w"
  using par_edge [of w] par_entry by (cases "w = 0") auto

lemma anc_induct [consumes 1, case_names entry tree]:
  assumes "w < n" and "Q 0" and "\<And>v. 0 < v \<Longrightarrow> v < n \<Longrightarrow> Q (par v) \<Longrightarrow> Q v"
  shows "Q w"
  using assms(1)
proof (induction w rule: less_induct)
  case (less w)
  then show ?case
    using assms(2,3) par_edge [of w] by (cases "w = 0") auto
qed

lemma anc_entry: "w < n \<Longrightarrow> anc 0 w"
  by (induction rule: anc_induct) (auto intro: ancestor_trans ancestor_par)

lemma anc_le: "anc a b \<Longrightarrow> b < n \<Longrightarrow> a \<le> b"
proof -
  assume "anc a b" "b < n"
  then obtain k where "(par ^^ k) b = a"
    by (auto simp: ancestor_of_def)
  then show ?thesis
    using \<open>b < n\<close>
  proof (induction k arbitrary: a)
    case (Suc k)
    have "(par ^^ k) b \<le> b"
      using Suc by blast
    then show ?case
      using Suc.prems par_le [of "(par ^^ k) b"] by simp
  qed simp
qed

lemma anc_chain: "anc a c \<Longrightarrow> anc b c \<Longrightarrow> c < n \<Longrightarrow> a \<le> b \<Longrightarrow> anc a b"
  using subtree_interval anc_le by blast

lemma anc_proper: "anc a w \<Longrightarrow> a \<noteq> w \<Longrightarrow> anc a (par w)"
  using ancestor_cases by blast

lemma anc_less: "anc a b \<Longrightarrow> b < n \<Longrightarrow> a \<noteq> b \<Longrightarrow> a < b"
  using anc_le by fastforce

text \<open>The tree path between an ancestor and a descendant.\<close>

lemma tree_path:
  assumes "anc a b" and "b < n"
  shows "reach E (\<lambda>v. a < v \<and> v \<le> b \<and> anc v b) a b"
  using assms(2,1)
proof (induction rule: anc_induct)
  case entry
  then have "a = 0"
    using anc_le [of a 0] assms(2) by simp
  then show ?case
    by simp
next
  case (tree b)
  show ?case
  proof (cases "a = b")
    case False
    then have p: "anc a (par b)"
      using tree(4) anc_proper by blast
    have b: "par b < b" "E (par b) b"
      using par_edge tree(1,2) by auto
    have "reach E (\<lambda>v. a < v \<and> v \<le> b \<and> anc v b) a (par b)"
      by (rule reach_mono [OF tree(3) [OF p]]) (use b(1) in \<open>auto intro: ancestor_trans ancestor_par\<close>)
    from reach_step [OF this b(2)] show ?thesis
      using anc_less [OF tree(4) tree(2) False] by simp
  qed simp
qed

lemma all_reached: "w < n \<Longrightarrow> reachable E 0 w"
  unfolding reachable_reach by (rule reach_mono [OF tree_path [OF anc_entry]]) simp_all

text \<open>A walk to a vertex with a larger number passes through a common ancestor.\<close>

lemma descend:
  assumes "reach E (\<lambda>v. P v \<and> c \<le> v) c w" and "c < n"
  shows "anc c w \<and> w < n"
  using assms(1)
proof (induction rule: reach_induct)
  case refl
  then show ?case
    using assms(2) by simp
next
  case (step y z)
  have z: "z < n"
    using edge_bounds [OF step(2)] by simp
  have "anc c z"
  proof (cases "y < z")
    case True
    then show ?thesis
      using step(4) forward_edges [OF step(2)] ancestor_trans by blast
  next
    case False
    then show ?thesis
      using step(3,4) subtree_interval [of c y z] by simp
  qed
  then show ?case
    using z by simp
qed

lemma common_ancestor:
  assumes "reach E P v w" and "v \<le> w" and "v < n"
  obtains c where "reach E P v c" and "reach E P c w" and "anc c v" and "anc c w" and "w < n"
proof -
  obtain c where c: "c \<le> v" "reach E P v c" "reach E (\<lambda>u. P u \<and> c \<le> u) c w"
    using reach_least [OF assms(1)] by blast
  have d: "anc c w" "w < n"
    using descend [OF c(3)] c(1) assms(3) by auto
  have "anc c v"
    using subtree_interval [OF d c(1) assms(2)] .
  moreover have "reach E P c w"
    by (rule reach_mono [OF c(3)]) simp
  ultimately show thesis
    using that c(2) d by blast
qed


subsection \<open>Semidominators\<close>

text \<open>\<open>x\<close> reaches \<open>w\<close> with all vertices between larger than \<open>w\<close>; the least such vertex is the semidominator.\<close>

definition semi_candidate :: "nat \<Rightarrow> nat \<Rightarrow> bool" where
  "semi_candidate w x \<longleftrightarrow> (\<exists>v. reach E (\<lambda>u. w < u) x v \<and> E v w)"

definition sdom :: "nat \<Rightarrow> nat" where
  "sdom w = (LEAST x. semi_candidate w x)"

lemma par_candidate: "0 < w \<Longrightarrow> w < n \<Longrightarrow> semi_candidate w (par w)"
  using par_edge [of w] by (auto simp: semi_candidate_def intro!: exI [of _ "par w"])

lemma sdom_candidate: "0 < w \<Longrightarrow> w < n \<Longrightarrow> semi_candidate w (sdom w)"
  unfolding sdom_def by (rule LeastI) (rule par_candidate)

lemma sdom_le: "semi_candidate w x \<Longrightarrow> sdom w \<le> x"
  unfolding sdom_def by (rule Least_le)

lemma sdom_less: "0 < w \<Longrightarrow> w < n \<Longrightarrow> sdom w < w"
  using sdom_le [OF par_candidate, of w] par_edge [of w] by linarith

lemma sdom_anc:
  assumes w: "0 < w" "w < n"
  shows "anc (sdom w) w"
proof -
  obtain v where v: "reach E (\<lambda>u. w < u) (sdom w) v" "E v w"
    using sdom_candidate [OF w] by (auto simp: semi_candidate_def)
  have "reach E (\<lambda>u. w \<le> u) (sdom w) v"
    by (rule reach_mono [OF v(1)]) simp
  from reach_step [OF this v(2)] have r: "reach E (\<lambda>u. w \<le> u) (sdom w) w"
    by simp
  have s: "sdom w \<le> w" "sdom w < n"
    using sdom_less [OF w] w(2) by linarith+
  obtain c where c: "reach E (\<lambda>u. w \<le> u) (sdom w) c" "anc c (sdom w)" "anc c w"
    using common_ancestor [OF r s] by blast
  have "c = sdom w"
    using reach_last [OF c(1)] anc_le [OF c(2) s(2)] sdom_less [OF w] by linarith
  then show ?thesis
    using c(3) by simp
qed

lemma sdom_anc_par: "0 < w \<Longrightarrow> w < n \<Longrightarrow> anc (sdom w) (par w)"
  using anc_proper [OF sdom_anc, of w] sdom_less [of w] by (metis less_irrefl)

text \<open>The recurrence by which semidominators are computed.\<close>

lemma sdom_upper:
  assumes "E v w" and "v < w" shows "sdom w \<le> v"
  using assms by (intro sdom_le) (auto simp: semi_candidate_def intro!: exI [of _ v])

lemma sdom_upper_subtree:
  assumes e: "E v w" and u: "anc u v" "w < u"
  shows "sdom w \<le> sdom u"
proof (rule sdom_le)
  have v: "v < n"
    using edge_bounds [OF e] by simp
  then have un: "u < n"
    using anc_le [OF u(1)] by simp
  obtain v' where v': "reach E (\<lambda>x. u < x) (sdom u) v'" "E v' u"
    using sdom_candidate [of u] u(2) un by (auto simp: semi_candidate_def)
  have "reach E (\<lambda>x. w < x) (sdom u) v'"
    by (rule reach_mono [OF v'(1)]) (use u(2) in simp)
  from reach_step [OF this v'(2) u(2)] have "reach E (\<lambda>x. w < x) (sdom u) u" .
  moreover have "reach E (\<lambda>x. w < x) u v"
    by (rule reach_mono [OF tree_path [OF u(1) v]]) (use u(2) in simp)
  ultimately have "reach E (\<lambda>x. w < x) (sdom u) v"
    by (rule reach_trans)
  then show "semi_candidate w (sdom u)"
    using e by (auto simp: semi_candidate_def)
qed

lemma sdom_attained:
  assumes w: "0 < w" "w < n"
  shows "E (sdom w) w \<or> (\<exists>u v. E v w \<and> anc u v \<and> w < u \<and> sdom u \<le> sdom w)"
proof -
  let ?s = "sdom w"
  obtain v where v: "reach E (\<lambda>u. w < u) ?s v" "E v w"
    using sdom_candidate [OF w] by (auto simp: semi_candidate_def)
  have vn: "v < n"
    using edge_bounds [OF v(2)] by simp
  show ?thesis
  proof (cases "v = ?s")
    case False
    then have "w < v"
      using reach_last [OF v(1)] by blast
    have notq: "\<not> (anc ?s v \<and> w < ?s)"
      using sdom_less [OF w] by simp
    have qv: "anc v v \<and> w < v"
      using \<open>w < v\<close> by simp
    obtain v' u where u: "reach E (\<lambda>x. w < x \<and> \<not> (anc x v \<and> w < x)) ?s v'" "E v' u" "w < u" "anc u v \<and> w < u"
      by (rule reach_first [OF v(1), of "\<lambda>x. anc x v \<and> w < x", OF qv notq])
    have un: "u < n"
      using edge_bounds [OF u(2)] by simp
    have "reach E (\<lambda>x. u < x) z v'"
      if "reach E (\<lambda>x. w < x \<and> \<not> (anc x v \<and> w < x)) z v'" for z
      using that
    proof (induction rule: reach_converse_induct)
      case (step x z)
      have "u < z"
      proof (rule ccontr)
        assume "\<not> u < z"
        then have zu: "z \<le> u"
          by simp
        let ?P = "\<lambda>x. w < x \<and> (\<not> (anc x v \<and> w < x) \<or> x = u)"
        have "reach E ?P z v'"
          by (rule reach_mono [OF step(3)]) blast
        from reach_step [OF this u(2)] have zr: "reach E ?P z u"
          using u(3) by simp
        have zn: "z < n"
          using edge_bounds [OF step(1)] by simp
        obtain c where c: "reach E ?P z c" "anc c z" "anc c u"
          using common_ancestor [OF zr zu zn] by blast
        have "anc c v"
          using c(3) u(4) ancestor_trans by blast
        then have "c = u"
          using reach_last [OF c(1)] step(2) by auto
        then have "z = u"
          using anc_le [OF c(2) zn] zu by simp
        then show False
          using step(2) u(4) by simp
      qed
      then have "reach E (\<lambda>x. u < x) x z"
        using reach_step [of E "\<lambda>x. u < x" x x z] step(1) by simp
      from reach_trans [OF this step(4)] show ?case .
    qed simp
    from this [OF u(1)] u(2) have "semi_candidate u ?s"
      by (auto simp: semi_candidate_def)
    then have "sdom u \<le> ?s"
      by (rule sdom_le)
    then show ?thesis
      using v(2) u(3,4) by blast
  qed (use v(2) in simp)
qed

subsection \<open>Immediate dominators\<close>

abbreviation dom :: "nat \<Rightarrow> nat \<Rightarrow> bool" where
  "dom \<equiv> dominates E 0"

lemma dom_refl: "dom w w"
  by (auto simp: dominates_reach dest: reach_last)

lemma dom_anc:
  assumes "dom d w" and "w < n" shows "anc d w"
proof (rule ccontr)
  assume a: "\<not> anc d w"
  have "reach E (\<lambda>v. v \<noteq> d) 0 w"
    by (rule reach_mono [OF tree_path [OF anc_entry [OF assms(2)] assms(2)]]) (use a in auto)
  then show False
    using assms a anc_entry by (auto simp: dominates_reach)
qed

lemma dom_trans: "dom a b \<Longrightarrow> dom b c \<Longrightarrow> dom a c"
  by (rule dominates_trans)

lemma dom_chain:
  assumes "dom x p" and "dom d p" and "x \<le> d" and "p < n" shows "dom x d"
proof (cases "x = d \<or> x = 0")
  case False
  have "\<not> reach E (\<lambda>v. v \<noteq> x) 0 d"
  proof
    assume r: "reach E (\<lambda>v. v \<noteq> x) 0 d"
    have "reach E (\<lambda>v. v \<noteq> x) d p"
      by (rule reach_mono [OF tree_path [OF dom_anc [OF assms(2,4)] assms(4)]]) (use assms(3) in auto)
    from reach_trans [OF r this] show False
      using assms(1) False by (simp add: dominates_reach)
  qed
  then show ?thesis
    by (simp add: dominates_reach)
qed (auto simp: dominates_reach dest: reach_last)

lemma dom_par_dominates:
  assumes w: "0 < w" "w < n" and d: "dom d (par w)" "d \<le> sdom w"
  shows "dom d w"
  unfolding dominates_reach
proof (rule disjCI, rule ccontr)
  assume "\<not> \<not> reach E (\<lambda>v. v \<noteq> d) 0 w" and "d \<noteq> 0"
  then have r: "reach E (\<lambda>v. v \<noteq> d) 0 w"
    by simp
  have p: "par w < n" "par w < w"
    using par_edge [OF w] w(2) by auto
  have dp: "anc d (par w)"
    using dom_anc [OF d(1) p(1)] .
  then have dw: "anc d w"
    using ancestor_trans ancestor_par by blast
  have dlw: "d < w"
    using d(2) sdom_less [OF w] by simp
  obtain x where x: "x < d" "reach E (\<lambda>v. v \<noteq> d) 0 x" "reach E (\<lambda>v. v \<noteq> d \<and> d \<le> v) x w"
    using reach_last_below [OF r, of d] \<open>d \<noteq> 0\<close> by blast
  let ?Q = "\<lambda>v. anc v w \<and> d < v"
  have xr: "reach E (\<lambda>v. d < v) x w"
    by (rule reach_mono [OF x(3)]) auto
  have qw: "?Q w" and qx: "\<not> ?Q x"
    using dlw x(1) by simp_all
  obtain y' y where y: "reach E (\<lambda>v. d < v \<and> \<not> ?Q v) x y'" "E y' y" "d < y" "?Q y"
    by (rule reach_first [OF xr, of ?Q, OF qw qx])
  show False
  proof (cases "y = w")
    case False
    then have "anc y (par w)"
      using y(4) anc_proper by blast
    have yp: "reach E (\<lambda>v. v \<noteq> d) y (par w)"
      by (rule reach_mono [OF tree_path [OF \<open>anc y (par w)\<close> p(1)]]) (use y(3) in auto)
    have "reach E (\<lambda>v. v \<noteq> d) x y"
    proof -
      have "reach E (\<lambda>v. v \<noteq> d) x y'"
        by (rule reach_mono [OF y(1)]) auto
      from reach_step [OF this y(2)] show ?thesis
        using y(3) by simp
    qed
    from reach_trans [OF reach_trans [OF x(2) this] yp] show False
      using d(1) \<open>d \<noteq> 0\<close> by (simp add: dominates_reach)
  next
    case True
    have "reach E (\<lambda>v. w < v) z y'" if "reach E (\<lambda>v. d < v \<and> \<not> ?Q v) z y'" for z
      using that
    proof (induction rule: reach_converse_induct)
      case (step x z)
      have "w < z"
      proof (rule ccontr)
        assume "\<not> w < z"
        then have zw: "z \<le> w"
          by simp
        let ?P = "\<lambda>v. d < v \<and> (\<not> ?Q v \<or> v = w)"
        have "reach E ?P z y'"
          by (rule reach_mono [OF step(3)]) blast
        from reach_step [OF this y(2)] have zr: "reach E ?P z w"
          using True dlw by simp
        have zn: "z < n"
          using edge_bounds [OF step(1)] by simp
        obtain c where c: "reach E ?P z c" "anc c z" "anc c w"
          using common_ancestor [OF zr zw zn] by blast
        have "c = w"
          using reach_last [OF c(1)] step(2) c(3) by auto
        then have "z = w"
          using anc_le [OF c(2) zn] zw by simp
        then show False
          using step(2) dlw by simp
      qed
      then have "reach E (\<lambda>v. w < v) x z"
        using reach_step [of E "\<lambda>v. w < v" x x z] step(1) by simp
      from reach_trans [OF this step(4)] show ?case .
    qed simp
    from this [OF y(1)] y(2) True have "semi_candidate w x"
      by (auto simp: semi_candidate_def)
    then show False
      using sdom_le [of w x] x(1) d(2) by simp
  qed
qed

lemma strict_dominator_bounds:
  assumes w: "0 < w" "w < n" and e: "dom e w" "e \<noteq> w"
  shows "dom e (par w)" and "e \<le> sdom w"
proof -
  have p: "par w < w" "E (par w) w"
    using par_edge [OF w] by auto
  show "dom e (par w)"
    unfolding dominates_reach
  proof (rule disjCI, rule ccontr)
    assume "\<not> \<not> reach E (\<lambda>v. v \<noteq> e) 0 (par w)" and "e \<noteq> 0"
    then have r: "reach E (\<lambda>v. v \<noteq> e) 0 (par w)"
      by simp
    from reach_step [OF r p(2)] show False
      using e \<open>e \<noteq> 0\<close> by (simp add: dominates_reach)
  qed
  show "e \<le> sdom w"
  proof (rule ccontr)
    assume "\<not> e \<le> sdom w"
    then have se: "sdom w < e"
      by simp
    have ew: "e < w"
      using anc_less [OF dom_anc [OF e(1) w(2)] w(2) e(2)] .
    obtain v where v: "reach E (\<lambda>u. w < u) (sdom w) v" "E v w"
      using sdom_candidate [OF w] by (auto simp: semi_candidate_def)
    have sn: "sdom w < n"
      using se ew w(2) by simp
    have "reach E (\<lambda>u. u \<noteq> e) 0 (sdom w)"
      by (rule reach_mono [OF tree_path [OF anc_entry [OF sn] sn]]) (use se in auto)
    moreover have "reach E (\<lambda>u. u \<noteq> e) (sdom w) v"
      by (rule reach_mono [OF v(1)]) (use ew in auto)
    ultimately have "reach E (\<lambda>u. u \<noteq> e) 0 v"
      by (rule reach_trans)
    from reach_step [OF this v(2)] have "reach E (\<lambda>u. u \<noteq> e) 0 w"
      using e(2) by simp
    then show False
      using e(1) se by (simp add: dominates_reach)
  qed
qed

text \<open>The nearest dominator of the parent at or below the semidominator is the immediate dominator.\<close>

lemma immediate_dominatorI:
  assumes w: "0 < w" "w < n" and d: "dom d (par w)" "d \<le> sdom w"
    and greatest: "\<And>x. dom x (par w) \<Longrightarrow> x \<le> sdom w \<Longrightarrow> x \<le> d"
  shows "immediate_dominator E 0 d w"
  unfolding immediate_dominator_def
proof (intro conjI allI impI)
  show "d \<noteq> w"
    using d(2) sdom_less [OF w] by simp
  show dw: "dom d w"
    by (rule dom_par_dominates [OF w d])
  fix e
  assume "e \<noteq> w" "dom e w"
  then have "e \<le> d"
    using strict_dominator_bounds [OF w] greatest by blast
  then show "dom e d"
    using dom_chain [OF \<open>dom e w\<close> dw] w(2) by blast
qed

end

end
