(* ===== verification/CfgGraph.thy ===== *)
theory CfgGraph
  imports PhiCopies "HOL-Library.Monad_Syntax"
begin

text \<open>
  The control-flow graph of a function and its dominator tree, \<^verbatim>\<open>src/src/ir/analysis.rs\<close>: adjacency lists in compressed form,
  their construction from the blocks, and the immediate dominators by semidominators with path compression.
  Indices that the code keeps in 32 bits are natural numbers; a function has fewer than \<open>2 ^ 32\<close> blocks. An index out of
  range is a panic, \<^const>\<open>None\<close>, and so is a loop that does not end.
\<close>

subsection \<open>Adjacency lists\<close>

record FlatAdj =
  offsets :: "nat list"
  adj_data :: "nat list"

definition row :: "FlatAdj \<Rightarrow> nat \<Rightarrow> nat list" where
  "row adj i = take (offsets adj ! (i + 1) - offsets adj ! i) (drop (offsets adj ! i) (adj_data adj))"

definition row_len :: "FlatAdj \<Rightarrow> nat \<Rightarrow> nat" where
  "row_len adj i = offsets adj ! (i + 1) - offsets adj ! i"

fun csr_offsets :: "nat \<Rightarrow> nat list list \<Rightarrow> nat list" where
  "csr_offsets offset [] = [offset]"
| "csr_offsets offset (v # vs) = offset # csr_offsets (offset + length v) vs"

definition from_vecs :: "nat list list \<Rightarrow> FlatAdj" where
  "from_vecs vecs = \<lparr>offsets = csr_offsets 0 vecs, adj_data = concat vecs\<rparr>"

lemma csr_offsets_nth:
  "i \<le> length vecs \<Longrightarrow> csr_offsets k vecs ! i = k + length (concat (take i vecs))"
proof (induction vecs arbitrary: i k)
  case (Cons v vs)
  then show ?case
    by (cases i) auto
qed simp

lemma row_from_vecs:
  assumes "i < length vecs"
  shows "row (from_vecs vecs) i = vecs ! i"
proof -
  have "vecs = take i vecs @ vecs ! i # drop (Suc i) vecs"
    using assms by (rule id_take_nth_drop)
  then have "concat vecs = concat (take i vecs) @ vecs ! i @ concat (drop (Suc i) vecs)"
    by (metis concat.simps(2) concat_append)
  moreover have "take (Suc i) vecs = take i vecs @ [vecs ! i]"
    using assms by (rule take_Suc_conv_app_nth)
  ultimately show ?thesis
    using assms by (simp add: row_def from_vecs_def csr_offsets_nth)
qed

lemma row_len_row: "i < length vecs \<Longrightarrow> row_len (from_vecs vecs) i = length (vecs ! i)"
  by (simp add: row_len_def from_vecs_def csr_offsets_nth take_Suc_conv_app_nth)

subsection \<open>Construction\<close>

definition build_label_map :: "'x BasicBlock list \<Rightarrow> nat \<rightharpoonup> nat" where
  "build_label_map blocks = foldl (\<lambda>m (i, b). m(label b \<mapsto> i)) Map.empty (enumerate 0 blocks)"

text \<open>The labels that a block names, in the order in which the code looks at them.\<close>

fun named_targets :: "Terminator \<Rightarrow> nat list" where
  "named_targets (Branch l) = [l]"
| "named_targets (CondBranch _ t f) = [t, f]"
| "named_targets (IndirectBranch _ ts) = ts"
| "named_targets (Switch _ cases dflt _) = dflt # map snd cases"
| "named_targets (Return _) = []"
| "named_targets Unreachable = []"

definition named_labels :: "'x BasicBlock \<Rightarrow> nat list" where
  "named_labels b = named_targets (terminator b) @ concat (map goto_labels (instructions b))"

text \<open>A successor is entered once, a predecessor once per edge.\<close>

definition add_edge :: "nat \<Rightarrow> nat list list \<times> nat list list \<Rightarrow> nat \<Rightarrow> nat list list \<times> nat list list" where
  "add_edge i st t =
     (let (ps, ss) = st
      in (ps[t := ps ! t @ [i]], if t \<in> set (ss ! i) then ss else ss[i := ss ! i @ [t]]))"

definition add_block :: "(nat \<rightharpoonup> nat) \<Rightarrow> nat list list \<times> nat list list \<Rightarrow> nat \<times> 'x BasicBlock \<Rightarrow> nat list list \<times> nat list list" where
  "add_block index_of st ib = foldl (add_edge (fst ib)) st (List.map_filter index_of (named_labels (snd ib)))"

definition build_cfg :: "'x BasicBlock list \<Rightarrow> (nat \<rightharpoonup> nat) \<Rightarrow> FlatAdj \<times> FlatAdj" where
  "build_cfg blocks index_of =
     (let n = length blocks;
          (ps, ss) = foldl (add_block index_of) (replicate n [], replicate n []) (enumerate 0 blocks)
      in (from_vecs ps, from_vecs ss))"

subsection \<open>Depth-first numbering\<close>

record dfs_state =
  pre :: "nat option list"
  vertex :: "nat list"
  parent :: "nat list"
  dfs_stack :: "(nat \<times> nat) list"

lemma count_None_update:
  "s < length xs \<Longrightarrow> xs ! s = None \<Longrightarrow> length (filter (\<lambda>x. x = None) (xs[s := Some v])) < length (filter (\<lambda>x. x = None) xs)"
proof (induction xs arbitrary: s)
  case (Cons x xs)
  then show ?case
    by (cases s) auto
qed simp

text \<open>The loop, until the stack is empty.\<close>

function dfs_loop :: "FlatAdj \<Rightarrow> dfs_state \<Rightarrow> dfs_state option" where
  "dfs_loop succs st =
     (case dfs_stack st of
        [] \<Rightarrow> Some st
      | (b, nxt) # stack \<Rightarrow>
          if nxt < length (row succs b)
          then let s = row succs b ! nxt
               in if \<not> s < length (pre st) then None
                  else if pre st ! s = None
                  then dfs_loop succs
                         (st\<lparr>pre := (pre st)[s := Some (length (vertex st))],
                             parent := parent st @ [the (pre st ! b)],
                             vertex := vertex st @ [s],
                             dfs_stack := (s, 0) # (b, nxt + 1) # stack\<rparr>)
                  else dfs_loop succs (st\<lparr>dfs_stack := (b, nxt + 1) # stack\<rparr>)
          else dfs_loop succs (st\<lparr>dfs_stack := stack\<rparr>))"
  by pat_completeness auto

termination
  by (relation "(\<lambda>(succs, st). length (filter (\<lambda>x. x = None) (pre st))) <*mlex*>
      measure (\<lambda>(succs, st). sum_list (map (\<lambda>(b, nxt). Suc (length (row succs b) - nxt)) (dfs_stack st)))")
    (auto simp: wf_mlex mlex_iff count_None_update)

declare dfs_loop.simps [simp del]

definition dfs_start :: "nat \<Rightarrow> dfs_state" where
  "dfs_start num_blocks = \<lparr>pre = (replicate num_blocks None)[0 := Some 0], vertex = [0], parent = [0], dfs_stack = [(0, 0)]\<rparr>"

subsection \<open>Semidominators\<close>

record link_eval =
  semi :: "nat list"
  best :: "nat list"
  forest :: "nat option list"

fun fold_option :: "('a \<Rightarrow> 's \<Rightarrow> 's option) \<Rightarrow> 'a list \<Rightarrow> 's \<Rightarrow> 's option" where
  "fold_option f [] s = Some s"
| "fold_option f (x # xs) s = do { s \<leftarrow> f x s; fold_option f xs s }"

text \<open>The path from a vertex up to, and without, the last vertex below its root in the forest.\<close>

partial_function (option) forest_path :: "nat option list \<Rightarrow> nat \<Rightarrow> nat list \<Rightarrow> nat list option" where
  [code]: "forest_path anc x path =
     do {
       a \<leftarrow> anc ! x;
       if anc ! a \<noteq> None then forest_path anc a (path @ [x]) else Some path
     }"

definition compress_step :: "link_eval \<Rightarrow> nat \<Rightarrow> link_eval" where
  "compress_step st x =
     (let a = the (forest st ! x);
          st = (if semi st ! (best st ! a) < semi st ! (best st ! x) then st\<lparr>best := (best st)[x := best st ! a]\<rparr> else st)
      in st\<lparr>forest := (forest st)[x := forest st ! a]\<rparr>)"

definition eval_vertex :: "link_eval \<Rightarrow> nat \<Rightarrow> (nat \<times> link_eval) option" where
  "eval_vertex st v =
     (if forest st ! v = None then Some (v, st)
      else do {
        path \<leftarrow> forest_path (forest st) v [];
        let st = foldl compress_step st (rev path);
        Some (best st ! v, st)
      })"

definition semi_pred :: "nat option list \<Rightarrow> nat \<Rightarrow> nat \<Rightarrow> link_eval \<Rightarrow> link_eval option" where
  "semi_pred pre_num w p st =
     (case pre_num ! p of
        None \<Rightarrow> Some st
      | Some v \<Rightarrow>
          do {
            (u, st) \<leftarrow> eval_vertex st v;
            Some (if semi st ! u < semi st ! w then st\<lparr>semi := (semi st)[w := semi st ! u]\<rparr> else st)
          })"

definition semi_vertex :: "FlatAdj \<Rightarrow> dfs_state \<Rightarrow> nat \<Rightarrow> link_eval \<Rightarrow> link_eval option" where
  "semi_vertex pred_rows d w st =
     do {
       st \<leftarrow> fold_option (semi_pred (pre d) w) (row pred_rows (vertex d ! w)) st;
       Some (st\<lparr>forest := (forest st)[w := Some (parent d ! w)]\<rparr>)
     }"

definition semi_pass :: "FlatAdj \<Rightarrow> dfs_state \<Rightarrow> link_eval option" where
  "semi_pass pred_rows d =
     (let n = length (vertex d)
      in fold_option (semi_vertex pred_rows d) (rev [1..<n]) \<lparr>semi = [0..<n], best = [0..<n], forest = replicate n None\<rparr>)"

subsection \<open>Immediate dominators\<close>

partial_function (option) climb :: "nat list \<Rightarrow> nat \<Rightarrow> nat \<Rightarrow> nat option" where
  [code]: "climb idom_num s d = (if s < d then climb idom_num s (idom_num ! d) else Some d)"

definition nca_vertex :: "nat list \<Rightarrow> nat \<Rightarrow> nat list \<Rightarrow> nat list option" where
  "nca_vertex semi_num w idom_num =
     do {
       d \<leftarrow> climb idom_num (semi_num ! w) (idom_num ! w);
       Some (idom_num[w := d])
     }"

definition compute_dominators :: "nat \<Rightarrow> FlatAdj \<Rightarrow> FlatAdj \<Rightarrow> nat option list option" where
  "compute_dominators num_blocks pred_rows succs =
     (if num_blocks = 0 then Some []
      else do {
        d \<leftarrow> dfs_loop succs (dfs_start num_blocks);
        le \<leftarrow> semi_pass pred_rows d;
        idom_num \<leftarrow> fold_option (nca_vertex (semi le)) [1..<length (vertex d)] (parent d);
        Some (foldl (\<lambda>idom (w, b). idom[b := Some (vertex d ! (idom_num ! w))]) (replicate num_blocks None) (enumerate 0 (vertex d)))
      })"

end
