(* ===== verification/DfsNumbering.thy ===== *)
theory DfsNumbering
  imports CfgGraph SearchTree
begin

text \<open>
  What the depth-first search of \<^const>\<open>compute_dominators\<close> leaves: the numbers of the blocks it reaches, and a search tree for them.
\<close>

subsection \<open>Paths of tree links\<close>

lemma funpow_append:
  assumes "\<And>i. i < length ps \<Longrightarrow> ps ! i < length ps" and "b < length ps"
  shows "(((!) (ps @ [p])) ^^ k) b = (((!) ps) ^^ k) b \<and> (((!) ps) ^^ k) b < length ps"
  using assms by (induction k) (auto simp: nth_append)

lemma ancestor_append:
  assumes "\<And>i. i < length ps \<Longrightarrow> ps ! i < length ps" and "b < length ps"
  shows "ancestor_of ((!) (ps @ [p])) a b \<longleftrightarrow> ancestor_of ((!) ps) a b"
  using funpow_append [OF assms] by (simp add: ancestor_of_def)

lemma ancestor_append_new:
  assumes "\<And>i. i < length ps \<Longrightarrow> ps ! i < length ps" and "p < length ps"
  shows "ancestor_of ((!) (ps @ [p])) a (length ps) \<longleftrightarrow> a = length ps \<or> ancestor_of ((!) ps) a p"
proof -
  let ?f = "(!) (ps @ [p])"
  have "?f (length ps) = p"
    by (simp add: nth_append)
  then have "ancestor_of ?f a (length ps) \<longleftrightarrow> a = length ps \<or> ancestor_of ?f a p"
    using ancestor_cases [of ?f a "length ps"] ancestor_par [of ?f "length ps"] ancestor_trans [of ?f a p "length ps"]
    by auto
  then show ?thesis
    using ancestor_append [OF assms] by simp
qed

fun tree_chain :: "nat list \<Rightarrow> nat list \<Rightarrow> bool" where
  "tree_chain ps [] = True"
| "tree_chain ps [i] = (i = 0)"
| "tree_chain ps (i # j # is) = (ps ! i = j \<and> tree_chain ps (j # is))"

lemma tree_chain_tl: "tree_chain ps (i # is) \<Longrightarrow> tree_chain ps is"
  by (cases "is") auto

lemma tree_chain_append: "\<forall>i \<in> set is. i < length ps \<Longrightarrow> tree_chain (ps @ [p]) is = tree_chain ps is"
  by (induction ps "is" rule: tree_chain.induct) (auto simp: nth_append)

lemma chain_ancestors:
  "tree_chain ps (i # is) \<Longrightarrow> ps ! 0 = 0 \<Longrightarrow> ancestor_of ((!) ps) c i \<Longrightarrow> c \<in> set (i # is)"
proof (induction ps "i # is" arbitrary: i "is" rule: tree_chain.induct)
  case (2 ps i)
  have "((!) ps ^^ k) 0 = 0" for k
    using 2(2) by (induction k) auto
  then show ?case
    using 2 by (auto simp: ancestor_of_def)
next
  case (3 ps i j "is")
  then show ?case
    using ancestor_cases [OF 3(4)] by auto
qed

lemma chain_members: "tree_chain ps (i # is) \<Longrightarrow> c \<in> set (i # is) \<Longrightarrow> ancestor_of ((!) ps) c i"
proof (induction ps "i # is" arbitrary: i "is" rule: tree_chain.induct)
  case (3 ps i j "is")
  then show ?case
    using ancestor_par [of "(!) ps" i] ancestor_trans by auto
qed auto

subsection \<open>The invariant of the search\<close>

definition succs_ok :: "nat \<Rightarrow> FlatAdj \<Rightarrow> bool" where
  "succs_ok num succs \<longleftrightarrow> 0 < num \<and> (\<forall>b < num. \<forall>s \<in> set (row succs b). s < num)"

abbreviation tree_anc :: "dfs_state \<Rightarrow> nat \<Rightarrow> nat \<Rightarrow> bool" where
  "tree_anc st \<equiv> ancestor_of ((!) (parent st))"

text \<open>The numbers, the tree and its intervals.\<close>

definition numbering_ok :: "nat \<Rightarrow> FlatAdj \<Rightarrow> dfs_state \<Rightarrow> bool" where
  "numbering_ok num succs st \<longleftrightarrow>
     length (pre st) = num \<and> length (parent st) = length (vertex st) \<and> vertex st \<noteq> [] \<and>
     vertex st ! 0 = 0 \<and> parent st ! 0 = 0 \<and>
     (\<forall>b < num. \<forall>i. pre st ! b = Some i \<longleftrightarrow> i < length (vertex st) \<and> vertex st ! i = b) \<and>
     (\<forall>i < length (vertex st). vertex st ! i < num) \<and>
     (\<forall>i < length (vertex st). 0 < i \<longrightarrow>
        parent st ! i < i \<and> vertex st ! i \<in> set (row succs (vertex st ! (parent st ! i)))) \<and>
     (\<forall>a < length (vertex st). \<forall>c b. tree_anc st c a \<longrightarrow> c \<le> b \<longrightarrow> b \<le> a \<longrightarrow> tree_anc st c b)"

text \<open>The stack is the tree path to the vertex in work; every later vertex is below each of its members.\<close>

definition stack_ok :: "FlatAdj \<Rightarrow> dfs_state \<Rightarrow> (nat \<times> nat) list \<Rightarrow> bool" where
  "stack_ok succs st T \<longleftrightarrow>
     dfs_stack st = map (\<lambda>(i, k). (vertex st ! i, k)) T \<and> tree_chain (parent st) (map fst T) \<and>
     (\<forall>(i, k) \<in> set T. i < length (vertex st) \<and> (\<forall>b < length (vertex st). i \<le> b \<longrightarrow> tree_anc st i b) \<and>
        (\<forall>j < k. j < length (row succs (vertex st ! i)) \<longrightarrow> pre st ! (row succs (vertex st ! i) ! j) \<noteq> None))"

text \<open>A vertex that has left the stack has all its successors numbered, the later ones below it.\<close>

definition closed_ok :: "FlatAdj \<Rightarrow> dfs_state \<Rightarrow> (nat \<times> nat) list \<Rightarrow> bool" where
  "closed_ok succs st T \<longleftrightarrow>
     (\<forall>i < length (vertex st). i \<notin> fst ` set T \<longrightarrow>
        (\<forall>s \<in> set (row succs (vertex st ! i)). \<exists>j. pre st ! s = Some j \<and> (i < j \<longrightarrow> tree_anc st i j)))"

definition dfs_inv :: "nat \<Rightarrow> FlatAdj \<Rightarrow> dfs_state \<Rightarrow> (nat \<times> nat) list \<Rightarrow> bool" where
  "dfs_inv num succs st T \<longleftrightarrow> numbering_ok num succs st \<and> stack_ok succs st T \<and> closed_ok succs st T"

lemma numbering_okD:
  assumes "numbering_ok num succs st"
  shows "length (pre st) = num" "length (parent st) = length (vertex st)" "vertex st \<noteq> []" "vertex st ! 0 = 0"
    and "parent st ! 0 = 0"
    and "b < num \<Longrightarrow> pre st ! b = Some i \<longleftrightarrow> i < length (vertex st) \<and> vertex st ! i = b"
    and "i < length (vertex st) \<Longrightarrow> vertex st ! i < num"
    and "i < length (vertex st) \<Longrightarrow> 0 < i \<Longrightarrow> parent st ! i < i"
    and "i < length (vertex st) \<Longrightarrow> 0 < i \<Longrightarrow> vertex st ! i \<in> set (row succs (vertex st ! (parent st ! i)))"
    and "tree_anc st c a \<Longrightarrow> a < length (vertex st) \<Longrightarrow> c \<le> b' \<Longrightarrow> b' \<le> a \<Longrightarrow> tree_anc st c b'"
  using assms unfolding numbering_ok_def by simp_all

lemma numbering_parent: "numbering_ok num succs st \<Longrightarrow> i < length (vertex st) \<Longrightarrow> parent st ! i < length (vertex st)"
  using numbering_okD(5,8) [of num succs st] by (cases "i = 0") (auto intro: less_trans)

lemma dfs_start_inv: "0 < num \<Longrightarrow> dfs_inv num succs (dfs_start num) [(0, 0)]"
proof -
  assume n: "0 < num"
  have "((!) [0] ^^ k) 0 = (0::nat)" for k
    by (induction k) auto
  then have "ancestor_of ((!) [0]) c 0 \<longleftrightarrow> c = 0" for c
    by (auto simp: ancestor_of_def)
  note root = this
  let ?st = "dfs_start num"
  have st: "vertex ?st = [0]" "parent ?st = [0]" "dfs_stack ?st = [(0, 0)]" "length (pre ?st) = num"
    by (simp_all add: dfs_start_def)
  have p: "pre ?st ! b = (if b = 0 then Some 0 else None)" if "b < num" for b
    using that by (simp add: dfs_start_def)
  have "numbering_ok num succs ?st"
    unfolding numbering_ok_def st using n root by (simp add: p) (metis gr0I less_irrefl nth_Cons_0)
  moreover have "stack_ok succs ?st [(0, 0)]" "closed_ok succs ?st [(0, 0)]"
    unfolding stack_ok_def closed_ok_def st by simp_all
  ultimately show ?thesis
    by (simp add: dfs_inv_def)
qed

subsection \<open>The three rounds of the loop\<close>

definition number_new :: "dfs_state \<Rightarrow> nat \<Rightarrow> nat \<Rightarrow> (nat \<times> nat) list \<Rightarrow> dfs_state" where
  "number_new st p s stack =
     st\<lparr>pre := (pre st)[s := Some (length (vertex st))], parent := parent st @ [p], vertex := vertex st @ [s],
       dfs_stack := stack\<rparr>"

lemma tree_anc_new:
  assumes "numbering_ok num succs st" and "p < length (vertex st)"
  shows "b < length (vertex st) \<Longrightarrow> tree_anc (number_new st p s stack) a b \<longleftrightarrow> tree_anc st a b"
    and "tree_anc (number_new st p s stack) a (length (vertex st)) \<longleftrightarrow> a = length (vertex st) \<or> tree_anc st a p"
  using ancestor_append [of "parent st" b p a] ancestor_append_new [of "parent st" p a]
    numbering_parent [OF assms(1)] numbering_okD(2) [OF assms(1)] assms(2)
  by (simp_all add: number_new_def)

lemma tree_anc_le:
  assumes "numbering_ok num succs st" and "tree_anc st a b" and "b < length (vertex st)"
  shows "a \<le> b"
proof -
  obtain k where "((!) (parent st) ^^ k) b = a"
    using assms(2) by (auto simp: ancestor_of_def)
  moreover have "((!) (parent st) ^^ k) b \<le> b" for k
  proof (induction k)
    case (Suc k)
    let ?i = "((!) (parent st) ^^ k) b"
    have "parent st ! ?i \<le> ?i"
      using numbering_okD(5) [OF assms(1)] numbering_okD(8) [OF assms(1), of ?i] Suc assms(3) by (cases "?i = 0") auto
    then show ?case
      using Suc by simp
  qed simp
  ultimately show ?thesis
    by blast
qed

lemma number_new_numbering:
  assumes inv: "numbering_ok num succs st" and p: "p < length (vertex st)"
    and s: "s < num" "pre st ! s = None" "s \<in> set (row succs (vertex st ! p))"
    and stk: "\<And>c b. tree_anc st c p \<Longrightarrow> b < length (vertex st) \<Longrightarrow> c \<le> b \<Longrightarrow> tree_anc st c b"
  shows "numbering_ok num succs (number_new st p s stack)"
proof -
  let ?n = "length (vertex st)" and ?st = "number_new st p s stack"
  note I = numbering_okD [OF inv]
  have st: "length (vertex ?st) = Suc ?n" "length (parent ?st) = Suc ?n" "length (pre ?st) = num"
    using I(1,2) by (simp_all add: number_new_def)
  have new: "vertex ?st ! ?n = s" "parent ?st ! ?n = p"
    using I(2) by (simp_all add: number_new_def nth_append)
  have old: "vertex ?st ! i = vertex st ! i" "parent ?st ! i = parent st ! i" if "i < ?n" for i
    using that I(2) by (simp_all add: number_new_def nth_append)
  have n: "0 < ?n"
    using I(3) by simp
  have pre: "pre ?st ! b = Some i \<longleftrightarrow> i < Suc ?n \<and> vertex ?st ! i = b" if b: "b < num" for b i
  proof (cases "b = s")
    case True
    then show ?thesis
      using I(1) I(6) [OF s(1), of i] s(1,2) new(1) old(1) [of i] by (auto simp: number_new_def less_Suc_eq)
  next
    case False
    then show ?thesis
      using I(6) [OF b, of i] new(1) old(1) [of i] by (auto simp: number_new_def less_Suc_eq)
  qed
  have bound: "vertex ?st ! i < num" if "i < Suc ?n" for i
    using that s(1) new(1) old(1) I(7) by (auto simp: less_Suc_eq)
  have tree: "parent ?st ! i < i \<and> vertex ?st ! i \<in> set (row succs (vertex ?st ! (parent ?st ! i)))"
    if i: "i < Suc ?n" "0 < i" for i
  proof (cases "i = ?n")
    case True
    then show ?thesis
      using p s(3) new old(1) [OF p] by simp
  next
    case False
    then have "i < ?n"
      using i(1) by simp
    then show ?thesis
      using I(8,9) [OF _ i(2)] old [of i] old(1) [OF numbering_parent [OF inv, of i]] by simp
  qed
  have interval: "tree_anc ?st c b" if "a < Suc ?n" "tree_anc ?st c a" "c \<le> b" "b \<le> a" for a b c
  proof (cases "a = ?n")
    case True
    then have c: "c = ?n \<or> tree_anc st c p"
      using that(2) tree_anc_new(2) [OF inv p] by simp
    show ?thesis
    proof (cases "b = ?n")
      case False
      then have "b < ?n"
        using that(4) True by simp
      then show ?thesis
        using c that(3) stk [of c b] tree_anc_new(1) [OF inv p] by auto
    qed (use that(2) True in simp)
  next
    case False
    then show ?thesis
      using that I(10) tree_anc_new(1) [OF inv p] by simp
  qed
  show ?thesis
    unfolding numbering_ok_def using st n pre bound tree interval old [OF n] I(4,5) by auto
qed

lemma push_inv:
  assumes inv: "dfs_inv num succs st ((i, k) # T)" and ok: "succs_ok num succs"
    and k: "k < length (row succs (vertex st ! i))" and s: "pre st ! (row succs (vertex st ! i) ! k) = None"
  defines "st' \<equiv> number_new st i (row succs (vertex st ! i) ! k)
      ((row succs (vertex st ! i) ! k, 0) # (vertex st ! i, k + 1) # map (\<lambda>(i, k). (vertex st ! i, k)) T)"
  shows "dfs_inv num succs st' ((length (vertex st), 0) # (i, k + 1) # T)"
proof -
  let ?n = "length (vertex st)" and ?s = "row succs (vertex st ! i) ! k"
  have N: "numbering_ok num succs st" and S: "stack_ok succs st ((i, k) # T)" and C: "closed_ok succs st ((i, k) # T)"
    using inv by (simp_all add: dfs_inv_def)
  note I = numbering_okD [OF N]
  have i: "i < ?n"
    using S by (simp add: stack_ok_def)
  have sn: "?s < num"
    using ok I(7) [OF i] k by (auto simp: succs_ok_def)
  have member: "c \<in> set (i # map fst T)" if "tree_anc st c i" for c
    using chain_ancestors [of "parent st" i "map fst T" c] S that I(5) by (simp add: stack_ok_def)
  have below: "tree_anc st c b" if "c \<in> set (i # map fst T)" "b < ?n" "c \<le> b" for b c
    using S that by (force simp: stack_ok_def)
  have "numbering_ok num succs st'"
    unfolding st'_def by (rule number_new_numbering [OF N i sn s]) (use member below k in auto)
  moreover have vertex': "vertex st' ! j = (if j = ?n then ?s else vertex st ! j)" if "j < Suc ?n" for j
    using that by (simp add: st'_def number_new_def nth_append)
  moreover have pre': "pre st' ! b = (if b = ?s then Some ?n else pre st ! b)" if "b < num" for b
    using that I(1) by (simp add: st'_def number_new_def nth_list_update)
  have anc': "tree_anc st' c b = tree_anc st c b" if "b < ?n" for b c
    unfolding st'_def by (rule tree_anc_new(1) [OF N i that])
  have ancn: "tree_anc st' c ?n \<longleftrightarrow> c = ?n \<or> tree_anc st c i" for c
    unfolding st'_def by (rule tree_anc_new(2) [OF N i])
  have len: "length (vertex st') = Suc ?n" "parent st' = parent st @ [i]"
    by (simp_all add: st'_def number_new_def)
  have rn: "r < num" if "r \<in> set (row succs (vertex st ! j))" "j < ?n" for r j
    using ok I(7) that by (auto simp: succs_ok_def)
  have "stack_ok succs st' ((?n, 0) # (i, k + 1) # T)"
    unfolding stack_ok_def
  proof (intro conjI)
    have Tn: "\<forall>(j, m) \<in> set T. j < ?n"
      using S by (auto simp: stack_ok_def)
    then have "map (\<lambda>(i, k). (vertex st ! i, k)) T = map (\<lambda>(i, k). (vertex st' ! i, k)) T"
      using vertex' by (auto simp: less_Suc_eq)
    then show "dfs_stack st' = map (\<lambda>(i, k). (vertex st' ! i, k)) ((?n, 0) # (i, k + 1) # T)"
      using vertex' i by (simp add: st'_def number_new_def nth_append)
    have "\<forall>j \<in> set (i # map fst T). j < length (parent st)"
      using Tn i I(2) by auto
    from tree_chain_append [OF this, of i] have "tree_chain (parent st') (i # map fst T)"
      using S len(2) by (simp add: stack_ok_def)
    then show "tree_chain (parent st') (map fst ((?n, 0) # (i, k + 1) # T))"
      using I(2) len(2) by (simp add: nth_append)
    have tail: "j < Suc ?n \<and> (\<forall>b < Suc ?n. j \<le> b \<longrightarrow> tree_anc st' j b) \<and>
        (\<forall>l < m. l < length (row succs (vertex st' ! j)) \<longrightarrow> pre st' ! (row succs (vertex st' ! j) ! l) \<noteq> None)"
      if jm: "(j, m) \<in> set ((i, k + 1) # T)" for j m
    proof (intro conjI allI impI)
      have j: "j < ?n" "j \<in> set (i # map fst T)"
        using jm Tn i by force+
      then show "j < Suc ?n"
        by simp
      have "tree_anc st j i"
        using chain_members [of "parent st" i "map fst T" j] S j(2) by (simp add: stack_ok_def)
      then show "tree_anc st' j b" if "b < Suc ?n" "j \<le> b" for b
        using that anc' ancn below [OF j(2)] by (cases "b = ?n") auto
      fix l
      assume l: "l < m" "l < length (row succs (vertex st' ! j))"
      let ?r = "row succs (vertex st ! j) ! l"
      have vj: "vertex st' ! j = vertex st ! j"
        using vertex' j(1) by simp
      have "?r < num"
        using rn [OF _ j(1)] l(2) vj by simp
      moreover have "pre st ! ?r \<noteq> None \<or> ?r = ?s"
        using S jm l vj by (cases "(j, m) = (i, k + 1)") (auto simp: stack_ok_def less_Suc_eq)
      ultimately show "pre st' ! (row succs (vertex st' ! j) ! l) \<noteq> None"
        using pre' vj by auto
    qed
    have "?n < Suc ?n \<and> (\<forall>b < Suc ?n. ?n \<le> b \<longrightarrow> tree_anc st' ?n b)"
      using ancn by (simp add: less_Suc_eq)
    then show "\<forall>(j, m) \<in> set ((?n, 0) # (i, k + 1) # T). j < length (vertex st') \<and>
        (\<forall>b < length (vertex st'). j \<le> b \<longrightarrow> tree_anc st' j b) \<and>
        (\<forall>l < m. l < length (row succs (vertex st' ! j)) \<longrightarrow> pre st' ! (row succs (vertex st' ! j) ! l) \<noteq> None)"
      unfolding len(1) list.set(2) [of "(?n, 0)"] using tail by blast
  qed
  moreover have "closed_ok succs st' ((?n, 0) # (i, k + 1) # T)"
    unfolding closed_ok_def
  proof (intro allI impI ballI)
    fix j r
    assume j: "j < length (vertex st')" "j \<notin> fst ` set ((?n, 0) # (i, k + 1) # T)"
      and r: "r \<in> set (row succs (vertex st' ! j))"
    have jn: "j < ?n" "vertex st' ! j = vertex st ! j"
      using j vertex' len(1) by auto
    moreover have "j \<notin> fst ` set ((i, k) # T)"
      using j(2) by simp
    ultimately obtain l where l: "pre st ! r = Some l" "j < l \<longrightarrow> tree_anc st j l"
      using C r unfolding closed_ok_def by metis
    have "r < num"
      using rn [OF _ jn(1)] r jn(2) by simp
    moreover have "l < ?n"
      using I(6) [OF \<open>r < num\<close>, of l] l(1) by simp
    ultimately show "\<exists>l. pre st' ! r = Some l \<and> (j < l \<longrightarrow> tree_anc st' j l)"
      using l s pre' anc' by auto
  qed
  ultimately show ?thesis
    by (simp add: dfs_inv_def)
qed

lemma seen_inv:
  assumes inv: "dfs_inv num succs st ((i, k) # T)" and s: "pre st ! (row succs (vertex st ! i) ! k) \<noteq> None"
  shows "dfs_inv num succs (st\<lparr>dfs_stack := (vertex st ! i, k + 1) # map (\<lambda>(i, k). (vertex st ! i, k)) T\<rparr>) ((i, k + 1) # T)"
  using assms by (auto simp: dfs_inv_def numbering_ok_def stack_ok_def closed_ok_def less_Suc_eq)

lemma pop_inv:
  assumes inv: "dfs_inv num succs st ((i, k) # T)" and ok: "succs_ok num succs"
    and k: "\<not> k < length (row succs (vertex st ! i))"
  shows "dfs_inv num succs (st\<lparr>dfs_stack := map (\<lambda>(i, k). (vertex st ! i, k)) T\<rparr>) T"
proof -
  have N: "numbering_ok num succs st" and S: "stack_ok succs st ((i, k) # T)" and C: "closed_ok succs st ((i, k) # T)"
    using inv by (simp_all add: dfs_inv_def)
  note I = numbering_okD [OF N]
  let ?st = "st\<lparr>dfs_stack := map (\<lambda>(i, k). (vertex st ! i, k)) T\<rparr>"
  have i: "i < length (vertex st)"
    using S by (simp add: stack_ok_def)
  have "numbering_ok num succs ?st"
    using N by (simp add: numbering_ok_def)
  moreover have "stack_ok succs ?st T"
    using S tree_chain_tl [of "parent st" i "map fst T"] by (auto simp: stack_ok_def)
  moreover have "\<exists>j. pre st ! s = Some j \<and> (i < j \<longrightarrow> tree_anc st i j)" if s: "s \<in> set (row succs (vertex st ! i))" for s
  proof -
    obtain l where "l < length (row succs (vertex st ! i))" "s = row succs (vertex st ! i) ! l"
      using s by (metis in_set_conv_nth)
    then have "pre st ! s \<noteq> None"
      using S k by (auto simp: stack_ok_def)
    then obtain j where j: "pre st ! s = Some j"
      by blast
    have "s < num"
      using ok I(7) [OF i] s by (auto simp: succs_ok_def)
    then have "j < length (vertex st)"
      using I(6) j by blast
    then show ?thesis
      using S j by (auto simp: stack_ok_def)
  qed
  then have "closed_ok succs ?st T"
    using C by (auto simp: closed_ok_def)
  ultimately show ?thesis
    by (simp add: dfs_inv_def)
qed

lemma dfs_loop_inv:
  assumes "dfs_inv num succs st T" and "succs_ok num succs"
  shows "\<exists>d. dfs_loop succs st = Some d \<and> dfs_inv num succs d []"
  using assms
proof (induction succs st arbitrary: T rule: dfs_loop.induct)
  case (1 succs st)
  note unfold = dfs_loop.simps [of succs st]
  show ?case
  proof (cases T)
    case Nil
    then have "dfs_stack st = []"
      using "1.prems"(1) by (simp add: dfs_inv_def stack_ok_def)
    then show ?thesis
      using "1.prems"(1) Nil unfold by simp
  next
    case (Cons t U)
    obtain i k where t: "t = (i, k)"
      by (cases t)
    let ?b = "vertex st ! i" and ?stack = "map (\<lambda>(i, k). (vertex st ! i, k)) U"
    have inv: "dfs_inv num succs st ((i, k) # U)"
      using "1.prems"(1) Cons t by simp
    then have S: "dfs_stack st = (?b, k) # ?stack" "i < length (vertex st)"
      by (simp_all add: dfs_inv_def stack_ok_def)
    have N: "numbering_ok num succs st"
      using inv by (simp add: dfs_inv_def)
    note I = numbering_okD [OF N]
    show ?thesis
    proof (cases "k < length (row succs ?b)")
      case k: True
      let ?s = "row succs ?b ! k"
      have sn: "?s < length (pre st)"
        using "1.prems"(2) I(1) I(7) [OF S(2)] k by (simp add: succs_ok_def)
      show ?thesis
      proof (cases "pre st ! ?s = None")
        case True
        have "pre st ! ?b = Some i"
          using I(6) [OF I(7) [OF S(2)], of i] S(2) by simp
        let ?st = "st\<lparr>pre := (pre st)[?s := Some (length (vertex st))], parent := parent st @ [the (pre st ! ?b)],
            vertex := vertex st @ [?s], dfs_stack := (?s, 0) # (?b, k + 1) # ?stack\<rparr>"
        have "dfs_inv num succs ?st ((length (vertex st), 0) # (i, k + 1) # U)"
          using push_inv [OF inv "1.prems"(2) k True] \<open>pre st ! ?b = Some i\<close> by (simp add: number_new_def)
        then have "\<exists>d. dfs_loop succs ?st = Some d \<and> dfs_inv num succs d []"
          using "1.IH"(1) [OF S(1) refl k refl _ True] "1.prems"(2) sn by blast
        then show ?thesis
          using S(1) k True sn unfold by (simp add: Let_def)
      next
        case False
        then show ?thesis
          using "1.IH"(2) [OF S(1) refl k refl _ False seen_inv [OF inv False]] "1.prems"(2) S(1) k sn unfold False
          by (simp add: Let_def del: not_None_eq)
      qed
    next
      case False
      then show ?thesis
        using "1.IH"(3) [OF S(1) refl False pop_inv [OF inv "1.prems"(2) False]] "1.prems"(2) S(1) unfold by simp
    qed
  qed
qed

subsection \<open>The search from the entry\<close>

definition block_edge :: "nat \<Rightarrow> FlatAdj \<Rightarrow> nat \<Rightarrow> nat \<Rightarrow> bool" where
  "block_edge num succs a b \<longleftrightarrow> a < num \<and> b \<in> set (row succs a)"

definition number_edge :: "FlatAdj \<Rightarrow> dfs_state \<Rightarrow> nat \<Rightarrow> nat \<Rightarrow> bool" where
  "number_edge succs d i j \<longleftrightarrow>
     i < length (vertex d) \<and> j < length (vertex d) \<and> vertex d ! j \<in> set (row succs (vertex d ! i))"

lemma dfs_loop_start:
  assumes "succs_ok num succs"
  obtains d where "dfs_loop succs (dfs_start num) = Some d" and "numbering_ok num succs d" and "closed_ok succs d []"
  using dfs_loop_inv [OF dfs_start_inv assms] assms that by (auto simp: dfs_inv_def succs_ok_def)

lemma search_tree_numbering:
  assumes N: "numbering_ok num succs d" and C: "closed_ok succs d []"
  shows "search_tree (length (vertex d)) (number_edge succs d) ((!) (parent d))"
proof
  note I = numbering_okD [OF N]
  show "i < length (vertex d) \<and> j < length (vertex d)" if "number_edge succs d i j" for i j
    using that by (simp add: number_edge_def)
  show "parent d ! w < w \<and> number_edge succs d (parent d ! w) w" if "0 < w" "w < length (vertex d)" for w
    using I(8,9) [OF that(2,1)] that(2) by (simp add: number_edge_def)
  show "parent d ! 0 = 0"
    by (rule I(5))
  show "tree_anc d i j" if e: "number_edge succs d i j" "i < j" for i j
  proof -
    have ij: "i < length (vertex d)" "j < length (vertex d)" "vertex d ! j \<in> set (row succs (vertex d ! i))"
      using e(1) by (simp_all add: number_edge_def)
    then obtain l where "pre d ! (vertex d ! j) = Some l" "i < l \<longrightarrow> tree_anc d i l"
      using C unfolding closed_ok_def by force
    then show ?thesis
      using I(6) [OF I(7) [OF ij(2)], of j] ij(2) e(2) by simp
  qed
  show "tree_anc d c b" if "tree_anc d c a" "a < length (vertex d)" "c \<le> b" "b \<le> a" for a b c
    using I(10) [OF that] .
qed

text \<open>Numbers and blocks: a bijection that carries the edges between reached blocks.\<close>

lemma edge_numbers:
  assumes N: "numbering_ok num succs d" and C: "closed_ok succs d []" and ok: "succs_ok num succs"
    and e: "block_edge num succs a b" and a: "pre d ! a = Some i"
  obtains j where "pre d ! b = Some j" and "number_edge succs d i j" and "b < num"
proof -
  note I = numbering_okD [OF N]
  have an: "a < num" "b \<in> set (row succs a)"
    using e by (simp_all add: block_edge_def)
  have i: "i < length (vertex d)" "vertex d ! i = a"
    using I(6) [OF an(1), of i] a by auto
  have b: "b < num"
    using ok an by (auto simp: succs_ok_def)
  obtain j where j: "pre d ! b = Some j"
    using C i an(2) unfolding closed_ok_def by force
  have "j < length (vertex d)" "vertex d ! j = b"
    using I(6) [OF b, of j] j by auto
  then show thesis
    using that [OF j] i an(2) b by (simp add: number_edge_def)
qed

lemma reach_numbers:
  assumes N: "numbering_ok num succs d" and C: "closed_ok succs d []" and ok: "succs_ok num succs"
    and r: "reach (block_edge num succs) P 0 b"
  shows "b < num \<and> (\<exists>j. pre d ! b = Some j \<and> reach (number_edge succs d) (\<lambda>v. P (vertex d ! v)) 0 j)"
  using r
proof (induction rule: reach_induct)
  case refl
  have "0 < num"
    using ok by (simp add: succs_ok_def)
  moreover have "pre d ! 0 = Some 0"
    using numbering_okD(6) [OF N \<open>0 < num\<close>, of 0] numbering_okD(3,4) [OF N] by simp
  ultimately show ?case
    by simp
next
  case (step y z)
  then obtain i where i: "pre d ! y = Some i" "reach (number_edge succs d) (\<lambda>v. P (vertex d ! v)) 0 i"
    by blast
  obtain j where j: "pre d ! z = Some j" "number_edge succs d i j" "z < num"
    using edge_numbers [OF N C ok step(2) i(1)] by blast
  have "vertex d ! j = z"
    using numbering_okD(6) [OF N j(3), of j] j(1) by simp
  then show ?case
    using j(1,3) reach_step [OF i(2) j(2)] step(3) by auto
qed

lemma reach_blocks:
  assumes N: "numbering_ok num succs d" and r: "reach (number_edge succs d) P 0 j"
    and P: "\<And>v. v < length (vertex d) \<Longrightarrow> P v \<Longrightarrow> Q (vertex d ! v)"
  shows "reach (block_edge num succs) Q 0 (vertex d ! j)"
  using r
proof (induction rule: reach_induct)
  case refl
  then show ?case
    using numbering_okD(4) [OF N] by simp
next
  case (step y z)
  then show ?case
    using numbering_okD(7) [OF N, of y] P [of z]
    by (intro reach_step [OF step(4)]) (auto simp: number_edge_def block_edge_def)
qed

lemma reachable_numbered:
  assumes N: "numbering_ok num succs d" and C: "closed_ok succs d []" and ok: "succs_ok num succs" and b: "b < num"
  shows "reachable (block_edge num succs) 0 b \<longleftrightarrow> pre d ! b \<noteq> None"
proof
  assume "reachable (block_edge num succs) 0 b"
  then show "pre d ! b \<noteq> None"
    using reach_numbers [OF N C ok] by (auto simp: reachable_reach)
next
  assume "pre d ! b \<noteq> None"
  then obtain j where j: "pre d ! b = Some j"
    by blast
  then have v: "j < length (vertex d)" "vertex d ! j = b"
    using numbering_okD(6) [OF N b, of j] by auto
  have "reach (number_edge succs d) (\<lambda>_. True) 0 j"
    using search_tree.all_reached [OF search_tree_numbering [OF N C] v(1)] by (simp add: reachable_reach)
  from reach_blocks [OF N this, of "\<lambda>_. True"] v(2) show "reachable (block_edge num succs) 0 b"
    by (simp add: reachable_reach)
qed

lemma dominates_numbers:
  assumes N: "numbering_ok num succs d" and C: "closed_ok succs d []" and ok: "succs_ok num succs"
    and i: "i < length (vertex d)" and j: "j < length (vertex d)"
  shows "dominates (block_edge num succs) 0 (vertex d ! i) (vertex d ! j) \<longleftrightarrow> dominates (number_edge succs d) 0 i j"
proof -
  note I = numbering_okD [OF N]
  have inj: "vertex d ! v = vertex d ! i \<longleftrightarrow> v = i" if "v < length (vertex d)" for v
  proof
    assume "vertex d ! v = vertex d ! i"
    then show "v = i"
      using I(6) [OF I(7) [OF that], of v] I(6) [OF I(7) [OF that], of i] that i by auto
  qed simp
  have root: "vertex d ! i = 0 \<longleftrightarrow> i = 0"
    using inj [of 0] I(3,4) i by auto
  have "reach (block_edge num succs) (\<lambda>b. b \<noteq> vertex d ! i) 0 (vertex d ! j) \<longleftrightarrow>
      reach (number_edge succs d) (\<lambda>v. v \<noteq> i) 0 j"
  proof
    assume "reach (block_edge num succs) (\<lambda>b. b \<noteq> vertex d ! i) 0 (vertex d ! j)"
    from reach_numbers [OF N C ok this] obtain l where
      l: "pre d ! (vertex d ! j) = Some l" "reach (number_edge succs d) (\<lambda>v. vertex d ! v \<noteq> vertex d ! i) 0 l"
      by blast
    then have "l = j"
      using I(6) [OF I(7) [OF j], of j] j by simp
    then show "reach (number_edge succs d) (\<lambda>v. v \<noteq> i) 0 j"
      using l(2) by (auto intro: reach_mono)
  next
    assume "reach (number_edge succs d) (\<lambda>v. v \<noteq> i) 0 j"
    then show "reach (block_edge num succs) (\<lambda>b. b \<noteq> vertex d ! i) 0 (vertex d ! j)"
      by (rule reach_blocks [OF N]) (use inj in blast)
  qed
  then show ?thesis
    using root by (simp add: dominates_reach)
qed

end
