(* ===== verification/SemiNca.thy ===== *)
theory SemiNca
  imports DfsNumbering
begin

text \<open>
  The two passes of \<^const>\<open>compute_dominators\<close> over a search tree: semidominators with path compression, and the climb to the
  immediate dominator.
\<close>

context search_tree begin

text \<open>
  The forest while \<open>w\<close> is worked on: the vertices above \<open>w\<close> are linked to a proper ancestor, and \<^const>\<open>best\<close> has the least
  semidominator of the tree path below that ancestor.
\<close>

definition link_ok :: "nat \<Rightarrow> link_eval \<Rightarrow> nat \<Rightarrow> nat \<Rightarrow> bool" where
  "link_ok w st x a \<longleftrightarrow>
     anc a x \<and> a < x \<and> anc (best st ! x) x \<and> a < best st ! x \<and>
     (\<forall>y. anc y x \<longrightarrow> a < y \<longrightarrow> w < y \<and> sdom (best st ! x) \<le> sdom y)"

definition forest_ok :: "nat \<Rightarrow> link_eval \<Rightarrow> bool" where
  "forest_ok w st \<longleftrightarrow>
     length (semi st) = n \<and> length (best st) = n \<and> length (forest st) = n \<and>
     (\<forall>x < n. w < x \<longrightarrow> semi st ! x = sdom x \<and> (\<exists>a. forest st ! x = Some a \<and> link_ok w st x a)) \<and>
     (\<forall>x < n. x \<le> w \<longrightarrow> forest st ! x = None \<and> best st ! x = x) \<and>
     (\<forall>x < n. x < w \<longrightarrow> semi st ! x = x)"

lemma forest_okD:
  assumes "forest_ok w st"
  shows "length (semi st) = n" "length (best st) = n" "length (forest st) = n"
    and "x < n \<Longrightarrow> w < x \<Longrightarrow> semi st ! x = sdom x"
    and "x < n \<Longrightarrow> w < x \<Longrightarrow> \<exists>a. forest st ! x = Some a \<and> link_ok w st x a"
    and "x < n \<Longrightarrow> x \<le> w \<Longrightarrow> forest st ! x = None"
    and "x < n \<Longrightarrow> x \<le> w \<Longrightarrow> best st ! x = x"
    and "x < n \<Longrightarrow> x < w \<Longrightarrow> semi st ! x = x"
  using assms by (simp_all add: forest_ok_def)

lemma forest_link: "forest_ok w st \<Longrightarrow> x < n \<Longrightarrow> forest st ! x = Some a \<Longrightarrow> w < x \<and> link_ok w st x a"
  using forest_okD(5,6) [of w st x] by (cases "w < x") auto

lemma link_best:
  assumes "forest_ok w st" and "x < n" and "link_ok w st x a"
  shows "best st ! x < n" and "w < best st ! x" and "semi st ! (best st ! x) = sdom (best st ! x)"
proof -
  have "anc (best st ! x) x" "a < best st ! x"
    using assms(3) by (simp_all add: link_ok_def)
  then show "best st ! x < n" "w < best st ! x"
    using anc_le assms(2,3) by (fastforce simp: link_ok_def)+
  then show "semi st ! (best st ! x) = sdom (best st ! x)"
    using forest_okD(4) [OF assms(1)] by blast
qed

lemma compress_step_ok:
  assumes ok: "forest_ok w st" and x: "x < n" "forest st ! x = Some a" and a: "forest st ! a = Some r"
  shows "forest_ok w (compress_step st x)" and "forest (compress_step st x) ! x = Some r"
    and "semi (compress_step st x) = semi st"
    and "z \<noteq> x \<Longrightarrow> forest (compress_step st x) ! z = forest st ! z"
proof -
  note F = forest_okD [OF ok]
  let ?st = "compress_step st x"
  have wx: "w < x" and lx: "link_ok w st x a"
    using forest_link [OF ok x] by simp_all
  then have an: "a < n" "anc a x" "a < x"
    using x(1) by (simp_all add: link_ok_def)
  have la: "link_ok w st a r"
    using forest_link [OF ok an(1) a] by simp
  let ?b = "if sdom (best st ! a) < sdom (best st ! x) then best st ! a else best st ! x"
  have semi: "semi ?st = semi st"
    by (simp add: compress_step_def Let_def)
  have forest: "forest ?st = (forest st)[x := Some r]"
    using x(2) a by (simp add: compress_step_def Let_def)
  have best: "best ?st = (best st)[x := ?b]"
    using x(2) link_best(3) [OF ok x(1) lx] link_best(3) [OF ok an(1) la] by (simp add: compress_step_def Let_def)
  show "semi ?st = semi st" "forest ?st ! x = Some r" "z \<noteq> x \<Longrightarrow> forest ?st ! z = forest st ! z"
    using semi forest x(1) F(3) by simp_all
  have bx: "best ?st ! x = ?b"
    using best x(1) F(2) by simp
  have seg: "anc y a \<and> r < y \<or> anc y x \<and> a < y" if "anc y x" "r < y" for y
    using that anc_chain [OF that(1) an(2) x(1)] by (cases "y \<le> a") auto
  have new: "link_ok w ?st x r"
    unfolding link_ok_def bx
  proof (intro conjI allI impI)
    show "anc r x" "r < x"
      using la an(2,3) ancestor_trans by (auto simp: link_ok_def)
    show "anc ?b x" "r < ?b"
      using la lx an(2) ancestor_trans by (auto simp: link_ok_def)
    fix y
    assume "anc y x" "r < y"
    then show "w < y" "sdom ?b \<le> sdom y"
      using seg [of y] la lx by (fastforce simp: link_ok_def)+
  qed
  show "forest_ok w ?st"
    unfolding forest_ok_def
  proof (intro conjI allI impI)
    fix y
    assume y: "y < n" "w < y"
    show "\<exists>a. forest ?st ! y = Some a \<and> link_ok w ?st y a"
    proof (cases "y = x")
      case True
      then show ?thesis
        using new forest x(1) F(3) by simp
    next
      case False
      then show ?thesis
        using F(5) [OF y] forest best by (simp add: link_ok_def)
    qed
  qed (use F semi forest best wx in auto)
qed

text \<open>The path is found, and compressing it leaves the vertex linked to the root of its tree.\<close>

lemma forest_path_ok:
  assumes "forest_ok w st" and "x < n" and "w < x"
  shows "\<exists>ys. forest_path (forest st) x path = Some (path @ ys) \<and> set ys \<subseteq> {..x} \<and>
      forest_ok w (foldl compress_step st (rev ys)) \<and> semi (foldl compress_step st (rev ys)) = semi st \<and>
      (\<forall>z > x. forest (foldl compress_step st (rev ys)) ! z = forest st ! z) \<and>
      (\<exists>a \<le> w. forest (foldl compress_step st (rev ys)) ! x = Some a)"
  using assms(2,3)
proof (induction x arbitrary: path rule: less_induct)
  case (less x)
  note F = forest_okD [OF assms(1)]
  obtain a where a: "forest st ! x = Some a" "link_ok w st x a"
    using F(5) [OF less.prems] by blast
  have an: "a < n" "a < x"
    using a(2) less.prems by (simp_all add: link_ok_def)
  show ?case
  proof (cases "forest st ! a = None")
    case True
    then have "a \<le> w"
      using F(5) [OF an(1)] by fastforce
    moreover have "forest_path (forest st) x path = Some path"
      using a(1) True by (subst forest_path.simps) simp
    ultimately show ?thesis
      using a(1) assms(1) by (intro exI [of _ "[]"]) simp
  next
    case False
    then have wa: "w < a"
      using F(6) [OF an(1)] by fastforce
    obtain ys where ys: "forest_path (forest st) a (path @ [x]) = Some ((path @ [x]) @ ys)" "set ys \<subseteq> {..a}"
      "forest_ok w (foldl compress_step st (rev ys))" "semi (foldl compress_step st (rev ys)) = semi st"
      "\<forall>z > a. forest (foldl compress_step st (rev ys)) ! z = forest st ! z"
      "\<exists>r \<le> w. forest (foldl compress_step st (rev ys)) ! a = Some r"
      using less.IH [OF an(2,1) wa] by blast
    let ?st = "foldl compress_step st (rev ys)"
    obtain r where r: "forest ?st ! a = Some r" "r \<le> w"
      using ys(6) by blast
    have x: "forest ?st ! x = Some a"
      using ys(5) an(2) a(1) by simp
    note step = compress_step_ok [OF ys(3) less.prems(1) x r(1)]
    have "forest_path (forest st) x path = Some (path @ x # ys)"
      using a(1) False ys(1) by (subst forest_path.simps) simp
    moreover have "set (x # ys) \<subseteq> {..x}"
      using ys(2) an(2) by auto
    moreover have "foldl compress_step st (rev (x # ys)) = compress_step ?st x"
      by simp
    moreover have "forest (compress_step ?st x) ! z = forest st ! z" if "x < z" for z
      using step(4) [of z] ys(5) that an(2) by simp
    ultimately show ?thesis
      using step(1-3) ys(4) r(2) by (intro exI [of _ "x # ys"]) simp
  qed
qed

lemma eval_vertex_ok:
  assumes ok: "forest_ok w st" and v: "v < n"
  obtains u st' where "eval_vertex st v = Some (u, st')" and "forest_ok w st'" and "semi st' = semi st"
    and "v \<le> w \<Longrightarrow> u = v"
    and "w < v \<Longrightarrow> u < n \<and> w < u \<and> anc u v \<and> (\<forall>y. anc y v \<longrightarrow> w < y \<longrightarrow> sdom u \<le> sdom y)"
proof (cases "w < v")
  case True
  note F = forest_okD [OF ok]
  obtain a where "forest st ! v = Some a"
    using F(5) [OF v True] by blast
  obtain ys where ys: "forest_path (forest st) v [] = Some ys"
      "forest_ok w (foldl compress_step st (rev ys))" "semi (foldl compress_step st (rev ys)) = semi st"
      "\<exists>a \<le> w. forest (foldl compress_step st (rev ys)) ! v = Some a"
    using forest_path_ok [OF ok v True, of "[]"] by auto
  let ?st = "foldl compress_step st (rev ys)"
  obtain r where r: "r \<le> w" "forest ?st ! v = Some r" "link_ok w ?st v r"
    using ys(4) forest_link [OF ys(2) v] by blast
  show thesis
  proof (rule that)
    show "eval_vertex st v = Some (best ?st ! v, ?st)"
      using \<open>forest st ! v = Some a\<close> ys(1) by (simp add: eval_vertex_def Let_def)
    show "best ?st ! v < n \<and> w < best ?st ! v \<and> anc (best ?st ! v) v \<and>
        (\<forall>y. anc y v \<longrightarrow> w < y \<longrightarrow> sdom (best ?st ! v) \<le> sdom y)"
      using link_best [OF ys(2) v r(3)] r(1,3) by (auto simp: link_ok_def)
  qed (use ys True in auto)
next
  case False
  then have "eval_vertex st v = Some (v, st)"
    using forest_okD(6) [OF ok v] by (simp add: eval_vertex_def)
  then show thesis
    by (rule that) (use False ok in auto)
qed

end

subsection \<open>Semidominators from the predecessors\<close>

context search_tree begin

lemma forest_semi_update:
  "forest_ok w st \<Longrightarrow> forest_ok w (st\<lparr>semi := (semi st)[w := s]\<rparr>)"
  by (auto simp: forest_ok_def link_ok_def)

definition semi_bound :: "nat \<Rightarrow> link_eval \<Rightarrow> nat \<Rightarrow> bool" where
  "semi_bound w st v \<longleftrightarrow> (v < w \<longrightarrow> semi st ! w \<le> v) \<and> (\<forall>u. anc u v \<longrightarrow> w < u \<longrightarrow> semi st ! w \<le> sdom u)"

lemma semi_pred_ok:
  assumes ok: "forest_ok w st" and w: "0 < w" "w < n" and s: "sdom w \<le> semi st ! w"
    and p: "\<And>v. pre_num ! p = Some v \<Longrightarrow> E v w"
  obtains st' where "semi_pred pre_num w p st = Some st'" and "forest_ok w st'" and "sdom w \<le> semi st' ! w"
    and "semi st' ! w \<le> semi st ! w" and "\<And>v. pre_num ! p = Some v \<Longrightarrow> semi_bound w st' v"
proof (cases "pre_num ! p")
  case None
  then show thesis
    by (intro that [of st]) (use ok s in \<open>auto simp: semi_pred_def\<close>)
next
  case (Some v)
  note F = forest_okD [OF ok]
  have e: "E v w" "v < n"
    using p [OF Some] edge_bounds by auto
  obtain u st1 where u: "eval_vertex st v = Some (u, st1)" "forest_ok w st1" "semi st1 = semi st"
    "v \<le> w \<Longrightarrow> u = v"
    "w < v \<Longrightarrow> u < n \<and> w < u \<and> anc u v \<and> (\<forall>y. anc y v \<longrightarrow> w < y \<longrightarrow> sdom u \<le> sdom y)"
    using eval_vertex_ok [OF ok e(2)] by metis
  let ?s = "min (semi st ! u) (semi st ! w)"
  let ?st = "if semi st1 ! u < semi st1 ! w then st1\<lparr>semi := (semi st1)[w := semi st1 ! u]\<rparr> else st1"
  have st: "semi_pred pre_num w p st = Some ?st"
    using Some u(1) by (simp add: semi_pred_def)
  have len: "w < length (semi st)"
    using F(1) w(2) by simp
  have sw: "semi ?st ! w = ?s"
    using u(3) len by (simp add: min_def)
  have ok': "forest_ok w ?st"
    using forest_semi_update [OF u(2)] u(2) by simp
  have lower: "sdom w \<le> ?s"
  proof (cases v w rule: linorder_cases)
    case less
    then show ?thesis
      using u(4) F(8) [OF e(2)] sdom_upper [OF e(1)] s by simp
  next
    case equal
    then show ?thesis
      using u(4) s by simp
  next
    case greater
    then show ?thesis
      using u(5) F(4) [of u] sdom_upper_subtree [OF e(1), of u] s by simp
  qed
  have bound: "semi_bound w ?st v"
    unfolding semi_bound_def sw
  proof (intro conjI allI impI)
    show "?s \<le> v" if "v < w"
      using that u(4) F(8) [OF e(2) that] by simp
    fix y
    assume y: "anc y v" "w < y"
    then have "w < v"
      using anc_le [OF y(1) e(2)] by simp
    then show "?s \<le> sdom y"
      using u(5) F(4) [of u] y by auto
  qed
  show thesis
    by (rule that [OF st ok']) (use sw lower bound Some in auto)
qed

lemma semi_preds_ok:
  assumes "forest_ok w st" and w: "0 < w" "w < n" and "sdom w \<le> semi st ! w"
    and "\<forall>p \<in> set ps. \<forall>v. pre_num ! p = Some v \<longrightarrow> E v w"
  shows "\<exists>st'. fold_option (semi_pred pre_num w) ps st = Some st' \<and> forest_ok w st' \<and> sdom w \<le> semi st' ! w \<and>
      semi st' ! w \<le> semi st ! w \<and> (\<forall>p \<in> set ps. \<forall>v. pre_num ! p = Some v \<longrightarrow> semi_bound w st' v)"
  using assms(1,4,5)
proof (induction ps arbitrary: st)
  case (Cons p ps)
  obtain st1 where st1: "semi_pred pre_num w p st = Some st1" "forest_ok w st1" "sdom w \<le> semi st1 ! w"
    "semi st1 ! w \<le> semi st ! w" "\<And>v. pre_num ! p = Some v \<Longrightarrow> semi_bound w st1 v"
    using semi_pred_ok [OF Cons.prems(1) w Cons.prems(2), of pre_num p] Cons.prems(3) by auto
  obtain st2 where st2: "fold_option (semi_pred pre_num w) ps st1 = Some st2" "forest_ok w st2" "sdom w \<le> semi st2 ! w"
    "semi st2 ! w \<le> semi st1 ! w" "\<forall>p \<in> set ps. \<forall>v. pre_num ! p = Some v \<longrightarrow> semi_bound w st2 v"
    using Cons.IH [OF st1(2,3)] Cons.prems(3) by auto
  have "semi_bound w st2 v" if "pre_num ! p = Some v" for v
    using st1(5) [OF that] st2(4) by (auto simp: semi_bound_def)
  then show ?case
    using st1 st2 by (intro exI [of _ st2]) auto
qed auto

lemma semi_complete:
  assumes w: "0 < w" "w < n" and "sdom w \<le> semi st ! w" and b: "\<And>v. E v w \<Longrightarrow> semi_bound w st v"
  shows "semi st ! w = sdom w"
proof -
  have "semi st ! w \<le> sdom w"
    using sdom_attained [OF w]
  proof
    assume "E (sdom w) w"
    then show ?thesis
      using b sdom_less [OF w] by (auto simp: semi_bound_def)
  next
    assume "\<exists>u v. E v w \<and> anc u v \<and> w < u \<and> sdom u \<le> sdom w"
    then obtain u v where "E v w" "anc u v" "w < u" "sdom u \<le> sdom w"
      by blast
    then show ?thesis
      using b [of v] by (auto simp: semi_bound_def)
  qed
  then show ?thesis
    using assms(3) by simp
qed

text \<open>Linking a vertex whose semidominator is known.\<close>

lemma link_vertex_ok:
  assumes ok: "forest_ok w st" and w: "0 < w" "w < n" and s: "semi st ! w = sdom w"
  shows "forest_ok (w - 1) (st\<lparr>forest := (forest st)[w := Some (par w)]\<rparr>)"
proof -
  note F = forest_okD [OF ok]
  let ?st = "st\<lparr>forest := (forest st)[w := Some (par w)]\<rparr>"
  have p: "par w < w"
    using par_edge [OF w] by simp
  have "link_ok (w - 1) ?st w (par w)"
    using F(7) [OF w(2)] p anc_proper [of _ w] anc_le [of _ "par w"] w ancestor_par [of par w]
    by (force simp: link_ok_def)
  moreover have "link_ok (w - 1) ?st x a" if "link_ok w st x a" for x a
    using that by (fastforce simp: link_ok_def)
  ultimately have "\<exists>a. forest ?st ! x = Some a \<and> link_ok (w - 1) ?st x a" if x: "x < n" "w - 1 < x" for x
  proof (cases "x = w")
    case False
    then have "w < x"
      using x(2) by simp
    then obtain a where "forest st ! x = Some a" "link_ok w st x a"
      using F(5) [OF x(1)] by blast
    then show ?thesis
      using \<open>\<And>x a. link_ok w st x a \<Longrightarrow> link_ok (w - 1) ?st x a\<close> False by auto
  qed (use F(3) w in simp)
  moreover have "semi st ! x = sdom x" if "x < n" "w - 1 < x" for x
    using F(4) [of x] s that by (cases "x = w") auto
  ultimately show ?thesis
    unfolding forest_ok_def using F(1-3,6-8) w by (auto simp: nth_list_update)
qed

end

subsection \<open>The passes\<close>

context search_tree begin

definition rows_ok :: "FlatAdj \<Rightarrow> dfs_state \<Rightarrow> bool" where
  "rows_ok pred_rows d \<longleftrightarrow> length (vertex d) = n \<and> length (parent d) = n \<and>
     (\<forall>w < n. 0 < w \<longrightarrow> parent d ! w = par w \<and>
        (\<forall>v. E v w \<longleftrightarrow> (\<exists>p \<in> set (row pred_rows (vertex d ! w)). pre d ! p = Some v)))"

lemma semi_vertex_ok:
  assumes ok: "forest_ok w st" "semi st ! w = w" and w: "0 < w" "w < n" and rows: "rows_ok pred_rows d"
  shows "\<exists>st'. semi_vertex pred_rows d w st = Some st' \<and> forest_ok (w - 1) st' \<and> semi st' ! (w - 1) = w - 1"
proof -
  let ?row = "row pred_rows (vertex d ! w)"
  have rw: "parent d ! w = par w" "E v w \<longleftrightarrow> (\<exists>p \<in> set ?row. pre d ! p = Some v)" for v
    using rows w by (auto simp: rows_ok_def)
  obtain st' where st': "fold_option (semi_pred (pre d) w) ?row st = Some st'" "forest_ok w st'" "sdom w \<le> semi st' ! w"
      "\<forall>p \<in> set ?row. \<forall>v. pre d ! p = Some v \<longrightarrow> semi_bound w st' v"
    using semi_preds_ok [OF ok(1) w, of ?row "pre d"] ok(2) sdom_less [OF w] rw(2) by auto
  have "semi st' ! w = sdom w"
    by (rule semi_complete [OF w st'(3)]) (use st'(4) rw(2) in blast)
  from link_vertex_ok [OF st'(2) w this] show ?thesis
    using st'(1) rw(1) forest_okD(8) [OF st'(2), of "w - 1"] w by (simp add: semi_vertex_def)
qed

lemma semi_vertices_ok:
  assumes rows: "rows_ok pred_rows d"
  shows "forest_ok m st \<Longrightarrow> semi st ! m = m \<Longrightarrow> m < n \<Longrightarrow>
    \<exists>st'. fold_option (semi_vertex pred_rows d) (rev [1..<Suc m]) st = Some st' \<and> forest_ok 0 st'"
proof (induction m arbitrary: st)
  case (Suc m)
  obtain st1 where st1: "semi_vertex pred_rows d (Suc m) st = Some st1" "forest_ok m st1" "semi st1 ! m = m"
    using semi_vertex_ok [OF Suc.prems(1,2) _ Suc.prems(3) rows] by auto
  have "rev [1..<Suc (Suc m)] = Suc m # rev [1..<Suc m]"
    by simp
  moreover obtain st2 where "fold_option (semi_vertex pred_rows d) (rev [1..<Suc m]) st1 = Some st2" "forest_ok 0 st2"
    using Suc.IH [OF st1(2,3)] Suc.prems(3) by auto
  ultimately show ?case
    using st1(1) by simp
qed simp

text \<open>The semidominators of all vertices but the entry.\<close>

lemma semi_pass_ok:
  assumes rows: "rows_ok pred_rows d" and n: "0 < n"
  shows "\<exists>st. semi_pass pred_rows d = Some st \<and> length (semi st) = n \<and> (\<forall>w < n. 0 < w \<longrightarrow> semi st ! w = sdom w)"
proof -
  let ?st = "\<lparr>semi = [0..<n], best = [0..<n], forest = replicate n None\<rparr>"
  have "forest_ok (n - 1) ?st" "semi ?st ! (n - 1) = n - 1"
    using n by (auto simp: forest_ok_def)
  from semi_vertices_ok [OF rows this] obtain st where
    "fold_option (semi_vertex pred_rows d) (rev [1..<Suc (n - 1)]) ?st = Some st" "forest_ok 0 st"
    using n by auto
  moreover have "Suc (n - 1) = n" "length (vertex d) = n"
    using n rows by (simp_all add: rows_ok_def)
  ultimately have "semi_pass pred_rows d = Some st"
    by (simp add: semi_pass_def)
  then show ?thesis
    using forest_okD(1,4) [OF \<open>forest_ok 0 st\<close>] by auto
qed

text \<open>The climb up the finished part of the dominator tree.\<close>

definition idom_ok :: "nat \<Rightarrow> nat list \<Rightarrow> bool" where
  "idom_ok w idom_num \<longleftrightarrow> length idom_num = n \<and> (\<forall>x < w. 0 < x \<longrightarrow> immediate_dominator E 0 (idom_num ! x) x) \<and>
     (\<forall>x < n. w \<le> x \<longrightarrow> idom_num ! x = par x)"

lemma climb_ok:
  assumes inv: "idom_ok w idom_num" and w: "0 < w" "w < n" and d: "dom d (par w)"
    and greatest: "\<And>x. dom x (par w) \<Longrightarrow> x \<le> sdom w \<Longrightarrow> x \<le> d"
  shows "\<exists>r. climb idom_num (sdom w) d = Some r \<and> immediate_dominator E 0 r w"
  using d greatest
proof (induction d rule: less_induct)
  case (less d)
  have p: "par w < w" "par w < n"
    using par_edge [OF w] w(2) by auto
  show ?case
  proof (cases "sdom w < d")
    case True
    have dw: "d < w" "d < n" "0 < d"
      using anc_le [OF dom_anc [OF less.prems(1) p(2)] p(2)] p True by auto
    let ?e = "idom_num ! d"
    have e: "immediate_dominator E 0 ?e d"
      using inv dw by (simp add: idom_ok_def)
    then have ed: "dom ?e d" "?e \<noteq> d"
      by (simp_all add: immediate_dominator_def)
    have "?e < d"
      using anc_less [OF dom_anc [OF ed(1) dw(2)] dw(2) ed(2)] .
    moreover have "dom ?e (par w)"
      using dom_trans [OF ed(1) less.prems(1)] .
    moreover have "x \<le> ?e" if x: "dom x (par w)" "x \<le> sdom w" for x
    proof -
      have "dom x d"
        by (rule dom_chain [OF x(1) less.prems(1) _ p(2)]) (use x(2) True in simp)
      then have "dom x ?e"
        using e x(2) True by (auto simp: immediate_dominator_def)
      moreover have "?e < n"
        using \<open>?e < d\<close> dw(2) by simp
      ultimately show ?thesis
        using anc_le [OF dom_anc] by blast
    qed
    ultimately have "\<exists>r. climb idom_num (sdom w) ?e = Some r \<and> immediate_dominator E 0 r w"
      using less.IH by blast
    then show ?thesis
      using True by (subst climb.simps) simp
  next
    case False
    then have "immediate_dominator E 0 d w"
      by (intro immediate_dominatorI [OF w less.prems(1)]) (use less.prems(2) in auto)
    then show ?thesis
      using False by (subst climb.simps) simp
  qed
qed

lemma nca_vertex_ok:
  assumes inv: "idom_ok w idom_num" and w: "0 < w" "w < n" and s: "semi_num ! w = sdom w"
  shows "\<exists>idom_num'. nca_vertex semi_num w idom_num = Some idom_num' \<and> idom_ok (Suc w) idom_num' \<and>
    idom_num' ! 0 = idom_num ! 0"
proof -
  have p: "par w < n" "idom_num ! w = par w"
    using par_edge [OF w] w inv by (simp_all add: idom_ok_def)
  have "x \<le> par w" if "dom x (par w)" for x
    using anc_le [OF dom_anc [OF that p(1)] p(1)] .
  then obtain r where r: "climb idom_num (sdom w) (par w) = Some r" "immediate_dominator E 0 r w"
    using climb_ok [OF inv w dom_refl] by blast
  then have "idom_ok (Suc w) (idom_num[w := r])"
    using inv w by (auto simp: idom_ok_def nth_list_update less_Suc_eq)
  then show ?thesis
    using r(1) s p(2) w by (simp add: nca_vertex_def)
qed

lemma nca_pass_ok:
  assumes "idom_ok w idom_num" and "0 < w" and "w \<le> n" and s: "\<forall>w < n. 0 < w \<longrightarrow> semi_num ! w = sdom w"
  shows "\<exists>idom_num'. fold_option (nca_vertex semi_num) [w..<n] idom_num = Some idom_num' \<and> idom_ok n idom_num' \<and>
    idom_num' ! 0 = idom_num ! 0"
  using assms(1-3)
proof (induction "n - w" arbitrary: w idom_num)
  case (Suc k)
  then have wn: "w < n"
    by simp
  obtain i where i: "nca_vertex semi_num w idom_num = Some i" "idom_ok (Suc w) i" "i ! 0 = idom_num ! 0"
    using nca_vertex_ok [OF Suc.prems(1,2) wn] s wn Suc.prems(2) by blast
  have "[w..<n] = w # [Suc w..<n]"
    using wn by (rule upt_conv_Cons)
  moreover have "k = n - Suc w"
    using Suc.hyps(2) by simp
  ultimately show ?case
    using Suc.hyps(1) [of "Suc w" i] i wn by auto
qed simp

end

end
