(* ===== verification/Dominators.thy ===== *)
theory Dominators
  imports SemiNca
begin

text \<open>
  \<^const>\<open>compute_dominators\<close> returns the immediate dominators: the search tree of its own depth-first search is an instance of the
  locale, and the facts about numbers are carried back to blocks.
\<close>

subsection \<open>The search tree of a graph\<close>

definition found :: "nat \<Rightarrow> FlatAdj \<Rightarrow> dfs_state" where
  "found num succs = the (dfs_loop succs (dfs_start num))"

definition found_size :: "nat \<Rightarrow> FlatAdj \<Rightarrow> nat" where
  "found_size num succs = (if succs_ok num succs then length (vertex (found num succs)) else 1)"

definition found_edge :: "nat \<Rightarrow> FlatAdj \<Rightarrow> nat \<Rightarrow> nat \<Rightarrow> bool" where
  "found_edge num succs i j \<longleftrightarrow> succs_ok num succs \<and> number_edge succs (found num succs) i j"

definition found_par :: "nat \<Rightarrow> FlatAdj \<Rightarrow> nat \<Rightarrow> nat" where
  "found_par num succs i = (if succs_ok num succs then parent (found num succs) ! i else 0)"

lemma found_ok:
  assumes "succs_ok num succs"
  shows "dfs_loop succs (dfs_start num) = Some (found num succs)" and "numbering_ok num succs (found num succs)"
    and "closed_ok succs (found num succs) []"
  using dfs_loop_start [OF assms] by (force simp: found_def)+

lemma trivial_ancestor: "ancestor_of (\<lambda>_. 0) a b \<longleftrightarrow> a = b \<or> a = 0"
proof -
  have "((\<lambda>_. 0 :: nat) ^^ k) b = (if k = 0 then b else 0)" for k
    by (cases k) auto
  then show ?thesis
    by (auto simp: ancestor_of_def)
qed

interpretation snca: search_tree "found_size num succs" "found_edge num succs" "found_par num succs" for num succs
proof (cases "succs_ok num succs")
  case True
  then have "found_size num succs = length (vertex (found num succs))"
    "found_edge num succs = number_edge succs (found num succs)" "found_par num succs = (!) (parent (found num succs))"
    by (auto simp: found_size_def found_edge_def found_par_def fun_eq_iff)
  then show "search_tree (found_size num succs) (found_edge num succs) (found_par num succs)"
    using search_tree_numbering [OF found_ok(2,3) [OF True]] by simp
next
  case False
  then have "found_size num succs = 1" "found_edge num succs = (\<lambda>_ _. False)" "found_par num succs = (\<lambda>_. 0)"
    by (auto simp: found_size_def found_edge_def found_par_def fun_eq_iff)
  then show "search_tree (found_size num succs) (found_edge num succs) (found_par num succs)"
    by unfold_locales (auto simp: trivial_ancestor)
qed

lemma found_locale:
  assumes "succs_ok num succs"
  shows "found_size num succs = length (vertex (found num succs))"
    and "found_edge num succs = number_edge succs (found num succs)"
    and "found_par num succs = (!) (parent (found num succs))"
  using assms by (auto simp: found_size_def found_edge_def found_par_def fun_eq_iff)

subsection \<open>From numbers to blocks\<close>

lemma vertex_inj:
  assumes N: "numbering_ok num succs d" and "i < length (vertex d)" and "j < length (vertex d)"
  shows "vertex d ! i = vertex d ! j \<longleftrightarrow> i = j"
  using numbering_okD(6) [OF N numbering_okD(7) [OF N assms(2)], of i]
    numbering_okD(6) [OF N numbering_okD(7) [OF N assms(2)], of j] assms(2,3) by auto

lemma distinct_vertex: "numbering_ok num succs d \<Longrightarrow> distinct (vertex d)"
  using vertex_inj by (auto simp: distinct_conv_nth)

lemma immediate_dominator_blocks:
  assumes N: "numbering_ok num succs d" and C: "closed_ok succs d []" and ok: "succs_ok num succs"
    and j: "j < length (vertex d)" and i: "i < length (vertex d)"
    and dom: "immediate_dominator (number_edge succs d) 0 i j"
  shows "immediate_dominator (block_edge num succs) 0 (vertex d ! i) (vertex d ! j)"
  unfolding immediate_dominator_def
proof (intro conjI allI impI)
  note D = dominates_numbers [OF N C ok]
  show "vertex d ! i \<noteq> vertex d ! j"
    using dom vertex_inj [OF N i j] by (simp add: immediate_dominator_def)
  show "dominates (block_edge num succs) 0 (vertex d ! i) (vertex d ! j)"
    using dom D [OF i j] by (simp add: immediate_dominator_def)
  fix e
  assume e: "e \<noteq> vertex d ! j" "dominates (block_edge num succs) 0 e (vertex d ! j)"
  have "e \<in> set (vertex d)"
  proof (rule ccontr)
    assume no: "e \<notin> set (vertex d)"
    have "reach (number_edge succs d) (\<lambda>_. True) 0 j"
      using search_tree.all_reached [OF search_tree_numbering [OF N C] j] by (simp add: reachable_reach)
    then have "reach (block_edge num succs) (\<lambda>b. b \<noteq> e) 0 (vertex d ! j)"
      by (rule reach_blocks [OF N]) (use no in auto)
    moreover have "e \<noteq> 0"
      using no numbering_okD(3,4) [OF N] by (metis length_greater_0_conv nth_mem)
    ultimately show False
      using e(2) by (simp add: dominates_reach)
  qed
  then obtain l where l: "l < length (vertex d)" "vertex d ! l = e"
    by (metis in_set_conv_nth)
  then have "l \<noteq> j" "dominates (number_edge succs d) 0 l j"
    using e D [OF l(1) j] by auto
  then have "dominates (number_edge succs d) 0 l i"
    using dom by (simp add: immediate_dominator_def)
  then show "dominates (block_edge num succs) 0 e (vertex d ! i)"
    using D [OF l(1) i] l(2) by simp
qed

lemma store_numbers:
  assumes "distinct vs" and "\<forall>b \<in> set vs. b < length xs"
  shows "length (foldl (\<lambda>xs (w, b). xs[b := f w]) xs (enumerate 0 vs)) = length xs \<and>
    (\<forall>i < length vs. foldl (\<lambda>xs (w, b). xs[b := f w]) xs (enumerate 0 vs) ! (vs ! i) = f i) \<and>
    (\<forall>b. b \<notin> set vs \<longrightarrow> foldl (\<lambda>xs (w, b). xs[b := f w]) xs (enumerate 0 vs) ! b = xs ! b)"
  using assms
proof (induction vs rule: rev_induct)
  case (snoc v vs)
  then show ?case
    by (auto simp: enumerate_append_eq nth_append nth_list_update less_Suc_eq dest: nth_mem)
qed simp

subsection \<open>Immediate dominators\<close>

text \<open>The predecessor rows list the edges of the successor rows, in any order and multiplicity.\<close>

definition preds_ok :: "nat \<Rightarrow> FlatAdj \<Rightarrow> FlatAdj \<Rightarrow> bool" where
  "preds_ok num pred_rows succs \<longleftrightarrow> (\<forall>b < num. \<forall>p. p \<in> set (row pred_rows b) \<longleftrightarrow> p < num \<and> b \<in> set (row succs p))"

lemma found_rows_ok:
  assumes ok: "succs_ok num succs" and p: "preds_ok num pred_rows succs"
  shows "snca.rows_ok num succs pred_rows (found num succs)"
  unfolding snca.rows_ok_def
  unfolding found_locale [OF ok]
proof (intro conjI allI impI)
  let ?d = "found num succs"
  note N = found_ok(2) [OF ok] and C = found_ok(3) [OF ok]
  note I = numbering_okD [OF N]
  show "length (parent ?d) = length (vertex ?d)"
    by (rule I(2))
  fix w v
  assume w: "w < length (vertex ?d)"
  show "number_edge succs ?d v w \<longleftrightarrow> (\<exists>p \<in> set (row pred_rows (vertex ?d ! w)). pre ?d ! p = Some v)"
  proof
    assume e: "number_edge succs ?d v w"
    then have v: "v < length (vertex ?d)" "vertex ?d ! w \<in> set (row succs (vertex ?d ! v))"
      by (simp_all add: number_edge_def)
    then have "vertex ?d ! v \<in> set (row pred_rows (vertex ?d ! w))"
      using p I(7) w by (simp add: preds_ok_def)
    then show "\<exists>p \<in> set (row pred_rows (vertex ?d ! w)). pre ?d ! p = Some v"
      using I(6) [OF I(7) [OF v(1)], of v] v(1) by blast
  next
    assume "\<exists>p \<in> set (row pred_rows (vertex ?d ! w)). pre ?d ! p = Some v"
    then obtain b where b: "b < num" "vertex ?d ! w \<in> set (row succs b)" "pre ?d ! b = Some v"
      using p I(7) [OF w] by (auto simp: preds_ok_def)
    then show "number_edge succs ?d v w"
      using I(6) [OF b(1), of v] w by (auto simp: number_edge_def)
  qed
qed simp_all

definition idom_of :: "nat \<Rightarrow> FlatAdj \<Rightarrow> nat option list \<Rightarrow> bool" where
  "idom_of num succs idom \<longleftrightarrow>
     length idom = num \<and> idom ! 0 = Some 0 \<and>
     (\<forall>b < num. idom ! b = None \<longleftrightarrow> \<not> reachable (block_edge num succs) 0 b) \<and>
     (\<forall>b < num. \<forall>d. 0 < b \<longrightarrow> idom ! b = Some d \<longrightarrow> d < num \<and> immediate_dominator (block_edge num succs) 0 d b)"

lemma compute_dominators_idom:
  assumes ok: "succs_ok num succs" and p: "preds_ok num pred_rows succs"
  shows "\<exists>idom. compute_dominators num pred_rows succs = Some idom \<and> idom_of num succs idom"
proof -
  let ?d = "found num succs"
  let ?n = "length (vertex ?d)"
  note N = found_ok(2) [OF ok] and C = found_ok(3) [OF ok] and L = found_locale [OF ok]
  note I = numbering_okD [OF N]
  have n: "0 < ?n"
    using I(3) by simp
  note rows = found_rows_ok [OF ok p]
  obtain st where st: "semi_pass pred_rows ?d = Some st"
      "\<forall>w < found_size num succs. 0 < w \<longrightarrow> semi st ! w = snca.sdom num succs w"
    using snca.semi_pass_ok [OF rows] n L(1) by auto
  have "snca.idom_ok num succs 1 (parent ?d)"
    unfolding snca.idom_ok_def unfolding L using I(2) by simp
  from snca.nca_pass_ok [OF this _ _ st(2)] n obtain i where i:
      "fold_option (nca_vertex (semi st)) [1..<?n] (parent ?d) = Some i"
      "snca.idom_ok num succs (found_size num succs) i" "i ! 0 = parent ?d ! 0"
    by (auto simp: L(1) Suc_le_eq)
  have i_dom: "immediate_dominator (number_edge succs ?d) 0 (i ! w) w" if "w < ?n" "0 < w" for w
    using i(2) that unfolding snca.idom_ok_def unfolding L by simp
  let ?idom = "foldl (\<lambda>idom (w, b). idom[b := Some (vertex ?d ! (i ! w))]) (replicate num None) (enumerate 0 (vertex ?d))"
  have result: "compute_dominators num pred_rows succs = Some ?idom"
    using found_ok(1) [OF ok] st(1) i(1) ok by (simp add: compute_dominators_def succs_ok_def)
  have "\<forall>b \<in> set (vertex ?d). b < length (replicate num (None :: nat option))"
    using I(7) by (auto simp: in_set_conv_nth)
  note store = store_numbers [OF distinct_vertex [OF N] this, of "\<lambda>w. Some (vertex ?d ! (i ! w))"]
  have numbered: "?idom ! (vertex ?d ! w) = Some (vertex ?d ! (i ! w))" if "w < ?n" for w
    using store that by blast
  have none: "?idom ! b = None \<longleftrightarrow> pre ?d ! b = None" if b: "b < num" for b
  proof (cases "pre ?d ! b")
    case None
    then have "b \<notin> set (vertex ?d)"
      using I(6) [OF b] by (auto simp: in_set_conv_nth)
    then show ?thesis
      using store b None by simp
  next
    case (Some w)
    then show ?thesis
      using I(6) [OF b, of w] numbered [of w] by auto
  qed
  have "idom_of num succs ?idom"
    unfolding idom_of_def
  proof (intro conjI allI impI)
    show "length ?idom = num"
      using store by simp
    show "?idom ! 0 = Some 0"
      using numbered [OF n] i(3) I(4,5) by simp
    show "?idom ! b = None \<longleftrightarrow> \<not> reachable (block_edge num succs) 0 b" if "b < num" for b
      using none [OF that] reachable_numbered [OF N C ok that] by simp
    fix b d
    assume b: "b < num" "0 < b" "?idom ! b = Some d"
    then obtain w where "pre ?d ! b = Some w"
      using none [OF b(1)] by auto
    then have w: "w < ?n" "vertex ?d ! w = b"
      using I(6) [OF b(1), of w] by auto
    then have d: "d = vertex ?d ! (i ! w)" "0 < w"
      using numbered [OF w(1)] b(2,3) I(4) by (auto intro: gr0I)
    note im = i_dom [OF w(1) d(2)]
    have "snca.dom num succs (i ! w) w"
      using im by (simp add: immediate_dominator_def L)
    from snca.anc_le [OF snca.dom_anc [OF this]] have "i ! w \<le> w"
      using w(1) by (simp add: L(1))
    then have iw: "i ! w < ?n"
      using w(1) by simp
    show "d < num"
      using d(1) I(7) [OF iw] by simp
    show "immediate_dominator (block_edge num succs) 0 d b"
      using immediate_dominator_blocks [OF N C ok w(1) iw im] d(1) w(2) by simp
  qed
  then show ?thesis
    using result by blast
qed

end
