(* ===== verification/CfgBundle.thy ===== *)
theory CfgBundle
  imports Dominators
begin

text \<open>
  The analysis bundle of a function: the graph that \<^const>\<open>build_cfg\<close> makes of its blocks, the children in the dominator tree,
  and \<open>CfgAnalysis::build\<close>, which puts them together with \<^const>\<open>compute_dominators\<close>.
\<close>

subsection \<open>Rows of the graph\<close>

definition block_targets :: "(nat \<rightharpoonup> nat) \<Rightarrow> 'x BasicBlock \<Rightarrow> nat list" where
  "block_targets index_of b = List.map_filter index_of (named_labels b)"

lemma set_block_targets: "t \<in> set (block_targets index_of b) \<longleftrightarrow> (\<exists>l \<in> set (named_labels b). index_of l = Some t)"
  by (force simp: block_targets_def List.map_filter_def)

lemma ran_bound: "ran m \<subseteq> {..<n} \<Longrightarrow> m l = Some t \<Longrightarrow> t < n"
  by (auto simp: ran_def)

lemma set_insert_new: "set (foldl insert_new seen ts) = set seen \<union> set ts"
  by (induction ts arbitrary: seen) (auto simp: insert_new_def)

lemma distinct_insert_new: "distinct seen \<Longrightarrow> distinct (foldl insert_new seen ts)"
  by (induction ts arbitrary: seen) (auto simp: insert_new_def)

lemma add_edges:
  assumes "i < length ss" and "\<forall>t \<in> set ts. t < length ps"
  shows "\<exists>ps'. foldl (add_edge i) (ps, ss) ts = (ps', ss[i := foldl insert_new (ss ! i) ts]) \<and> length ps' = length ps \<and>
    (\<forall>b < length ps. ps' ! b = ps ! b @ replicate (count_list ts b) i)"
  using assms
proof (induction ts arbitrary: ps ss)
  case (Cons t ts)
  let ?ps = "ps[t := ps ! t @ [i]]" and ?ss = "ss[i := insert_new (ss ! i) t]"
  have step: "add_edge i (ps, ss) t = (?ps, ?ss)"
    using Cons.prems by (simp add: add_edge_def insert_new_def)
  obtain ps' where ps': "foldl (add_edge i) (?ps, ?ss) ts = (ps', ?ss[i := foldl insert_new (?ss ! i) ts])"
      "length ps' = length ?ps" "\<forall>b < length ?ps. ps' ! b = ?ps ! b @ replicate (count_list ts b) i"
    using Cons.IH [of ?ss ?ps] Cons.prems by auto
  have "ps' ! b = ps ! b @ replicate (count_list (t # ts) b) i" if "b < length ps" for b
    using ps'(3) that by (cases "b = t") (auto simp: replicate_app_Cons_same)
  then show ?case
    using step ps' Cons.prems(1) by (intro exI [of _ ps']) simp
qed simp

definition pred_row :: "(nat \<rightharpoonup> nat) \<Rightarrow> 'x BasicBlock list \<Rightarrow> nat \<Rightarrow> nat list" where
  "pred_row index_of blocks b =
     concat (map (\<lambda>i. replicate (count_list (block_targets index_of (blocks ! i)) b) i) [0..<length blocks])"

lemma add_blocks:
  assumes "length bs \<le> n" and "ran index_of \<subseteq> {..<n}"
  shows "\<exists>ps ss. foldl (add_block index_of) (replicate n [], replicate n []) (enumerate 0 bs) = (ps, ss) \<and>
    length ps = n \<and> length ss = n \<and> (\<forall>b < n. ps ! b = pred_row index_of bs b) \<and>
    (\<forall>i < n. ss ! i = (if i < length bs then foldl insert_new [] (block_targets index_of (bs ! i)) else []))"
  using assms(1)
proof (induction bs rule: rev_induct)
  case Nil
  show ?case
    by (simp add: pred_row_def)
next
  case (snoc b bs)
  let ?i = "length bs" and ?ts = "block_targets index_of b"
  obtain ps ss where st: "foldl (add_block index_of) (replicate n [], replicate n []) (enumerate 0 bs) = (ps, ss)"
      "length ps = n" "length ss = n" "\<forall>b < n. ps ! b = pred_row index_of bs b"
      "\<forall>i < n. ss ! i = (if i < length bs then foldl insert_new [] (block_targets index_of (bs ! i)) else [])"
    using snoc by auto
  have i: "?i < n"
    using snoc.prems by simp
  have "\<forall>t \<in> set ?ts. t < n"
    using ran_bound [OF assms(2)] by (auto simp: set_block_targets)
  then obtain ps' where ps': "foldl (add_edge ?i) (ps, ss) ?ts = (ps', ss[?i := foldl insert_new (ss ! ?i) ?ts])"
      "length ps' = n" "\<forall>b < n. ps' ! b = ps ! b @ replicate (count_list ?ts b) ?i"
    using add_edges [of ?i ss ?ts ps] st(2,3) i by auto
  have "foldl (add_block index_of) (replicate n [], replicate n []) (enumerate 0 (bs @ [b])) =
      (ps', ss[?i := foldl insert_new (ss ! ?i) ?ts])"
    using st(1) ps'(1) by (simp add: enumerate_append_eq add_block_def block_targets_def)
  moreover have "pred_row index_of (bs @ [b]) c = pred_row index_of bs c @ replicate (count_list ?ts c) ?i" for c
    by (auto simp: pred_row_def nth_append intro!: arg_cong [of _ _ concat])
  ultimately show ?case
    using ps'(2,3) st(3-5) i by (auto simp: nth_append nth_list_update less_Suc_eq)
qed

lemma build_cfg_rows:
  assumes "ran index_of \<subseteq> {..<length blocks}" and b: "b < length blocks"
    and g: "build_cfg blocks index_of = (pred_rows, succs)"
  shows "row succs b = foldl insert_new [] (block_targets index_of (blocks ! b))"
    and "row pred_rows b = pred_row index_of blocks b" and "row_len pred_rows b = length (pred_row index_of blocks b)"
proof -
  obtain ps ss where st: "foldl (add_block index_of) (replicate (length blocks) [], replicate (length blocks) [])
        (enumerate 0 blocks) = (ps, ss)"
      "length ps = length blocks" "length ss = length blocks" "\<forall>b < length blocks. ps ! b = pred_row index_of blocks b"
      "\<forall>i < length blocks. ss ! i = (if i < length blocks then foldl insert_new [] (block_targets index_of (blocks ! i)) else [])"
    using add_blocks [OF le_refl assms(1)] by blast
  have "pred_rows = from_vecs ps" "succs = from_vecs ss"
    using g st(1) by (auto simp: build_cfg_def Let_def)
  then show "row succs b = foldl insert_new [] (block_targets index_of (blocks ! b))"
    "row pred_rows b = pred_row index_of blocks b" "row_len pred_rows b = length (pred_row index_of blocks b)"
    using st b by (simp_all add: row_from_vecs row_len_row)
qed

lemma set_pred_row: "p \<in> set (pred_row index_of blocks b) \<longleftrightarrow>
    p < length blocks \<and> b \<in> set (block_targets index_of (blocks ! p))"
  by (auto simp: pred_row_def count_list_0_iff)

lemma build_cfg_ok:
  assumes r: "ran index_of \<subseteq> {..<length blocks}" and n: "blocks \<noteq> []" and g: "build_cfg blocks index_of = (pred_rows, succs)"
  shows "succs_ok (length blocks) succs" and "preds_ok (length blocks) pred_rows succs"
    and "block_edge (length blocks) succs a b \<longleftrightarrow>
      a < length blocks \<and> (\<exists>l \<in> set (named_labels (blocks ! a)). index_of l = Some b)"
proof -
  note R = build_cfg_rows [OF r _ g]
  have s: "set (row succs a) = set (block_targets index_of (blocks ! a))" if "a < length blocks" for a
    using R(1) [OF that] by (simp add: set_insert_new)
  show "succs_ok (length blocks) succs"
    using n ran_bound [OF r] s by (auto simp: succs_ok_def set_block_targets)
  show "preds_ok (length blocks) pred_rows succs"
    using R(2) s by (auto simp: preds_ok_def set_pred_row)
  show "block_edge (length blocks) succs a b \<longleftrightarrow>
      a < length blocks \<and> (\<exists>l \<in> set (named_labels (blocks ! a)). index_of l = Some b)"
    using s by (auto simp: block_edge_def set_block_targets)
qed

lemma label_map_last:
  "foldl (\<lambda>m (i, b). m(label b \<mapsto> i)) Map.empty (enumerate 0 blocks) l = Some i \<longleftrightarrow>
     i < length blocks \<and> label (blocks ! i) = l \<and> (\<forall>j < length blocks. i < j \<longrightarrow> label (blocks ! j) \<noteq> l)"
proof (induction blocks rule: rev_induct)
  case (snoc b bs)
  then show ?case
    by (cases "label b = l") (auto simp: enumerate_append_eq nth_append less_Suc_eq)
qed simp

lemma build_label_map_Some:
  "build_label_map blocks l = Some i \<longleftrightarrow>
     i < length blocks \<and> label (blocks ! i) = l \<and> (\<forall>j < length blocks. i < j \<longrightarrow> label (blocks ! j) \<noteq> l)"
  unfolding build_label_map_def by (rule label_map_last)

lemma ran_build_label_map: "ran (build_label_map blocks) \<subseteq> {..<length blocks}"
  by (auto simp: ran_def build_label_map_Some)

subsection \<open>The dominator tree\<close>

definition add_child :: "nat \<Rightarrow> nat option list \<Rightarrow> nat \<Rightarrow> nat list list \<Rightarrow> nat list list option" where
  "add_child num_blocks idom b children =
     (case idom ! b of
        None \<Rightarrow> Some children
      | Some d \<Rightarrow>
          if d = b then Some children
          else if d < num_blocks then Some (children[d := children ! d @ [b]])
          else None)"

definition build_dom_tree_children :: "nat \<Rightarrow> nat option list \<Rightarrow> nat list list option" where
  "build_dom_tree_children num_blocks idom =
     fold_option (add_child num_blocks idom) [1..<num_blocks] (replicate num_blocks [])"

lemma fold_option_append:
  "fold_option f (xs @ ys) s = (case fold_option f xs s of None \<Rightarrow> None | Some s' \<Rightarrow> fold_option f ys s')"
proof (induction xs arbitrary: s)
  case (Cons x xs)
  then show ?case
    by (cases "f x s") auto
qed simp

lemma build_dom_tree_children_ok:
  assumes "\<And>b d. b < num \<Longrightarrow> idom ! b = Some d \<Longrightarrow> d < num"
  shows "build_dom_tree_children num idom = Some (map (\<lambda>d. filter (\<lambda>b. idom ! b = Some d \<and> d \<noteq> b) [1..<num]) [0..<num])"
proof -
  have "m \<le> num \<Longrightarrow> fold_option (add_child num idom) [1..<m] (replicate num []) =
      Some (map (\<lambda>d. filter (\<lambda>b. idom ! b = Some d \<and> d \<noteq> b) [1..<m]) [0..<num])" for m
  proof (induction m)
    case 0
    show ?case
      by (simp add: map_replicate_trivial)
  next
    case (Suc m)
    let ?f = "\<lambda>d. filter (\<lambda>b. idom ! b = Some d \<and> d \<noteq> b) [1..<m]"
    let ?g = "\<lambda>d. filter (\<lambda>b. idom ! b = Some d \<and> d \<noteq> b) [1..<Suc m]"
    show ?case
    proof (cases "m = 0")
      case True
      then show ?thesis
        by (simp add: map_replicate_trivial)
    next
      case False
      have "add_child num idom m (map ?f [0..<num]) = Some (map ?g [0..<num])"
      proof (cases "idom ! m")
        case None
        then show ?thesis
          using False by (simp add: add_child_def)
      next
        case (Some d)
        then have "d < num"
          using assms [of m d] Suc.prems by simp
        then show ?thesis
          using Some False by (auto simp: add_child_def intro!: nth_equalityI simp: nth_list_update)
      qed
      then show ?thesis
        using Suc False by (simp add: fold_option_append)
    qed
  qed
  then show ?thesis
    by (simp add: build_dom_tree_children_def)
qed

subsection \<open>The bundle\<close>

record CfgAnalysis =
  cfg_preds :: FlatAdj
  cfg_succs :: FlatAdj
  cfg_idom :: "nat option list"
  dom_children :: "nat list list"
  num_blocks :: nat

definition build_analysis :: "'x BasicBlock list \<Rightarrow> CfgAnalysis option" where
  "build_analysis blocks =
     (let n = length blocks;
          (pred_rows, succs) = build_cfg blocks (build_label_map blocks)
      in do {
        idom \<leftarrow> compute_dominators n pred_rows succs;
        children \<leftarrow> build_dom_tree_children n idom;
        Some \<lparr>cfg_preds = pred_rows, cfg_succs = succs, cfg_idom = idom, dom_children = children, num_blocks = n\<rparr>
      })"

text \<open>An edge of the function: block \<open>a\<close> names the label of block \<open>b\<close>.\<close>

definition function_edge :: "'x BasicBlock list \<Rightarrow> nat \<Rightarrow> nat \<Rightarrow> bool" where
  "function_edge blocks a b \<longleftrightarrow>
     a < length blocks \<and> (\<exists>l \<in> set (named_labels (blocks ! a)). build_label_map blocks l = Some b)"

lemma build_analysis_parts:
  assumes n: "blocks \<noteq> []"
  obtains pred_rows succs idom children where "build_cfg blocks (build_label_map blocks) = (pred_rows, succs)"
    and "build_analysis blocks = Some \<lparr>cfg_preds = pred_rows, cfg_succs = succs, cfg_idom = idom, dom_children = children,
      num_blocks = length blocks\<rparr>"
    and "idom_of (length blocks) succs idom" and "block_edge (length blocks) succs = function_edge blocks"
    and "children = map (\<lambda>d. filter (\<lambda>b. idom ! b = Some d \<and> d \<noteq> b) [1..<length blocks]) [0..<length blocks]"
proof -
  let ?n = "length blocks"
  obtain pred_rows succs where g: "build_cfg blocks (build_label_map blocks) = (pred_rows, succs)"
    by fastforce
  note G = build_cfg_ok [OF ran_build_label_map n g]
  obtain idom where idom: "compute_dominators ?n pred_rows succs = Some idom" "idom_of ?n succs idom"
    using compute_dominators_idom [OF G(1,2)] by blast
  have "d < ?n" if "b < ?n" "idom ! b = Some d" for b d
    using idom(2) that n by (cases "b = 0") (auto simp: idom_of_def)
  note children = build_dom_tree_children_ok [of ?n idom, OF this]
  have "block_edge ?n succs = function_edge blocks"
    using G(3) by (simp add: function_edge_def fun_eq_iff)
  then show thesis
    using that [OF g _ idom(2)] g idom(1) children by (simp add: build_analysis_def Let_def)
qed

text \<open>C3: The analysis of a function with a block returns; the entry is its own immediate dominator, every other block that the
  labels of the blocks lead to from the entry has its immediate dominator, an unreachable block has none, and the children of a
  block in the dominator tree are the blocks that it immediately dominates, in order.\<close>
theorem build_analysis_immediate_dominators:
  assumes "blocks \<noteq> []"
  shows "\<exists>cfg. build_analysis blocks = Some cfg \<and> num_blocks cfg = length blocks \<and> length (cfg_idom cfg) = length blocks \<and>
    cfg_idom cfg ! 0 = Some 0 \<and>
    (\<forall>b < length blocks. 0 < b \<longrightarrow>
      (if reachable (function_edge blocks) 0 b
       then \<exists>d. cfg_idom cfg ! b = Some d \<and> immediate_dominator (function_edge blocks) 0 d b
       else cfg_idom cfg ! b = None)) \<and>
    (\<forall>d < length blocks. dom_children cfg ! d = filter (\<lambda>b. cfg_idom cfg ! b = Some d \<and> d \<noteq> b) [1..<length blocks])"
proof (rule build_analysis_parts [OF assms], goal_cases)
  case (1 pred_rows succs idom children)
  have "if reachable (function_edge blocks) 0 b then \<exists>d. idom ! b = Some d \<and> immediate_dominator (function_edge blocks) 0 d b
      else idom ! b = None" if "b < length blocks" "0 < b" for b
    using 1(3) that unfolding 1(4) [symmetric] idom_of_def by auto
  then show ?case
    using 1(2,3,5) by (auto simp: idom_of_def)
qed

definition diamond :: "unit BasicBlock list" where
  "diamond =
     [\<lparr>label = 10, instructions = [], terminator = CondBranch (Value 1) 11 12\<rparr>,
      \<lparr>label = 11, instructions = [], terminator = Branch 13\<rparr>,
      \<lparr>label = 12, instructions = [], terminator = Branch 13\<rparr>,
      \<lparr>label = 13, instructions = [], terminator = Return None\<rparr>,
      \<lparr>label = 14, instructions = [], terminator = Branch 13\<rparr>]"

lemma build_analysis_diamond:
  "map_option cfg_idom (build_analysis diamond) = Some [Some 0, Some 0, Some 0, Some 0, None]"
  by code_simp

theorem build_analysis_immediate_dominators_witness:
  "diamond \<noteq> [] \<and> (\<exists>cfg. build_analysis diamond = Some cfg \<and> length (cfg_idom cfg) = 5 \<and> dom_children cfg ! 0 = [1, 2, 3])"
proof
  show n: "diamond \<noteq> []"
    by (simp add: diamond_def)
  obtain cfg where cfg: "build_analysis diamond = Some cfg" "length (cfg_idom cfg) = length diamond"
      "\<forall>d < length diamond. dom_children cfg ! d = filter (\<lambda>b. cfg_idom cfg ! b = Some d \<and> d \<noteq> b) [1..<length diamond]"
    using build_analysis_immediate_dominators [OF n] by blast
  moreover have "length diamond = 5"
    by (simp add: diamond_def)
  moreover have "cfg_idom cfg = [Some 0, Some 0, Some 0, Some 0, None]"
    using build_analysis_diamond cfg(1) by simp
  moreover have "[1..<5] = [1, 2, 3, 4 :: nat]"
    by (simp add: upt_rec)
  ultimately show "\<exists>cfg. build_analysis diamond = Some cfg \<and> length (cfg_idom cfg) = 5 \<and> dom_children cfg ! 0 = [1, 2, 3]"
    by simp
qed

end
