(* ===== verification/DomQueries.thy ===== *)
theory DomQueries
  imports CfgBundle
begin

text \<open>
  What the passes ask of the dominator array: \<open>dominates_idom\<close>, which walks the chain of immediate dominators, and
  \<open>compute_dominance_frontiers\<close>. \<^const>\<open>None\<close> is the index \<open>usize::MAX\<close> of an unreachable block.
\<close>

subsection \<open>Walking the chain\<close>

text \<open>The two loops of \<open>dominates_idom\<close>, with the number of rounds left.\<close>

fun entry_walk :: "nat option list \<Rightarrow> nat \<Rightarrow> nat \<Rightarrow> bool" where
  "entry_walk idom 0 cur = False"
| "entry_walk idom (Suc rounds) cur =
     (if cur = 0 then True
      else case idom ! cur of
             None \<Rightarrow> False
           | Some nxt \<Rightarrow> if nxt = cur \<or> length idom \<le> nxt then False else entry_walk idom rounds nxt)"

fun chain_walk :: "nat option list \<Rightarrow> nat \<Rightarrow> nat \<Rightarrow> nat \<Rightarrow> bool" where
  "chain_walk idom a 0 cur = False"
| "chain_walk idom a (Suc rounds) cur =
     (if cur = 0 then False
      else case idom ! cur of
             None \<Rightarrow> False
           | Some nxt \<Rightarrow>
               if nxt = cur \<or> length idom \<le> nxt then False
               else if nxt = a then True else chain_walk idom a rounds nxt)"

definition dominates_idom :: "nat option list \<Rightarrow> nat \<Rightarrow> nat \<Rightarrow> bool" where
  "dominates_idom idom a b =
     (if length idom \<le> a \<or> length idom \<le> b then False
      else if a = b then True
      else if a = 0 then entry_walk idom (length idom + 1) b
      else chain_walk idom a (length idom + 1) b)"

abbreviation dom_blocks :: "nat \<Rightarrow> FlatAdj \<Rightarrow> nat \<Rightarrow> nat \<Rightarrow> bool" where
  "dom_blocks num succs \<equiv> dominates (block_edge num succs) 0"

abbreviation reached :: "nat \<Rightarrow> FlatAdj \<Rightarrow> nat \<Rightarrow> bool" where
  "reached num succs \<equiv> reachable (block_edge num succs) 0"

lemma idom_ofD:
  assumes "idom_of num succs idom"
  shows "length idom = num" and "idom ! 0 = Some 0"
    and "b < num \<Longrightarrow> \<not> reached num succs b \<Longrightarrow> idom ! b = None"
    and "b < num \<Longrightarrow> reached num succs b \<Longrightarrow> 0 < b \<Longrightarrow> \<exists>d. idom ! b = Some d \<and> d < num \<and> reached num succs d \<and>
      immediate_dominator (block_edge num succs) 0 d b"
proof -
  show "length idom = num" "idom ! 0 = Some 0" "b < num \<Longrightarrow> \<not> reached num succs b \<Longrightarrow> idom ! b = None"
    using assms by (auto simp: idom_of_def)
  assume b: "b < num" "reached num succs b" "0 < b"
  then obtain d where d: "idom ! b = Some d"
    using assms by (auto simp: idom_of_def)
  then have i: "d < num" "immediate_dominator (block_edge num succs) 0 d b"
    using assms b by (simp_all add: idom_of_def)
  then show "\<exists>d. idom ! b = Some d \<and> d < num \<and> reached num succs d \<and> immediate_dominator (block_edge num succs) 0 d b"
    using d b(2) dominates_reachable [of "block_edge num succs" 0 d b] by (auto simp: immediate_dominator_def)
qed

text \<open>The number of dominators bounds the rounds.\<close>

definition dom_depth :: "nat \<Rightarrow> FlatAdj \<Rightarrow> nat \<Rightarrow> nat" where
  "dom_depth num succs b = card {a. a < num \<and> dom_blocks num succs a b}"

lemma dom_depth_le: "dom_depth num succs b \<le> num"
proof -
  have "dom_depth num succs b \<le> card {..<num}"
    unfolding dom_depth_def by (rule card_mono) auto
  then show ?thesis
    by simp
qed

lemma dom_depth_idom:
  assumes "immediate_dominator (block_edge num succs) 0 d b" and "reached num succs b" and "b < num"
  shows "dom_depth num succs d < dom_depth num succs b"
  unfolding dom_depth_def
proof (rule psubset_card_mono)
  have "b \<in> {a. a < num \<and> dom_blocks num succs a b}" "b \<notin> {a. a < num \<and> dom_blocks num succs a d}"
    using immediate_dominator_strict(2) [OF assms(1,2)] assms(3) dominates_refl by auto
  moreover have "{a. a < num \<and> dom_blocks num succs a d} \<subseteq> {a. a < num \<and> dom_blocks num succs a b}"
    using immediate_dominator_strict(1) [OF assms(1,2)] by auto
  ultimately show "{a. a < num \<and> dom_blocks num succs a d} \<subset> {a. a < num \<and> dom_blocks num succs a b}"
    by blast
qed simp

lemma entry_walk_reached:
  assumes I: "idom_of num succs idom"
  shows "b < num \<Longrightarrow> dom_depth num succs b < rounds \<Longrightarrow> entry_walk idom rounds b \<longleftrightarrow> reached num succs b"
proof (induction rounds arbitrary: b)
  case (Suc rounds)
  show ?case
  proof (cases "b = 0 \<or> \<not> reached num succs b")
    case True
    then show ?thesis
      using idom_ofD(3) [OF I Suc.prems(1)] by auto
  next
    case False
    then obtain d where d: "idom ! b = Some d" "d < num" "reached num succs d"
        "immediate_dominator (block_edge num succs) 0 d b"
      using idom_ofD(4) [OF I Suc.prems(1)] by auto
    have "dom_depth num succs d < rounds"
      using dom_depth_idom [OF d(4) _ Suc.prems(1)] False Suc.prems(2) by simp
    then show ?thesis
      using Suc.IH [OF d(2)] d False idom_ofD(1) [OF I] by (auto simp: immediate_dominator_def)
  qed
qed simp

lemma chain_walk_dominates:
  assumes I: "idom_of num succs idom" and a: "a \<noteq> 0"
  shows "b < num \<Longrightarrow> dom_depth num succs b < rounds \<Longrightarrow>
    chain_walk idom a rounds b \<longleftrightarrow> a \<noteq> b \<and> reached num succs b \<and> dom_blocks num succs a b"
proof (induction rounds arbitrary: b)
  case (Suc rounds)
  show ?case
  proof (cases "b = 0 \<or> \<not> reached num succs b")
    case True
    then show ?thesis
      using idom_ofD(3) [OF I Suc.prems(1)] dominates_only_entry [of "block_edge num succs" 0 a] a by auto
  next
    case False
    then obtain d where d: "idom ! b = Some d" "d < num" "reached num succs d"
        "immediate_dominator (block_edge num succs) 0 d b"
      using idom_ofD(4) [OF I Suc.prems(1)] by auto
    have "dom_depth num succs d < rounds"
      using dom_depth_idom [OF d(4) _ Suc.prems(1)] False Suc.prems(2) by simp
    note IH = Suc.IH [OF d(2) this]
    have "d \<noteq> b"
      using d(4) by (simp add: immediate_dominator_def)
    then have "chain_walk idom a (Suc rounds) b \<longleftrightarrow> d = a \<or> chain_walk idom a rounds d"
      using False d(1,2) idom_ofD(1) [OF I] by simp
    moreover have "dom_blocks num succs a b \<longleftrightarrow> a = b \<or> dom_blocks num succs a d" "\<not> dom_blocks num succs b d"
      using immediate_dominator_strict [OF d(4)] False by blast+
    ultimately show ?thesis
      using IH d(3) False dominates_refl [of "block_edge num succs" 0 d] by metis
  qed
qed simp

lemma dominates_idom_iff:
  assumes I: "idom_of num succs idom" and a: "a < num" and b: "b < num"
  shows "dominates_idom idom a b \<longleftrightarrow> a = b \<or> reached num succs b \<and> dom_blocks num succs a b"
proof -
  have "dom_depth num succs b < num + 1"
    using dom_depth_le [of num succs b] by simp
  then show ?thesis
    using entry_walk_reached [OF I b, of "num + 1"] chain_walk_dominates [OF I _ b, of a "num + 1"] idom_ofD(1) [OF I] a b
    by (auto simp: dominates_idom_def simp del: entry_walk.simps chain_walk.simps)
qed

subsection \<open>Dominance frontiers\<close>

text \<open>From a predecessor of \<open>b\<close> up to the immediate dominator of \<open>b\<close>.\<close>

partial_function (option) frontier_walk :: "nat option list \<Rightarrow> nat \<Rightarrow> nat \<Rightarrow> nat set list \<Rightarrow> nat set list option" where
  [code]: "frontier_walk idom b runner df =
     (if Some runner = idom ! b then Some df
      else if \<not> runner < length df then None
      else let df = df[runner := insert b (df ! runner)]
           in if idom ! runner = Some runner then Some df
              else case idom ! runner of None \<Rightarrow> Some df | Some r \<Rightarrow> frontier_walk idom b r df)"

definition frontier_block :: "FlatAdj \<Rightarrow> nat option list \<Rightarrow> nat \<Rightarrow> nat set list \<Rightarrow> nat set list option" where
  "frontier_block pred_rows idom b df =
     (if row_len pred_rows b < 2 then Some df
      else fold_option (frontier_walk idom b) (row pred_rows b) df)"

definition compute_dominance_frontiers :: "nat \<Rightarrow> FlatAdj \<Rightarrow> nat option list \<Rightarrow> nat set list option" where
  "compute_dominance_frontiers num pred_rows idom =
     fold_option (frontier_block pred_rows idom) [0..<num] (replicate num {})"

text \<open>\<open>df\<close> has gained \<open>b\<close> in the sets of the blocks of \<open>S\<close>.\<close>

definition gains :: "nat \<Rightarrow> nat \<Rightarrow> nat set \<Rightarrow> nat set list \<Rightarrow> nat set list \<Rightarrow> bool" where
  "gains num b S df df' \<longleftrightarrow>
     length df = num \<and> length df' = num \<and> (\<forall>x < num. df' ! x = (if x \<in> S then insert b (df ! x) else df ! x))"

lemma gains_none: "length df = num \<Longrightarrow> gains num b {} df df"
  by (simp add: gains_def)

lemma gains_insert: "gains num b S (df[r := insert b (df ! r)]) df' \<Longrightarrow> r < num \<Longrightarrow> gains num b (insert r S) df df'"
  by (auto simp: gains_def nth_list_update)

lemma gains_trans: "gains num b S df df' \<Longrightarrow> gains num b T df' df'' \<Longrightarrow> gains num b (S \<union> T) df df''"
  by (auto simp: gains_def)

text \<open>A reached predecessor adds the blocks on its chain, up to the immediate dominator of \<open>b\<close>.\<close>

lemma frontier_walk_ok:
  assumes I: "idom_of num succs idom" and d: "idom ! b = Some d" "reached num succs d"
  shows "r < num \<Longrightarrow> reached num succs r \<Longrightarrow> dom_blocks num succs d r \<Longrightarrow> length df = num \<Longrightarrow>
    \<exists>df'. frontier_walk idom b r df = Some df' \<and> gains num b {x. dom_blocks num succs x r \<and> \<not> dom_blocks num succs x d} df df'"
proof (induction "dom_depth num succs r" arbitrary: r df rule: less_induct)
  case less
  show ?case
  proof (cases "r = d")
    case True
    then show ?thesis
      using d(1) less.prems(4) gains_none by (subst frontier_walk.simps) auto
  next
    case False
    have "r \<noteq> 0"
      using less.prems(3) dominates_only_entry [of "block_edge num succs" 0 d] False by (cases "r = 0") auto
    obtain e where e: "idom ! r = Some e" "e < num" "reached num succs e" "immediate_dominator (block_edge num succs) 0 e r"
      using idom_ofD(4) [OF I less.prems(1,2)] \<open>r \<noteq> 0\<close> by auto
    note S = immediate_dominator_strict [OF e(4) less.prems(2)]
    let ?df = "df[r := insert b (df ! r)]"
    have "dom_blocks num succs d e"
      using S(1) less.prems(3) False by auto
    then obtain df' where df': "frontier_walk idom b e ?df = Some df'"
        "gains num b {x. dom_blocks num succs x e \<and> \<not> dom_blocks num succs x d} ?df df'"
      using less.hyps [OF dom_depth_idom [OF e(4) less.prems(2,1)] e(2,3), of ?df] less.prems(4) by auto
    have "\<not> dom_blocks num succs r d"
      using dominates_antisym [OF less.prems(3)] less.prems(2) False by blast
    then have "{x. dom_blocks num succs x r \<and> \<not> dom_blocks num succs x d} =
        insert r {x. dom_blocks num succs x e \<and> \<not> dom_blocks num succs x d}"
      using S(1) by auto
    moreover have "frontier_walk idom b r df = Some df'"
      using False d(1) less.prems(1,4) e(1) e(4) df'(1)
      by (subst frontier_walk.simps) (simp add: Let_def immediate_dominator_def)
    ultimately show ?thesis
      using gains_insert [OF df'(2) less.prems(1)] by auto
  qed
qed

definition added_by :: "nat \<Rightarrow> FlatAdj \<Rightarrow> nat option list \<Rightarrow> nat \<Rightarrow> nat \<Rightarrow> nat set" where
  "added_by num succs idom b p =
     (if reached num succs p then {x. dom_blocks num succs x p \<and> \<not> dom_blocks num succs x (the (idom ! b))} else {p})"

lemma frontier_pred_ok:
  assumes I: "idom_of num succs idom" and b: "b < num" and e: "block_edge num succs p b" and len: "length df = num"
  shows "\<exists>df'. frontier_walk idom b p df = Some df' \<and> gains num b (added_by num succs idom b p) df df'"
proof (cases "reached num succs p")
  case True
  have p: "p < num"
    using e by (simp add: block_edge_def)
  obtain d where d: "idom ! b = Some d" "reached num succs d" "dom_blocks num succs d p"
  proof (cases "b = 0")
    case True
    then show thesis
      using that [of 0] idom_ofD(2) [OF I] by simp
  next
    case False
    then obtain d where d: "idom ! b = Some d" "reached num succs d" "immediate_dominator (block_edge num succs) 0 d b"
      using idom_ofD(4) [OF I b reachable_step [OF True e]] by auto
    then show thesis
      using that dominates_pred [of "block_edge num succs" 0 d b p] e by (auto simp: immediate_dominator_def)
  qed
  show ?thesis
    using frontier_walk_ok [OF I d(1,2) p True d(3) len] d(1) True by (simp add: added_by_def)
next
  case False
  have p: "p < num"
    using e by (simp add: block_edge_def)
  have "Some p \<noteq> idom ! b"
  proof
    assume s: "Some p = idom ! b"
    then have "b \<noteq> 0"
      using False idom_ofD(2) [OF I] by (metis option.inject reachable_entry)
    moreover have "reached num succs b"
      using s idom_ofD(3) [OF I b] by force
    ultimately show False
      using idom_ofD(4) [OF I b] s False by auto
  qed
  then have "frontier_walk idom b p df = Some (df[p := insert b (df ! p)])"
    using p len idom_ofD(3) [OF I p False] by (subst frontier_walk.simps) simp
  moreover have "gains num b {p} df (df[p := insert b (df ! p)])"
    using len p by (simp add: gains_def nth_list_update)
  ultimately show ?thesis
    using False by (simp add: added_by_def)
qed

lemma frontier_preds_ok:
  assumes I: "idom_of num succs idom" and b: "b < num"
  shows "(\<forall>p \<in> set ps. block_edge num succs p b) \<Longrightarrow> length df = num \<Longrightarrow>
    \<exists>df'. fold_option (frontier_walk idom b) ps df = Some df' \<and> gains num b (\<Union>p \<in> set ps. added_by num succs idom b p) df df'"
proof (induction ps arbitrary: df)
  case Nil
  then show ?case
    by (simp add: gains_none)
next
  case (Cons p ps)
  obtain df1 where df1: "frontier_walk idom b p df = Some df1" "gains num b (added_by num succs idom b p) df df1"
    using frontier_pred_ok [OF I b _ Cons.prems(2)] Cons.prems(1) by auto
  then have "length df1 = num"
    by (simp add: gains_def)
  then obtain df2 where df2: "fold_option (frontier_walk idom b) ps df1 = Some df2"
      "gains num b (\<Union>p \<in> set ps. added_by num succs idom b p) df1 df2"
    using Cons.IH Cons.prems(1) by auto
  then show ?case
    using df1 gains_trans [OF df1(2) df2(2)] by auto
qed

lemma frontiers_ok:
  assumes I: "idom_of num succs idom" and p: "preds_ok num pred_rows succs"
  shows "m \<le> num \<Longrightarrow> \<exists>df. fold_option (frontier_block pred_rows idom) [0..<m] (replicate num {}) = Some df \<and> length df = num \<and>
    (\<forall>x < num. df ! x = {b. b < m \<and> 2 \<le> row_len pred_rows b \<and> (\<exists>p \<in> set (row pred_rows b). x \<in> added_by num succs idom b p)})"
proof (induction m)
  case (Suc m)
  then obtain df where df: "fold_option (frontier_block pred_rows idom) [0..<m] (replicate num {}) = Some df" "length df = num"
      "\<forall>x < num. df ! x = {b. b < m \<and> 2 \<le> row_len pred_rows b \<and> (\<exists>p \<in> set (row pred_rows b). x \<in> added_by num succs idom b p)}"
    by auto
  have m: "m < num"
    using Suc.prems by simp
  have "\<forall>p \<in> set (row pred_rows m). block_edge num succs p m"
    using p m by (simp add: preds_ok_def block_edge_def)
  then obtain df' where df': "fold_option (frontier_walk idom m) (row pred_rows m) df = Some df'"
      "gains num m (\<Union>p \<in> set (row pred_rows m). added_by num succs idom m p) df df'"
    using frontier_preds_ok [OF I m] df(2) by blast
  show ?case
  proof (cases "row_len pred_rows m < 2")
    case True
    have "{b. b < Suc m \<and> Q b} = {b. b < m \<and> Q b}" if "\<not> Q m" for Q
      using that less_Suc_eq by auto
    moreover have "frontier_block pred_rows idom m df = Some df"
      using True by (simp add: frontier_block_def)
    ultimately show ?thesis
      using True df by (simp add: fold_option_append)
  next
    case False
    have "{b. b < Suc m \<and> Q b} = (if Q m then insert m {b. b < m \<and> Q b} else {b. b < m \<and> Q b})" for Q
      by (auto simp: less_Suc_eq)
    moreover have "frontier_block pred_rows idom m df = Some df'"
      using False df'(1) by (simp add: frontier_block_def)
    ultimately show ?thesis
      using False df df'(2) by (simp add: fold_option_append gains_def)
  qed
qed simp

text \<open>A block with one predecessor is in no frontier.\<close>

lemma single_pred_dominators:
  assumes "\<And>q. E q b \<Longrightarrow> q = p" and b: "b \<noteq> entry" "reachable E entry b" and x: "dominates E entry x p"
  shows "x \<noteq> b \<and> dominates E entry x b"
proof
  have via: "reach E P entry p" if r: "reach E P entry b" for P
    using r
  proof (cases rule: rtranclp.cases [of "\<lambda>u v. E u v \<and> P v" entry b, folded reach_def, consumes 1, case_names refl step])
    case (step y)
    then show ?thesis
      using assms(1) by blast
  qed (use b(1) in blast)
  show "dominates E entry x b"
    using via [of "\<lambda>v. v \<noteq> x"] x by (auto simp: dominates_reach)
  show "x \<noteq> b"
  proof
    assume "x = b"
    have r: "reach E (\<lambda>_. True) entry b" and q: "b = b" "entry \<noteq> b"
      using b by (simp_all add: reachable_reach)
    obtain u v where "reach E (\<lambda>v. True \<and> v \<noteq> b) entry u" "E u v" "v = b"
      by (rule reach_first [OF r, of "\<lambda>v. v = b", OF q])
    then show False
      using assms(1) x \<open>x = b\<close> b(1) by (simp add: dominates_reach)
  qed
qed

lemma frontiers_exact:
  assumes I: "idom_of num succs idom" and p: "preds_ok num pred_rows succs"
    and len: "\<And>b. b < num \<Longrightarrow> row_len pred_rows b = length (row pred_rows b)"
  obtains df where "compute_dominance_frontiers num pred_rows idom = Some df" and "length df = num"
    and "\<And>x b. x < num \<Longrightarrow> reached num succs x \<Longrightarrow> 0 < b \<Longrightarrow> b < num \<Longrightarrow>
      b \<in> df ! x \<longleftrightarrow> (\<exists>p. block_edge num succs p b \<and> reached num succs p \<and> dom_blocks num succs x p) \<and>
        \<not> (x \<noteq> b \<and> dom_blocks num succs x b)"
    and "\<And>x. x < num \<Longrightarrow> reached num succs x \<Longrightarrow>
      0 \<in> df ! x \<longleftrightarrow> x \<noteq> 0 \<and> 2 \<le> row_len pred_rows 0 \<and>
        (\<exists>p. block_edge num succs p 0 \<and> reached num succs p \<and> dom_blocks num succs x p)"
    and "\<And>x. x < num \<Longrightarrow> df ! x \<subseteq> {..<num}"
proof -
  obtain df where df: "compute_dominance_frontiers num pred_rows idom = Some df" "length df = num"
      "\<forall>x < num. df ! x = {b. b < num \<and> 2 \<le> row_len pred_rows b \<and> (\<exists>p \<in> set (row pred_rows b). x \<in> added_by num succs idom b p)}"
    using frontiers_ok [OF I p le_refl] by (auto simp: compute_dominance_frontiers_def)
  have edge: "p \<in> set (row pred_rows b) \<longleftrightarrow> block_edge num succs p b" if "b < num" for p b
    using that p by (simp add: preds_ok_def block_edge_def)
  have member: "b \<in> df ! x \<longleftrightarrow> 2 \<le> row_len pred_rows b \<and>
      (\<exists>p. block_edge num succs p b \<and> reached num succs p \<and> dom_blocks num succs x p) \<and> \<not> dom_blocks num succs x (the (idom ! b))"
    if "x < num" "reached num succs x" "b < num" for x b
    using that df(3) edge [OF that(3)] by (auto simp: added_by_def split: if_splits)
  show thesis
  proof (rule that [OF df(1,2)])
    fix x b
    assume x: "x < num" "reached num succs x" and b: "0 < b" "b < num"
    show "b \<in> df ! x \<longleftrightarrow> (\<exists>p. block_edge num succs p b \<and> reached num succs p \<and> dom_blocks num succs x p) \<and>
        \<not> (x \<noteq> b \<and> dom_blocks num succs x b)"
    proof (cases "\<exists>p. block_edge num succs p b \<and> reached num succs p \<and> dom_blocks num succs x p")
      case True
      then obtain p where p: "block_edge num succs p b" "reached num succs p" "dom_blocks num succs x p"
        by blast
      have rb: "reached num succs b"
        by (rule reachable_step [OF p(2,1)])
      obtain d where d: "idom ! b = Some d" "immediate_dominator (block_edge num succs) 0 d b"
        using idom_ofD(4) [OF I b(2) rb b(1)] by auto
      have "dom_blocks num succs x d \<longleftrightarrow> x \<noteq> b \<and> dom_blocks num succs x b"
        using immediate_dominator_strict [OF d(2) rb] by blast
      moreover have "x \<noteq> b \<and> dom_blocks num succs x b" if "\<not> 2 \<le> row_len pred_rows b"
      proof (rule single_pred_dominators [OF _ _ rb p(3)])
        fix q
        assume "block_edge num succs q b"
        then have "q \<in> set (row pred_rows b)" "p \<in> set (row pred_rows b)" "length (row pred_rows b) < 2"
          using p(1) edge b len that by auto
        then show "q = p"
          by (cases "row pred_rows b") auto
      qed (use b in simp)
      ultimately show ?thesis
        using member [OF x b(2)] True d(1) by auto
    qed (use member [OF x b(2)] in blast)
  next
    fix x
    assume x: "x < num" "reached num succs x"
    then have "0 < num"
      by simp
    then show "0 \<in> df ! x \<longleftrightarrow> x \<noteq> 0 \<and> 2 \<le> row_len pred_rows 0 \<and>
        (\<exists>p. block_edge num succs p 0 \<and> reached num succs p \<and> dom_blocks num succs x p)"
      using member [OF x] idom_ofD(2) [OF I] dominates_only_entry [of "block_edge num succs" 0 x] by (cases "x = 0") auto
  qed (use df(3) in auto)
qed

subsection \<open>The queries on the bundle of a function\<close>

text \<open>C22: On the bundle of a function the chain walk answers dominance exactly: a block dominates itself, reachable or not, and a
  block dominates another if that one is reachable and every walk to it from the entry passes through the first.\<close>
theorem dominates_idom_decides_dominance:
  assumes "blocks \<noteq> []"
  shows "\<exists>cfg. build_analysis blocks = Some cfg \<and>
    (\<forall>a < length blocks. \<forall>b < length blocks. dominates_idom (cfg_idom cfg) a b \<longleftrightarrow>
      a = b \<or> reachable (function_edge blocks) 0 b \<and> dominates (function_edge blocks) 0 a b)"
proof (rule build_analysis_parts [OF assms], goal_cases)
  case (1 pred_rows succs idom children)
  then show ?case
    using dominates_idom_iff [OF 1(3)] by simp
qed

theorem dominates_idom_decides_dominance_witness:
  "diamond \<noteq> [] \<and> (\<exists>cfg. build_analysis diamond = Some cfg \<and> dominates_idom (cfg_idom cfg) 4 4 \<and>
     \<not> dominates_idom (cfg_idom cfg) 0 4 \<and> (dominates_idom (cfg_idom cfg) 1 3 \<longleftrightarrow>
        reachable (function_edge diamond) 0 3 \<and> dominates (function_edge diamond) 0 1 3))"
proof
  show n: "diamond \<noteq> []"
    by (simp add: diamond_def)
  obtain cfg where cfg: "build_analysis diamond = Some cfg"
      "\<forall>a < length diamond. \<forall>b < length diamond. dominates_idom (cfg_idom cfg) a b \<longleftrightarrow>
        a = b \<or> reachable (function_edge diamond) 0 b \<and> dominates (function_edge diamond) 0 a b"
    using dominates_idom_decides_dominance [OF n] by blast
  moreover have "length diamond = 5"
    by (simp add: diamond_def)
  moreover have "\<not> dominates_idom (cfg_idom cfg) 0 4"
    using build_analysis_diamond cfg(1) by (simp add: dominates_idom_def)
  ultimately show "\<exists>cfg. build_analysis diamond = Some cfg \<and> dominates_idom (cfg_idom cfg) 4 4 \<and>
      \<not> dominates_idom (cfg_idom cfg) 0 4 \<and> (dominates_idom (cfg_idom cfg) 1 3 \<longleftrightarrow>
        reachable (function_edge diamond) 0 3 \<and> dominates (function_edge diamond) 0 1 3)"
    by simp
qed

text \<open>C12: The frontier of a reachable block has exactly the blocks that it does not strictly dominate but of which it dominates a
  reachable predecessor. The entry is the exception: it is never in its own frontier, and in no other one unless it has two
  incoming edges.\<close>
theorem dominance_frontiers_exact:
  assumes "blocks \<noteq> []"
  shows "\<exists>cfg df. build_analysis blocks = Some cfg \<and>
    compute_dominance_frontiers (num_blocks cfg) (cfg_preds cfg) (cfg_idom cfg) = Some df \<and> length df = length blocks \<and>
    (\<forall>x < length blocks. reachable (function_edge blocks) 0 x \<longrightarrow> df ! x \<subseteq> {..<length blocks} \<and>
      (\<forall>b < length blocks. b \<in> df ! x \<longleftrightarrow>
        (\<exists>p. function_edge blocks p b \<and> reachable (function_edge blocks) 0 p \<and> dominates (function_edge blocks) 0 x p) \<and>
        (if b = 0 then x \<noteq> 0 \<and> 2 \<le> row_len (cfg_preds cfg) 0 else \<not> (x \<noteq> b \<and> dominates (function_edge blocks) 0 x b))))"
proof (rule build_analysis_parts [OF assms], goal_cases)
  case (1 pred_rows succs idom children)
  note R = build_cfg_rows [OF ran_build_label_map _ 1(1)]
  have p: "preds_ok (length blocks) pred_rows succs"
    by (rule build_cfg_ok(2) [OF ran_build_label_map assms 1(1)])
  have len: "row_len pred_rows b = length (row pred_rows b)" if "b < length blocks" for b
    using R(2,3) [OF that] by simp
  obtain df where df: "compute_dominance_frontiers (length blocks) pred_rows idom = Some df" "length df = length blocks"
      "\<And>x b. x < length blocks \<Longrightarrow> reachable (function_edge blocks) 0 x \<Longrightarrow> 0 < b \<Longrightarrow> b < length blocks \<Longrightarrow>
        b \<in> df ! x \<longleftrightarrow> (\<exists>p. function_edge blocks p b \<and> reachable (function_edge blocks) 0 p \<and>
          dominates (function_edge blocks) 0 x p) \<and> \<not> (x \<noteq> b \<and> dominates (function_edge blocks) 0 x b)"
      "\<And>x. x < length blocks \<Longrightarrow> reachable (function_edge blocks) 0 x \<Longrightarrow>
        0 \<in> df ! x \<longleftrightarrow> x \<noteq> 0 \<and> 2 \<le> row_len pred_rows 0 \<and>
          (\<exists>p. function_edge blocks p 0 \<and> reachable (function_edge blocks) 0 p \<and> dominates (function_edge blocks) 0 x p)"
      "\<And>x. x < length blocks \<Longrightarrow> df ! x \<subseteq> {..<length blocks}"
    by (rule frontiers_exact [OF 1(3) p len, unfolded 1(4)], assumption) (rule that; (assumption | blast))
  have "b \<in> df ! x \<longleftrightarrow>
        (\<exists>p. function_edge blocks p b \<and> reachable (function_edge blocks) 0 p \<and> dominates (function_edge blocks) 0 x p) \<and>
        (if b = 0 then x \<noteq> 0 \<and> 2 \<le> row_len pred_rows 0 else \<not> (x \<noteq> b \<and> dominates (function_edge blocks) 0 x b))"
    if "x < length blocks" "reachable (function_edge blocks) 0 x" "b < length blocks" for x b
    using df(3) [OF that(1,2) _ that(3)] df(4) [OF that(1,2)] by (cases "b = 0") auto
  then show ?case
    using 1(2) df(1,2,5) by (intro exI [of _ "\<lparr>cfg_preds = pred_rows, cfg_succs = succs, cfg_idom = idom,
      dom_children = children, num_blocks = length blocks\<rparr>"] exI [of _ df]) auto
qed

lemma frontiers_diamond:
  "(case build_analysis diamond of None \<Rightarrow> None
    | Some cfg \<Rightarrow> compute_dominance_frontiers (num_blocks cfg) (cfg_preds cfg) (cfg_idom cfg)) = Some [{}, {3}, {3}, {}, {3}]"
  by code_simp

theorem dominance_frontiers_exact_witness:
  "diamond \<noteq> [] \<and> (\<exists>cfg df. build_analysis diamond = Some cfg \<and>
     compute_dominance_frontiers (num_blocks cfg) (cfg_preds cfg) (cfg_idom cfg) = Some df \<and> df ! 1 = {3} \<and>
     (reachable (function_edge diamond) 0 1 \<longrightarrow> \<not> dominates (function_edge diamond) 0 1 3))"
proof
  show n: "diamond \<noteq> []"
    by (simp add: diamond_def)
  obtain cfg df where cfg: "build_analysis diamond = Some cfg"
      "compute_dominance_frontiers (num_blocks cfg) (cfg_preds cfg) (cfg_idom cfg) = Some df"
      "\<forall>x < length diamond. reachable (function_edge diamond) 0 x \<longrightarrow> df ! x \<subseteq> {..<length diamond} \<and>
        (\<forall>b < length diamond. b \<in> df ! x \<longleftrightarrow>
          (\<exists>p. function_edge diamond p b \<and> reachable (function_edge diamond) 0 p \<and> dominates (function_edge diamond) 0 x p) \<and>
          (if b = 0 then x \<noteq> 0 \<and> 2 \<le> row_len (cfg_preds cfg) 0 else \<not> (x \<noteq> b \<and> dominates (function_edge diamond) 0 x b)))"
    using dominance_frontiers_exact [OF n] by blast
  have n: "length diamond = 5"
    by (simp add: diamond_def)
  have "df = [{}, {3}, {3}, {}, {3}]"
    using frontiers_diamond cfg(1,2) by simp
  then have d: "df ! 1 = {3}"
    by simp
  have "\<not> dominates (function_edge diamond) 0 1 3" if r: "reachable (function_edge diamond) 0 1"
  proof -
    have n5: "1 < (5 :: nat)" "3 < (5 :: nat)"
      by simp_all
    have "3 \<in> df ! 1 \<longrightarrow> \<not> (1 \<noteq> (3 :: nat) \<and> dominates (function_edge diamond) 0 1 3)"
      using cfg(3) [unfolded n, THEN spec, THEN mp, OF n5(1), THEN mp, OF r, THEN conjunct2, THEN spec, THEN mp, OF n5(2)]
      by simp
    then show ?thesis
      using d by simp
  qed
  then show "\<exists>cfg df. build_analysis diamond = Some cfg \<and>
     compute_dominance_frontiers (num_blocks cfg) (cfg_preds cfg) (cfg_idom cfg) = Some df \<and> df ! 1 = {3} \<and>
     (reachable (function_edge diamond) 0 1 \<longrightarrow> \<not> dominates (function_edge diamond) 0 1 3)"
    using cfg(1,2) d by blast
qed

end
