(* ===== verification/DomIntervals.thy ===== *)
theory DomIntervals
  imports DomQueries
begin

text \<open>
  \<open>DominanceChecker\<close> of \<^verbatim>\<open>src/src/ir/analysis.rs\<close>: discovery and finish times of a walk through the forest of immediate dominators
  answer dominance with two comparisons. The children are laid out by counting and prefix sums.
\<close>

subsection \<open>The children in contiguous storage\<close>

text \<open>The parent of a block in the forest; \<^const>\<open>None\<close> for a root.\<close>

definition forest_parent :: "nat \<Rightarrow> nat option list \<Rightarrow> nat \<Rightarrow> nat option" where
  "forest_parent num idom u =
     (if u < length idom
      then (case idom ! u of None \<Rightarrow> None | Some p \<Rightarrow> if p = u \<or> num \<le> p then None else Some p)
      else None)"

definition count_child :: "nat \<Rightarrow> nat option list \<Rightarrow> nat list \<Rightarrow> nat \<Rightarrow> nat list" where
  "count_child num idom counts u =
     (case forest_parent num idom u of None \<Rightarrow> counts | Some p \<Rightarrow> counts[p := counts ! p + 1])"

definition count_children :: "nat \<Rightarrow> nat option list \<Rightarrow> nat list" where
  "count_children num idom = foldl (count_child num idom) (replicate num 0) [0..<num]"

definition prefix_sums :: "nat \<Rightarrow> nat list \<Rightarrow> nat list" where
  "prefix_sums num counts =
     foldl (\<lambda>offs i. offs[i + 1 := offs ! i + counts ! i]) (replicate (num + 1) 0) [0..<num]"

definition store_child :: "nat \<Rightarrow> nat option list \<Rightarrow> nat list \<times> nat list \<Rightarrow> nat \<Rightarrow> nat list \<times> nat list" where
  "store_child num idom st u =
     (case forest_parent num idom u of
        None \<Rightarrow> st
      | Some p \<Rightarrow> (let (storage, current) = st in (storage[current ! p := u], current[p := current ! p + 1])))"

definition child_rows :: "nat \<Rightarrow> nat option list \<Rightarrow> nat list \<times> nat list" where
  "child_rows num idom =
     (let offs = prefix_sums num (count_children num idom);
          (storage, current) = foldl (store_child num idom) (replicate (offs ! num) 0, offs) [0..<num]
      in (offs, storage))"

subsection \<open>Time stamps\<close>

record stamps =
  tin :: "nat list"
  tout :: "nat list"
  timer :: nat
  stamp_stack :: "(nat \<times> nat \<times> nat) list"

definition discover :: "nat list \<Rightarrow> nat \<Rightarrow> stamps \<Rightarrow> stamps" where
  "discover offs u st =
     st\<lparr>timer := timer st + 1, tin := (tin st)[u := timer st + 1],
       stamp_stack := (u, offs ! u, offs ! (u + 1)) # stamp_stack st\<rparr>"

definition finish :: "nat \<Rightarrow> stamps \<Rightarrow> stamps" where
  "finish u st = st\<lparr>timer := timer st + 1, tout := (tout st)[u := timer st + 1], stamp_stack := tl (stamp_stack st)\<rparr>"

lemma count_zero_update:
  "c < length xs \<Longrightarrow> xs ! c = 0 \<Longrightarrow> length (filter (\<lambda>x. x = 0) (xs[c := Suc t])) < length (filter (\<lambda>x. x = (0::nat)) xs)"
proof (induction xs arbitrary: c)
  case (Cons x xs)
  then show ?case
    by (cases c) auto
qed simp

function stamp_loop :: "nat list \<Rightarrow> nat list \<Rightarrow> stamps \<Rightarrow> stamps option" where
  "stamp_loop offs storage st =
     (case stamp_stack st of
        [] \<Rightarrow> Some st
      | (u, idx, end_idx) # stack \<Rightarrow>
          if idx < end_idx
          then let child = storage ! idx; st = st\<lparr>stamp_stack := (u, idx + 1, end_idx) # stack\<rparr>
               in if \<not> child < length (tin st) then None
                  else if tin st ! child = 0 then stamp_loop offs storage (discover offs child st)
                  else stamp_loop offs storage st
          else stamp_loop offs storage (finish u st))"
  by pat_completeness auto

termination
  by (relation "(\<lambda>(offs, storage, st). length (filter (\<lambda>x. x = 0) (tin st))) <*mlex*>
      measure (\<lambda>(offs, storage, st). sum_list (map (\<lambda>(u, idx, end_idx). Suc (end_idx - idx)) (stamp_stack st)))")
    (auto simp: wf_mlex mlex_iff discover_def finish_def count_zero_update)

declare stamp_loop.simps [simp del]

definition stamp_root :: "nat \<Rightarrow> nat option list \<Rightarrow> nat list \<Rightarrow> nat list \<Rightarrow> nat \<Rightarrow> stamps \<Rightarrow> stamps option" where
  "stamp_root num idom offs storage r st =
     (if forest_parent num idom r = None \<and> tin st ! r = 0
      then stamp_loop offs storage (discover offs r st)
      else Some st)"

record DominanceChecker =
  checker_tin :: "nat list"
  checker_tout :: "nat list"

definition new_checker :: "nat \<Rightarrow> nat option list \<Rightarrow> DominanceChecker option" where
  "new_checker num idom =
     (if num = 0 then Some \<lparr>checker_tin = [], checker_tout = []\<rparr>
      else let (offs, storage) = child_rows num idom
           in do {
             st \<leftarrow> fold_option (stamp_root num idom offs storage) [0..<num]
                    \<lparr>tin = replicate num 0, tout = replicate num 0, timer = 0, stamp_stack = []\<rparr>;
             Some \<lparr>checker_tin = tin st, checker_tout = tout st\<rparr>
           })"

definition checker_dominates :: "DominanceChecker \<Rightarrow> nat \<Rightarrow> nat \<Rightarrow> bool" where
  "checker_dominates checker a b \<longleftrightarrow>
     a < length (checker_tin checker) \<and> b < length (checker_tin checker) \<and>
     checker_tin checker ! a \<le> checker_tin checker ! b \<and> checker_tout checker ! b \<le> checker_tout checker ! a"

definition strictly_dominates :: "DominanceChecker \<Rightarrow> nat \<Rightarrow> nat \<Rightarrow> bool" where
  "strictly_dominates checker a b \<longleftrightarrow> a \<noteq> b \<and> checker_dominates checker a b"

subsection \<open>Counting sort of the children\<close>

definition children_of :: "nat \<Rightarrow> nat option list \<Rightarrow> nat \<Rightarrow> nat \<Rightarrow> nat list" where
  "children_of num idom m p = filter (\<lambda>u. forest_parent num idom u = Some p) [0..<m]"

lemma forest_parent_bound: "forest_parent num idom u = Some p \<Longrightarrow> p < num \<and> p \<noteq> u"
  by (auto simp: forest_parent_def split: if_splits option.splits)

lemma children_of_Suc:
  "children_of num idom (Suc m) p = children_of num idom m p @ (if forest_parent num idom m = Some p then [m] else [])"
  by (simp add: children_of_def)

lemma count_children_nth: "p < num \<Longrightarrow> count_children num idom ! p = length (children_of num idom num p)"
proof -
  have "\<exists>counts. foldl (count_child num idom) (replicate num 0) [0..<m] = counts \<and> length counts = num \<and>
      (\<forall>p < num. counts ! p = length (children_of num idom m p))" for m
  proof (induction m)
    case (Suc m)
    then show ?case
      by (cases "forest_parent num idom m")
        (auto simp: count_child_def children_of_Suc nth_list_update dest: forest_parent_bound)
  qed (simp add: children_of_def)
  then show "p < num \<Longrightarrow> count_children num idom ! p = length (children_of num idom num p)"
    by (auto simp: count_children_def)
qed

lemma prefix_sums_nth:
  "i \<le> num \<Longrightarrow> prefix_sums num counts ! i = (\<Sum>j < i. counts ! j)" "length (prefix_sums num counts) = num + 1"
proof -
  have "m \<le> num \<Longrightarrow> length (foldl (\<lambda>offs i. offs[i + 1 := offs ! i + counts ! i]) (replicate (num + 1) 0) [0..<m]) = num + 1 \<and>
      (\<forall>i \<le> m. foldl (\<lambda>offs i. offs[i + 1 := offs ! i + counts ! i]) (replicate (num + 1) 0) [0..<m] ! i = (\<Sum>j < i. counts ! j))"
    for m
  proof (induction m)
    case (Suc m)
    then show ?case
      by (auto simp: nth_list_update le_Suc_eq)
  qed simp
  from this [OF le_refl] show "i \<le> num \<Longrightarrow> prefix_sums num counts ! i = (\<Sum>j < i. counts ! j)"
    "length (prefix_sums num counts) = num + 1"
    by (simp_all add: prefix_sums_def)
qed

lemma length_children_mono: "m \<le> k \<Longrightarrow> length (children_of num idom m p) \<le> length (children_of num idom k p)"
  by (induction k rule: dec_induct) (auto simp: children_of_Suc)

lemma store_children:
  assumes offs: "\<And>p. p < num \<Longrightarrow> offs ! (p + 1) = offs ! p + length (children_of num idom num p)"
    and len: "length offs = num + 1"
  shows "m \<le> num \<Longrightarrow> \<exists>storage current.
    foldl (store_child num idom) (replicate (offs ! num) 0, offs) [0..<m] = (storage, current) \<and>
    length storage = offs ! num \<and> length current = num + 1 \<and>
    (\<forall>p < num. current ! p = offs ! p + length (children_of num idom m p)) \<and>
    (\<forall>p < num. \<forall>i < length (children_of num idom m p). storage ! (offs ! p + i) = children_of num idom m p ! i)"
proof (induction m)
  case 0
  then show ?case
    using len by (simp add: children_of_def)
next
  case (Suc m)
  let ?c = "children_of num idom"
  obtain storage current where st: "foldl (store_child num idom) (replicate (offs ! num) 0, offs) [0..<m] = (storage, current)"
      "length storage = offs ! num" "length current = num + 1"
      "\<forall>p < num. current ! p = offs ! p + length (?c m p)"
      "\<forall>p < num. \<forall>i < length (?c m p). storage ! (offs ! p + i) = ?c m p ! i"
    using Suc by auto
  show ?case
  proof (cases "forest_parent num idom m")
    case None
    then have "store_child num idom (storage, current) m = (storage, current)"
      by (simp add: store_child_def)
    then show ?thesis
      using st None by (simp add: children_of_Suc)
  next
    case (Some p)
    then have p: "p < num"
      using forest_parent_bound by blast
    have mono: "offs ! q \<le> offs ! q'" if "q \<le> q'" "q' \<le> num" for q q'
      using that by (induction q' rule: dec_induct) (auto simp: offs [simplified])
    have "length (?c (Suc m) p) \<le> length (?c num p)"
      using length_children_mono Suc.prems by blast
    then have room: "length (?c m p) < length (?c num p)"
      using Some by (simp add: children_of_Suc)
    have below: "offs ! p + length (?c m p) < offs ! (p + 1)"
      using room offs [OF p] by simp
    then have pos: "offs ! p + length (?c m p) < offs ! num"
      using mono [of "p + 1" num] p by simp
    have apart: "offs ! q + i \<noteq> offs ! p + length (?c m p)" if q: "q < num" "i < length (?c m q)" "q \<noteq> p" for q i
    proof -
      have "i < length (?c num q)"
        using q(2) length_children_mono [of m num num idom q] Suc.prems by simp
      then have "offs ! q + i < offs ! (q + 1)"
        using offs [OF q(1)] by simp
      then show ?thesis
        using q p below mono [of "q + 1" p] mono [of "p + 1" q] by (cases "q < p") auto
    qed
    have step: "store_child num idom (storage, current) m =
        (storage[offs ! p + length (?c m p) := m], current[p := offs ! p + length (?c m p) + 1])"
      using Some st(4) p by (simp add: store_child_def)
    have "storage[offs ! p + length (?c m p) := m] ! (offs ! q + i) = ?c (Suc m) q ! i"
      if q: "q < num" "i < length (?c (Suc m) q)" for q i
    proof (cases "q = p \<and> i = length (?c m p)")
      case True
      then show ?thesis
        using Some st(2) pos by (simp add: children_of_Suc)
    next
      case False
      then have i: "i < length (?c m q)"
        using q Some by (auto simp: children_of_Suc split: if_splits)
      then have "offs ! q + i \<noteq> offs ! p + length (?c m p)"
        using apart [OF q(1) i] False by (cases "q = p") auto
      then show ?thesis
        using st(5) q(1) i by (simp add: children_of_Suc nth_append)
    qed
    then show ?thesis
      using st step Some p by (auto simp: children_of_Suc nth_list_update)
  qed
qed

text \<open>The rows of the storage are the children, in order.\<close>

definition rows_of :: "nat \<Rightarrow> nat option list \<Rightarrow> nat list \<Rightarrow> nat list \<Rightarrow> bool" where
  "rows_of num idom offs storage \<longleftrightarrow>
     (\<forall>p < num. map ((!) storage) [offs ! p..<offs ! (p + 1)] = children_of num idom num p)"

lemma child_rows_ok:
  assumes "child_rows num idom = (offs, storage)"
  shows "rows_of num idom offs storage"
proof -
  have offs: "offs = prefix_sums num (count_children num idom)"
    using assms by (auto simp: child_rows_def Let_def split: prod.splits)
  have next_row: "offs ! (p + 1) = offs ! p + length (children_of num idom num p)" if "p < num" for p
    using that by (simp add: offs prefix_sums_nth count_children_nth)
  obtain current where st: "\<forall>p < num. \<forall>i < length (children_of num idom num p). storage ! (offs ! p + i) = children_of num idom num p ! i"
    using store_children [of num offs idom, OF next_row _ le_refl] assms
    by (auto simp: offs prefix_sums_nth child_rows_def Let_def)
  show ?thesis
    unfolding rows_of_def by (intro allI impI nth_equalityI) (simp_all add: next_row [simplified] st)
qed

subsection \<open>The forest and its stamps\<close>

definition forest_anc :: "(nat \<Rightarrow> nat option) \<Rightarrow> nat \<Rightarrow> nat \<Rightarrow> bool" where
  "forest_anc par = (\<lambda>x y. par y = Some x)\<^sup>*\<^sup>*"

lemma forest_anc_refl [simp]: "forest_anc par a a"
  by (simp add: forest_anc_def)

lemma forest_anc_iff: "forest_anc par a b \<longleftrightarrow> a = b \<or> (\<exists>p. par b = Some p \<and> forest_anc par a p)"
  unfolding forest_anc_def by (auto elim: rtranclp.cases intro: rtranclp.rtrancl_into_rtrancl)

lemma forest_anc_trans: "forest_anc par a b \<Longrightarrow> forest_anc par b c \<Longrightarrow> forest_anc par a c"
  unfolding forest_anc_def by (rule rtranclp_trans)

fun forest_chain :: "(nat \<Rightarrow> nat option) \<Rightarrow> nat list \<Rightarrow> bool" where
  "forest_chain par [] = True"
| "forest_chain par [r] = (par r = None)"
| "forest_chain par (x # y # zs) = (par x = Some y \<and> forest_chain par (y # zs))"

lemma forest_chain_tl: "forest_chain par (x # xs) \<Longrightarrow> forest_chain par xs"
  by (cases xs) auto

lemma forest_chain_anc: "forest_chain par (x # xs) \<Longrightarrow> a \<in> set (x # xs) \<Longrightarrow> forest_anc par a x"
proof (induction par "x # xs" arbitrary: x xs rule: forest_chain.induct)
  case (3 par x y zs)
  then show ?case
    using forest_anc_iff [of par a x] by auto
qed auto

abbreviation stamped :: "stamps \<Rightarrow> nat \<Rightarrow> bool" where
  "stamped st x \<equiv> x < length (tin st) \<and> tin st ! x \<noteq> 0"

abbreviation open_blocks :: "stamps \<Rightarrow> nat set" where
  "open_blocks st \<equiv> fst ` set (stamp_stack st)"

abbreviation finished :: "stamps \<Rightarrow> nat \<Rightarrow> bool" where
  "finished st x \<equiv> stamped st x \<and> x \<notin> open_blocks st"

text \<open>An open block has all later ones below it; a finished one has exactly those of its interval below it.\<close>

definition stamps_ok :: "nat \<Rightarrow> (nat \<Rightarrow> nat option) \<Rightarrow> stamps \<Rightarrow> bool" where
  "stamps_ok num par st \<longleftrightarrow>
     length (tin st) = num \<and> length (tout st) = num \<and>
     (\<forall>x < num. tin st ! x \<le> timer st) \<and>
     (\<forall>x < num. \<forall>y < num. tin st ! x = tin st ! y \<longrightarrow> tin st ! x \<noteq> 0 \<longrightarrow> x = y) \<and>
     (\<forall>x \<in> open_blocks st. stamped st x) \<and> forest_chain par (map fst (stamp_stack st)) \<and>
     (\<forall>x p. stamped st x \<longrightarrow> par x = Some p \<longrightarrow> stamped st p) \<and>
     (\<forall>x. finished st x \<longrightarrow> tin st ! x < tout st ! x \<and> tout st ! x \<le> timer st) \<and>
     (\<forall>a \<in> open_blocks st. \<forall>b. stamped st b \<longrightarrow> (tin st ! a \<le> tin st ! b \<longleftrightarrow> forest_anc par a b)) \<and>
     (\<forall>a b. finished st a \<longrightarrow> stamped st b \<longrightarrow>
        (tin st ! a \<le> tin st ! b \<and> tin st ! b \<le> tout st ! a \<longleftrightarrow> forest_anc par a b)) \<and>
     (\<forall>a b. finished st a \<longrightarrow> stamped st b \<longrightarrow> forest_anc par a b \<longrightarrow> finished st b \<and> tout st ! b \<le> tout st ! a) \<and>
     (\<forall>x c. finished st x \<longrightarrow> par c = Some x \<longrightarrow> stamped st c) \<and>
     sorted_wrt (\<lambda>x y. tin st ! y < tin st ! x) (map fst (stamp_stack st))"

lemma stamps_okD:
  assumes "stamps_ok num par st"
  shows "length (tin st) = num" "length (tout st) = num"
    and "x < num \<Longrightarrow> tin st ! x \<le> timer st"
    and "x < num \<Longrightarrow> y < num \<Longrightarrow> tin st ! x = tin st ! y \<Longrightarrow> tin st ! x \<noteq> 0 \<Longrightarrow> x = y"
    and "x \<in> open_blocks st \<Longrightarrow> stamped st x" and "forest_chain par (map fst (stamp_stack st))"
    and "stamped st x \<Longrightarrow> par x = Some p \<Longrightarrow> stamped st p"
    and "finished st x \<Longrightarrow> tin st ! x < tout st ! x \<and> tout st ! x \<le> timer st"
    and "a \<in> open_blocks st \<Longrightarrow> stamped st b \<Longrightarrow> tin st ! a \<le> tin st ! b \<longleftrightarrow> forest_anc par a b"
    and "finished st a \<Longrightarrow> stamped st b \<Longrightarrow>
      tin st ! a \<le> tin st ! b \<and> tin st ! b \<le> tout st ! a \<longleftrightarrow> forest_anc par a b"
    and "finished st a \<Longrightarrow> stamped st b \<Longrightarrow> forest_anc par a b \<Longrightarrow> finished st b \<and> tout st ! b \<le> tout st ! a"
    and "finished st x \<Longrightarrow> par c = Some x \<Longrightarrow> stamped st c"
    and "sorted_wrt (\<lambda>x y. tin st ! y < tin st ! x) (map fst (stamp_stack st))"
  using assms unfolding stamps_ok_def by meson+

lemma stamps_ok_stack:
  assumes "stamps_ok num par st" and "map fst stack = map fst (stamp_stack st)"
  shows "stamps_ok num par (st\<lparr>stamp_stack := stack\<rparr>)"
proof -
  let ?st = "st\<lparr>stamp_stack := stack\<rparr>"
  have same: "tin ?st = tin st" "tout ?st = tout st" "timer ?st = timer st"
    "map fst (stamp_stack ?st) = map fst (stamp_stack st)" "open_blocks ?st = open_blocks st"
    using assms(2) by (simp_all flip: set_map)
  show ?thesis
    using assms(1) unfolding stamps_ok_def same .
qed

lemma discover_ok:
  assumes ok: "stamps_ok num par st" and c: "c < num" "tin st ! c = 0"
    and p: "par c = (case stamp_stack st of [] \<Rightarrow> None | f # fs \<Rightarrow> Some (fst f))"
  shows "stamps_ok num par (discover offs c st)"
proof -
  note I = stamps_okD [OF ok]
  let ?st = "discover offs c st" and ?t = "timer st + 1"
  have new: "tin ?st = (tin st)[c := ?t]" "tout ?st = tout st" "timer ?st = ?t"
    "map fst (stamp_stack ?st) = c # map fst (stamp_stack st)" "open_blocks ?st = insert c (open_blocks st)"
    by (simp_all add: discover_def)
  have tin: "tin ?st ! x = (if x = c then ?t else tin st ! x)" if "x < num" for x
    using that I(1) by (simp add: new nth_list_update)
  have stamped: "stamped ?st x \<longleftrightarrow> x = c \<or> stamped st x" for x
    using c(1) I(1) tin [of x] by (auto simp: new)
  have closed: "finished ?st x \<longleftrightarrow> finished st x" for x
    using stamped [of x] new(5) c(2) by auto
  have old: "tin ?st ! x = tin st ! x" "x \<noteq> c" if "stamped st x" for x
    using tin [of x] that c(2) I(1) by auto
  have open_c: "c \<notin> open_blocks st"
    using I(5) c(2) by blast
  have above: "forest_anc par a c" if "a \<in> open_blocks st" for a
  proof (cases "stamp_stack st")
    case (Cons f fs)
    then have "forest_anc par a (fst f)"
      using forest_chain_anc [of par "fst f" "map fst fs" a] I(6) that by auto
    then show ?thesis
      using p Cons forest_anc_iff [of par a c] by auto
  qed (use that in simp)
  have not_above: "\<not> forest_anc par a c" if a: "finished st a" for a
  proof
    assume "forest_anc par a c"
    moreover have "a \<noteq> c"
      using a c(2) by auto
    ultimately obtain u where u: "par c = Some u" "forest_anc par a u"
      using forest_anc_iff [of par a c] by auto
    then obtain f fs where "stamp_stack st = f # fs" "u = fst f"
      using p by (cases "stamp_stack st") auto
    then have "u \<in> open_blocks st" "stamped st u"
      using I(5) by auto
    then show False
      using I(11) [OF a _ u(2)] by blast
  qed
  have not_below: "\<not> forest_anc par c b" if "stamped st b" for b
  proof
    assume "forest_anc par c b"
    then have "stamped st b \<longrightarrow> stamped st c"
      unfolding forest_anc_def by (induction rule: converse_rtranclp_induct) (use I(7) in blast)+
    then show False
      using that c(2) by blast
  qed
  show ?thesis
    unfolding stamps_ok_def
  proof (intro conjI allI impI ballI)
    show "length (tin ?st) = num" "length (tout ?st) = num"
      using I(1,2) by (simp_all add: new)
    show "tin ?st ! x \<le> timer ?st" if "x < num" for x
      using tin [OF that] I(3) [OF that] new(3) by auto
    show "x = y" if "x < num" "y < num" "tin ?st ! x = tin ?st ! y" "tin ?st ! x \<noteq> 0" for x y
      using tin [OF that(1)] tin [OF that(2)] that I(3) [OF that(1)] I(3) [OF that(2)] I(4) [OF that(1,2)]
      by (auto split: if_splits)
    show "x < length (tin ?st)" "tin ?st ! x \<noteq> 0" if "x \<in> open_blocks ?st" for x
      using that stamped [of x] I(5) [of x] new(5) by auto
    show "forest_chain par (map fst (stamp_stack ?st))"
      using p I(6) new(4) by (cases "stamp_stack st") auto
    show "q < length (tin ?st)" "tin ?st ! q \<noteq> 0" if q: "stamped ?st x" "par x = Some q" for x q
    proof -
      have "stamped st q"
      proof (cases "x = c")
        case True
        then have "q \<in> open_blocks st"
          using q(2) p by (cases "stamp_stack st") auto
        then show ?thesis
          using I(5) by blast
      next
        case False
        then show ?thesis
          using q stamped [of x] I(7) by blast
      qed
      then show "q < length (tin ?st)" "tin ?st ! q \<noteq> 0"
        using stamped [of q] by blast+
    qed
    show "tin ?st ! x < tout ?st ! x" "tout ?st ! x \<le> timer ?st" if "finished ?st x" for x
      using that closed [of x] I(8) [of x] old(1) [of x] new(2,3) by auto
    show "tin ?st ! a \<le> tin ?st ! b \<longleftrightarrow> forest_anc par a b" if a: "a \<in> open_blocks ?st" and b: "stamped ?st b" for a b
    proof (cases "a = c")
      case True
      then show ?thesis
        using b stamped [of b] tin [OF c(1)] old(1) [of b] I(3) [of b] I(1) not_below [of b] by (cases "b = c") auto
    next
      case False
      then have a': "a \<in> open_blocks st" "stamped st a"
        using a new(5) I(5) by auto
      show ?thesis
      proof (cases "b = c")
        case True
        then show ?thesis
          using above [OF a'(1)] tin [OF c(1)] old(1) [OF a'(2)] I(3) [of a] I(1) a'(2) by auto
      next
        case False
        then have "stamped st b"
          using b stamped [of b] by blast
        then show ?thesis
          using I(9) [OF a'(1)] old(1) a'(2) by simp
      qed
    qed
    show "tin ?st ! a \<le> tin ?st ! b \<and> tin ?st ! b \<le> tout ?st ! a \<longleftrightarrow> forest_anc par a b"
      if a: "finished ?st a" and b: "stamped ?st b" for a b
    proof (cases "b = c")
      case True
      have "finished st a"
        using a closed by blast
      then show ?thesis
        using not_above [of a] I(8) [of a] True tin [OF c(1)] new(2) by auto
    next
      case False
      then have "stamped st b" "finished st a"
        using a b stamped [of b] closed [of a] by blast+
      then show ?thesis
        using I(10) [of a b] old(1) [of a] old(1) [of b] new(2) by simp
    qed
    fix a b
    assume a: "finished ?st a" and b: "stamped ?st b" "forest_anc par a b"
    have a': "finished st a"
      using a closed by blast
    then have "b \<noteq> c"
      using not_above b(2) by blast
    then have "stamped st b"
      using b(1) stamped [of b] by blast
    from I(11) [OF a' this b(2)] show "b < length (tin ?st)" "tin ?st ! b \<noteq> 0" "b \<notin> open_blocks ?st" "tout ?st ! b \<le> tout ?st ! a"
      using closed [of b] new(2) by simp_all
  next
    fix x d
    assume "finished ?st x" "par d = Some x"
    then have "stamped st d"
      using closed [of x] I(12) by blast
    then show "d < length (tin ?st)" "tin ?st ! d \<noteq> 0"
      using stamped [of d] by blast+
  next
    have "tin ?st ! x < tin ?st ! c" if "x \<in> open_blocks st" for x
      using tin [OF c(1)] old(1) [of x] I(1,3) I(5) [OF that] by fastforce
    moreover have "sorted_wrt (\<lambda>x y. tin ?st ! y < tin ?st ! x) (map fst (stamp_stack st))"
      by (rule sorted_wrt_mono_rel [OF _ I(13)]) (use old(1) I(5) in auto)
    ultimately show "sorted_wrt (\<lambda>x y. tin ?st ! y < tin ?st ! x) (map fst (stamp_stack ?st))"
      by (auto simp: new(4))
  qed
qed

lemma finish_ok:
  assumes ok: "stamps_ok num par st" and stk: "stamp_stack st = (u, i, e) # stack"
    and children: "\<And>c. par c = Some u \<Longrightarrow> stamped st c"
  shows "stamps_ok num par (finish u st)"
proof -
  note I = stamps_okD [OF ok]
  let ?st = "finish u st" and ?t = "timer st + 1"
  have u: "u \<in> open_blocks st" "stamped st u" "u < num"
    using I(5) [of u] I(1) stk by auto
  have new: "tin ?st = tin st" "timer ?st = ?t" "stamp_stack ?st = stack"
    using stk by (simp_all add: finish_def)
  have tout: "tout ?st ! x = (if x = u then ?t else tout st ! x)" if "x < num" for x
    using that I(2) by (simp add: finish_def nth_list_update)
  have below: "tin st ! x < tin st ! u" if "x \<in> fst ` set stack" for x
    using I(13) stk that by auto
  then have still: "x \<in> open_blocks st" "x \<noteq> u" if "x \<in> fst ` set stack" for x
    using that stk by auto
  let ?closed = "\<lambda>x. stamped st x \<and> x \<notin> fst ` set stack"
  have closed: "?closed x \<longleftrightarrow> finished st x \<or> x = u" for x
    using stk u(2) below by auto
  have old: "x < num" "x \<noteq> u" "tout ?st ! x = tout st ! x" if "finished st x" for x
    using that u(1) tout [of x] I(1) by auto
  have u_tout: "tout ?st ! u = ?t"
    using tout [OF u(3)] by simp
  have u_anc: "tin st ! u \<le> tin st ! b \<longleftrightarrow> forest_anc par u b" if "stamped st b" for b
    by (rule I(9) [OF u(1) that])
  have nested: "?closed b \<and> tout ?st ! b \<le> tout ?st ! a" if a: "?closed a" and b: "stamped st b" "forest_anc par a b" for a b
  proof (cases "a = u")
    case True
    have "b \<notin> fst ` set stack"
      using below [of b] u_anc [OF b(1)] b(2) True by auto
    moreover have "tout ?st ! b \<le> ?t"
      using calculation b(1) closed [of b] I(8) [of b] old(3) [of b] u_tout by fastforce
    ultimately show ?thesis
      using b(1) True u_tout by simp
  next
    case False
    then have fa: "finished st a"
      using a closed [of a] by blast
    from I(11) [OF this b] show ?thesis
      using old(3) [OF fa] old(3) [of b] closed [of b] by simp
  qed
  show ?thesis
    unfolding stamps_ok_def new(1,2,3)
  proof (intro conjI allI impI ballI)
    show "length (tin st) = num" "length (tout ?st) = num"
      using I(1,2) by (simp_all add: finish_def)
    show "tin st ! x \<le> ?t" if "x < num" for x
      using I(3) [OF that] by simp
    show "x = y" if "x < num" "y < num" "tin st ! x = tin st ! y" "tin st ! x \<noteq> 0" for x y
      using I(4) [OF that] .
    show "x < length (tin st)" "tin st ! x \<noteq> 0" if "x \<in> fst ` set stack" for x
      using I(5) [OF still(1) [OF that]] by blast+
    show "forest_chain par (map fst stack)"
      using I(6) stk forest_chain_tl [of par u "map fst stack"] by simp
    show "p < length (tin st)" "tin st ! p \<noteq> 0" if "stamped st x" "par x = Some p" for x p
      using I(7) [OF that] by blast+
    show "tin st ! x < tout ?st ! x" "tout ?st ! x \<le> ?t" if x: "?closed x" for x
    proof -
      have "finished st x \<or> x = u"
        using x closed [of x] by blast
      then show "tin st ! x < tout ?st ! x" "tout ?st ! x \<le> ?t"
        using I(8) [of x] old(3) [of x] u_tout I(3) [OF u(3)] by auto
    qed
    show "tin st ! a \<le> tin st ! b \<longleftrightarrow> forest_anc par a b" if "a \<in> fst ` set stack" "stamped st b" for a b
      using I(9) [OF still(1) [OF that(1)] that(2)] .
    show "tin st ! a \<le> tin st ! b \<and> tin st ! b \<le> tout ?st ! a \<longleftrightarrow> forest_anc par a b"
      if a: "?closed a" and b: "stamped st b" for a b
    proof (cases "a = u")
      case True
      then show ?thesis
        using u_anc [OF b] u_tout I(3) [of b] b I(1) by auto
    next
      case False
      then have "finished st a"
        using a closed [of a] by blast
      then show ?thesis
        using I(10) [OF _ b] old(3) by simp
    qed
    show "b < length (tin st)" "tin st ! b \<noteq> 0" "b \<notin> fst ` set stack" "tout ?st ! b \<le> tout ?st ! a"
      if "?closed a" "stamped st b" "forest_anc par a b" for a b
      using nested [OF that] by blast+
    show "c < length (tin st)" "tin st ! c \<noteq> 0" if x: "?closed x" "par c = Some x" for x c
    proof -
      have "finished st x \<or> x = u"
        using x closed [of x] by blast
      then have "stamped st c"
        using I(12) [of x c] children [of c] x(2) by blast
      then show "c < length (tin st)" "tin st ! c \<noteq> 0"
        by blast+
    qed
    show "sorted_wrt (\<lambda>x y. tin st ! y < tin st ! x) (map fst stack)"
      using I(13) stk by simp
  qed
qed

subsection \<open>The walk\<close>

definition layout_ok :: "nat \<Rightarrow> (nat \<Rightarrow> nat option) \<Rightarrow> nat list \<Rightarrow> nat list \<Rightarrow> bool" where
  "layout_ok num par offs storage \<longleftrightarrow>
     (\<forall>u < num. \<forall>j. offs ! u \<le> j \<longrightarrow> j < offs ! (u + 1) \<longrightarrow> par (storage ! j) = Some u \<and> storage ! j < num) \<and>
     (\<forall>c u. par c = Some u \<longrightarrow> c < num \<and> u < num \<and> (\<exists>j. offs ! u \<le> j \<and> j < offs ! (u + 1) \<and> storage ! j = c))"

definition frame_ok :: "nat list \<Rightarrow> nat list \<Rightarrow> stamps \<Rightarrow> nat \<times> nat \<times> nat \<Rightarrow> bool" where
  "frame_ok offs storage st f \<longleftrightarrow>
     (case f of (u, i, e) \<Rightarrow> e = offs ! (u + 1) \<and> offs ! u \<le> i \<and>
        (\<forall>j. offs ! u \<le> j \<longrightarrow> j < i \<longrightarrow> j < e \<longrightarrow> stamped st (storage ! j)))"

definition frames_ok :: "nat list \<Rightarrow> nat list \<Rightarrow> stamps \<Rightarrow> bool" where
  "frames_ok offs storage st \<longleftrightarrow> (\<forall>f \<in> set (stamp_stack st). frame_ok offs storage st f)"

lemma frame_mono: "frame_ok offs storage st f \<Longrightarrow> (\<And>x. stamped st x \<Longrightarrow> stamped st' x) \<Longrightarrow> frame_ok offs storage st' f"
  by (cases f) (simp add: frame_ok_def)

lemma frame_start: "frame_ok offs storage st (u, offs ! u, offs ! (u + 1))"
  by (simp add: frame_ok_def)

lemma discover_stack: "stamp_stack (discover offs c st) = (c, offs ! c, offs ! (c + 1)) # stamp_stack st"
  by (simp add: discover_def)

lemma discover_stamped: "c < length (tin st) \<Longrightarrow> stamped (discover offs c st) x \<longleftrightarrow> x = c \<or> stamped st x"
  by (auto simp: discover_def nth_list_update)

lemma stamp_loop_ok:
  assumes "stamps_ok num par st" and "frames_ok offs storage st" and "layout_ok num par offs storage"
  shows "\<exists>st'. stamp_loop offs storage st = Some st' \<and> stamps_ok num par st' \<and> stamp_stack st' = [] \<and>
    (\<forall>x. stamped st x \<longrightarrow> stamped st' x)"
  using assms
proof (induction offs storage st rule: stamp_loop.induct)
  case (1 offs storage st)
  note unfold = stamp_loop.simps [of offs storage st]
  note I = stamps_okD [OF "1.prems"(1)]
  show ?case
  proof (cases "stamp_stack st")
    case Nil
    then show ?thesis
      using "1.prems"(1) unfold by simp
  next
    case (Cons f stack)
    obtain u i e where f: "f = (u, i, e)"
      by (cases f)
    have stk: "stamp_stack st = (u, i, e) # stack"
      using Cons f by simp
    have u: "stamped st u" "u < num"
      using I(5) [of u] I(1) stk by auto
    have frame: "e = offs ! (u + 1)" "offs ! u \<le> i" "\<And>j. offs ! u \<le> j \<Longrightarrow> j < i \<Longrightarrow> j < e \<Longrightarrow> stamped st (storage ! j)"
      using "1.prems"(2) stk by (simp_all add: frames_ok_def frame_ok_def)
    have rest: "frame_ok offs storage st f" if "f \<in> set stack" for f
      using "1.prems"(2) stk that by (simp add: frames_ok_def)
    show ?thesis
    proof (cases "i < e")
      case i: True
      let ?c = "storage ! i" and ?st = "st\<lparr>stamp_stack := (u, i + 1, e) # stack\<rparr>"
      have c: "par ?c = Some u" "?c < num"
        using "1.prems"(3) u(2) frame(1,2) i by (auto simp: layout_ok_def)
      have ok: "stamps_ok num par ?st"
        by (rule stamps_ok_stack [OF "1.prems"(1)]) (simp add: stk)
      show ?thesis
      proof (cases "tin st ! ?c = 0")
        case True
        have ok': "stamps_ok num par (discover offs ?c ?st)"
          by (rule discover_ok [OF ok]) (use c True in simp_all)
        let ?new = "discover offs ?c ?st"
        have new: "stamped ?new x \<longleftrightarrow> x = ?c \<or> stamped st x" for x
          using discover_stamped [of ?c ?st x offs] c(2) I(1) by simp
        have "frame_ok offs storage ?new f" if "f \<in> set stack" for f
          by (rule frame_mono [OF rest [OF that]]) (use new in blast)
        moreover have "frame_ok offs storage ?new (u, i + 1, e)"
          unfolding frame_ok_def prod.case using frame new by (metis Suc_eq_plus1 le_SucI less_Suc_eq)
        ultimately have "frames_ok offs storage ?new"
          unfolding frames_ok_def discover_stack using frame_start [of offs storage ?new ?c] by simp
        then obtain st' where "stamp_loop offs storage (discover offs ?c ?st) = Some st'" "stamps_ok num par st'"
            "stamp_stack st' = []" "\<forall>x. stamped (discover offs ?c ?st) x \<longrightarrow> stamped st' x"
          using "1.IH"(1) [OF stk refl refl i refl refl] c(2) I(1) True ok' "1.prems"(3) by auto
        then show ?thesis
          using unfold stk i c(2) I(1) True new by (auto simp: Let_def)
      next
        case False
        have "frame_ok offs storage ?st f" if "f \<in> set stack" for f
          by (rule frame_mono [OF rest [OF that]]) simp
        moreover have "frame_ok offs storage ?st (u, i + 1, e)"
          unfolding frame_ok_def prod.case using frame False c(2) I(1) by (auto simp: less_Suc_eq)
        ultimately have "frames_ok offs storage ?st"
          by (simp add: frames_ok_def)
        then obtain st' where "stamp_loop offs storage ?st = Some st'" "stamps_ok num par st'"
            "stamp_stack st' = []" "\<forall>x. stamped ?st x \<longrightarrow> stamped st' x"
          using "1.IH"(2) [OF stk refl refl i refl refl] c(2) I(1) False ok "1.prems"(3) by auto
        then show ?thesis
          using unfold stk i c(2) I(1) False by (auto simp: Let_def)
      qed
    next
      case False
      have "stamped st c" if "par c = Some u" for c
        using "1.prems"(3) that frame(3) False frame(1) unfolding layout_ok_def by (metis not_less order_less_le_trans)
      then have ok': "stamps_ok num par (finish u st)"
        by (rule finish_ok [OF "1.prems"(1) stk])
      have "frame_ok offs storage (finish u st) f" if "f \<in> set stack" for f
        by (rule frame_mono [OF rest [OF that]]) (simp add: finish_def)
      then have "frames_ok offs storage (finish u st)"
        using stk by (simp add: frames_ok_def) (simp add: finish_def)
      then obtain st' where "stamp_loop offs storage (finish u st) = Some st'" "stamps_ok num par st'"
            "stamp_stack st' = []" "\<forall>x. stamped (finish u st) x \<longrightarrow> stamped st' x"
        using "1.IH"(3) [OF stk refl refl False] ok' "1.prems"(3) by auto
      then show ?thesis
        using unfold stk False by (auto simp: finish_def)
    qed
  qed
qed

lemma stamp_roots_ok:
  assumes layout: "layout_ok num (forest_parent num idom) offs storage"
  shows "m \<le> num \<Longrightarrow> \<exists>st. fold_option (stamp_root num idom offs storage) [0..<m]
      \<lparr>tin = replicate num 0, tout = replicate num 0, timer = 0, stamp_stack = []\<rparr> = Some st \<and>
    stamps_ok num (forest_parent num idom) st \<and> stamp_stack st = [] \<and>
    (\<forall>r < m. forest_parent num idom r = None \<longrightarrow> stamped st r)"
proof (induction m)
  case 0
  show ?case
    by (auto simp: stamps_ok_def)
next
  case (Suc m)
  then obtain st where st: "fold_option (stamp_root num idom offs storage) [0..<m]
      \<lparr>tin = replicate num 0, tout = replicate num 0, timer = 0, stamp_stack = []\<rparr> = Some st"
      "stamps_ok num (forest_parent num idom) st" "stamp_stack st = []"
      "\<forall>r < m. forest_parent num idom r = None \<longrightarrow> stamped st r"
    by auto
  have m: "m < length (tin st)" "m < num"
    using Suc.prems stamps_okD(1) [OF st(2)] by simp_all
  show ?case
  proof (cases "forest_parent num idom m = None \<and> tin st ! m = 0")
    case True
    have ok: "stamps_ok num (forest_parent num idom) (discover offs m st)"
      by (rule discover_ok [OF st(2) m(2)]) (use True st(3) in simp_all)
    have "frames_ok offs storage (discover offs m st)"
      using st(3) by (simp add: frames_ok_def discover_stack frame_start [simplified])
    from stamp_loop_ok [OF ok this layout] obtain st' where
      "stamp_loop offs storage (discover offs m st) = Some st'" "stamps_ok num (forest_parent num idom) st'"
      "stamp_stack st' = []" "\<forall>x. stamped (discover offs m st) x \<longrightarrow> stamped st' x"
      by blast
    moreover have "stamp_root num idom offs storage m st = stamp_loop offs storage (discover offs m st)"
      using True by (simp add: stamp_root_def)
    ultimately show ?thesis
      using st(1,4) discover_stamped [OF m(1)] by (auto simp: fold_option_append less_Suc_eq)
  next
    case False
    then have "stamp_root num idom offs storage m st = Some st"
      unfolding stamp_root_def by (rule if_not_P)
    then show ?thesis
      using st False m(1) by (auto simp: fold_option_append less_Suc_eq)
  qed
qed

subsection \<open>The checker answers dominance\<close>

lemma idom_parent:
  assumes I: "idom_of num succs idom" and b: "b < num"
  shows "b = 0 \<or> \<not> reached num succs b \<Longrightarrow> forest_parent num idom b = None"
    and "b \<noteq> 0 \<Longrightarrow> reached num succs b \<Longrightarrow> \<exists>d. forest_parent num idom b = Some d \<and> d < num \<and> reached num succs d \<and>
      immediate_dominator (block_edge num succs) 0 d b"
proof -
  show "forest_parent num idom b = None" if "b = 0 \<or> \<not> reached num succs b"
    using that idom_ofD(2) [OF I] idom_ofD(3) [OF I b] by (auto simp: forest_parent_def)
  assume "b \<noteq> 0" "reached num succs b"
  then obtain d where "idom ! b = Some d" "d < num" "reached num succs d" "immediate_dominator (block_edge num succs) 0 d b"
    using idom_ofD(4) [OF I b] by auto
  then show "\<exists>d. forest_parent num idom b = Some d \<and> d < num \<and> reached num succs d \<and>
      immediate_dominator (block_edge num succs) 0 d b"
    using b idom_ofD(1) [OF I] by (simp add: forest_parent_def immediate_dominator_def)
qed

lemma forest_anc_dominates:
  assumes I: "idom_of num succs idom"
  shows "b < num \<Longrightarrow> forest_anc (forest_parent num idom) a b \<longleftrightarrow> a = b \<or> reached num succs b \<and> dom_blocks num succs a b"
proof (induction "dom_depth num succs b" arbitrary: b rule: less_induct)
  case less
  show ?case
  proof (cases "b = 0 \<or> \<not> reached num succs b")
    case True
    then show ?thesis
      using idom_parent(1) [OF I less.prems] forest_anc_iff [of "forest_parent num idom" a b]
        dominates_only_entry [of "block_edge num succs" 0 a] by auto
  next
    case False
    then obtain d where d: "forest_parent num idom b = Some d" "d < num" "reached num succs d"
        "immediate_dominator (block_edge num succs) 0 d b"
      using idom_parent(2) [OF I less.prems] by blast
    have "forest_anc (forest_parent num idom) a d \<longleftrightarrow> dom_blocks num succs a d"
      using less.hyps [OF dom_depth_idom [OF d(4) _ less.prems] d(2)] False d(3)
        dominates_refl [of "block_edge num succs" 0 d] by auto
    then show ?thesis
      using immediate_dominator_strict(1) [OF d(4)] d(1) False forest_anc_iff [of "forest_parent num idom" a b] by auto
  qed
qed

lemma child_rows_layout:
  assumes "child_rows num idom = (offs, storage)" and "length idom = num"
  shows "layout_ok num (forest_parent num idom) offs storage"
proof -
  have row: "storage ! j \<in> set (children_of num idom num u)" if "u < num" "offs ! u \<le> j" "j < offs ! (u + 1)" for u j
  proof -
    have "storage ! j \<in> set (map ((!) storage) [offs ! u..<offs ! (u + 1)])"
      using that(2,3) by simp
    then show ?thesis
      using child_rows_ok [OF assms(1)] that(1) unfolding rows_of_def by metis
  qed
  have "\<exists>j. offs ! u \<le> j \<and> j < offs ! (u + 1) \<and> storage ! j = c" if c: "forest_parent num idom c = Some u" "c < num" "u < num" for c u
  proof -
    have "c \<in> set (map ((!) storage) [offs ! u..<offs ! (u + 1)])"
      using child_rows_ok [OF assms(1), unfolded rows_of_def, rule_format, OF c(3)] c by (simp only:) (simp add: children_of_def)
    then show ?thesis
      by auto
  qed
  moreover have "c < num \<and> u < num" if "forest_parent num idom c = Some u" for c u
    using that forest_parent_bound [OF that] assms(2) by (auto simp: forest_parent_def split: if_splits)
  ultimately show ?thesis
    using row by (auto simp: layout_ok_def children_of_def)
qed

lemma new_checker_ok:
  assumes I: "idom_of num succs idom" and num: "0 < num"
  shows "\<exists>checker. new_checker num idom = Some checker \<and>
    (\<forall>a b. checker_dominates checker a b \<longleftrightarrow> a < num \<and> b < num \<and> (a = b \<or> reached num succs b \<and> dom_blocks num succs a b))"
proof -
  obtain offs storage where rows: "child_rows num idom = (offs, storage)"
    by fastforce
  obtain st where st: "fold_option (stamp_root num idom offs storage) [0..<num]
      \<lparr>tin = replicate num 0, tout = replicate num 0, timer = 0, stamp_stack = []\<rparr> = Some st"
      "stamps_ok num (forest_parent num idom) st" "stamp_stack st = []"
      "\<forall>r < num. forest_parent num idom r = None \<longrightarrow> stamped st r"
    using stamp_roots_ok [OF child_rows_layout [OF rows idom_ofD(1) [OF I]] le_refl] by blast
  note S = stamps_okD [OF st(2)]
  have all: "x < num \<Longrightarrow> stamped st x" for x
  proof (induction "dom_depth num succs x" arbitrary: x rule: less_induct)
    case less
    show ?case
    proof (cases "x = 0 \<or> \<not> reached num succs x")
      case True
      then show ?thesis
        using idom_parent(1) [OF I less.prems] st(4) less.prems by blast
    next
      case False
      then obtain d where d: "forest_parent num idom x = Some d" "d < num" "immediate_dominator (block_edge num succs) 0 d x"
        using idom_parent(2) [OF I less.prems] by blast
      have "stamped st d"
        using less.hyps [OF dom_depth_idom [OF d(3) _ less.prems] d(2)] False by blast
      then show ?thesis
        using S(12) [OF _ d(1)] st(3) by simp
    qed
  qed
  have "tin st ! a \<le> tin st ! b \<and> tout st ! b \<le> tout st ! a \<longleftrightarrow> forest_anc (forest_parent num idom) a b"
    if ab: "a < num" "b < num" for a b
    using S(8) [of b] S(10) [of a b] S(11) [of a b] all [OF ab(1)] all [OF ab(2)] st(3) by auto
  then have "checker_dominates \<lparr>checker_tin = tin st, checker_tout = tout st\<rparr> a b \<longleftrightarrow>
      a < num \<and> b < num \<and> (a = b \<or> reached num succs b \<and> dom_blocks num succs a b)" for a b
    using forest_anc_dominates [OF I] S(1) by (auto simp: checker_dominates_def)
  moreover have "new_checker num idom = Some \<lparr>checker_tin = tin st, checker_tout = tout st\<rparr>"
    using num rows st(1) by (simp add: new_checker_def)
  ultimately show ?thesis
    by blast
qed

text \<open>C26: The time stamps answer every query as the walk along the chain of immediate dominators does: the checker of a function
  is built without an index out of range, and its two comparisons agree with \<open>dominates_idom\<close> for all pairs of numbers, out of range
  ones and unreachable blocks included.\<close>
theorem dominance_checker_agrees:
  assumes "blocks \<noteq> []"
  shows "\<exists>cfg checker. build_analysis blocks = Some cfg \<and> new_checker (num_blocks cfg) (cfg_idom cfg) = Some checker \<and>
    (\<forall>a b. checker_dominates checker a b \<longleftrightarrow> dominates_idom (cfg_idom cfg) a b)"
proof (rule build_analysis_parts [OF assms], goal_cases)
  case (1 pred_rows succs idom children)
  have "0 < length blocks"
    using assms by simp
  from new_checker_ok [OF 1(3) this] obtain checker where checker: "new_checker (length blocks) idom = Some checker"
      "\<And>a b. checker_dominates checker a b \<longleftrightarrow> a < length blocks \<and> b < length blocks \<and>
        (a = b \<or> reached (length blocks) succs b \<and> dom_blocks (length blocks) succs a b)"
    by blast
  have "checker_dominates checker a b \<longleftrightarrow> dominates_idom idom a b" for a b
  proof (cases "a < length blocks \<and> b < length blocks")
    case True
    then show ?thesis
      using checker(2) dominates_idom_iff [OF 1(3), of a b] by simp
  next
    case False
    then show ?thesis
      using checker(2) idom_ofD(1) [OF 1(3)] by (auto simp: dominates_idom_def)
  qed
  then show ?case
    using 1(2) checker(1) by simp
qed

lemma checker_diamond:
  "new_checker 5 [Some 0, Some 0, Some 0, Some 0, None] =
     Some \<lparr>checker_tin = [1, 2, 4, 6, 9], checker_tout = [8, 3, 5, 7, 10]\<rparr>"
  by code_simp

theorem dominance_checker_agrees_witness:
  "diamond \<noteq> [] \<and> (\<exists>cfg checker. build_analysis diamond = Some cfg \<and> new_checker (num_blocks cfg) (cfg_idom cfg) = Some checker \<and>
     dominates_idom (cfg_idom cfg) 0 3 \<and> \<not> dominates_idom (cfg_idom cfg) 1 3)"
proof
  show n: "diamond \<noteq> []"
    by (simp add: diamond_def)
  obtain cfg checker where c: "build_analysis diamond = Some cfg" "new_checker (num_blocks cfg) (cfg_idom cfg) = Some checker"
      "\<And>a b. checker_dominates checker a b \<longleftrightarrow> dominates_idom (cfg_idom cfg) a b"
    using dominance_checker_agrees [OF n] by blast
  have i: "cfg_idom cfg = [Some 0, Some 0, Some 0, Some 0, None]"
    using build_analysis_diamond c(1) by simp
  have "num_blocks cfg = 5"
    using c(1) by (auto simp: build_analysis_def diamond_def Let_def split: prod.splits bind_splits)
  then have "checker = \<lparr>checker_tin = [1, 2, 4, 6, 9], checker_tout = [8, 3, 5, 7, 10]\<rparr>"
    using checker_diamond c(2) i by simp
  then have "checker_dominates checker 0 3" "\<not> checker_dominates checker 1 3"
    by (simp_all add: checker_dominates_def)
  then show "\<exists>cfg checker. build_analysis diamond = Some cfg \<and> new_checker (num_blocks cfg) (cfg_idom cfg) = Some checker \<and>
     dominates_idom (cfg_idom cfg) 0 3 \<and> \<not> dominates_idom (cfg_idom cfg) 1 3"
    using c by blast
qed

end
