(* ===== verification/BlockSets.thy ===== *)
theory BlockSets
  imports DomIntervals MagicDiv
begin

unbundle bit_operations_syntax

text \<open>
  The sets of blocks of \<^verbatim>\<open>src/src/passes/loop_analysis.rs\<close>: \<open>BlockBitSet\<close>, a bit per block in 64-bit words, and its iterator, which
  finds the lowest bit of the current word and clears it.
\<close>

subsection \<open>Operations\<close>

record BlockBitSet =
  words :: "64 word list"
  num_bits :: nat

definition new_bitset :: "nat \<Rightarrow> BlockBitSet" where
  "new_bitset n = \<lparr>words = replicate ((n + 63) div 64) 0, num_bits = n\<rparr>"

definition bit_mask :: "nat \<Rightarrow> 64 word" where
  "bit_mask block = push_bit (block mod 64) 1"

definition bitset_insert :: "nat \<Rightarrow> BlockBitSet \<Rightarrow> bool \<times> BlockBitSet" where
  "bitset_insert block bs =
     (if num_bits bs \<le> block then (False, bs)
      else let i = block div 64; was_present = words bs ! i AND bit_mask block \<noteq> 0
           in (\<not> was_present, bs\<lparr>words := (words bs)[i := words bs ! i OR bit_mask block]\<rparr>))"

definition bitset_contains :: "BlockBitSet \<Rightarrow> nat \<Rightarrow> bool" where
  "bitset_contains bs block \<longleftrightarrow> block < num_bits bs \<and> words bs ! (block div 64) AND bit_mask block \<noteq> 0"

definition bitset_remove :: "nat \<Rightarrow> BlockBitSet \<Rightarrow> bool \<times> BlockBitSet" where
  "bitset_remove block bs =
     (if num_bits bs \<le> block then (False, bs)
      else let i = block div 64; was_present = words bs ! i AND bit_mask block \<noteq> 0
           in (was_present, bs\<lparr>words := (words bs)[i := words bs ! i AND NOT (bit_mask block)]\<rparr>))"

definition union_with :: "BlockBitSet \<Rightarrow> BlockBitSet \<Rightarrow> BlockBitSet" where
  "union_with bs other =
     bs\<lparr>words := foldl (\<lambda>ws i. ws[i := ws ! i OR words other ! i]) (words bs) [0..<min (length (words bs)) (length (words other))]\<rparr>"

definition bitset_is_subset :: "BlockBitSet \<Rightarrow> BlockBitSet \<Rightarrow> bool" where
  "bitset_is_subset bs other =
     list_all (\<lambda>(i, w). w AND NOT (if i < length (words other) then words other ! i else 0) = 0) (enumerate 0 (words bs))"

definition bitset_count :: "BlockBitSet \<Rightarrow> nat" where
  "bitset_count bs = sum_list (map count_ones (words bs))"

text \<open>The iterator: the index of the current word and what is left of it.\<close>

function skip_words :: "64 word list \<Rightarrow> nat \<Rightarrow> 64 word \<Rightarrow> (nat \<times> 64 word) option" where
  "skip_words ws idx cur =
     (if cur \<noteq> 0 then Some (idx, cur)
      else if length ws \<le> idx + 1 then None
      else skip_words ws (idx + 1) (ws ! (idx + 1)))"
  by pat_completeness auto

termination
  by (relation "measure (\<lambda>(ws, idx, cur). length ws - idx)") auto

declare skip_words.simps [simp del]

definition iter_start :: "BlockBitSet \<Rightarrow> nat \<times> 64 word" where
  "iter_start bs = (0, if words bs = [] then 0 else words bs ! 0)"

definition iter_next :: "BlockBitSet \<Rightarrow> nat \<times> 64 word \<Rightarrow> (nat \<times> (nat \<times> 64 word)) option" where
  "iter_next bs st =
     (case skip_words (words bs) (fst st) (snd st) of
        None \<Rightarrow> None
      | Some (idx, cur) \<Rightarrow> Some (idx * 64 + trailing_zeros cur, (idx, cur AND (cur - 1))))"

text \<open>All blocks that the iterator yields.\<close>

partial_function (option) iter_all :: "BlockBitSet \<Rightarrow> nat \<times> 64 word \<Rightarrow> nat list option" where
  [code]: "iter_all bs st =
     (case iter_next bs st of
        None \<Rightarrow> Some []
      | Some (block, st') \<Rightarrow> do { rest \<leftarrow> iter_all bs st'; Some (block # rest) })"

definition to_hash_set :: "BlockBitSet \<Rightarrow> nat set option" where
  "to_hash_set bs = map_option (foldl (\<lambda>s block. insert block s) {}) (iter_all bs (iter_start bs))"

subsection \<open>The set that a bit set stands for\<close>

definition members :: "BlockBitSet \<Rightarrow> nat set" where
  "members bs = {b. b < 64 * length (words bs) \<and> bit (words bs ! (b div 64)) (b mod 64)}"

definition bitset_ok :: "BlockBitSet \<Rightarrow> bool" where
  "bitset_ok bs \<longleftrightarrow> length (words bs) = (num_bits bs + 63) div 64 \<and> members bs \<subseteq> {..<num_bits bs}"

lemma bit_bit_mask: "bit (bit_mask b) i \<longleftrightarrow> i = b mod 64"
  by (auto simp: bit_mask_def bit_simps)

lemma and_bit_mask: "w AND bit_mask b \<noteq> 0 \<longleftrightarrow> bit w (b mod 64)"
  unfolding bit_eq_iff [of "w AND bit_mask b" 0] by (auto simp: bit_and_iff bit_bit_mask)

lemma word_index:
  assumes "bitset_ok bs" and "b < num_bits bs" shows "b div 64 < length (words bs)" and "b < 64 * length (words bs)"
  using assms by (auto simp: bitset_ok_def)

lemma new_bitset_ok: "bitset_ok (new_bitset n)" and members_new: "members (new_bitset n) = {}"
  by (auto simp: bitset_ok_def members_def new_bitset_def)

lemma members_update:
  assumes "\<And>i. i < 64 \<Longrightarrow> bit w i \<longleftrightarrow> (if i = b mod 64 then P else bit (words bs ! (b div 64)) i)"
    and "b div 64 < length (words bs)"
  shows "members (bs\<lparr>words := (words bs)[b div 64 := w]\<rparr>) = (if P then insert b (members bs) else members bs - {b})"
proof -
  have "b < 64 * length (words bs)"
    using assms(2) by auto
  moreover have "c = b \<longleftrightarrow> c div 64 = b div 64 \<and> c mod 64 = b mod 64" for c
    by (metis div_mult_mod_eq)
  ultimately show ?thesis
    using assms by (auto simp: members_def nth_list_update)
qed

lemma bitset_insert_ok:
  assumes "bitset_ok bs" and "bitset_insert b bs = (new, bs')"
  shows "bitset_ok bs'" and "num_bits bs' = num_bits bs" and "new \<longleftrightarrow> b < num_bits bs \<and> b \<notin> members bs"
    and "members bs' = (if b < num_bits bs then insert b (members bs) else members bs)"
proof -
  have m: "members bs' = (if b < num_bits bs then insert b (members bs) else members bs)"
  proof (cases "b < num_bits bs")
    case True
    have "members (bs\<lparr>words := (words bs)[b div 64 := words bs ! (b div 64) OR bit_mask b]\<rparr>) = insert b (members bs)"
      using members_update [of "words bs ! (b div 64) OR bit_mask b" b True bs] word_index [OF assms(1) True]
      by (auto simp: bit_or_iff bit_bit_mask)
    then show ?thesis
      using True assms(2) by (auto simp: bitset_insert_def Let_def)
  qed (use assms(2) in \<open>auto simp: bitset_insert_def\<close>)
  then show "members bs' = (if b < num_bits bs then insert b (members bs) else members bs)" .
  show n: "num_bits bs' = num_bits bs"
    using assms(2) by (auto simp: bitset_insert_def Let_def split: if_splits)
  have "length (words bs') = length (words bs)"
    using assms(2) by (auto simp: bitset_insert_def Let_def split: if_splits)
  then show "bitset_ok bs'"
    using assms(1) m n by (auto simp: bitset_ok_def)
  show "new \<longleftrightarrow> b < num_bits bs \<and> b \<notin> members bs"
    using assms(2) word_index [OF assms(1), of b]
    by (auto simp: bitset_insert_def Let_def and_bit_mask members_def split: if_splits)
qed

lemma bitset_contains_iff: "bitset_ok bs \<Longrightarrow> bitset_contains bs b \<longleftrightarrow> b \<in> members bs"
  using word_index [of bs b] by (auto simp: bitset_contains_def and_bit_mask members_def bitset_ok_def)

lemma bitset_remove_ok:
  assumes "bitset_ok bs" and "bitset_remove b bs = (was, bs')"
  shows "bitset_ok bs'" and "num_bits bs' = num_bits bs" and "was \<longleftrightarrow> b \<in> members bs" and "members bs' = members bs - {b}"
proof -
  have out: "b \<notin> members bs" if "num_bits bs \<le> b"
    using assms(1) that by (auto simp: bitset_ok_def)
  have m: "members bs' = members bs - {b}"
  proof (cases "b < num_bits bs")
    case True
    have "members (bs\<lparr>words := (words bs)[b div 64 := words bs ! (b div 64) AND NOT (bit_mask b)]\<rparr>) = members bs - {b}"
      using members_update [of "words bs ! (b div 64) AND NOT (bit_mask b)" b False bs] word_index [OF assms(1) True]
      by (auto simp: bit_and_iff bit_not_iff bit_bit_mask)
    then show ?thesis
      using True assms(2) by (auto simp: bitset_remove_def Let_def)
  qed (use assms(2) out in \<open>auto simp: bitset_remove_def\<close>)
  then show "members bs' = members bs - {b}" .
  show n: "num_bits bs' = num_bits bs"
    using assms(2) by (auto simp: bitset_remove_def Let_def split: if_splits)
  have "length (words bs') = length (words bs)"
    using assms(2) by (auto simp: bitset_remove_def Let_def split: if_splits)
  then show "bitset_ok bs'"
    using assms(1) m n by (auto simp: bitset_ok_def)
  show "was \<longleftrightarrow> b \<in> members bs"
    using assms(2) word_index [OF assms(1), of b] out
    by (auto simp: bitset_remove_def Let_def and_bit_mask members_def split: if_splits)
qed

lemma union_words:
  "k \<le> length ws \<Longrightarrow> length (foldl (\<lambda>ws i. ws[i := ws ! i OR vs ! i]) ws [0..<k]) = length ws \<and>
    (\<forall>i < length ws. foldl (\<lambda>ws i. ws[i := ws ! i OR vs ! i]) ws [0..<k] ! i = (if i < k then ws ! i OR vs ! i else ws ! i))"
  by (induction k) (auto simp: nth_list_update less_Suc_eq)

lemma union_with_ok:
  assumes "bitset_ok bs" and "bitset_ok other" and "num_bits other = num_bits bs"
  shows "bitset_ok (union_with bs other)" and "members (union_with bs other) = members bs \<union> members other"
proof -
  have len: "length (words other) = length (words bs)"
    using assms by (simp add: bitset_ok_def)
  have w: "length (words (union_with bs other)) = length (words bs)"
    "i < length (words bs) \<Longrightarrow> words (union_with bs other) ! i = words bs ! i OR words other ! i" for i
    using union_words [of "length (words bs)" "words bs" "words other"] len by (simp_all add: union_with_def)
  show m: "members (union_with bs other) = members bs \<union> members other"
    unfolding members_def w(1) len by (auto simp: w(2) bit_or_iff)
  have "num_bits (union_with bs other) = num_bits bs"
    by (simp add: union_with_def)
  then show "bitset_ok (union_with bs other)"
    using assms m w(1) by (auto simp: bitset_ok_def)
qed

lemma list_all_enumerate: "list_all (\<lambda>(i, x). P i x) (enumerate k xs) \<longleftrightarrow> (\<forall>i < length xs. P (k + i) (xs ! i))"
proof (induction xs arbitrary: k)
  case (Cons x xs)
  then show ?case
    by (auto simp: All_less_Suc2)
qed simp

lemma bitset_is_subset_iff: "bitset_is_subset bs other \<longleftrightarrow> members bs \<subseteq> members other"
proof -
  let ?v = "\<lambda>i. if i < length (words other) then words other ! i else 0"
  have "bitset_is_subset bs other \<longleftrightarrow> (\<forall>i < length (words bs). \<forall>j < 64. bit (words bs ! i) j \<longrightarrow> bit (?v i) j)"
    by (simp add: bitset_is_subset_def list_all_enumerate bit_eq_iff [of _ 0] bit_and_iff bit_not_iff)
  also have "\<dots> \<longleftrightarrow> members bs \<subseteq> members other"
  proof
    assume sub: "\<forall>i < length (words bs). \<forall>j < 64. bit (words bs ! i) j \<longrightarrow> bit (?v i) j"
    show "members bs \<subseteq> members other"
    proof
      fix b
      assume "b \<in> members bs"
      then have "b div 64 < length (words bs)" "bit (words bs ! (b div 64)) (b mod 64)"
        by (auto simp: members_def)
      then have "bit (?v (b div 64)) (b mod 64)"
        using sub by simp
      then show "b \<in> members other"
        by (auto simp: members_def split: if_splits)
    qed
  next
    assume sub: "members bs \<subseteq> members other"
    show "\<forall>i < length (words bs). \<forall>j < 64. bit (words bs ! i) j \<longrightarrow> bit (?v i) j"
    proof (intro allI impI)
      fix i j
      assume "i < length (words bs)" "j < (64 :: nat)" "bit (words bs ! i) j"
      then have "64 * i + j \<in> members bs"
        by (simp add: members_def)
      then have "64 * i + j \<in> members other"
        using sub by blast
      then show "bit (?v i) j"
        using \<open>j < 64\<close> by (auto simp: members_def)
    qed
  qed
  finally show ?thesis .
qed

lemma finite_members: "finite (members bs)"
  by (rule finite_subset [of _ "{..<64 * length (words bs)}"]) (auto simp: members_def)

lemma bitset_count_card: "bitset_count bs = card (members bs)"
proof -
  have "sum_list (map count_ones ws) = card {b. b < 64 * length ws \<and> bit (ws ! (b div 64)) (b mod 64)}" for ws :: "64 word list"
  proof (induction ws rule: rev_induct)
    case (snoc w ws)
    let ?old = "{b. b < 64 * length ws \<and> bit (ws ! (b div 64)) (b mod 64)}"
    let ?new = "(\<lambda>j. 64 * length ws + j) ` {j. j < 64 \<and> bit w j}"
    have "{b. b < 64 * length (ws @ [w]) \<and> bit ((ws @ [w]) ! (b div 64)) (b mod 64)} = ?old \<union> ?new"
    proof (intro set_eqI iffI)
      fix b
      assume b: "b \<in> {b. b < 64 * length (ws @ [w]) \<and> bit ((ws @ [w]) ! (b div 64)) (b mod 64)}"
      show "b \<in> ?old \<union> ?new"
      proof (cases "b < 64 * length ws")
        case True
        then have "b div 64 < length ws"
          by auto
        then show ?thesis
          using b True by (simp add: nth_append)
      next
        case False
        then have "b div 64 = length ws"
          using b by (simp add: div_nat_eqI)
        then have "bit w (b mod 64)" "b = 64 * length ws + b mod 64"
          using b mult_div_mod_eq [of 64 b] by simp_all
        then show ?thesis
          by (intro UnI2 image_eqI [of _ _ "b mod 64"]) simp_all
      qed
    next
      fix b
      assume "b \<in> ?old \<union> ?new"
      then show "b \<in> {b. b < 64 * length (ws @ [w]) \<and> bit ((ws @ [w]) ! (b div 64)) (b mod 64)}"
        by (auto simp: nth_append)
    qed
    moreover have "?old \<inter> ?new = {}"
      by auto
    moreover have "finite ?old" "finite ?new"
      by auto
    moreover have "card ?new = count_ones w"
      using distinct_card [of "filter (bit w) [0..<64]"] by (subst card_image) (auto simp: inj_on_def count_ones_def)
    ultimately show ?case
      using snoc by (simp add: card_Un_disjoint)
  qed simp
  then show ?thesis
    by (simp add: bitset_count_def members_def)
qed

subsection \<open>The iterator\<close>

lemma clear_lowest_bit:
  fixes w :: "'a::len word"
  assumes "w \<noteq> 0"
  shows "bit (w AND (w - 1)) i \<longleftrightarrow> bit w i \<and> i \<noteq> trailing_zeros w"
proof -
  let ?k = "trailing_zeros w"
  note tz = trailing_zeros_lsb [OF assms]
  let ?u = "unset_bit ?k w"
  have "?u AND push_bit ?k 1 = 0" "?u AND mask ?k = 0"
    by (rule bit_eqI; use tz(3) in \<open>auto simp: bit_simps\<close>)+
  then have "?u + push_bit ?k 1 = ?u OR push_bit ?k 1" "?u + mask ?k = ?u OR mask ?k"
    by (simp_all add: disjunctive_add_eq_or)
  moreover have "?u OR push_bit ?k 1 = w"
    using tz(2) by (intro bit_eqI) (auto simp: bit_simps dest: bit_imp_le_length)
  ultimately have "w - 1 = ?u OR mask ?k"
    by (simp add: mask_eq_exp_minus_1 push_bit_eq_mult algebra_simps)
  then show ?thesis
    using tz(3) [of i] by (auto simp: bit_simps dest: bit_imp_le_length)
qed

text \<open>What the iterator has still to yield.\<close>

definition remaining :: "64 word list \<Rightarrow> nat \<Rightarrow> 64 word \<Rightarrow> nat set" where
  "remaining ws idx cur =
     {b. (b div 64 = idx \<and> bit cur (b mod 64)) \<or> (idx < b div 64 \<and> b div 64 < length ws \<and> bit (ws ! (b div 64)) (b mod 64))}"

lemma finite_remaining: "finite (remaining ws idx cur)"
proof (rule finite_subset)
  show "remaining ws idx cur \<subseteq> {..<64 * (idx + 1) + 64 * length ws}"
    by (auto simp: remaining_def)
qed simp

lemma skip_words_ok:
  "case skip_words ws idx cur of
     None \<Rightarrow> remaining ws idx cur = {}
   | Some (idx', cur') \<Rightarrow> cur' \<noteq> 0 \<and> remaining ws idx' cur' = remaining ws idx cur"
proof (induction ws idx cur rule: skip_words.induct)
  case (1 ws idx cur)
  note unfold = skip_words.simps [of ws idx cur]
  show ?case
  proof (cases "cur \<noteq> 0")
    case False
    show ?thesis
    proof (cases "length ws \<le> idx + 1")
      case True
      then show ?thesis
        using unfold False by (auto simp: remaining_def)
    next
      case next_word: False
      have "remaining ws (idx + 1) (ws ! (idx + 1)) = remaining ws idx cur"
        using False next_word by (auto simp: remaining_def dest: Suc_lessI)
      then show ?thesis
        using "1.IH" [OF _ next_word] unfold False next_word by (auto split: option.splits)
    qed
  qed (use unfold in simp)
qed

lemma remaining_lowest:
  assumes "cur \<noteq> 0"
  shows "idx * 64 + trailing_zeros cur \<in> remaining ws idx cur"
    and "b \<in> remaining ws idx cur \<Longrightarrow> idx * 64 + trailing_zeros cur \<le> b"
    and "remaining ws idx (cur AND (cur - 1)) = remaining ws idx cur - {idx * 64 + trailing_zeros cur}"
proof -
  let ?k = "trailing_zeros cur"
  note tz = trailing_zeros_lsb [OF assms]
  have k: "?k < 64"
    using tz(1) by simp
  then have pos: "(idx * 64 + ?k) div 64 = idx" "(idx * 64 + ?k) mod 64 = ?k"
    by simp_all
  show "idx * 64 + ?k \<in> remaining ws idx cur"
    using tz(2) pos by (simp add: remaining_def)
  show "idx * 64 + ?k \<le> b" if b: "b \<in> remaining ws idx cur"
  proof (cases "b div 64 = idx")
    case True
    then have "?k \<le> b mod 64"
      using b tz(3) by (auto simp: remaining_def not_less [symmetric])
    then show ?thesis
      using True mult_div_mod_eq [of 64 b] by simp
  next
    case False
    then have "idx + 1 \<le> b div 64"
      using b by (auto simp: remaining_def)
    then have "64 * (idx + 1) \<le> b"
      by (metis div_le_mono div_times_less_eq_dividend dual_order.trans mult.commute mult_le_mono2)
    then show ?thesis
      using k by simp
  qed
  have "b = idx * 64 + ?k \<longleftrightarrow> b div 64 = idx \<and> b mod 64 = ?k" for b
    using pos by (metis div_mult_mod_eq)
  then show "remaining ws idx (cur AND (cur - 1)) = remaining ws idx cur - {idx * 64 + ?k}"
    using k by (auto simp: remaining_def clear_lowest_bit [OF assms])
qed

lemma iter_all_remaining: "iter_all bs (idx, cur) = Some (sorted_list_of_set (remaining (words bs) idx cur))"
proof (induction "card (remaining (words bs) idx cur)" arbitrary: idx cur rule: less_induct)
  case less
  note unfold = iter_all.simps [of bs "(idx, cur)"]
  show ?case
  proof (cases "skip_words (words bs) idx cur")
    case None
    then have "remaining (words bs) idx cur = {}"
      using skip_words_ok [of "words bs" idx cur] by simp
    then show ?thesis
      using None by (subst unfold) (simp add: iter_next_def)
  next
    case (Some st)
    obtain i c where st: "st = (i, c)"
      by (cases st)
    then have c: "c \<noteq> 0" "remaining (words bs) i c = remaining (words bs) idx cur"
      using Some skip_words_ok [of "words bs" idx cur] by simp_all
    let ?b = "i * 64 + trailing_zeros c" and ?R = "remaining (words bs) i c"
    note low = remaining_lowest [OF c(1), where idx = i and ws = "words bs"]
    have "card (?R - {?b}) < card ?R"
      using low(1) finite_remaining by (rule card_Diff1_less [rotated])
    then have IH: "iter_all bs (i, c AND (c - 1)) = Some (sorted_list_of_set (?R - {?b}))"
      using less [of i "c AND (c - 1)"] low(3) c(2) by simp
    have "Min ?R = ?b"
      using low(1,2) finite_remaining by (intro Min_eqI) auto
    then have "sorted_list_of_set ?R = ?b # sorted_list_of_set (?R - {?b})"
      using sorted_list_of_set_nonempty [OF finite_remaining, of "words bs" i c] low(1) by auto
    then show ?thesis
      using Some st IH c(2) by (subst unfold) (simp add: iter_next_def)
  qed
qed

lemma remaining_start: "remaining (words bs) 0 (snd (iter_start bs)) = members bs"
  by (cases "words bs") (auto simp: remaining_def members_def iter_start_def)

lemma iter_all_members: "iter_all bs (iter_start bs) = Some (sorted_list_of_set (members bs))"
  using iter_all_remaining [of bs 0 "snd (iter_start bs)"] remaining_start by (simp add: iter_start_def)

lemma foldl_insert: "foldl (\<lambda>s block. insert block s) S bs = S \<union> set bs"
  by (induction bs arbitrary: S) auto

lemma to_hash_set_members: "to_hash_set bs = Some (members bs)"
  by (simp add: to_hash_set_def iter_all_members foldl_insert finite_members)

subsection \<open>Bit sets implement sets\<close>

text \<open>C38: Bit sets over the same number of blocks implement sets of blocks: the operations keep the representation, insertion and removal report
  whether they changed the set, the inclusion test and the count are those of sets, and iteration yields the blocks in ascending order, each once.\<close>
theorem block_bitset_implements_sets:
  assumes "bitset_ok bs" and "bitset_ok other" and "num_bits other = num_bits bs" and "b < num_bits bs"
  shows "bitset_ok (snd (bitset_insert b bs)) \<and> members (snd (bitset_insert b bs)) = insert b (members bs) \<and>
      fst (bitset_insert b bs) = (b \<notin> members bs) \<and>
      bitset_ok (snd (bitset_remove b bs)) \<and> members (snd (bitset_remove b bs)) = members bs - {b} \<and>
      fst (bitset_remove b bs) = (b \<in> members bs) \<and>
      bitset_ok (union_with bs other) \<and> members (union_with bs other) = members bs \<union> members other \<and>
      bitset_contains bs b = (b \<in> members bs) \<and> bitset_is_subset bs other = (members bs \<subseteq> members other) \<and>
      bitset_count bs = card (members bs) \<and>
      iter_all bs (iter_start bs) = Some (sorted_list_of_set (members bs)) \<and> to_hash_set bs = Some (members bs)"
  using assms bitset_insert_ok [OF assms(1) prod.collapse [symmetric], of b] bitset_remove_ok [OF assms(1) prod.collapse [symmetric], of b]
    union_with_ok [OF assms(1-3)]
  by (simp add: bitset_contains_iff bitset_is_subset_iff bitset_count_card iter_all_members to_hash_set_members)

theorem block_bitset_implements_sets_witness:
  "(let bs = snd (bitset_insert 3 (new_bitset 70)); other = snd (bitset_insert 64 (new_bitset 70))
    in members (union_with bs other) = {3, 64} \<and> members (snd (bitset_remove 3 bs)) = {} \<and> fst (bitset_insert 3 bs) = False \<and>
      iter_all bs (iter_start bs) = Some [3])"
proof -
  let ?bs = "snd (bitset_insert 3 (new_bitset 70))" and ?other = "snd (bitset_insert 64 (new_bitset 70))"
  have new: "num_bits (new_bitset 70) = 70" "bitset_ok (new_bitset 70)" "members (new_bitset 70) = {}"
    by (simp_all add: new_bitset_ok members_new) (simp add: new_bitset_def)
  have bs: "bitset_ok ?bs" "num_bits ?bs = 70" "members ?bs = {3}" and other: "bitset_ok ?other" "num_bits ?other = 70" "members ?other = {64}"
    using bitset_insert_ok [OF new(2) prod.collapse [symmetric]] new by simp_all
  show ?thesis
    using block_bitset_implements_sets [OF bs(1) other(1), of 3] bs other by (auto simp: Let_def)
qed

end
