(* ===== verification/NaturalLoops.thy ===== *)
theory NaturalLoops
  imports BlockSets
begin

text \<open>
  Natural loops, \<^verbatim>\<open>src/src/passes/loop_analysis.rs\<close>: the body of a loop is grown backwards from the tails of its back edges. The code
  has the same work list over a hash set and over a \<^typ>\<open>BlockBitSet\<close>; a locale states what the loop needs of the set.
\<close>

subsection \<open>Growing a body\<close>

definition hash_insert :: "nat \<Rightarrow> nat set \<Rightarrow> bool \<times> nat set" where
  "hash_insert b s = (b \<notin> s, insert b s)"

definition push_new :: "(nat \<Rightarrow> 's \<Rightarrow> bool \<times> 's) \<Rightarrow> 's \<times> nat list \<Rightarrow> nat \<Rightarrow> 's \<times> nat list" where
  "push_new ins st block =
     (let (new, s) = ins block (fst st) in (s, if new then block # snd st else snd st))"

partial_function (option) grow_body :: "(nat \<Rightarrow> 's \<Rightarrow> bool \<times> 's) \<Rightarrow> FlatAdj \<Rightarrow> 's \<times> nat list \<Rightarrow> 's option" where
  [code]: "grow_body ins pred_rows st =
     (case snd st of
        [] \<Rightarrow> Some (fst st)
      | block # worklist \<Rightarrow>
          grow_body ins pred_rows (foldl (push_new ins) (fst st, worklist) (row pred_rows block)))"

definition compute_loop_body :: "nat \<Rightarrow> nat \<Rightarrow> FlatAdj \<Rightarrow> nat set option" where
  "compute_loop_body header tail pred_rows =
     (if header = tail then Some {header}
      else grow_body hash_insert pred_rows (insert tail {header}, [tail]))"

definition compute_loop_body_multi :: "nat \<Rightarrow> nat list \<Rightarrow> FlatAdj \<Rightarrow> nat set option" where
  "compute_loop_body_multi header tails pred_rows =
     grow_body hash_insert pred_rows (foldl (push_new hash_insert) ({header}, []) tails)"

definition compute_loop_body_multi_bitset :: "nat \<Rightarrow> nat list \<Rightarrow> FlatAdj \<Rightarrow> nat \<Rightarrow> BlockBitSet option" where
  "compute_loop_body_multi_bitset header tails pred_rows num =
     grow_body bitset_insert pred_rows
       (foldl (push_new bitset_insert) (snd (bitset_insert header (new_bitset num)), []) tails)"

text \<open>The blocks that reach a tail without passing through the header, and the header.\<close>

definition natural_body :: "(nat \<Rightarrow> nat \<Rightarrow> bool) \<Rightarrow> nat \<Rightarrow> nat set \<Rightarrow> nat set" where
  "natural_body E h T = insert h {b. b \<noteq> h \<and> (\<exists>t \<in> T. reach E (\<lambda>v. v \<noteq> h) b t)}"

lemma natural_body_pred:
  assumes "b \<in> natural_body E h T" and "b \<noteq> h" and "E p b"
  shows "p \<in> natural_body E h T"
proof -
  obtain t where t: "t \<in> T" "reach E (\<lambda>v. v \<noteq> h) b t"
    using assms(1,2) by (auto simp: natural_body_def)
  have "reach E (\<lambda>v. v \<noteq> h) p b"
    using reach_step [of E "\<lambda>v. v \<noteq> h" p p b] assms(2,3) by simp
  from reach_trans [OF this t(2)] show ?thesis
    using t(1) by (auto simp: natural_body_def)
qed

lemma natural_body_least:
  assumes "h \<in> S" and "T \<subseteq> S" and "\<And>b p. b \<in> S \<Longrightarrow> b \<noteq> h \<Longrightarrow> E p b \<Longrightarrow> p \<in> S"
  shows "natural_body E h T \<subseteq> S"
proof
  fix b
  assume "b \<in> natural_body E h T"
  then consider "b = h" | t where "t \<in> T" "reach E (\<lambda>v. v \<noteq> h) b t"
    by (auto simp: natural_body_def)
  then show "b \<in> S"
  proof cases
    case 2
    from 2(2) show ?thesis
      by (induction rule: reach_converse_induct) (use 2(1) assms in blast)+
  qed (use assms(1) in simp)
qed

text \<open>What the work list needs of a set of blocks: the universe it can hold, and an insertion that tells whether the block is new.\<close>

locale visited_set =
  fixes ins :: "nat \<Rightarrow> 's \<Rightarrow> bool \<times> 's" and elems :: "'s \<Rightarrow> nat set" and ok :: "'s \<Rightarrow> bool" and universe :: "nat set"
  assumes ins_ok: "ok s \<Longrightarrow> ins b s = (new, s') \<Longrightarrow> ok s'"
    and ins_new: "ok s \<Longrightarrow> ins b s = (new, s') \<Longrightarrow> new \<longleftrightarrow> b \<in> universe \<and> b \<notin> elems s"
    and ins_elems: "ok s \<Longrightarrow> ins b s = (new, s') \<Longrightarrow> elems s' = (if b \<in> universe then insert b (elems s) else elems s)"
begin

lemma push_new_ok:
  assumes "ok s" and "b \<in> universe"
  obtains s' where "push_new ins (s, wl) b = (s', if b \<in> elems s then wl else b # wl)" and "ok s'"
    and "elems s' = insert b (elems s)"
proof -
  obtain new s' where s': "ins b s = (new, s')"
    by fastforce
  then show thesis
    using that [of s'] ins_ok [OF assms(1) s'] ins_new [OF assms(1) s'] ins_elems [OF assms(1) s'] assms(2)
    by (simp add: push_new_def)
qed

lemma push_all_ok:
  assumes "ok s" and "set bs \<subseteq> universe"
  shows "\<exists>s' wl'. foldl (push_new ins) (s, wl) bs = (s', wl') \<and> ok s' \<and> elems s' = elems s \<union> set bs \<and>
    set wl' = set wl \<union> (set bs - elems s) \<and> (set bs \<subseteq> elems s \<longrightarrow> wl' = wl)"
  using assms
proof (induction bs arbitrary: s wl)
  case (Cons b bs)
  obtain s1 where s1: "push_new ins (s, wl) b = (s1, if b \<in> elems s then wl else b # wl)" "ok s1"
      "elems s1 = insert b (elems s)"
    using push_new_ok [OF Cons.prems(1), of b wl] Cons.prems(2) by auto
  obtain s' wl' where "foldl (push_new ins) (s1, if b \<in> elems s then wl else b # wl) bs = (s', wl')" "ok s'"
      "elems s' = elems s1 \<union> set bs" "set wl' = set (if b \<in> elems s then wl else b # wl) \<union> (set bs - elems s1)"
      "set bs \<subseteq> elems s1 \<longrightarrow> wl' = (if b \<in> elems s then wl else b # wl)"
    using Cons.IH [OF s1(2), of "if b \<in> elems s then wl else b # wl"] Cons.prems(2) by auto
  then show ?case
    using s1 by (intro exI [of _ s'] exI [of _ wl']) (auto split: if_splits)
qed simp

text \<open>The blocks found so far, and of which of them the predecessors are still to come.\<close>

definition body_inv :: "nat \<Rightarrow> FlatAdj \<Rightarrow> nat \<Rightarrow> nat set \<Rightarrow> 's \<times> nat list \<Rightarrow> bool" where
  "body_inv num pred_rows h T st \<longleftrightarrow>
     ok (fst st) \<and> elems (fst st) \<subseteq> {..<num} \<and> h \<in> elems (fst st) \<and> T \<subseteq> elems (fst st) \<and>
     elems (fst st) \<subseteq> natural_body (\<lambda>p b. p \<in> set (row pred_rows b)) h T \<and>
     set (snd st) \<subseteq> elems (fst st) - {h} \<and>
     (\<forall>b \<in> elems (fst st). b = h \<or> b \<in> set (snd st) \<or> set (row pred_rows b) \<subseteq> elems (fst st))"

lemma grow_body_ok:
  assumes rows: "\<And>b. b < num \<Longrightarrow> set (row pred_rows b) \<subseteq> {..<num}" and univ: "{..<num} \<subseteq> universe"
    and inv: "body_inv num pred_rows h T (s, wl)"
  shows "\<exists>s'. grow_body ins pred_rows (s, wl) = Some s' \<and> ok s' \<and>
    elems s' = natural_body (\<lambda>p b. p \<in> set (row pred_rows b)) h T"
  using inv
proof (induction "(card ({..<num} - elems s), length wl)" arbitrary: s wl
    rule: wf_induct_rule [OF wf_lex_prod [OF wf_less wf_less]])
  case 1
  note I = 1(2) [unfolded body_inv_def fst_conv snd_conv]
  show ?case
  proof (cases wl)
    case Nil
    have "natural_body (\<lambda>p b. p \<in> set (row pred_rows b)) h T \<subseteq> elems s"
      by (rule natural_body_least) (use I Nil in auto)
    then show ?thesis
      using I Nil by (subst grow_body.simps) auto
  next
    case (Cons b bs)
    have b: "b \<in> elems s" "b \<noteq> h" "b < num"
      using I Cons by auto
    let ?row = "row pred_rows b"
    have row: "set ?row \<subseteq> {..<num}"
      by (rule rows [OF b(3)])
    obtain s' wl' where s': "foldl (push_new ins) (s, bs) ?row = (s', wl')" "ok s'" "elems s' = elems s \<union> set ?row"
        "set wl' = set bs \<union> (set ?row - elems s)" "set ?row \<subseteq> elems s \<longrightarrow> wl' = bs"
      using push_all_ok [OF _ order_trans [OF row univ], of s bs] I by auto
    have "set ?row \<subseteq> natural_body (\<lambda>p b. p \<in> set (row pred_rows b)) h T"
      using natural_body_pred [of b _ h T] I b by blast
    then have inv': "body_inv num pred_rows h T (s', wl')"
      using I row s' Cons unfolding body_inv_def fst_conv snd_conv by auto
    have "card ({..<num} - elems s') < card ({..<num} - elems s) \<or>
        card ({..<num} - elems s') = card ({..<num} - elems s) \<and> length wl' < length wl"
    proof (cases "set ?row \<subseteq> elems s")
      case True
      then have "elems s' = elems s" "wl' = bs"
        using s'(3,5) by auto
      then show ?thesis
        using Cons by simp
    next
      case False
      then have "{..<num} - elems s' \<subset> {..<num} - elems s"
        using s'(3) row by blast
      then show ?thesis
        by (simp add: psubset_card_mono)
    qed
    then have "\<exists>r. grow_body ins pred_rows (s', wl') = Some r \<and> ok r \<and>
        elems r = natural_body (\<lambda>p b. p \<in> set (row pred_rows b)) h T"
      using 1(1) [OF _ inv'] by simp
    then show ?thesis
      using Cons s'(1) by (subst grow_body.simps) simp
  qed
qed

lemma start_inv:
  assumes univ: "{..<num} \<subseteq> universe" and s: "ok s" "elems s = {h}" and h: "h < num" and T: "set ts \<subseteq> {..<num}"
  shows "body_inv num pred_rows h (set ts) (foldl (push_new ins) (s, []) ts)"
proof -
  obtain s' wl' where s': "foldl (push_new ins) (s, []) ts = (s', wl')" "ok s'" "elems s' = elems s \<union> set ts"
      "set wl' = set [] \<union> (set ts - elems s)"
    using push_all_ok [OF s(1) order_trans [OF T univ], of "[]"] by auto
  have "set ts \<subseteq> natural_body (\<lambda>p b. p \<in> set (row pred_rows b)) h (set ts)"
    by (auto simp: natural_body_def intro: reach_refl)
  then show ?thesis
    using s' s h T unfolding body_inv_def by (auto simp: natural_body_def)
qed

end

interpretation hash: visited_set hash_insert "\<lambda>s. s" "\<lambda>_. True" UNIV
  by unfold_locales (auto simp: hash_insert_def)

interpretation bits: visited_set bitset_insert members "\<lambda>bs. bitset_ok bs \<and> num_bits bs = n" "{..<n}" for n
proof
  fix s b new s'
  assume s: "bitset_ok s \<and> num_bits s = n" and ins: "bitset_insert b s = (new, s')"
  note B = bitset_insert_ok [OF conjunct1 [OF s] ins]
  show "bitset_ok s' \<and> num_bits s' = n"
    using B(1,2) s by simp
  show "new \<longleftrightarrow> b \<in> {..<n} \<and> b \<notin> members s"
    using B(3) s by simp
  show "members s' = (if b \<in> {..<n} then insert b (members s) else members s)"
    using B(4) s by simp
qed

lemma compute_loop_body_multi_ok:
  assumes rows: "\<And>b. b < num \<Longrightarrow> set (row pred_rows b) \<subseteq> {..<num}" and h: "h < num" and T: "set ts \<subseteq> {..<num}"
  shows "compute_loop_body_multi h ts pred_rows = Some (natural_body (\<lambda>p b. p \<in> set (row pred_rows b)) h (set ts))"
proof -
  obtain s wl where start: "foldl (push_new hash_insert) ({h}, []) ts = (s, wl)"
    by fastforce
  have "hash.body_inv num pred_rows h (set ts) (s, wl)"
    using hash.start_inv [of num "{h}" h ts pred_rows] h T start by simp
  from hash.grow_body_ok [OF rows _ this] show ?thesis
    by (simp add: compute_loop_body_multi_def start)
qed

lemma compute_loop_body_ok:
  assumes rows: "\<And>b. b < num \<Longrightarrow> set (row pred_rows b) \<subseteq> {..<num}" and h: "h < num" and t: "t < num"
  shows "compute_loop_body h t pred_rows = Some (natural_body (\<lambda>p b. p \<in> set (row pred_rows b)) h {t})"
proof (cases "h = t")
  case True
  have "natural_body E h {h} = {h}" for E
    by (auto simp: natural_body_def dest: reach_last)
  then show ?thesis
    using True by (simp add: compute_loop_body_def)
next
  case False
  then have "compute_loop_body h t pred_rows = compute_loop_body_multi h [t] pred_rows"
    by (simp add: compute_loop_body_def compute_loop_body_multi_def push_new_def hash_insert_def)
  then show ?thesis
    using compute_loop_body_multi_ok [OF rows h, of "[t]"] t by simp
qed

lemma compute_loop_body_multi_bitset_ok:
  assumes rows: "\<And>b. b < num \<Longrightarrow> set (row pred_rows b) \<subseteq> {..<num}" and h: "h < num" and T: "set ts \<subseteq> {..<num}"
  shows "\<exists>bs. compute_loop_body_multi_bitset h ts pred_rows num = Some bs \<and>
    members bs = natural_body (\<lambda>p b. p \<in> set (row pred_rows b)) h (set ts)"
proof -
  obtain new s0 where s0: "bitset_insert h (new_bitset num) = (new, s0)"
    by fastforce
  have n: "num_bits (new_bitset num) = num"
    by (simp add: new_bitset_def)
  have ok: "bitset_ok s0 \<and> num_bits s0 = num" "members s0 = {h}"
    using bitset_insert_ok [OF new_bitset_ok s0] n h members_new by auto
  obtain s wl where start: "foldl (push_new bitset_insert) (s0, []) ts = (s, wl)"
    by fastforce
  have "bits.body_inv num num pred_rows h (set ts) (s, wl)"
    using bits.start_inv [OF _ ok h T, of pred_rows] start by simp
  from bits.grow_body_ok [OF rows _ this] show ?thesis
    by (auto simp: compute_loop_body_multi_bitset_def start s0)
qed

subsection \<open>Loops of a graph\<close>

record NaturalLoop =
  header :: nat
  body :: "nat set"

definition is_back_edge :: "nat \<Rightarrow> DominanceChecker \<Rightarrow> nat \<Rightarrow> nat \<Rightarrow> bool" where
  "is_back_edge num checker tail head \<longleftrightarrow> head < num \<and> checker_dominates checker head tail"

definition add_loop :: "nat \<Rightarrow> FlatAdj \<Rightarrow> DominanceChecker \<Rightarrow> nat \<Rightarrow> nat \<Rightarrow> NaturalLoop list \<Rightarrow> NaturalLoop list option" where
  "add_loop num pred_rows checker tail head loops =
     (if is_back_edge num checker tail head
      then do { b \<leftarrow> compute_loop_body head tail pred_rows; Some (loops @ [\<lparr>header = head, body = b\<rparr>]) }
      else Some loops)"

definition find_natural_loops :: "nat \<Rightarrow> FlatAdj \<Rightarrow> FlatAdj \<Rightarrow> nat option list \<Rightarrow> NaturalLoop list option" where
  "find_natural_loops num pred_rows succs idom =
     (if num = 0 then Some []
      else do {
        checker \<leftarrow> new_checker num idom;
        fold_option (\<lambda>tail. fold_option (add_loop num pred_rows checker tail) (row succs tail)) [0..<num] []
      })"

definition add_tail :: "nat \<Rightarrow> DominanceChecker \<Rightarrow> nat \<Rightarrow> (nat \<rightharpoonup> nat list) \<Rightarrow> nat \<Rightarrow> (nat \<rightharpoonup> nat list)" where
  "add_tail num checker tail m head =
     (if is_back_edge num checker tail head
      then m(head \<mapsto> (case m head of None \<Rightarrow> [] | Some tails \<Rightarrow> tails) @ [tail])
      else m)"

definition header_to_tails :: "nat \<Rightarrow> FlatAdj \<Rightarrow> DominanceChecker \<Rightarrow> (nat \<rightharpoonup> nat list)" where
  "header_to_tails num succs checker =
     foldl (\<lambda>m tail. foldl (add_tail num checker tail) m (row succs tail)) Map.empty [0..<num]"

definition merged_loop :: "nat \<Rightarrow> FlatAdj \<Rightarrow> (nat \<rightharpoonup> nat list) \<Rightarrow> nat \<Rightarrow> NaturalLoop list \<Rightarrow> NaturalLoop list option" where
  "merged_loop num pred_rows m head result =
     do {
       bs \<leftarrow> compute_loop_body_multi_bitset head (the (m head)) pred_rows num;
       b \<leftarrow> to_hash_set bs;
       Some (result @ [\<lparr>header = head, body = b\<rparr>])
     }"

text \<open>The keys of a map, all of them below a bound, sorted.\<close>

definition sorted_keys :: "nat \<Rightarrow> (nat \<rightharpoonup> 'v) \<Rightarrow> nat list" where
  "sorted_keys num m = filter (\<lambda>h. m h \<noteq> None) [0..<num]"

lemma sorted_keys_dom:
  assumes "dom m \<subseteq> {..<num}" shows "sorted_keys num m = sorted_list_of_set (dom m)"
proof -
  have "set (sorted_keys num m) = dom m"
    using assms by (auto simp: sorted_keys_def)
  moreover have "sorted (sorted_keys num m)" "distinct (sorted_keys num m)"
    by (simp_all add: sorted_keys_def sorted_wrt_filter)
  ultimately show ?thesis
    by (metis sorted_list_of_set.idem_if_sorted_distinct)
qed

definition find_merged_natural_loops :: "nat \<Rightarrow> FlatAdj \<Rightarrow> FlatAdj \<Rightarrow> nat option list \<Rightarrow> NaturalLoop list option" where
  "find_merged_natural_loops num pred_rows succs idom =
     (if num = 0 then Some []
      else do {
        checker \<leftarrow> new_checker num idom;
        let m = header_to_tails num succs checker;
        fold_option (merged_loop num pred_rows m) (sorted_keys num m) []
      })"

fun unique_headers :: "nat set \<Rightarrow> NaturalLoop list \<Rightarrow> bool" where
  "unique_headers seen [] = True"
| "unique_headers seen (nl # loops) = (if header nl \<in> seen then False else unique_headers (insert (header nl) seen) loops)"

definition header_map :: "NaturalLoop list \<Rightarrow> (nat \<rightharpoonup> nat set)" where
  "header_map loops =
     foldl (\<lambda>m nl. m(header nl \<mapsto> (case m (header nl) of None \<Rightarrow> {} | Some b \<Rightarrow> b) \<union> body nl)) Map.empty loops"

definition merge_loops_by_header :: "NaturalLoop list \<Rightarrow> NaturalLoop list" where
  "merge_loops_by_header loops =
     (if length loops \<le> 1 then loops
      else if unique_headers {} loops then sort_key header loops
      else map (\<lambda>h. \<lparr>header = h, body = the (header_map loops h)\<rparr>) (sort (remdups (map header loops))))"

subsection \<open>Both searches in terms of the back edges\<close>

definition back_edges :: "nat \<Rightarrow> FlatAdj \<Rightarrow> DominanceChecker \<Rightarrow> (nat \<times> nat) list" where
  "back_edges num succs checker =
     concat (map (\<lambda>t. map (\<lambda>h. (h, t)) (filter (is_back_edge num checker t) (row succs t))) [0..<num])"

lemma set_back_edges:
  "(h, t) \<in> set (back_edges num succs checker) \<longleftrightarrow> t < num \<and> h \<in> set (row succs t) \<and> is_back_edge num checker t h"
  by (force simp: back_edges_def)

definition loop_of :: "FlatAdj \<Rightarrow> nat \<Rightarrow> nat set \<Rightarrow> NaturalLoop" where
  "loop_of pred_rows h T = \<lparr>header = h, body = natural_body (\<lambda>p b. p \<in> set (row pred_rows b)) h T\<rparr>"

definition tails_of :: "(nat \<times> nat) list \<Rightarrow> nat \<Rightarrow> nat list" where
  "tails_of edges h = map snd (filter (\<lambda>e. fst e = h) edges)"

lemma set_tails_of: "set (tails_of edges h) = {t. (h, t) \<in> set edges}"
  by (force simp: tails_of_def)

lemma fold_option_concat:
  "fold_option (\<lambda>x. fold_option (f x) (g x)) xs s = fold_option (\<lambda>(x, y). f x y) (concat (map (\<lambda>x. map (Pair x) (g x)) xs)) s"
proof (induction xs arbitrary: s)
  case (Cons x xs)
  have "fold_option (\<lambda>(x, y). f x y) (map (Pair x) ys) s = fold_option (f x) ys s" for ys s
    by (induction ys arbitrary: s) (auto split: Option.bind_splits)
  then show ?case
    using Cons by (auto simp: fold_option_append split: option.splits Option.bind_splits)
qed simp

lemma foldl_concat_edges:
  "foldl (\<lambda>m x. foldl (f x) m (g x)) m xs = foldl (\<lambda>m (x, y). f x m y) m (concat (map (\<lambda>x. map (Pair x) (g x)) xs))"
proof (induction xs arbitrary: m)
  case (Cons x xs)
  have "foldl (\<lambda>m (x, y). f x m y) m (map (Pair x) ys) = foldl (f x) m ys" for ys m
    by (induction ys arbitrary: m) auto
  then show ?case
    using Cons by simp
qed simp

lemma back_edges_filter:
  "back_edges num succs checker =
     map prod.swap (filter (\<lambda>(t, h). is_back_edge num checker t h) (concat (map (\<lambda>t. map (Pair t) (row succs t)) [0..<num])))"
  by (simp add: back_edges_def filter_concat map_concat comp_def filter_map)

lemma add_loops_ok:
  assumes rows: "\<And>b. b < num \<Longrightarrow> set (row pred_rows b) \<subseteq> {..<num}" and ts: "\<forall>(t, h) \<in> set es. t < num"
  shows "fold_option (\<lambda>(t, h). add_loop num pred_rows checker t h) es loops =
    Some (loops @ map (\<lambda>(t, h). loop_of pred_rows h {t}) (filter (\<lambda>(t, h). is_back_edge num checker t h) es))"
  using ts
proof (induction es arbitrary: loops)
  case (Cons e es)
  obtain t h where e: "e = (t, h)"
    by (cases e)
  show ?case
  proof (cases "is_back_edge num checker t h")
    case True
    then have "compute_loop_body h t pred_rows = Some (body (loop_of pred_rows h {t}))"
      using compute_loop_body_ok [OF rows, of h t] Cons.prems e by (simp add: loop_of_def is_back_edge_def)
    then show ?thesis
      using Cons True e by (simp add: add_loop_def loop_of_def)
  next
    case False
    then show ?thesis
      using Cons e by (simp add: add_loop_def)
  qed
qed simp

lemma find_natural_loops_eq:
  assumes rows: "\<And>b. b < num \<Longrightarrow> set (row pred_rows b) \<subseteq> {..<num}" and num: "0 < num"
    and checker: "new_checker num idom = Some checker"
  shows "find_natural_loops num pred_rows succs idom =
    Some (map (\<lambda>(h, t). loop_of pred_rows h {t}) (back_edges num succs checker))"
proof -
  have "\<forall>(t, h) \<in> set (concat (map (\<lambda>t. map (Pair t) (row succs t)) [0..<num])). t < num"
    by auto
  from add_loops_ok [OF rows this, of checker "[]"] show ?thesis
    using num checker
    by (simp add: find_natural_loops_def fold_option_concat back_edges_filter comp_def case_prod_unfold)
qed

lemma header_to_tails_eq:
  "header_to_tails num succs checker h =
     (if tails_of (back_edges num succs checker) h = [] then None else Some (tails_of (back_edges num succs checker) h))"
proof -
  let ?tails = "\<lambda>es. tails_of (map prod.swap (filter (\<lambda>(t, h). is_back_edge num checker t h) es)) h"
  have "foldl (\<lambda>m (t, h). add_tail num checker t m h) Map.empty es h = (if ?tails es = [] then None else Some (?tails es))"
    for es
  proof (induction es rule: rev_induct)
    case (snoc e es)
    then show ?case
      by (cases e) (auto simp: add_tail_def tails_of_def)
  qed (simp add: tails_of_def)
  then show ?thesis
    by (simp add: header_to_tails_def foldl_concat_edges back_edges_filter)
qed

lemma dom_header_to_tails: "dom (header_to_tails num succs checker) = fst ` set (back_edges num succs checker)"
proof -
  have "tails_of es h = [] \<longleftrightarrow> h \<notin> fst ` set es" for es h
    by (auto simp: tails_of_def filter_empty_conv)
  then show ?thesis
    by (simp add: dom_def header_to_tails_eq)
qed

lemma back_edges_bounds: "(h, t) \<in> set (back_edges num succs checker) \<Longrightarrow> h < num \<and> t < num"
  by (auto simp: back_edges_def is_back_edge_def)

lemma merged_loops_ok:
  assumes rows: "\<And>b. b < num \<Longrightarrow> set (row pred_rows b) \<subseteq> {..<num}"
    and m: "\<And>h. h \<in> set hs \<Longrightarrow> h < num \<and> m h = Some (ts h) \<and> set (ts h) \<subseteq> {..<num}"
  shows "fold_option (merged_loop num pred_rows m) hs loops = Some (loops @ map (\<lambda>h. loop_of pred_rows h (set (ts h))) hs)"
  using m
proof (induction hs arbitrary: loops)
  case (Cons h hs)
  then have h: "h < num" "m h = Some (ts h)" "set (ts h) \<subseteq> {..<num}"
    by auto
  obtain bs where bs: "compute_loop_body_multi_bitset h (ts h) pred_rows num = Some bs"
      "members bs = natural_body (\<lambda>p b. p \<in> set (row pred_rows b)) h (set (ts h))"
    using compute_loop_body_multi_bitset_ok [OF rows h(1,3)] by blast
  then show ?case
    using Cons h(2) by (simp add: merged_loop_def to_hash_set_members loop_of_def)
qed simp

lemma find_merged_eq:
  assumes rows: "\<And>b. b < num \<Longrightarrow> set (row pred_rows b) \<subseteq> {..<num}" and num: "0 < num"
    and checker: "new_checker num idom = Some checker" and edges: "edges = back_edges num succs checker"
  shows "find_merged_natural_loops num pred_rows succs idom =
    Some (map (\<lambda>h. loop_of pred_rows h {t. (h, t) \<in> set edges}) (sorted_list_of_set (fst ` set edges)))"
proof -
  let ?hs = "sorted_list_of_set (fst ` set edges)"
  have *: "h < num \<and> header_to_tails num succs checker h = Some (tails_of edges h) \<and> set (tails_of edges h) \<subseteq> {..<num}"
    if h: "h \<in> set ?hs" for h
  proof -
    obtain t where t: "(h, t) \<in> set edges"
      using h by auto
    then have "tails_of edges h \<noteq> []"
      using set_tails_of [of edges h] by auto
    then show ?thesis
      using back_edges_bounds [of h _ num succs checker] t set_tails_of [of edges h]
      by (auto simp: header_to_tails_eq edges)
  qed
  have "dom (header_to_tails num succs checker) \<subseteq> {..<num}"
    using back_edges_bounds [of _ _ num succs checker] by (auto simp: dom_header_to_tails)
  note keys = sorted_keys_dom [OF this, unfolded dom_header_to_tails]
  note merged = merged_loops_ok [OF rows *, of ?hs "[]", simplified set_tails_of append_Nil]
  then show ?thesis
    using num checker keys by (simp add: find_merged_natural_loops_def Let_def edges)
qed

subsection \<open>Merging\<close>

lemma natural_body_union: "T \<noteq> {} \<Longrightarrow> natural_body E h T = (\<Union>t \<in> T. natural_body E h {t})"
  by (auto simp: natural_body_def)

lemma unique_headers_iff: "unique_headers seen loops \<longleftrightarrow> distinct (map header loops) \<and> header ` set loops \<inter> seen = {}"
  by (induction seen loops rule: unique_headers.induct) auto

lemma sort_key_headers:
  assumes "distinct (map header ls)" and F: "\<And>l. l \<in> set ls \<Longrightarrow> F (header l) = l"
  shows "sort_key header ls = map F (sorted_list_of_set (header ` set ls))"
proof -
  have "distinct (map header (sort_key header ls))"
    using assms(1) by (metis distinct_map inj_on_cong distinct_sort set_sort)
  then have "map header (sort_key header ls) = sorted_list_of_set (header ` set ls)"
    using sorted_list_of_set.idem_if_sorted_distinct [of "map header (sort_key header ls)"] by simp
  moreover have "map (F \<circ> header) (sort_key header ls) = sort_key header ls"
    by (rule map_idI) (simp add: F)
  ultimately show ?thesis
    by (metis map_map)
qed

lemma header_map_eq:
  "header_map (map (\<lambda>(h, t). loop_of pred_rows h {t}) es) h =
     (if tails_of es h = [] then None else Some (body (loop_of pred_rows h (set (tails_of es h)))))"
  unfolding header_map_def
proof (induction es rule: rev_induct)
  case Nil
  then show ?case
    by (simp add: tails_of_def)
next
  case (snoc e es)
  obtain h' t where e: "e = (h', t)"
    by (cases e)
  show ?case
  proof (cases "h' = h")
    case True
    let ?N = "natural_body (\<lambda>p b. p \<in> set (row pred_rows b)) h"
    have snoc_tails: "tails_of (es @ [e]) h = tails_of es h @ [t]"
      using e True by (simp add: tails_of_def)
    have "?N (insert t T) = ?N T \<union> ?N {t}" if "T \<noteq> {}" for T
      using natural_body_union [of "insert t T" _ h] natural_body_union [OF that, of _ h] by auto
    then show ?thesis
      using snoc.IH e True by (simp add: snoc_tails [unfolded e True] loop_of_def)
  next
    case False
    then show ?thesis
      using snoc.IH e by (simp add: tails_of_def loop_of_def)
  qed
qed

lemma merge_loops_ok:
  "merge_loops_by_header (map (\<lambda>(h, t). loop_of pred_rows h {t}) es) =
     map (\<lambda>h. loop_of pred_rows h {t. (h, t) \<in> set es}) (sorted_list_of_set (fst ` set es))"
proof -
  let ?ls = "map (\<lambda>(h, t). loop_of pred_rows h {t}) es" and ?F = "\<lambda>h. loop_of pred_rows h {t. (h, t) \<in> set es}"
  have headers: "map header ?ls = map fst es" "header ` set ?ls = fst ` set es"
    by (force simp: loop_of_def)+
  have sorted: "sort_key header ?ls = map ?F (sorted_list_of_set (fst ` set es))" if d: "distinct (map header ?ls)"
  proof -
    have one: "{t'. (h, t') \<in> set es} = {t}" if "(h, t) \<in> set es" for h t
      using d that unfolding headers distinct_map inj_on_def by fastforce
    have "?F (header l) = l" if "l \<in> set ?ls" for l
      using that one by (force simp: loop_of_def)
    from sort_key_headers [OF d this] show ?thesis
      unfolding headers(2) by simp
  qed
  show ?thesis
  proof (cases "length ?ls \<le> 1 \<or> unique_headers {} ?ls")
    case True
    then have d: "distinct (map header ?ls)"
    proof
      assume "length ?ls \<le> 1"
      then show ?thesis
        by (cases es) auto
    qed (simp add: unique_headers_iff)
    moreover have "merge_loops_by_header ?ls = sort_key header ?ls"
    proof (cases "length ?ls \<le> 1")
      case True
      then show ?thesis
        by (cases es) (auto simp: merge_loops_by_header_def)
    qed (use \<open>length ?ls \<le> 1 \<or> unique_headers {} ?ls\<close> in \<open>simp add: merge_loops_by_header_def\<close>)
    ultimately show ?thesis
      using sorted by simp
  next
    case False
    have "tails_of es h = [] \<longleftrightarrow> h \<notin> fst ` set es" for h
      by (auto simp: tails_of_def filter_empty_conv)
    have "sort (remdups (map header ?ls)) = sorted_list_of_set (fst ` set es)"
      unfolding sorted_list_of_set_sort_remdups [symmetric] headers(1) by simp
    then have "merge_loops_by_header ?ls = map (\<lambda>h. \<lparr>header = h, body = the (header_map ?ls h)\<rparr>) (sorted_list_of_set (fst ` set es))"
      using False by (simp add: merge_loops_by_header_def)
    also have "\<dots> = map ?F (sorted_list_of_set (fst ` set es))"
    proof (rule map_cong [OF refl])
      fix h
      assume "h \<in> set (sorted_list_of_set (fst ` set es))"
      then have "tails_of es h \<noteq> []"
        using \<open>tails_of es h = [] \<longleftrightarrow> h \<notin> fst ` set es\<close> by simp
      then show "\<lparr>header = h, body = the (header_map ?ls h)\<rparr> = ?F h"
        unfolding header_map_eq by (simp add: loop_of_def set_tails_of)
    qed
    finally show ?thesis .
  qed
qed

subsection \<open>The loops of a function\<close>

definition loop_edge :: "(nat \<Rightarrow> nat \<Rightarrow> bool) \<Rightarrow> nat \<Rightarrow> nat \<Rightarrow> bool" where
  "loop_edge E t h \<longleftrightarrow> E t h \<and> (h = t \<or> reachable E 0 t \<and> dominates E 0 h t)"

lemma natural_body_dominated:
  assumes T: "\<And>t. t \<in> T \<Longrightarrow> loop_edge E t h" and b: "b \<in> natural_body E h T" and r: "reachable E 0 b"
  shows "dominates E 0 h b"
proof (cases "b = h \<or> h = 0")
  case False
  then obtain t where t: "t \<in> T" "reach E (\<lambda>v. v \<noteq> h) b t"
    using b by (auto simp: natural_body_def)
  then have "t \<noteq> h"
    using reach_last [OF t(2)] False by auto
  then have dom: "dominates E 0 h t"
    using T [OF t(1)] by (auto simp: loop_edge_def)
  show ?thesis
    unfolding dominates_reach
  proof (rule disjI2, rule notI)
    assume "reach E (\<lambda>v. v \<noteq> h) 0 b"
    from reach_trans [OF this t(2)] show False
      using dom False by (simp add: dominates_reach)
  qed
qed (auto simp: dominates_refl)

lemma natural_body_bound:
  assumes "\<And>p b. E p b \<Longrightarrow> p < num \<and> b < num" and "h < num" and "T \<subseteq> {..<num}"
  shows "natural_body E h T \<subseteq> {..<num}"
  by (rule natural_body_least) (use assms in auto)

lemma natural_body_cong:
  assumes "\<And>p b. b < num \<Longrightarrow> E p b \<longleftrightarrow> E' p b" and "\<And>p b. E' p b \<Longrightarrow> p < num \<and> b < num"
    and "h < num" and "T \<subseteq> {..<num}"
  shows "natural_body E h T = natural_body E' h T"
proof
  have bound: "b < num" if "b \<in> natural_body E' h T" for b
    using natural_body_bound [of E' num h T] assms(2-4) that by auto
  have h: "h \<in> natural_body F h T" "T \<subseteq> natural_body F h T" for F
    by (auto simp: natural_body_def intro: reach_refl)
  show "natural_body E h T \<subseteq> natural_body E' h T"
    by (rule natural_body_least [OF h]) (use natural_body_pred [of _ E' h T] assms(1) bound in blast)
  show "natural_body E' h T \<subseteq> natural_body E h T"
    by (rule natural_body_least [OF h]) (use natural_body_pred [of _ E h T] assms(1,2) in blast)
qed

lemma find_loops_parts:
  assumes "blocks \<noteq> []"
  obtains cfg edges where "build_analysis blocks = Some cfg" and "num_blocks cfg = length blocks"
    and "set edges = {(h, t). loop_edge (function_edge blocks) t h}" and "set edges \<subseteq> {..<length blocks} \<times> {..<length blocks}"
    and "find_natural_loops (length blocks) (cfg_preds cfg) (cfg_succs cfg) (cfg_idom cfg) =
      Some (map (\<lambda>(h, t). loop_of (cfg_preds cfg) h {t}) edges)"
    and "find_merged_natural_loops (length blocks) (cfg_preds cfg) (cfg_succs cfg) (cfg_idom cfg) =
      Some (map (\<lambda>h. loop_of (cfg_preds cfg) h {t. (h, t) \<in> set edges}) (sorted_list_of_set (fst ` set edges)))"
    and "\<And>h T. h < length blocks \<Longrightarrow> T \<subseteq> {..<length blocks} \<Longrightarrow>
      body (loop_of (cfg_preds cfg) h T) = natural_body (function_edge blocks) h T"
proof -
  obtain pred_rows succs idom children where g: "build_cfg blocks (build_label_map blocks) = (pred_rows, succs)"
    and cfg: "build_analysis blocks = Some \<lparr>cfg_preds = pred_rows, cfg_succs = succs, cfg_idom = idom, dom_children = children,
      num_blocks = length blocks\<rparr>"
    and idom: "idom_of (length blocks) succs idom" and E: "block_edge (length blocks) succs = function_edge blocks"
    by (rule build_analysis_parts [OF assms])
  let ?n = "length blocks"
  have n: "0 < ?n"
    using assms by simp
  note G = build_cfg_ok [OF ran_build_label_map assms g]
  have rows: "set (row pred_rows b) \<subseteq> {..<?n}" if "b < ?n" for b
    using G(2) that by (auto simp: preds_ok_def)
  obtain checker where checker: "new_checker ?n idom = Some checker"
      "\<And>a b. checker_dominates checker a b \<longleftrightarrow> a < ?n \<and> b < ?n \<and>
        (a = b \<or> reached ?n succs b \<and> dom_blocks ?n succs a b)"
    using new_checker_ok [OF idom n] by blast
  let ?edges = "back_edges ?n succs checker"
  have bound: "h < ?n \<and> t < ?n" if "function_edge blocks t h" for h t
    using that G(1) unfolding E [symmetric] by (auto simp: block_edge_def succs_ok_def)
  have edge: "t < ?n \<Longrightarrow> h \<in> set (row succs t) \<longleftrightarrow> function_edge blocks t h" for h t
    unfolding E [symmetric] by (simp add: block_edge_def)
  have "(h, t) \<in> set ?edges \<longleftrightarrow> loop_edge (function_edge blocks) t h" for h t
    using checker(2) bound [of t h] edge [of t h]
    unfolding E set_back_edges by (auto simp: is_back_edge_def loop_edge_def)
  then have edges: "set ?edges = {(h, t). loop_edge (function_edge blocks) t h}"
    by auto
  have "body (loop_of pred_rows h T) = natural_body (function_edge blocks) h T" if "h < ?n" "T \<subseteq> {..<?n}" for h T
  proof -
    have "natural_body (\<lambda>p b. p \<in> set (row pred_rows b)) h T = natural_body (function_edge blocks) h T"
    proof (rule natural_body_cong [OF _ _ that])
      show "p \<in> set (row pred_rows b) \<longleftrightarrow> function_edge blocks p b" if "b < ?n" for p b
        using G(2) that unfolding E [symmetric] by (auto simp: preds_ok_def block_edge_def)
      show "p < ?n \<and> b < ?n" if "function_edge blocks p b" for p b
        using bound [OF that] by simp
    qed
    then show ?thesis
      by (simp add: loop_of_def)
  qed
  moreover have "set ?edges \<subseteq> {..<?n} \<times> {..<?n}"
    using back_edges_bounds by auto
  ultimately show thesis
    using that [OF cfg, of ?edges] edges find_natural_loops_eq [OF rows n checker(1), of succs]
      find_merged_eq [OF rows n checker(1) refl, of succs] by simp
qed

text \<open>The loops that the analysis of a function finds, with the rows of its graph.\<close>

lemma function_loops_natural:
  assumes "blocks \<noteq> []"
  obtains cfg loops where "build_analysis blocks = Some cfg" and "num_blocks cfg = length blocks"
    and "find_merged_natural_loops (num_blocks cfg) (cfg_preds cfg) (cfg_succs cfg) (cfg_idom cfg) = Some loops"
    and "\<And>l. l \<in> set loops \<Longrightarrow> header l < length blocks"
    and "\<And>l. l \<in> set loops \<Longrightarrow> body l \<subseteq> {..<length blocks}"
    and "\<And>l. l \<in> set loops \<Longrightarrow> body l = natural_body (function_edge blocks) (header l) {t. loop_edge (function_edge blocks) t (header l)}"
    and "\<And>u. u < length blocks \<Longrightarrow> set (row (cfg_succs cfg) u) = {v. function_edge blocks u v}"
    and "\<And>v. v < length blocks \<Longrightarrow> set (row (cfg_preds cfg) v) = {u. function_edge blocks u v}"
    and "\<And>u v. function_edge blocks u v \<Longrightarrow> u < length blocks \<and> v < length blocks"
proof (rule find_loops_parts [OF assms], goal_cases)
  case (1 cfg edges)
  note result = 1(1) and P = 1(2-)
  let ?E = "function_edge blocks" and ?n = "length blocks"
  let ?hs = "sorted_list_of_set (fst ` set edges)" and ?T = "\<lambda>h. {t. (h, t) \<in> set edges}"
  obtain pred_rows succs where g: "build_cfg blocks (build_label_map blocks) = (pred_rows, succs)"
    and rows: "cfg_preds cfg = pred_rows" "cfg_succs cfg = succs" and E: "block_edge ?n succs = ?E"
    by (rule build_analysis_parts [OF assms]) (use P(1) in auto)
  note G = build_cfg_ok [OF ran_build_label_map assms g]
  have bound: "u < ?n \<and> v < ?n" if "?E u v" for u v
    using that G(1) unfolding E [symmetric] by (auto simp: block_edge_def succs_ok_def)
  have T: "?T h = {t. loop_edge ?E t h}" for h
    using P(3) by auto
  have h: "h < ?n" "?T h \<subseteq> {..<?n}" if "h \<in> set ?hs" for h
    using P(4) that by auto
  have nat: "body (loop_of pred_rows h (?T h)) = natural_body ?E h (?T h)" if "h \<in> set ?hs" for h
    using P(7) [OF h [OF that]] rows(1) by simp
  show ?case
  proof (rule result [of cfg "map (\<lambda>h. loop_of pred_rows h (?T h)) ?hs"])
    show "find_merged_natural_loops (num_blocks cfg) (cfg_preds cfg) (cfg_succs cfg) (cfg_idom cfg) =
        Some (map (\<lambda>h. loop_of pred_rows h (?T h)) ?hs)"
      unfolding P(2) using P(6) rows(1) by simp
    fix l
    assume "l \<in> set (map (\<lambda>h. loop_of pred_rows h (?T h)) ?hs)"
    then obtain k where k: "k \<in> set ?hs" "l = loop_of pred_rows k (?T k)"
      by (metis (no_types, lifting) imageE list.set_map)
    then have hd: "header l = k"
      by (simp add: loop_of_def)
    show "header l < ?n"
      unfolding hd by (rule h(1) [OF k(1)])
    show "body l = natural_body ?E (header l) {t. loop_edge ?E t (header l)}"
      unfolding hd T [symmetric] using nat [OF k(1)] k(2) by simp
    show "body l \<subseteq> {..<?n}"
      using natural_body_bound [OF bound h [OF k(1)]] nat [OF k(1)] k(2) by simp
  next
    show "set (row (cfg_succs cfg) u) = {v. ?E u v}" if "u < ?n" for u
      unfolding rows(2) E [symmetric] using that by (auto simp: block_edge_def)
    show "set (row (cfg_preds cfg) v) = {u. ?E u v}" if "v < ?n" for v
      unfolding rows(1) E [symmetric] using G(2) that by (auto simp: preds_ok_def block_edge_def)
    show "u < ?n \<and> v < ?n" if "?E u v" for u v
      by (rule bound [OF that])
  qed (rule P(1), rule P(2))
qed

text \<open>C25: Both ways of finding loops agree: growing one body per back edge and merging the loops of one header, and growing one body
  per header from all its tails in a bit set, return the same loops in the same order.\<close>
theorem merged_loops_agree:
  assumes "blocks \<noteq> []"
  shows "\<exists>cfg loops. build_analysis blocks = Some cfg \<and>
    find_natural_loops (num_blocks cfg) (cfg_preds cfg) (cfg_succs cfg) (cfg_idom cfg) = Some loops \<and>
    find_merged_natural_loops (num_blocks cfg) (cfg_preds cfg) (cfg_succs cfg) (cfg_idom cfg) = Some (merge_loops_by_header loops)"
  by (rule find_loops_parts [OF assms]) (simp add: merge_loops_ok)

text \<open>C13: The merged loops of a function are its natural loops: one for every header of a back edge, in the order of the headers. A body
  is the header and the blocks that reach a tail without passing through the header. It is entered through the header only, and the header
  dominates its reachable blocks.\<close>
theorem find_merged_natural_loops_exact:
  assumes "blocks \<noteq> []"
  shows "\<exists>cfg loops. build_analysis blocks = Some cfg \<and>
    find_merged_natural_loops (num_blocks cfg) (cfg_preds cfg) (cfg_succs cfg) (cfg_idom cfg) = Some loops \<and>
    map header loops = sorted_list_of_set {h. \<exists>t. loop_edge (function_edge blocks) t h} \<and>
    (\<forall>l \<in> set loops.
       body l = natural_body (function_edge blocks) (header l) {t. loop_edge (function_edge blocks) t (header l)} \<and>
       (\<forall>b \<in> body l. \<forall>p. b \<noteq> header l \<longrightarrow> function_edge blocks p b \<longrightarrow> p \<in> body l) \<and>
       (\<forall>b \<in> body l. reachable (function_edge blocks) 0 b \<longrightarrow> dominates (function_edge blocks) 0 (header l) b))"
proof (rule find_loops_parts [OF assms], goal_cases)
  case (1 cfg edges)
  let ?E = "function_edge blocks" and ?loop = "\<lambda>h. loop_of (cfg_preds cfg) h {t. (h, t) \<in> set edges}"
  have headers: "fst ` set edges = {h. \<exists>t. loop_edge ?E t h}" "{t. (h, t) \<in> set edges} = {t. loop_edge ?E t h}" for h
    unfolding 1(3) by force+
  have finite: "finite {h. \<exists>t. loop_edge ?E t h}"
    unfolding headers(1) [symmetric] by simp
  have facts: "body (?loop h) = natural_body ?E h {t. loop_edge ?E t h} \<and>
      (\<forall>b \<in> body (?loop h). \<forall>p. b \<noteq> h \<longrightarrow> ?E p b \<longrightarrow> p \<in> body (?loop h)) \<and>
      (\<forall>b \<in> body (?loop h). reachable ?E 0 b \<longrightarrow> dominates ?E 0 h b)" if e: "\<exists>t. loop_edge ?E t h" for h
  proof -
    obtain t where "(h, t) \<in> set edges"
      using 1(3) e by auto
    then have "body (?loop h) = natural_body ?E h {t. loop_edge ?E t h}"
      using 1(7) [of h "{t. (h, t) \<in> set edges}"] 1(4) headers(2) by auto
    then show ?thesis
      using natural_body_pred [of _ ?E h "{t. loop_edge ?E t h}"]
        natural_body_dominated [of "{t. loop_edge ?E t h}" ?E h] by simp
  qed
  have header: "header (?loop h) = h" "map header (map ?loop hs) = hs" for h hs
    by (simp_all add: loop_of_def comp_def)
  show ?case
  proof (intro exI conjI ballI allI impI)
    show "build_analysis blocks = Some cfg"
      by (rule 1(1))
    show "find_merged_natural_loops (num_blocks cfg) (cfg_preds cfg) (cfg_succs cfg) (cfg_idom cfg) =
        Some (map ?loop (sorted_list_of_set (fst ` set edges)))"
      unfolding 1(2) by (rule 1(6))
    show "map header (map ?loop (sorted_list_of_set (fst ` set edges))) = sorted_list_of_set {h. \<exists>t. loop_edge ?E t h}"
      unfolding header(2) headers(1) ..
    fix l
    assume "l \<in> set (map ?loop (sorted_list_of_set (fst ` set edges)))"
    then obtain h where h: "l = ?loop h" "\<exists>t. loop_edge ?E t h"
      unfolding headers(1) using finite by auto
    show "body l = natural_body ?E (header l) {t. loop_edge ?E t (header l)}"
      using facts [OF h(2)] unfolding h(1) header(1) by blast
    show "p \<in> body l" if "b \<in> body l" "b \<noteq> header l" "?E p b" for b p
      using facts [OF h(2)] that unfolding h(1) header(1) by blast
    show "dominates ?E 0 (header l) b" if "b \<in> body l" "reachable ?E 0 b" for b
      using facts [OF h(2)] that unfolding h(1) header(1) by blast
  qed
qed

definition two_latches :: "unit BasicBlock list" where
  "two_latches =
     [\<lparr>label = 20, instructions = [], terminator = Branch 21\<rparr>,
      \<lparr>label = 21, instructions = [], terminator = CondBranch (Value 1) 22 24\<rparr>,
      \<lparr>label = 22, instructions = [], terminator = CondBranch (Value 2) 21 23\<rparr>,
      \<lparr>label = 23, instructions = [], terminator = Branch 21\<rparr>,
      \<lparr>label = 24, instructions = [], terminator = Return None\<rparr>]"

definition function_loops :: "unit BasicBlock list \<Rightarrow> (NaturalLoop list \<times> NaturalLoop list) option" where
  "function_loops blocks =
     do {
       cfg \<leftarrow> build_analysis blocks;
       loops \<leftarrow> find_natural_loops (num_blocks cfg) (cfg_preds cfg) (cfg_succs cfg) (cfg_idom cfg);
       merged \<leftarrow> find_merged_natural_loops (num_blocks cfg) (cfg_preds cfg) (cfg_succs cfg) (cfg_idom cfg);
       Some (loops, merged)
     }"

lemma two_latches_loops:
  "function_loops two_latches =
     Some ([\<lparr>header = 1, body = {1, 2}\<rparr>, \<lparr>header = 1, body = {1, 2, 3}\<rparr>], [\<lparr>header = 1, body = {1, 2, 3}\<rparr>])"
  by code_simp

lemma two_latches_found:
  assumes "build_analysis two_latches = Some cfg"
    and "find_natural_loops (num_blocks cfg) (cfg_preds cfg) (cfg_succs cfg) (cfg_idom cfg) = Some loops"
    and "find_merged_natural_loops (num_blocks cfg) (cfg_preds cfg) (cfg_succs cfg) (cfg_idom cfg) = Some merged"
  shows "loops = [\<lparr>header = 1, body = {1, 2}\<rparr>, \<lparr>header = 1, body = {1, 2, 3}\<rparr>]"
    and "merged = [\<lparr>header = 1, body = {1, 2, 3}\<rparr>]"
  using two_latches_loops assms by (simp_all add: function_loops_def)

theorem merged_loops_agree_witness:
  "two_latches \<noteq> [] \<and> (\<exists>cfg loops. build_analysis two_latches = Some cfg \<and>
     find_natural_loops (num_blocks cfg) (cfg_preds cfg) (cfg_succs cfg) (cfg_idom cfg) = Some loops \<and>
     length loops = 2 \<and> merge_loops_by_header loops = [\<lparr>header = 1, body = {1, 2, 3}\<rparr>])"
proof
  show n: "two_latches \<noteq> []"
    by (simp add: two_latches_def)
  obtain cfg loops where l: "build_analysis two_latches = Some cfg"
      "find_natural_loops (num_blocks cfg) (cfg_preds cfg) (cfg_succs cfg) (cfg_idom cfg) = Some loops"
      "find_merged_natural_loops (num_blocks cfg) (cfg_preds cfg) (cfg_succs cfg) (cfg_idom cfg) = Some (merge_loops_by_header loops)"
    using merged_loops_agree [OF n] by blast
  then show "\<exists>cfg loops. build_analysis two_latches = Some cfg \<and>
      find_natural_loops (num_blocks cfg) (cfg_preds cfg) (cfg_succs cfg) (cfg_idom cfg) = Some loops \<and>
      length loops = 2 \<and> merge_loops_by_header loops = [\<lparr>header = 1, body = {1, 2, 3}\<rparr>]"
    using two_latches_found [OF l] by auto
qed

theorem find_merged_natural_loops_exact_witness:
  "two_latches \<noteq> [] \<and> (\<exists>cfg loops. build_analysis two_latches = Some cfg \<and>
     find_merged_natural_loops (num_blocks cfg) (cfg_preds cfg) (cfg_succs cfg) (cfg_idom cfg) = Some loops \<and>
     sorted_list_of_set {h. \<exists>t. loop_edge (function_edge two_latches) t h} = map header loops \<and> (\<exists>l \<in> set loops. header l = 1 \<and>
       natural_body (function_edge two_latches) 1 {t. loop_edge (function_edge two_latches) t 1} = body l))"
proof
  show n: "two_latches \<noteq> []"
    by (simp add: two_latches_def)
  obtain cfg merged where m: "build_analysis two_latches = Some cfg"
      "find_merged_natural_loops (num_blocks cfg) (cfg_preds cfg) (cfg_succs cfg) (cfg_idom cfg) = Some merged"
      "map header merged = sorted_list_of_set {h. \<exists>t. loop_edge (function_edge two_latches) t h}"
      "\<forall>l \<in> set merged. body l = natural_body (function_edge two_latches) (header l)
         {t. loop_edge (function_edge two_latches) t (header l)}"
    using find_merged_natural_loops_exact [OF n] by blast
  moreover obtain loops where "find_natural_loops (num_blocks cfg) (cfg_preds cfg) (cfg_succs cfg) (cfg_idom cfg) = Some loops"
    using two_latches_loops m(1,2) by (auto simp: function_loops_def split: Option.bind_splits)
  ultimately have "merged = [\<lparr>header = 1, body = {1, 2, 3}\<rparr>]"
    using two_latches_found(2) by blast
  then show "\<exists>cfg loops. build_analysis two_latches = Some cfg \<and>
      find_merged_natural_loops (num_blocks cfg) (cfg_preds cfg) (cfg_succs cfg) (cfg_idom cfg) = Some loops \<and>
      sorted_list_of_set {h. \<exists>t. loop_edge (function_edge two_latches) t h} = map header loops \<and> (\<exists>l \<in> set loops. header l = 1 \<and>
        natural_body (function_edge two_latches) 1 {t. loop_edge (function_edge two_latches) t 1} = body l)"
    using m by auto
qed

end
