(* ===== verification/LoopNesting.thy ===== *)
theory LoopNesting
  imports NaturalLoops
begin

text \<open>
  The hierarchy of the loops of a function, \<open>LoopNest::analyze\<close> of \<^verbatim>\<open>src/src/passes/loop_analysis.rs\<close>: the smallest loop around each
  loop is its parent, a block belongs to the smallest loop that contains it, and its depth is the number of parents up.
\<close>

subsection \<open>The analysis\<close>

record LoopNest =
  nest_loops :: "NaturalLoop list"
  nest_parent :: "nat option list"
  nest_children :: "nat list list"
  block_to_loop :: "nat option list"
  block_depth :: "nat list"

definition consider_parent :: "NaturalLoop list \<Rightarrow> nat \<Rightarrow> nat option \<Rightarrow> nat \<Rightarrow> nat option" where
  "consider_parent loops b smallest a =
     (if a = b then smallest
      else if card (body (loops ! b)) < card (body (loops ! a)) \<and> body (loops ! b) \<subseteq> body (loops ! a)
      then (case smallest of
              None \<Rightarrow> Some a
            | Some p \<Rightarrow> if card (body (loops ! a)) < card (body (loops ! p)) then Some a else smallest)
      else smallest)"

definition smallest_parent :: "NaturalLoop list \<Rightarrow> nat \<Rightarrow> nat option" where
  "smallest_parent loops b = foldl (consider_parent loops b) None [0..<length loops]"

definition link_parent :: "NaturalLoop list \<Rightarrow> nat option list \<times> nat list list \<Rightarrow> nat \<Rightarrow> nat option list \<times> nat list list" where
  "link_parent loops st b =
     (case smallest_parent loops b of
        None \<Rightarrow> st
      | Some p \<Rightarrow> ((fst st)[b := Some p], (snd st)[p := snd st ! p @ [b]]))"

definition assign_block :: "NaturalLoop list \<Rightarrow> nat \<Rightarrow> nat option \<Rightarrow> nat \<Rightarrow> nat option" where
  "assign_block loops blk held l =
     (if blk \<in> body (loops ! l) \<and>
         (case held of None \<Rightarrow> True | Some c \<Rightarrow> card (body (loops ! l)) < card (body (loops ! c)))
      then Some l else held)"

text \<open>The blocks of one loop are visited in no fixed order; each of them changes its own entry only.\<close>

definition assign_loop :: "NaturalLoop list \<Rightarrow> nat option list \<Rightarrow> nat \<Rightarrow> nat option list" where
  "assign_loop loops assigned l = map (\<lambda>blk. assign_block loops blk (assigned ! blk) l) [0..<length assigned]"

partial_function (option) depth_walk :: "nat option list \<Rightarrow> nat option \<Rightarrow> nat \<Rightarrow> nat option" where
  [code]: "depth_walk parents held depth =
     (case held of None \<Rightarrow> Some depth | Some l \<Rightarrow> depth_walk parents (parents ! l) (depth + 1))"

definition store_depth :: "nat option list \<Rightarrow> nat option list \<Rightarrow> nat \<Rightarrow> nat list \<Rightarrow> nat list option" where
  "store_depth parents assigned blk depths =
     do { d \<leftarrow> depth_walk parents (assigned ! blk) 0; Some (depths[blk := d]) }"

definition analyze :: "nat \<Rightarrow> NaturalLoop list \<Rightarrow> LoopNest option" where
  "analyze num loops =
     (let k = length loops;
          (parents, children) = foldl (link_parent loops) (replicate k None, replicate k []) [0..<k];
          assigned = foldl (assign_loop loops) (replicate num None) [0..<k]
      in do {
        depths \<leftarrow> fold_option (store_depth parents assigned) [0..<num] (replicate num 0);
        Some \<lparr>nest_loops = loops, nest_parent = parents, nest_children = children, block_to_loop = assigned, block_depth = depths\<rparr>
      })"

definition loop_depth :: "LoopNest \<Rightarrow> nat \<Rightarrow> nat" where
  "loop_depth nest blk = (if blk < length (block_depth nest) then block_depth nest ! blk else 0)"

definition loop_for_block :: "LoopNest \<Rightarrow> nat \<Rightarrow> NaturalLoop option" where
  "loop_for_block nest blk =
     (if blk < length (block_to_loop nest) then map_option ((!) (nest_loops nest)) (block_to_loop nest ! blk) else None)"

definition is_innermost :: "LoopNest \<Rightarrow> nat \<Rightarrow> bool" where
  "is_innermost nest l \<longleftrightarrow> (if l < length (nest_children nest) then nest_children nest ! l = [] else True)"

definition is_outermost :: "LoopNest \<Rightarrow> nat \<Rightarrow> bool" where
  "is_outermost nest l \<longleftrightarrow> (if l < length (nest_parent nest) then nest_parent nest ! l = None else True)"

subsection \<open>Smallest candidates\<close>

text \<open>A scan that keeps the first of the smallest candidates.\<close>

definition smallest_of :: "(nat \<Rightarrow> bool) \<Rightarrow> (nat \<Rightarrow> nat) \<Rightarrow> nat \<Rightarrow> nat option \<Rightarrow> bool" where
  "smallest_of C f m pick \<longleftrightarrow>
     (case pick of
        None \<Rightarrow> \<forall>a < m. \<not> C a
      | Some p \<Rightarrow> p < m \<and> C p \<and> (\<forall>a < m. C a \<longrightarrow> f p \<le> f a))"

lemma smallest_of_Suc:
  assumes "smallest_of C f m pick"
  shows "smallest_of C f (Suc m)
    (if C m \<and> (case pick of None \<Rightarrow> True | Some p \<Rightarrow> f m < f p) then Some m else pick)"
  using assms by (auto simp: smallest_of_def less_Suc_eq split: option.splits)

lemma smallest_parent_ok:
  "smallest_of (\<lambda>a. card (body (loops ! b)) < card (body (loops ! a)) \<and> body (loops ! b) \<subseteq> body (loops ! a))
     (\<lambda>a. card (body (loops ! a))) (length loops) (smallest_parent loops b)"
proof -
  let ?C = "\<lambda>a. card (body (loops ! b)) < card (body (loops ! a)) \<and> body (loops ! b) \<subseteq> body (loops ! a)"
  have "smallest_of ?C (\<lambda>a. card (body (loops ! a))) m (foldl (consider_parent loops b) None [0..<m])" for m
  proof (induction m)
    case (Suc m)
    have "consider_parent loops b pick m =
        (if ?C m \<and> (case pick of None \<Rightarrow> True | Some p \<Rightarrow> card (body (loops ! m)) < card (body (loops ! p))) then Some m else pick)"
      for pick
      by (auto simp: consider_parent_def split: option.splits)
    then show ?case
      using smallest_of_Suc [OF Suc] by simp
  qed (simp add: smallest_of_def)
  then show ?thesis
    by (simp add: smallest_parent_def)
qed

lemma link_parents_ok:
  "m \<le> length loops \<Longrightarrow> \<exists>parents children.
    foldl (link_parent loops) (replicate (length loops) None, replicate (length loops) []) [0..<m] = (parents, children) \<and>
    length parents = length loops \<and> length children = length loops \<and>
    (\<forall>b < length loops. parents ! b = (if b < m then smallest_parent loops b else None)) \<and>
    (\<forall>p < length loops. children ! p = filter (\<lambda>b. smallest_parent loops b = Some p) [0..<m])"
proof (induction m)
  case (Suc m)
  then obtain parents children where st:
      "foldl (link_parent loops) (replicate (length loops) None, replicate (length loops) []) [0..<m] = (parents, children)"
      "length parents = length loops" "length children = length loops"
      "\<forall>b < length loops. parents ! b = (if b < m then smallest_parent loops b else None)"
      "\<forall>p < length loops. children ! p = filter (\<lambda>b. smallest_parent loops b = Some p) [0..<m]"
    by auto
  show ?case
  proof (cases "smallest_parent loops m")
    case None
    then have "link_parent loops (parents, children) m = (parents, children)"
      by (simp add: link_parent_def)
    then show ?thesis
      using st None by (auto simp: less_Suc_eq)
  next
    case (Some p)
    then have "p < length loops"
      using smallest_parent_ok [of loops m] by (simp add: smallest_of_def)
    moreover have "link_parent loops (parents, children) m = (parents[m := Some p], children[p := children ! p @ [m]])"
      using Some by (simp add: link_parent_def)
    ultimately show ?thesis
      using st Some Suc.prems by (auto simp: nth_list_update less_Suc_eq)
  qed
qed simp

lemma assign_loops_ok:
  "\<exists>assigned. foldl (assign_loop loops) (replicate num None) [0..<m] = assigned \<and> length assigned = num \<and>
    (\<forall>blk < num. smallest_of (\<lambda>l. blk \<in> body (loops ! l)) (\<lambda>l. card (body (loops ! l))) m (assigned ! blk))"
proof (induction m)
  case (Suc m)
  then show ?case
    using smallest_of_Suc by (fastforce simp: assign_loop_def assign_block_def)
qed (simp add: smallest_of_def)

subsection \<open>Natural loops are nested\<close>

lemma header_in_body [simp]: "h \<in> natural_body E h T"
  by (simp add: natural_body_def)

lemma natural_body_via:
  assumes T1: "\<And>t. t \<in> T1 \<Longrightarrow> loop_edge E t h1" and T2: "\<And>t. t \<in> T2 \<Longrightarrow> loop_edge E t h2"
    and h: "h1 \<noteq> h2" "dominates E 0 h1 h2" and b: "reachable E 0 b" "b \<in> natural_body E h1 T1" "b \<in> natural_body E h2 T2"
  shows "natural_body E h2 T2 \<subseteq> natural_body E h1 T1"
proof -
  have dom: "dominates E 0 h1 b" "dominates E 0 h2 b"
    using natural_body_dominated [OF T1 b(2,1)] natural_body_dominated [OF T2 b(3,1)] by blast+
  have reached: "reachable E 0 h2" "reachable E 0 h1"
    using dominates_reachable [OF dom(2) b(1)] dominates_reachable [OF dom(1) b(1)] .
  have not_back: "\<not> dominates E 0 h2 h1"
    using dominates_antisym [OF h(2) _ reached(1)] h(1) by blast
  have h2: "h2 \<noteq> 0"
    using h dominates_only_entry [of E 0 h1] by (cases "h2 = 0") auto
  have "b \<noteq> h1"
    using dom(2) not_back by blast
  then obtain t1 where t1: "t1 \<in> T1" "reach E (\<lambda>v. v \<noteq> h1) b t1"
    using b(2) by (auto simp: natural_body_def)
  have down: "reach E (\<lambda>v. v \<noteq> h1) h2 b"
  proof -
    have r: "reach E (\<lambda>_. True) 0 b"
      using b(1) by (simp add: reachable_reach)
    have "\<not> reach E (\<lambda>v. True \<and> v \<noteq> h2) 0 b"
      using dom(2) h2 by (simp add: dominates_reach)
    then have tail: "reach E (\<lambda>v. v \<noteq> h2) h2 b"
      using reach_last_visit [OF r, of "\<lambda>v. v = h2"] by auto
    have "\<not> reach E (\<lambda>v. v \<noteq> h2) h1 b"
    proof
      assume "reach E (\<lambda>v. v \<noteq> h2) h1 b"
      from reach_trans [OF _ this, of 0] show False
        using not_back dom(2) by (auto simp: dominates_reach)
    qed
    then have "reach E (\<lambda>v. v \<noteq> h2 \<and> v \<noteq> h1) h2 b"
      using reach_last_visit [OF tail, of "\<lambda>v. v = h1"] reach_mono [of E _ h1 b "\<lambda>v. v \<noteq> h2"] by blast
    then show ?thesis
      by (rule reach_mono) simp
  qed
  note up = reach_trans [OF down t1(2)]
  show ?thesis
  proof
    fix c
    assume c: "c \<in> natural_body E h2 T2"
    show "c \<in> natural_body E h1 T1"
    proof (cases "c = h2")
      case True
      then show ?thesis
        using up t1(1) by (auto simp: natural_body_def)
    next
      case False
      then obtain t2 where t2: "t2 \<in> T2" "reach E (\<lambda>v. v \<noteq> h2) c t2"
        using c by (auto simp: natural_body_def)
      have out: "h1 \<notin> natural_body E h2 T2"
        using natural_body_dominated [OF T2 _ reached(2)] not_back by blast
      have no_h1: "\<not> reach E (\<lambda>v. v \<noteq> h2) h1 t2"
        using out t2(1) h(1) by (auto simp: natural_body_def)
      have "c \<noteq> h1"
        using out c by blast
      have "reach E (\<lambda>v. v \<noteq> h2 \<and> v \<noteq> h1) c t2"
        using reach_last_visit [OF t2(2), of "\<lambda>v. v = h1"] no_h1 reach_mono [of E _ h1 t2 "\<lambda>v. v \<noteq> h2"] by blast
      then have "reach E (\<lambda>v. v \<noteq> h1) c t2"
        by (rule reach_mono) simp
      moreover have "E t2 h2"
        using T2 [OF t2(1)] by (simp add: loop_edge_def)
      ultimately have "reach E (\<lambda>v. v \<noteq> h1) c h2"
        using reach_step [of E "\<lambda>v. v \<noteq> h1" c t2 h2] h(1) by simp
      from reach_trans [OF this up] show ?thesis
        using t1(1) by (auto simp: natural_body_def)
    qed
  qed
qed

text \<open>The loops that contain a reachable block form a chain, and no two of them have the same body.\<close>

lemma natural_bodies_nested:
  assumes T1: "\<And>t. t \<in> T1 \<Longrightarrow> loop_edge E t h1" and T2: "\<And>t. t \<in> T2 \<Longrightarrow> loop_edge E t h2"
    and h: "h1 \<noteq> h2" and b: "reachable E 0 b" "b \<in> natural_body E h1 T1" "b \<in> natural_body E h2 T2"
  shows "natural_body E h2 T2 \<subset> natural_body E h1 T1 \<or> natural_body E h1 T1 \<subset> natural_body E h2 T2"
proof -
  have dom: "dominates E 0 h1 b" "dominates E 0 h2 b"
    using natural_body_dominated [OF T1 b(2,1)] natural_body_dominated [OF T2 b(3,1)] by blast+
  have "natural_body E h2 T2 \<noteq> natural_body E h1 T1"
  proof
    assume same: "natural_body E h2 T2 = natural_body E h1 T1"
    have "dominates E 0 h1 h2" "dominates E 0 h2 h1"
      using natural_body_dominated [of T1 E h1 h2] natural_body_dominated [of T2 E h2 h1] T1 T2 same
        dominates_reachable [OF dom(1) b(1)] dominates_reachable [OF dom(2) b(1)] header_in_body by metis+
    then show False
      using dominates_antisym [of E 0 h1 h2] dominates_reachable [OF dom(2) b(1)] h by blast
  qed
  moreover have "natural_body E h2 T2 \<subseteq> natural_body E h1 T1 \<or> natural_body E h1 T1 \<subseteq> natural_body E h2 T2"
    using dominates_chain [OF dom b(1)] natural_body_via [OF T1 T2 h _ b] natural_body_via [OF T2 T1 h [symmetric] _ b(1,3,2)] by blast
  ultimately show ?thesis
    by blast
qed

subsection \<open>Depths\<close>

definition parent_candidate :: "NaturalLoop list \<Rightarrow> nat \<Rightarrow> nat \<Rightarrow> bool" where
  "parent_candidate loops l p \<longleftrightarrow> card (body (loops ! l)) < card (body (loops ! p)) \<and> body (loops ! l) \<subseteq> body (loops ! p)"

lemma smallest_parent_None: "smallest_parent loops l = None \<Longrightarrow> p < length loops \<Longrightarrow> \<not> parent_candidate loops l p"
  using smallest_parent_ok [of loops l] by (simp add: smallest_of_def parent_candidate_def)

lemma smallest_parent_Some:
  assumes "smallest_parent loops l = Some p"
  shows "p < length loops" and "parent_candidate loops l p"
    and "q < length loops \<Longrightarrow> parent_candidate loops l q \<Longrightarrow> card (body (loops ! p)) \<le> card (body (loops ! q))"
  using smallest_parent_ok [of loops l] assms by (simp_all add: smallest_of_def parent_candidate_def)

definition parents_of :: "NaturalLoop list \<Rightarrow> nat option list" where
  "parents_of loops = map (smallest_parent loops) [0..<length loops]"

definition children_of :: "NaturalLoop list \<Rightarrow> nat list list" where
  "children_of loops = map (\<lambda>p. filter (\<lambda>b. smallest_parent loops b = Some p) [0..<length loops]) [0..<length loops]"

lemma depth_walk_returns:
  assumes fin: "\<And>i. i < length loops \<Longrightarrow> body (loops ! i) \<subseteq> {..<num}"
  shows "l < length loops \<Longrightarrow> \<exists>r. depth_walk (parents_of loops) (Some l) d = Some r"
proof (induction "num - card (body (loops ! l))" arbitrary: l d rule: less_induct)
  case less
  show ?case
  proof (cases "smallest_parent loops l")
    case None
    then show ?thesis
      using less.prems by (subst depth_walk.simps) (simp add: parents_of_def depth_walk.simps [of _ None])
  next
    case (Some p)
    note P = smallest_parent_Some [OF Some]
    have "card (body (loops ! p)) \<le> num"
      using card_mono [OF _ fin [OF P(1)]] by simp
    then have "num - card (body (loops ! p)) < num - card (body (loops ! l))"
      using P(2) unfolding parent_candidate_def by (elim conjE) linarith
    from less.hyps [OF this P(1)] show ?thesis
      using less.prems Some by (subst depth_walk.simps) (simp add: parents_of_def)
  qed
qed

text \<open>The loops around a block form a chain under strict inclusion.\<close>

definition chain_at :: "NaturalLoop list \<Rightarrow> nat \<Rightarrow> bool" where
  "chain_at loops b \<longleftrightarrow>
     (\<forall>i < length loops. \<forall>j < length loops. i \<noteq> j \<longrightarrow> b \<in> body (loops ! i) \<longrightarrow> b \<in> body (loops ! j) \<longrightarrow>
        body (loops ! i) \<subset> body (loops ! j) \<or> body (loops ! j) \<subset> body (loops ! i))"

lemma depth_walk_chain:
  assumes fin: "\<And>i. i < length loops \<Longrightarrow> body (loops ! i) \<subseteq> {..<num}" and chain: "chain_at loops b"
  shows "l < length loops \<Longrightarrow> b \<in> body (loops ! l) \<Longrightarrow>
    depth_walk (parents_of loops) (Some l) d = Some (d + card {j. j < length loops \<and> body (loops ! l) \<subseteq> body (loops ! j)})"
proof (induction "num - card (body (loops ! l))" arbitrary: l d rule: less_induct)
  case less
  let ?B = "\<lambda>j. body (loops ! j)" and ?up = "\<lambda>l. {j. j < length loops \<and> body (loops ! l) \<subseteq> body (loops ! j)}"
  have finite: "finite (?B i)" if "i < length loops" for i
    using finite_subset [OF fin [OF that]] by simp
  have above: "parent_candidate loops l j" if j: "j \<in> ?up l" "j \<noteq> l" for j
  proof -
    have "?B l \<subset> ?B j \<or> ?B j \<subset> ?B l"
      using chain [unfolded chain_at_def, rule_format, of l j] less.prems j by auto
    then have "?B l \<subset> ?B j"
      using j(1) by auto
    then show ?thesis
      using psubset_card_mono [OF finite] j(1) by (auto simp: parent_candidate_def)
  qed
  show ?case
  proof (cases "smallest_parent loops l")
    case None
    then have "?up l = {l}"
      using above smallest_parent_None less.prems(1) by auto
    then show ?thesis
      using None less.prems by (subst depth_walk.simps) (simp add: parents_of_def depth_walk.simps [of _ None])
  next
    case (Some p)
    note P = smallest_parent_Some [OF Some]
    have up: "?B l \<subseteq> ?B p" "b \<in> ?B p" "p \<noteq> l"
      using P(2) less.prems(2) by (auto simp: parent_candidate_def)
    have "?B p \<subseteq> ?B j" if j: "j \<in> ?up l" "j \<noteq> l" for j
    proof (rule ccontr)
      assume "\<not> ?B p \<subseteq> ?B j"
      then have "?B j \<subset> ?B p"
        using chain P(1) up(2) j less.prems(2) unfolding chain_at_def by blast
      then have "card (?B j) < card (?B p)"
        using psubset_card_mono [OF finite [OF P(1)]] by blast
      then show False
        using P(3) [of j] above [OF j] j(1) by simp
    qed
    then have "?up l = insert l (?up p)"
      using up(1) less.prems(1) by auto
    moreover have "l \<notin> ?up p"
      using P(2) card_mono [OF finite [OF less.prems(1)], of "?B p"] by (auto simp: parent_candidate_def)
    moreover have "card (?B p) \<le> num"
      using card_mono [OF _ fin [OF P(1)]] by simp
    then have "num - card (?B p) < num - card (?B l)"
      using P(2) unfolding parent_candidate_def by (elim conjE) linarith
    ultimately show ?thesis
      using less.hyps [OF _ P(1) up(2), of "d + 1"] less.prems(1) Some
      by (subst depth_walk.simps) (simp add: parents_of_def)
  qed
qed

lemma store_depths_ok:
  assumes "\<And>b. b < num \<Longrightarrow> \<exists>r. depth_walk parents (assigned ! b) 0 = Some r"
  shows "m \<le> num \<Longrightarrow> \<exists>depths. fold_option (store_depth parents assigned) [0..<m] (replicate num 0) = Some depths \<and>
    length depths = num \<and> (\<forall>b < m. depth_walk parents (assigned ! b) 0 = Some (depths ! b))"
proof (induction m)
  case (Suc m)
  then obtain depths where st: "fold_option (store_depth parents assigned) [0..<m] (replicate num 0) = Some depths"
      "length depths = num" "\<forall>b < m. depth_walk parents (assigned ! b) 0 = Some (depths ! b)"
    by auto
  obtain r where "depth_walk parents (assigned ! m) 0 = Some r"
    using assms [of m] Suc.prems by auto
  then have "store_depth parents assigned m depths = Some (depths[m := r])"
    by (simp add: store_depth_def)
  then show ?case
    using st \<open>depth_walk parents (assigned ! m) 0 = Some r\<close> Suc.prems
    by (auto simp: fold_option_append nth_list_update less_Suc_eq)
qed simp

text \<open>The analysis of loops with blocks in range.\<close>

lemma analyze_ok:
  assumes fin: "\<And>i. i < length loops \<Longrightarrow> body (loops ! i) \<subseteq> {..<num}"
  obtains nest where "analyze num loops = Some nest" and "nest_loops nest = loops" and "nest_parent nest = parents_of loops"
    and "nest_children nest = children_of loops"
    and "length (block_to_loop nest) = num" and "length (block_depth nest) = num"
    and "\<And>b. b < num \<Longrightarrow>
      smallest_of (\<lambda>l. b \<in> body (loops ! l)) (\<lambda>l. card (body (loops ! l))) (length loops) (block_to_loop nest ! b)"
    and "\<And>b. b < num \<Longrightarrow> depth_walk (parents_of loops) (block_to_loop nest ! b) 0 = Some (block_depth nest ! b)"
proof -
  obtain parents children where links:
      "foldl (link_parent loops) (replicate (length loops) None, replicate (length loops) []) [0..<length loops] = (parents, children)"
      "length parents = length loops" "\<forall>b < length loops. parents ! b = smallest_parent loops b"
      "length children = length loops"
      "\<forall>p < length loops. children ! p = filter (\<lambda>b. smallest_parent loops b = Some p) [0..<length loops]"
    using link_parents_ok [of "length loops" loops] by auto
  have parents: "parents = parents_of loops"
    using links(2,3) by (auto simp: parents_of_def intro: nth_equalityI)
  have children: "children = children_of loops"
    using links(4,5) by (auto simp: children_of_def intro: nth_equalityI)
  obtain assigned where assigned: "foldl (assign_loop loops) (replicate num None) [0..<length loops] = assigned"
      "length assigned = num"
      "\<forall>b < num. smallest_of (\<lambda>l. b \<in> body (loops ! l)) (\<lambda>l. card (body (loops ! l))) (length loops) (assigned ! b)"
    using assign_loops_ok [of loops num "length loops"] by blast
  have "\<exists>r. depth_walk (parents_of loops) (assigned ! b) 0 = Some r" if "b < num" for b
  proof (cases "assigned ! b")
    case None
    then show ?thesis
      by (simp add: depth_walk.simps)
  next
    case (Some l)
    then have "l < length loops"
      using assigned(3) that by (force simp: smallest_of_def)
    then show ?thesis
      using depth_walk_returns [OF fin] Some by simp
  qed
  from store_depths_ok [OF this le_refl] obtain depths where
    "fold_option (store_depth (parents_of loops) assigned) [0..<num] (replicate num 0) = Some depths" "length depths = num"
    "\<forall>b < num. depth_walk (parents_of loops) (assigned ! b) 0 = Some (depths ! b)"
    by blast
  then show thesis
    using that [of "\<lparr>nest_loops = loops, nest_parent = parents, nest_children = children, block_to_loop = assigned, block_depth = depths\<rparr>"]
      links(1) assigned parents children by (simp add: analyze_def Let_def)
qed

subsection \<open>The nest of a function\<close>

lemma function_loops_shape:
  assumes "blocks \<noteq> []"
  obtains cfg loops where "build_analysis blocks = Some cfg" and "num_blocks cfg = length blocks"
    and "find_merged_natural_loops (num_blocks cfg) (cfg_preds cfg) (cfg_succs cfg) (cfg_idom cfg) = Some loops"
    and "\<And>i. i < length loops \<Longrightarrow> body (loops ! i) \<subseteq> {..<length blocks}"
    and "\<And>b. reachable (function_edge blocks) 0 b \<Longrightarrow> chain_at loops b"
proof (rule find_loops_parts [OF assms], goal_cases)
  case (1 cfg edges)
  note result = 1(1) and P = 1(2-)
  let ?E = "function_edge blocks"
  let ?hs = "sorted_list_of_set (fst ` set edges)" and ?T = "\<lambda>h. {t. (h, t) \<in> set edges}"
  let ?loops = "map (\<lambda>h. loop_of (cfg_preds cfg) h (?T h)) ?hs"
  have tails: "loop_edge ?E t h" if "t \<in> ?T h" for t h
    using P(3) that by auto
  have h: "h < length blocks" "?T h \<subseteq> {..<length blocks}" if "h \<in> set ?hs" for h
    using P(4) that by auto
  have bound: "p < length blocks \<and> b < length blocks" if "?E p b" for p b
    using that ran_build_label_map [of blocks] by (auto simp: function_edge_def ran_def)
  have mem: "?hs ! i \<in> set ?hs" if "i < length ?loops" for i
    using that by (metis length_map nth_mem)
  have body: "body (?loops ! i) = natural_body ?E (?hs ! i) (?T (?hs ! i))" if "i < length ?loops" for i
    using P(7) [OF h [OF mem [OF that]]] that by simp
  show ?case
  proof (rule result)
    show "build_analysis blocks = Some cfg" "num_blocks cfg = length blocks"
      by (rule P(1), rule P(2))
    show "find_merged_natural_loops (num_blocks cfg) (cfg_preds cfg) (cfg_succs cfg) (cfg_idom cfg) = Some ?loops"
      unfolding P(2) by (rule P(6))
    show "body (?loops ! i) \<subseteq> {..<length blocks}" if "i < length ?loops" for i
      unfolding body [OF that] by (rule natural_body_bound [OF bound h [OF mem [OF that]]])
    show "chain_at ?loops b" if b: "reachable ?E 0 b" for b
      unfolding chain_at_def
    proof (intro allI impI)
      fix i j
      assume ij: "i < length ?loops" "j < length ?loops" "i \<noteq> j" "b \<in> body (?loops ! i)" "b \<in> body (?loops ! j)"
      have ne: "?hs ! j \<noteq> ?hs ! i"
        using ij(1-3) nth_eq_iff_index_eq [of ?hs j i] by simp
      show "body (?loops ! i) \<subset> body (?loops ! j) \<or> body (?loops ! j) \<subset> body (?loops ! i)"
        using ij(4,5) unfolding body [OF ij(1)] body [OF ij(2)] by (intro natural_bodies_nested [OF tails tails ne b])
    qed
  qed
qed

text \<open>C14: The depth of a reachable block is the number of natural loops that contain it, and the loop it is assigned to is the innermost:
  every loop that contains the block contains that loop.\<close>
theorem loop_nest_depths_exact:
  assumes "blocks \<noteq> []"
  shows "\<exists>cfg loops nest. build_analysis blocks = Some cfg \<and>
    find_merged_natural_loops (num_blocks cfg) (cfg_preds cfg) (cfg_succs cfg) (cfg_idom cfg) = Some loops \<and>
    analyze (num_blocks cfg) loops = Some nest \<and>
    (\<forall>b < length blocks. reachable (function_edge blocks) 0 b \<longrightarrow>
       loop_depth nest b = length (filter (\<lambda>l. b \<in> body l) loops) \<and>
       (case loop_for_block nest b of
          None \<Rightarrow> \<forall>l \<in> set loops. b \<notin> body l
        | Some l \<Rightarrow> l \<in> set loops \<and> b \<in> body l \<and> (\<forall>l' \<in> set loops. b \<in> body l' \<longrightarrow> body l \<subseteq> body l')))"
proof (rule function_loops_shape [OF assms], goal_cases)
  case (1 cfg loops)
  let ?n = "length blocks"
  obtain nest where N: "analyze ?n loops = Some nest" "nest_loops nest = loops" "nest_parent nest = parents_of loops"
      "nest_children nest = children_of loops"
      "length (block_to_loop nest) = ?n" "length (block_depth nest) = ?n"
      "\<And>b. b < ?n \<Longrightarrow>
        smallest_of (\<lambda>l. b \<in> body (loops ! l)) (\<lambda>l. card (body (loops ! l))) (length loops) (block_to_loop nest ! b)"
      "\<And>b. b < ?n \<Longrightarrow> depth_walk (parents_of loops) (block_to_loop nest ! b) 0 = Some (block_depth nest ! b)"
    using analyze_ok [OF 1(4)] by metis
  have count: "length (filter (\<lambda>l. b \<in> body l) loops) = card {j. j < length loops \<and> b \<in> body (loops ! j)}" for b
    by (rule length_filter_conv_card)
  have "loop_depth nest b = length (filter (\<lambda>l. b \<in> body l) loops) \<and>
       (case loop_for_block nest b of
          None \<Rightarrow> \<forall>l \<in> set loops. b \<notin> body l
        | Some l \<Rightarrow> l \<in> set loops \<and> b \<in> body l \<and> (\<forall>l' \<in> set loops. b \<in> body l' \<longrightarrow> body l \<subseteq> body l'))"
    if b: "b < ?n" "reachable (function_edge blocks) 0 b" for b
  proof (cases "block_to_loop nest ! b")
    case None
    then have none: "\<forall>j < length loops. b \<notin> body (loops ! j)"
      using N(7) [OF b(1)] by (simp add: smallest_of_def)
    have "block_depth nest ! b = 0"
      using N(8) [OF b(1)] None by (simp add: depth_walk.simps)
    then show ?thesis
      using none None b(1) N(5,6) count by (auto simp: loop_depth_def loop_for_block_def in_set_conv_nth)
  next
    case (Some i)
    then have i: "i < length loops" "b \<in> body (loops ! i)"
        "\<And>j. j < length loops \<Longrightarrow> b \<in> body (loops ! j) \<Longrightarrow> card (body (loops ! i)) \<le> card (body (loops ! j))"
      using N(7) [OF b(1)] by (simp_all add: smallest_of_def)
    have inner: "body (loops ! i) \<subseteq> body (loops ! j)" if j: "j < length loops" "b \<in> body (loops ! j)" for j
    proof (rule ccontr)
      assume "\<not> body (loops ! i) \<subseteq> body (loops ! j)"
      then have "body (loops ! j) \<subset> body (loops ! i)"
        using 1(5) [OF b(2)] i(1,2) j unfolding chain_at_def by blast
      then have "card (body (loops ! j)) < card (body (loops ! i))"
        using psubset_card_mono finite_subset [OF 1(4) [OF i(1)]] by blast
      then show False
        using i(3) [OF j] by simp
    qed
    then have "{j. j < length loops \<and> body (loops ! i) \<subseteq> body (loops ! j)} = {j. j < length loops \<and> b \<in> body (loops ! j)}"
      using i(2) by blast
    then have "block_depth nest ! b = length (filter (\<lambda>l. b \<in> body l) loops)"
      using depth_walk_chain [OF 1(4) 1(5) [OF b(2)] i(1,2), of 0] N(8) [OF b(1)] Some count by simp
    moreover have "loop_for_block nest b = Some (loops ! i)"
      using Some b(1) N(2,5) by (simp add: loop_for_block_def)
    moreover have "\<forall>l' \<in> set loops. b \<in> body l' \<longrightarrow> body (loops ! i) \<subseteq> body l'"
      using inner by (metis in_set_conv_nth)
    ultimately show ?thesis
      using i(1,2) b(1) N(6) by (simp add: loop_depth_def)
  qed
  then show ?case
    using 1(1-3) N(1) by auto
qed

theorem loop_nest_depths_exact_witness:
  "two_latches \<noteq> [] \<and> (\<exists>cfg loops nest. build_analysis two_latches = Some cfg \<and>
     find_merged_natural_loops (num_blocks cfg) (cfg_preds cfg) (cfg_succs cfg) (cfg_idom cfg) = Some loops \<and>
     analyze (num_blocks cfg) loops = Some nest \<and> loop_depth nest 0 = 0 \<and> loop_depth nest 1 = 1 \<and>
     loop_for_block nest 1 = Some \<lparr>header = 1, body = {1, 2, 3}\<rparr>)"
proof
  show n: "two_latches \<noteq> []"
    by (simp add: two_latches_def)
  have len: "length two_latches = 5"
    by (simp add: two_latches_def)
  have "function_edge two_latches 0 1"
    unfolding function_edge_def by code_simp
  then have r: "reachable (function_edge two_latches) 0 1"
    by (rule reachable_step [OF reachable_entry])
  obtain cfg merged nest where m: "build_analysis two_latches = Some cfg"
      "find_merged_natural_loops (num_blocks cfg) (cfg_preds cfg) (cfg_succs cfg) (cfg_idom cfg) = Some merged"
      "analyze (num_blocks cfg) merged = Some nest"
    and at: "\<And>b. b < length two_latches \<Longrightarrow> reachable (function_edge two_latches) 0 b \<Longrightarrow>
       loop_depth nest b = length (filter (\<lambda>l. b \<in> body l) merged) \<and>
       (case loop_for_block nest b of
          None \<Rightarrow> \<forall>l \<in> set merged. b \<notin> body l
        | Some l \<Rightarrow> l \<in> set merged \<and> b \<in> body l \<and> (\<forall>l' \<in> set merged. b \<in> body l' \<longrightarrow> body l \<subseteq> body l'))"
    using loop_nest_depths_exact [OF n] by blast
  obtain loops where "find_natural_loops (num_blocks cfg) (cfg_preds cfg) (cfg_succs cfg) (cfg_idom cfg) = Some loops"
    using two_latches_loops m(1,2) by (auto simp: function_loops_def split: Option.bind_splits)
  then have merged: "merged = [\<lparr>header = 1, body = {1, 2, 3}\<rparr>]"
    using two_latches_found(2) m(1,2) by blast
  have "loop_depth nest 0 = 0" "loop_depth nest 1 = 1" "loop_for_block nest 1 = Some \<lparr>header = 1, body = {1, 2, 3}\<rparr>"
    using at [of 0] at [of 1] r by (auto simp: merged len split: option.splits)
  with m show "\<exists>cfg loops nest. build_analysis two_latches = Some cfg \<and>
      find_merged_natural_loops (num_blocks cfg) (cfg_preds cfg) (cfg_succs cfg) (cfg_idom cfg) = Some loops \<and>
      analyze (num_blocks cfg) loops = Some nest \<and> loop_depth nest 0 = 0 \<and> loop_depth nest 1 = 1 \<and>
      loop_for_block nest 1 = Some \<lparr>header = 1, body = {1, 2, 3}\<rparr>"
    by blast
qed

end
