(* ===== verification/Traversal.thy ===== *)
theory Traversal
  imports DomIntervals
begin

text \<open>
  Recursive depth-first traversals with a set of visited nodes, which emit a node before or after its successors:
  \<open>compute_reverse_postorder\<close> of \<^verbatim>\<open>src/src/ir/analysis.rs\<close> and the traversals of \<^verbatim>\<open>src/src/passes/loop_analysis.rs\<close>.
  A postorder places a node before every node that all ways to it go through, a preorder after.
\<close>

subsection \<open>The traversal\<close>

definition mark_visited :: "nat \<Rightarrow> bool list \<Rightarrow> (bool \<times> bool list) option" where
  "mark_visited b visited = (if b < length visited then Some (\<not> visited ! b, visited[b := True]) else None)"

text \<open>The loop over the successors of a node, with the call for each of them; \<open>post\<close> tells when a node is emitted.\<close>

partial_function (option) visit_all ::
    "bool \<Rightarrow> (nat \<Rightarrow> 's \<Rightarrow> (bool \<times> 's) option) \<Rightarrow> (nat \<Rightarrow> nat list) \<Rightarrow> nat list \<Rightarrow> 's \<times> nat list \<Rightarrow> ('s \<times> nat list) option" where
  [code]: "visit_all post ins rows nodes st =
     (case nodes of
        [] \<Rightarrow> Some st
      | u # rest \<Rightarrow>
          do {
            fresh \<leftarrow> ins u (fst st);
            if fst fresh
            then do {
              st' \<leftarrow> visit_all post ins rows (rows u) (snd fresh, if post then snd st else snd st @ [u]);
              visit_all post ins rows rest (fst st', if post then snd st' @ [u] else snd st')
            }
            else visit_all post ins rows rest (snd fresh, snd st)
          })"

definition compute_reverse_postorder :: "nat \<Rightarrow> FlatAdj \<Rightarrow> nat list option" where
  "compute_reverse_postorder num succs =
     (if 0 < num
      then do { st \<leftarrow> visit_all True mark_visited (row succs) [0] (replicate num False, []); Some (rev (snd st)) }
      else Some [])"

subsection \<open>Order in a list\<close>

definition precedes :: "'a list \<Rightarrow> 'a \<Rightarrow> 'a \<Rightarrow> bool" where
  "precedes xs x y \<longleftrightarrow> (\<exists>us vs ws. xs = us @ x # vs @ y # ws)"

lemma precedes_appendI1: "precedes xs x y \<Longrightarrow> precedes (xs @ ys) x y"
  unfolding precedes_def by (metis append.assoc append_Cons)

lemma precedes_appendI2: "precedes ys x y \<Longrightarrow> precedes (xs @ ys) x y"
  unfolding precedes_def by (metis append.assoc)

lemma precedes_split: "x \<in> set xs \<Longrightarrow> y \<in> set ys \<Longrightarrow> precedes (xs @ ys) x y"
  unfolding precedes_def by (metis append.assoc append_Cons split_list)

lemma precedes_rev: "precedes (rev xs) x y \<longleftrightarrow> precedes xs y x"
proof -
  have "precedes (rev xs) x y" if yx: "precedes xs y x" for xs and x y :: 'a
  proof -
    obtain us vs ws where "xs = us @ y # vs @ x # ws"
      using yx unfolding precedes_def by blast
    then have "rev xs = rev ws @ x # rev vs @ y # rev us"
      by simp
    then show ?thesis
      unfolding precedes_def by blast
  qed
  from this [of xs y x] this [of "rev xs" x y] show ?thesis
    by auto
qed

subsection \<open>What a traversal adds\<close>

definition row_edge :: "(nat \<Rightarrow> nat list) \<Rightarrow> nat \<Rightarrow> nat \<Rightarrow> bool" where
  "row_edge rows u v \<longleftrightarrow> v \<in> set (rows u)"

lemma reach_row_edge:
  assumes rows: "\<And>u. u < n \<Longrightarrow> set (rows u) \<subseteq> {..<n}" and "a < n"
  shows "reach (row_edge rows) P a b \<longleftrightarrow> reach (\<lambda>u v. u < n \<and> v \<in> set (rows u)) P a b"
proof
  assume "reach (row_edge rows) P a b"
  then have "b < n \<and> reach (\<lambda>u v. u < n \<and> v \<in> set (rows u)) P a b"
  proof (induction rule: reach_induct)
    case (step y z)
    then have y: "y < n" "reach (\<lambda>u v. u < n \<and> v \<in> set (rows u)) P a y" and z: "z \<in> set (rows y)"
      by (simp_all add: row_edge_def)
    show ?case
      using reach_step [OF y(2) _ step(3)] rows [OF y(1)] y(1) z by blast
  qed (use assms(2) in simp)
  then show "reach (\<lambda>u v. u < n \<and> v \<in> set (rows u)) P a b"
    by simp
next
  assume "reach (\<lambda>u v. u < n \<and> v \<in> set (rows u)) P a b"
  then show "reach (row_edge rows) P a b"
  proof (induction rule: reach_induct)
    case (step y z)
    then show ?case
      using reach_step [OF step(4) _ step(3)] by (simp add: row_edge_def)
  qed simp
qed

text \<open>The nodes of \<open>added\<close> are new, closed under successors up to visited ones, and reached from the start through nodes not visited.\<close>

definition covers :: "(nat \<Rightarrow> nat list) \<Rightarrow> nat list \<Rightarrow> nat set \<Rightarrow> nat list \<Rightarrow> bool" where
  "covers rows nodes V added \<longleftrightarrow>
     distinct added \<and> set added \<inter> V = {} \<and> set nodes \<subseteq> V \<union> set added \<and>
     (\<forall>u \<in> set added. set (rows u) \<subseteq> V \<union> set added) \<and>
     (\<forall>x \<in> set added. \<exists>u \<in> set nodes. u \<notin> V \<and> reach (row_edge rows) (\<lambda>v. v \<notin> V) u x)"

text \<open>A node that every way from the start to \<open>x\<close> goes through is emitted on the right side of \<open>x\<close>.\<close>

definition gated :: "(nat \<Rightarrow> nat list) \<Rightarrow> nat list \<Rightarrow> nat set \<Rightarrow> nat \<Rightarrow> nat \<Rightarrow> bool" where
  "gated rows nodes V a x \<longleftrightarrow>
     (\<forall>u \<in> set nodes. u \<notin> V \<longrightarrow> u \<noteq> a \<longrightarrow> \<not> reach (row_edge rows) (\<lambda>v. v \<notin> V \<and> v \<noteq> a) u x)"

definition emits_in_order :: "bool \<Rightarrow> (nat \<Rightarrow> nat list) \<Rightarrow> nat list \<Rightarrow> nat set \<Rightarrow> nat list \<Rightarrow> bool" where
  "emits_in_order post rows nodes V added \<longleftrightarrow>
     (\<forall>x \<in> set added. \<forall>a. x \<noteq> a \<longrightarrow> gated rows nodes V a x \<longrightarrow>
        (if post then precedes added x a else precedes added a x))"

definition around :: "bool \<Rightarrow> nat \<Rightarrow> nat list \<Rightarrow> nat list" where
  "around post u inner = (if post then inner @ [u] else u # inner)"

lemma set_around [simp]: "set (around post u inner) = insert u (set inner)"
  by (simp add: around_def)

lemma covers_Nil: "covers rows [] V []" and emits_Nil: "emits_in_order post rows [] V []"
  by (simp_all add: covers_def emits_in_order_def)

lemma covers_skip: "u \<in> V \<Longrightarrow> covers rows rest V added \<Longrightarrow> covers rows (u # rest) V added"
  unfolding covers_def by auto

lemma emits_skip: "u \<in> V \<Longrightarrow> emits_in_order post rows rest V added \<Longrightarrow> emits_in_order post rows (u # rest) V added"
  unfolding emits_in_order_def gated_def by simp

lemma covers_node:
  assumes "u \<notin> V" and inner: "covers rows (rows u) (insert u V) inner" and outer: "covers rows rest (insert u V \<union> set inner) outer"
  shows "covers rows (u # rest) V (around post u inner @ outer)"
proof -
  let ?E = "row_edge rows"
  have into: "reach ?E (\<lambda>v. v \<notin> V) u x" if x: "x \<in> set inner" for x
  proof -
    obtain w where w: "w \<in> set (rows u)" "w \<notin> insert u V" "reach ?E (\<lambda>v. v \<notin> insert u V) w x"
      using inner x unfolding covers_def by blast
    have "reach ?E (\<lambda>v. v \<notin> V) u w"
      using reach_step [of ?E _ u u w] w(1,2) by (simp add: row_edge_def)
    from this reach_mono [OF w(3)] show ?thesis
      by (rule reach_trans) simp
  qed
  have "\<exists>w \<in> set (u # rest). w \<notin> V \<and> reach ?E (\<lambda>v. v \<notin> V) w x" if x: "x \<in> set outer" for x
  proof -
    obtain w where w: "w \<in> set rest" "w \<notin> insert u V \<union> set inner" "reach ?E (\<lambda>v. v \<notin> insert u V \<union> set inner) w x"
      using outer x unfolding covers_def by blast
    have "reach ?E (\<lambda>v. v \<notin> V) w x"
      by (rule reach_mono [OF w(3)]) simp
    then show ?thesis
      using w(1,2) by auto
  qed
  moreover have "distinct (around post u inner @ outer)"
    using inner outer by (auto simp: covers_def around_def)
  ultimately show ?thesis
    using inner outer into assms(1) by (auto simp: covers_def)
qed

text \<open>A traversal from one node with nothing visited finds what the node reaches.\<close>

lemma covers_reached:
  assumes "covers rows [u] {} added"
  shows "set added = {b. reach (row_edge rows) (\<lambda>_. True) u b}"
proof (intro set_eqI iffI; unfold mem_Collect_eq)
  fix b
  show "b \<in> set added" if "reach (row_edge rows) (\<lambda>_. True) u b"
    using that
  proof (induction rule: reach_induct)
    case refl
    then show ?case
      using assms by (simp add: covers_def)
  next
    case (step y z)
    then show ?case
      using assms by (auto simp: covers_def row_edge_def)
  qed
  show "reach (row_edge rows) (\<lambda>_. True) u b" if "b \<in> set added"
    using assms that by (auto simp: covers_def)
qed

lemma emits_node:
  assumes "u \<notin> V" and "covers rows (rows u) (insert u V) inner" and "covers rows rest (insert u V \<union> set inner) outer"
    and inner: "emits_in_order post rows (rows u) (insert u V) inner" and outer: "emits_in_order post rows rest (insert u V \<union> set inner) outer"
  shows "emits_in_order post rows (u # rest) V (around post u inner @ outer)"
  unfolding emits_in_order_def
proof (intro ballI allI impI)
  fix x a
  assume x: "x \<in> set (around post u inner @ outer)" "x \<noteq> a" and gate: "gated rows (u # rest) V a x"
  let ?E = "row_edge rows" and ?order = "\<lambda>xs. if post then precedes xs x a else precedes xs a x"
  have widen: "?order (around post u inner @ outer)" if "?order (around post u inner) \<or> ?order outer"
    using that by (auto simp: precedes_appendI1 precedes_appendI2)
  consider (node) "x = u" | (inner) "x \<in> set inner" "a = u" | (deeper) "x \<in> set inner" "a \<noteq> u" | (outer) "x \<in> set outer"
    using x(1) by auto
  then show "?order (around post u inner @ outer)"
  proof cases
    case node
    then have False
      using gate x(2) assms(1) unfolding gated_def by simp
    then show ?thesis ..
  next
    case inner
    have "?order (around post u inner)"
      using inner precedes_split [of x inner u "[u]"] precedes_split [of u "[u]" x inner] by (simp add: around_def)
    then show ?thesis
      using widen by blast
  next
    case deeper
    have "gated rows (rows u) (insert u V) a x"
      unfolding gated_def
    proof (intro ballI impI notI)
      fix w
      assume w: "w \<in> set (rows u)" "w \<notin> insert u V" "w \<noteq> a" "reach ?E (\<lambda>v. v \<notin> insert u V \<and> v \<noteq> a) w x"
      have "reach ?E (\<lambda>v. v \<notin> V \<and> v \<noteq> a) u w"
        using reach_step [of ?E _ u u w] w(1-3) by (simp add: row_edge_def)
      from this reach_mono [OF w(4)] have "reach ?E (\<lambda>v. v \<notin> V \<and> v \<noteq> a) u x"
        by (rule reach_trans) simp
      then show False
        using gate deeper(2) assms(1) unfolding gated_def by simp
    qed
    then have "?order inner"
      using inner deeper(1) x(2) unfolding emits_in_order_def by blast
    then have "?order (around post u inner)"
      using precedes_appendI1 [of inner x a "[u]"] precedes_appendI2 [of inner a x "[u]"] by (simp add: around_def)
    then show ?thesis
      using widen by blast
  next
    case outer
    have "gated rows rest (insert u V \<union> set inner) a x"
      unfolding gated_def
    proof (intro ballI impI notI)
      fix w
      assume w: "w \<in> set rest" "w \<notin> insert u V \<union> set inner" "w \<noteq> a" "reach ?E (\<lambda>v. v \<notin> insert u V \<union> set inner \<and> v \<noteq> a) w x"
      have "reach ?E (\<lambda>v. v \<notin> V \<and> v \<noteq> a) w x"
        by (rule reach_mono [OF w(4)]) simp
      then show False
        using gate w(1-3) unfolding gated_def by simp
    qed
    then have "?order outer"
      using assms(5) outer x(2) unfolding emits_in_order_def by blast
    then show ?thesis
      using widen by blast
  qed
qed

text \<open>When nodes are emitted last, an edge leads to a node emitted before, or to one that leads back.\<close>

definition edges_emitted_back :: "bool \<Rightarrow> (nat \<Rightarrow> nat list) \<Rightarrow> nat set \<Rightarrow> nat list \<Rightarrow> bool" where
  "edges_emitted_back post rows V added \<longleftrightarrow>
     (post \<longrightarrow> (\<forall>x \<in> set added. \<forall>y \<in> set (rows x). y \<in> set added \<longrightarrow>
        precedes added y x \<or> reach (row_edge rows) (\<lambda>v. v \<notin> V) y x))"

lemma edges_emitted_back_Nil: "edges_emitted_back post rows V []"
  by (simp add: edges_emitted_back_def)

lemma edges_emitted_back_node:
  assumes "u \<notin> V" and cover: "covers rows (rows u) (insert u V) inner" "covers rows rest (insert u V \<union> set inner) outer"
    and inner: "edges_emitted_back post rows (insert u V) inner" and outer: "edges_emitted_back post rows (insert u V \<union> set inner) outer"
  shows "edges_emitted_back post rows V (around post u inner @ outer)"
  unfolding edges_emitted_back_def
proof (intro impI ballI)
  fix x y
  assume post: post and x: "x \<in> set (around post u inner @ outer)" and y: "y \<in> set (rows x)" "y \<in> set (around post u inner @ outer)"
  let ?E = "row_edge rows"
  have listed: "around post u inner @ outer = (inner @ [u]) @ outer"
    using post by (simp add: around_def)
  have apart: "set outer \<inter> (insert u V \<union> set inner) = {}"
    using cover(2) by (simp add: covers_def)
  have reached_u: "reach ?E (\<lambda>v. v \<notin> V) u z" if z: "z \<in> set inner" for z
  proof -
    obtain w where w: "w \<in> set (rows u)" "w \<notin> insert u V" "reach ?E (\<lambda>v. v \<notin> insert u V) w z"
      using cover(1) z unfolding covers_def by blast
    have "reach ?E (\<lambda>v. v \<notin> V) u w"
      using reach_step [of ?E _ u u w] w(1,2) by (simp add: row_edge_def)
    from this reach_mono [OF w(3)] show ?thesis
      by (rule reach_trans) simp
  qed
  have widen: "reach ?E (\<lambda>v. v \<notin> V) y x" if "reach ?E (\<lambda>v. v \<notin> W) y x" "V \<subseteq> W" for W
    by (rule reach_mono [OF that(1)]) (use that(2) in auto)
  consider (node) "x = u" | (deep) "x \<in> set inner" | (late) "x \<in> set outer"
    using x by auto
  then show "precedes (around post u inner @ outer) y x \<or> reach ?E (\<lambda>v. v \<notin> V) y x"
  proof cases
    case node
    then have "y \<in> insert u V \<union> set inner"
      using y(1) cover(1) unfolding covers_def by blast
    then have "y \<in> set inner \<or> y = u"
      using y(2) apart unfolding listed by auto
    moreover have "precedes ((inner @ [u]) @ outer) y u" if "y \<in> set inner"
      by (intro precedes_appendI1 precedes_split that) simp
    ultimately show ?thesis
      unfolding listed using node by auto
  next
    case deep
    have "y \<in> insert u V \<union> set inner"
      using y(1) cover(1) deep unfolding covers_def by blast
    then have "y \<in> set inner \<or> y = u"
      using y(2) apart unfolding listed by auto
    moreover have ?thesis if "y \<in> set inner"
      using inner post deep y(1) that widen [of "insert u V"]
        precedes_appendI1 [OF precedes_appendI1, of inner y x "[u]" outer] unfolding listed edges_emitted_back_def by blast
    ultimately show ?thesis
      using reached_u [OF deep] by auto
  next
    case late
    have "precedes ((inner @ [u]) @ outer) y x" if "y \<in> set (inner @ [u])"
      by (rule precedes_split [OF that late])
    moreover have ?thesis if "y \<in> set outer"
      using outer post late y(1) that widen [of "insert u V \<union> set inner"]
        precedes_appendI2 [of outer y x "inner @ [u]"] unfolding listed edges_emitted_back_def by blast
    ultimately show ?thesis
      using y(2) unfolding listed by auto
  qed
qed

subsection \<open>The traversal returns\<close>

locale visited_marks =
  fixes ins :: "nat \<Rightarrow> 's \<Rightarrow> (bool \<times> 's) option" and elems :: "'s \<Rightarrow> nat set" and ok :: "'s \<Rightarrow> bool" and n :: nat
  assumes ins_ok: "ok s \<Longrightarrow> b < n \<Longrightarrow> \<exists>s'. ins b s = Some (b \<notin> elems s, s') \<and> ok s' \<and> elems s' = insert b (elems s)"
begin

lemma visit_all_ok:
  assumes rows: "\<And>u. u < n \<Longrightarrow> set (rows u) \<subseteq> {..<n}"
  shows "ok s \<Longrightarrow> set nodes \<subseteq> {..<n} \<Longrightarrow>
    \<exists>s' added. visit_all post ins rows nodes (s, order) = Some (s', order @ added) \<and> ok s' \<and> elems s' = elems s \<union> set added \<and>
      set added \<subseteq> {..<n} \<and> covers rows nodes (elems s) added \<and> emits_in_order post rows nodes (elems s) added \<and>
      edges_emitted_back post rows (elems s) added"
proof (induction "(card ({..<n} - elems s), length nodes)" arbitrary: s nodes order
    rule: wf_induct_rule [OF wf_lex_prod [OF wf_less wf_less]])
  case (1 s nodes order)
  note IH = 1(1) and prems = 1(2,3)
  show ?case
  proof (cases nodes)
    case Nil
    then show ?thesis
      using prems by (simp add: visit_all.simps covers_Nil emits_Nil edges_emitted_back_Nil)
  next
    case (Cons u rest)
    then have u: "u < n" "set rest \<subseteq> {..<n}"
      using prems(2) by auto
    obtain s1 where s1: "ins u s = Some (u \<notin> elems s, s1)" "ok s1" "elems s1 = insert u (elems s)"
      using ins_ok [OF prems(1) u(1)] by blast
    show ?thesis
    proof (cases "u \<in> elems s")
      case True
      then have same: "elems s1 = elems s"
        using s1(3) by auto
      obtain s' added where "visit_all post ins rows rest (s1, order) = Some (s', order @ added)" "ok s'"
          "elems s' = elems s \<union> set added" "set added \<subseteq> {..<n}" "covers rows rest (elems s) added"
          "emits_in_order post rows rest (elems s) added" "edges_emitted_back post rows (elems s) added"
        using IH [of s1 rest order, OF _ s1(2) u(2)] Cons same by auto
      then show ?thesis
        using s1(1) True covers_skip emits_skip unfolding Cons by (subst visit_all.simps) auto
    next
      case False
      have less: "card ({..<n} - W) < card ({..<n} - elems s)" if "insert u (elems s) \<subseteq> W" for W
        using that u(1) False by (intro psubset_card_mono) auto
      let ?start = "if post then order else order @ [u]"
      obtain s2 inner where s2: "visit_all post ins rows (rows u) (s1, ?start) = Some (s2, ?start @ inner)" "ok s2"
          "elems s2 = insert u (elems s) \<union> set inner" "set inner \<subseteq> {..<n}" "covers rows (rows u) (insert u (elems s)) inner"
          "emits_in_order post rows (rows u) (insert u (elems s)) inner" "edges_emitted_back post rows (insert u (elems s)) inner"
        using IH [of s1 "rows u" ?start, OF _ s1(2) rows [OF u(1)]] less [of "insert u (elems s)"] s1(3) by auto
      have walked: "(if post then (?start @ inner) @ [u] else ?start @ inner) = order @ around post u inner"
        by (simp add: around_def)
      obtain s' outer where s': "visit_all post ins rows rest (s2, order @ around post u inner) = Some (s', (order @ around post u inner) @ outer)"
          "ok s'" "elems s' = elems s2 \<union> set outer" "set outer \<subseteq> {..<n}" "covers rows rest (elems s2) outer"
          "emits_in_order post rows rest (elems s2) outer" "edges_emitted_back post rows (elems s2) outer"
        using IH [of s2 rest "order @ around post u inner", OF _ s2(2) u(2)] less [of "elems s2"] s2(3) by auto
      have "visit_all post ins rows nodes (s, order) = Some (s', order @ (around post u inner @ outer))"
        using s1(1) False s2(1) s'(1) walked unfolding Cons by (subst visit_all.simps) auto
      moreover have "elems s' = elems s \<union> set (around post u inner @ outer)"
        using s2(3) s'(3) by auto
      moreover have "covers rows nodes (elems s) (around post u inner @ outer)"
        using covers_node [OF False s2(5)] s'(5) unfolding Cons s2(3) by simp
      moreover have "emits_in_order post rows nodes (elems s) (around post u inner @ outer)"
        using emits_node [OF False s2(5) _ s2(6)] s'(5,6) unfolding Cons s2(3) by simp
      moreover have "edges_emitted_back post rows (elems s) (around post u inner @ outer)"
        using edges_emitted_back_node [OF False s2(5) _ s2(7)] s'(5,7) unfolding s2(3) by simp
      ultimately show ?thesis
        using s'(2,4) s2(4) u(1) by (intro exI [of _ s'] exI [of _ "around post u inner @ outer"]) auto
    qed
  qed
qed

end

definition marked :: "bool list \<Rightarrow> nat set" where
  "marked visited = {b. b < length visited \<and> visited ! b}"

interpretation marks: visited_marks mark_visited marked "\<lambda>visited. length visited = n" n for n
proof
  fix b and visited :: "bool list"
  assume "length visited = n" "b < n"
  then show "\<exists>s'. mark_visited b visited = Some (b \<notin> marked visited, s') \<and> length s' = n \<and> marked s' = insert b (marked visited)"
    by (auto simp: mark_visited_def marked_def nth_list_update)
qed


subsection \<open>The reverse postorder of a function\<close>

lemma precedes_last: "x \<in> set xs \<Longrightarrow> precedes (xs @ [y]) x y"
  by (simp add: precedes_split)

lemma compute_reverse_postorder_ok:
  assumes n: "0 < n" and rows: "\<And>u. u < n \<Longrightarrow> set (row succs u) \<subseteq> {..<n}"
  obtains order where "compute_reverse_postorder n succs = Some order" and "distinct order"
    and "set order = {b. reach (block_edge n succs) (\<lambda>_. True) 0 b}"
    and "\<And>a b. b \<in> set order \<Longrightarrow> a \<noteq> b \<Longrightarrow> dominates (block_edge n succs) 0 a b \<Longrightarrow> precedes order a b"
    and "\<And>u v. u \<in> set order \<Longrightarrow> block_edge n succs u v \<Longrightarrow> precedes order u v \<or> reach (block_edge n succs) (\<lambda>_. True) v u"
proof -
  let ?E = "row_edge (row succs)" and ?B = "block_edge n succs"
  have same: "reach ?E P 0 b \<longleftrightarrow> reach ?B P 0 b" for P b
    using reach_row_edge [of n "row succs" 0 P b, OF rows n] unfolding block_edge_def by blast
  have empty: "marked (replicate n False) = {}"
    by (auto simp: marked_def)
  obtain s' post where run: "visit_all True mark_visited (row succs) [0] (replicate n False, []) = Some (s', [] @ post)"
    and new: "set post \<subseteq> {..<n}" "covers (row succs) [0] {} post" "emits_in_order True (row succs) [0] {} post"
      "edges_emitted_back True (row succs) {} post"
    using marks.visit_all_ok [of n "row succs" "replicate n False" "[0]" True "[]", OF rows] n unfolding empty by auto
  have set: "set post = {b. reach ?B (\<lambda>_. True) 0 b}"
    using covers_reached [OF new(2)] unfolding same by simp
  have "precedes post b a" if b: "b \<in> set post" "a \<noteq> b" "dominates ?B 0 a b" for a b
  proof -
    have "gated (row succs) [0] {} a b"
      using b(3) by (auto simp: gated_def dominates_reach same)
    then show ?thesis
      using new(3) b(1,2) unfolding emits_in_order_def by auto
  qed
  moreover have "precedes post v u \<or> reach ?B (\<lambda>_. True) v u" if u: "u \<in> set post" "?B u v" for u v
  proof -
    have v: "v \<in> set (row succs u)" "v \<in> set post"
      using u new(2) by (auto simp: block_edge_def covers_def)
    then have "precedes post v u \<or> reach ?E (\<lambda>_. True) v u"
      using new(4) u(1) by (auto simp: edges_emitted_back_def)
    moreover have "v < n"
      using v(2) new(1) by auto
    ultimately show ?thesis
      using reach_row_edge [of n "row succs" v "\<lambda>_. True" u, OF rows] unfolding block_edge_def by blast
  qed
  ultimately show thesis
    using that [of "rev post"] run n new(2) set by (simp add: compute_reverse_postorder_def precedes_rev covers_def)
qed

text \<open>C28: The reverse postorder of a function lists exactly the reachable blocks, each once, the entry first and every block after all blocks
  that dominate it. An edge leads forward in it unless its target leads back to its source, so without cycles the order is topological.\<close>
theorem reverse_postorder_topological:
  assumes "blocks \<noteq> []"
  shows "\<exists>cfg order. build_analysis blocks = Some cfg \<and> compute_reverse_postorder (num_blocks cfg) (cfg_succs cfg) = Some order \<and>
    distinct order \<and> set order = {b. reachable (function_edge blocks) 0 b} \<and> hd order = 0 \<and>
    (\<forall>b \<in> set order. \<forall>a. a \<noteq> b \<longrightarrow> dominates (function_edge blocks) 0 a b \<longrightarrow> precedes order a b) \<and>
    (\<forall>u \<in> set order. \<forall>v. function_edge blocks u v \<longrightarrow> precedes order u v \<or> reachable (function_edge blocks) v u)"
proof (rule build_analysis_parts [OF assms], goal_cases)
  case (1 pred_rows succs idom children)
  note G = build_cfg_ok [OF ran_build_label_map assms 1(1)]
  have n: "0 < length blocks"
    using assms by simp
  have rows: "set (row succs u) \<subseteq> {..<length blocks}" if "u < length blocks" for u
    using G(1) that by (auto simp: succs_ok_def)
  obtain order where order: "compute_reverse_postorder (length blocks) succs = Some order" "distinct order"
      "set order = {b. reachable (function_edge blocks) 0 b}"
      "\<And>a b. b \<in> set order \<Longrightarrow> a \<noteq> b \<Longrightarrow> dominates (function_edge blocks) 0 a b \<Longrightarrow> precedes order a b"
      "\<And>u v. u \<in> set order \<Longrightarrow> function_edge blocks u v \<Longrightarrow> precedes order u v \<or> reachable (function_edge blocks) v u"
    using compute_reverse_postorder_ok [OF n rows] unfolding 1(4) reachable_reach by blast
  have "0 \<in> set order"
    unfolding order(3) by simp
  then obtain x xs where x: "order = x # xs"
    by (cases order) auto
  have "x = 0"
  proof (rule ccontr)
    assume "x \<noteq> 0"
    then have "precedes order 0 x"
      by (intro order(4)) (simp_all add: x)
    then have "x \<in> set xs"
      unfolding x precedes_def by (auto simp: Cons_eq_append_conv)
    then show False
      using order(2) x by simp
  qed
  then show ?case
    using 1(2) order x by auto
qed

theorem reverse_postorder_topological_witness:
  "diamond \<noteq> [] \<and> (\<exists>cfg order. build_analysis diamond = Some cfg \<and>
     compute_reverse_postorder (num_blocks cfg) (cfg_succs cfg) = Some order \<and> hd order = 0 \<and> precedes order 0 1)"
proof
  show n: "diamond \<noteq> []"
    by (simp add: diamond_def)
  have "function_edge diamond 0 1"
    unfolding function_edge_def by code_simp
  then have r: "reachable (function_edge diamond) 0 1"
    by (rule reachable_step [OF reachable_entry])
  obtain cfg order where c: "build_analysis diamond = Some cfg" "compute_reverse_postorder (num_blocks cfg) (cfg_succs cfg) = Some order"
      "set order = {b. reachable (function_edge diamond) 0 b}" "hd order = 0"
      "\<forall>b \<in> set order. \<forall>a. a \<noteq> b \<longrightarrow> dominates (function_edge diamond) 0 a b \<longrightarrow> precedes order a b"
    using reverse_postorder_topological [OF n] by blast
  have "precedes order 0 1"
    using c(3,5) r by simp
  then show "\<exists>cfg order. build_analysis diamond = Some cfg \<and>
      compute_reverse_postorder (num_blocks cfg) (cfg_succs cfg) = Some order \<and> hd order = 0 \<and> precedes order 0 1"
    using c by blast
qed

end
