(* ===== verification/LoopOrder.thy ===== *)
theory LoopOrder
  imports LoopNesting Traversal
begin

text \<open>
  The orders in which passes visit loops and their blocks, \<^verbatim>\<open>src/src/passes/loop_analysis.rs\<close>: the reverse postorder of the blocks of a
  loop, with an explicit stack, and the two orders of the loops of a function.
\<close>

subsection \<open>Operations\<close>

text \<open>The next successor in the loop that is not visited, and the index after it.\<close>

function next_inside :: "nat set \<Rightarrow> nat set \<Rightarrow> nat list \<Rightarrow> nat \<Rightarrow> (nat \<times> nat) option" where
  "next_inside inside visited vs idx =
     (if idx < length vs
      then if vs ! idx \<in> inside \<and> vs ! idx \<notin> visited then Some (vs ! idx, idx + 1)
           else next_inside inside visited vs (idx + 1)
      else None)"
  by pat_completeness auto

termination
  by (relation "measure (\<lambda>(inside, visited, vs, idx). length vs - idx)") auto

declare next_inside.simps [simp del]

partial_function (option) rpo_loop ::
    "nat set \<Rightarrow> FlatAdj \<Rightarrow> nat set \<Rightarrow> nat list \<Rightarrow> (nat \<times> nat) list \<Rightarrow> (nat set \<times> nat list) option" where
  [code]: "rpo_loop inside succs visited post_order stack =
     (case stack of
        [] \<Rightarrow> Some (visited, post_order)
      | entry # below \<Rightarrow>
          (case next_inside inside visited (row succs (fst entry)) (snd entry) of
             None \<Rightarrow> rpo_loop inside succs visited (post_order @ [fst entry]) below
           | Some next \<Rightarrow>
               rpo_loop inside succs (insert (fst next) visited) post_order ((fst next, 0) # (fst entry, snd next) # below)))"

definition blocks_in_rpo :: "NaturalLoop \<Rightarrow> FlatAdj \<Rightarrow> nat list option" where
  "blocks_in_rpo l succs =
     do {
       (visited, post_order) \<leftarrow> rpo_loop (body l) succs {header l} [] [(header l, 0)];
       Some (rev (if length post_order < card (body l) then post_order @ sorted_list_of_set (body l - visited) else post_order))
     }"

definition loop_roots :: "LoopNest \<Rightarrow> nat list" where
  "loop_roots nest = filter (\<lambda>r. nest_parent nest ! r = None) [0..<length (nest_loops nest)]"

definition dfs_post_order :: "LoopNest \<Rightarrow> nat list \<Rightarrow> bool list \<times> nat list \<Rightarrow> (bool list \<times> nat list) option" where
  "dfs_post_order nest = visit_all True mark_visited ((!) (nest_children nest))"

definition dfs_pre_order :: "LoopNest \<Rightarrow> nat list \<Rightarrow> bool list \<times> nat list \<Rightarrow> (bool list \<times> nat list) option" where
  "dfs_pre_order nest = visit_all False mark_visited ((!) (nest_children nest))"

definition innermost_first :: "LoopNest \<Rightarrow> nat list option" where
  "innermost_first nest =
     map_option snd (dfs_post_order nest (loop_roots nest) (replicate (length (nest_loops nest)) False, []))"

definition outermost_first :: "LoopNest \<Rightarrow> nat list option" where
  "outermost_first nest =
     map_option snd (dfs_pre_order nest (loop_roots nest) (replicate (length (nest_loops nest)) False, []))"

subsection \<open>The stack carries out the recursion\<close>

abbreviation hash_mark :: "nat \<Rightarrow> nat set \<Rightarrow> (bool \<times> nat set) option" where
  "hash_mark \<equiv> (\<lambda>b visited. Some (hash_insert b visited))"

interpretation hash_marks: visited_marks hash_mark "\<lambda>visited. visited" "\<lambda>_. True" n for n
  by standard (simp add: hash_insert_def)

definition inside_rows :: "nat set \<Rightarrow> FlatAdj \<Rightarrow> nat \<Rightarrow> nat list" where
  "inside_rows inside succs u = filter (\<lambda>v. v \<in> inside) (row succs u)"

lemma next_inside_None: "filter (\<lambda>v. v \<in> inside) (drop idx vs) = [] \<Longrightarrow> next_inside inside visited vs idx = None"
proof (induction inside visited vs idx rule: next_inside.induct)
  case (1 inside visited vs idx)
  show ?case
  proof (cases "idx < length vs")
    case True
    then have "vs ! idx \<notin> inside" "filter (\<lambda>v. v \<in> inside) (drop (idx + 1) vs) = []"
      using 1(2) Cons_nth_drop_Suc [OF True, symmetric] by (simp_all split: if_splits)
    then show ?thesis
      using 1(1) True by (subst next_inside.simps) simp
  qed (simp add: next_inside.simps)
qed

lemma next_inside_Cons:
  "filter (\<lambda>v. v \<in> inside) (drop idx vs) = v # rest \<Longrightarrow>
    \<exists>j. filter (\<lambda>v. v \<in> inside) (drop j vs) = rest \<and>
      next_inside inside visited vs idx = (if v \<in> visited then next_inside inside visited vs j else Some (v, j))"
proof (induction inside visited vs idx rule: next_inside.induct)
  case (1 inside visited vs idx)
  have idx: "idx < length vs"
    using 1(2) by (cases "idx < length vs") auto
  note d = Cons_nth_drop_Suc [OF idx, symmetric]
  show ?case
  proof (cases "vs ! idx \<in> inside")
    case True
    then have "v = vs ! idx" "filter (\<lambda>v. v \<in> inside) (drop (idx + 1) vs) = rest"
      using 1(2) d by simp_all
    moreover from this have "next_inside inside visited vs idx =
        (if v \<in> visited then next_inside inside visited vs (idx + 1) else Some (v, idx + 1))"
      using idx True by (subst next_inside.simps) simp
    ultimately show ?thesis
      by blast
  next
    case False
    then have "filter (\<lambda>v. v \<in> inside) (drop (idx + 1) vs) = v # rest"
      using 1(2) d by simp
    from 1(1) [OF idx _ this] False show ?thesis
      using idx by (subst next_inside.simps) simp
  qed
qed

text \<open>Scanning the rest of a row with the frame on the stack is the call on the rest of the row, followed by emitting the block.\<close>

lemma rpo_loop_visit:
  assumes "visit_all True hash_mark (inside_rows inside succs) nodes st = Some st'"
    and "filter (\<lambda>v. v \<in> inside) (drop idx (row succs u)) = nodes"
  shows "rpo_loop inside succs (fst st) (snd st) ((u, idx) # below) = rpo_loop inside succs (fst st') (snd st' @ [u]) below"
proof -
  let ?rows = "inside_rows inside succs" and ?rest = "\<lambda>u idx. filter (\<lambda>v. v \<in> inside) (drop idx (row succs u))"
  let ?P = "\<lambda>post ins rows nodes st st'. post \<longrightarrow> ins = hash_mark \<longrightarrow> rows = ?rows \<longrightarrow>
      (\<forall>u idx below. ?rest u idx = nodes \<longrightarrow>
        rpo_loop inside succs (fst st) (snd st) ((u, idx) # below) = rpo_loop inside succs (fst st') (snd st' @ [u]) below)"
  have "?P True hash_mark ?rows nodes st st'"
  proof (rule visit_all.raw_induct [where P = ?P, OF _ assms(1)], intro impI allI)
    fix visit post ins rows nodes st st' u idx below
    assume IH: "\<And>post ins rows nodes st st'. visit post ins rows nodes st = Some st' \<Longrightarrow> ?P post ins rows nodes st st'"
      and run: "(case nodes of [] \<Rightarrow> Some st
        | u # rest \<Rightarrow> ins u (fst st) \<bind> (\<lambda>fresh.
            if fst fresh
            then visit post ins rows (rows u) (snd fresh, if post then snd st else snd st @ [u]) \<bind>
              (\<lambda>st'. visit post ins rows rest (fst st', if post then snd st' @ [u] else snd st'))
            else visit post ins rows rest (snd fresh, snd st))) = Some st'"
      and inst: "post" "ins = hash_mark" "rows = ?rows" and nodes: "?rest u idx = nodes"
    note IH = IH [rule_format, OF _ inst]
    show "rpo_loop inside succs (fst st) (snd st) ((u, idx) # below) = rpo_loop inside succs (fst st') (snd st' @ [u]) below"
    proof (cases nodes)
      case Nil
      then show ?thesis
        using run next_inside_None nodes by (subst rpo_loop.simps) simp
    next
      case (Cons v rest)
      obtain j where j: "?rest u j = rest"
          "next_inside inside (fst st) (row succs u) idx = (if v \<in> fst st then next_inside inside (fst st) (row succs u) j else Some (v, j))"
        using next_inside_Cons nodes Cons by blast
      show ?thesis
      proof (cases "v \<in> fst st")
        case True
        then have same: "insert v (fst st) = fst st"
          by auto
        have "visit post ins rows rest st = Some st'"
          using run inst True same by (simp add: Cons hash_insert_def)
        then have "rpo_loop inside succs (fst st) (snd st) ((u, j) # below) = rpo_loop inside succs (fst st') (snd st' @ [u]) below"
          using IH j(1) by blast
        moreover have "rpo_loop inside succs (fst st) (snd st) ((u, idx) # below) = rpo_loop inside succs (fst st) (snd st) ((u, j) # below)"
          using j(2) True by (simp add: rpo_loop.simps [of _ _ _ _ "(u, _) # below"] split: option.split)
        ultimately show ?thesis
          by simp
      next
        case False
        obtain st1 where st1: "visit post ins rows (?rows v) (insert v (fst st), snd st) = Some st1"
            "visit post ins rows rest (fst st1, snd st1 @ [v]) = Some st'"
          using run inst False by (auto simp: Cons hash_insert_def split: Option.bind_splits)
        have "rpo_loop inside succs (fst st) (snd st) ((u, idx) # below) =
            rpo_loop inside succs (insert v (fst st)) (snd st) ((v, 0) # (u, j) # below)"
          using j(2) False by (subst rpo_loop.simps) simp
        also have "\<dots> = rpo_loop inside succs (fst st1) (snd st1 @ [v]) ((u, j) # below)"
          using IH [OF st1(1), of 0 v] by (simp add: inside_rows_def)
        also have "\<dots> = rpo_loop inside succs (fst st') (snd st' @ [u]) below"
          using IH [OF st1(2) j(1)] by simp
        finally show ?thesis .
      qed
    qed
  qed
  then show ?thesis
    using assms(2) by simp
qed

subsection \<open>The order of the blocks of a loop\<close>

lemma blocks_in_rpo_ok:
  assumes bound: "body l \<subseteq> {..<n}" and head: "header l \<in> body l"
  obtains order where "blocks_in_rpo l succs = Some order" and "distinct order" and "set order = body l"
    and "\<forall>a b. reach (row_edge (inside_rows (body l) succs)) (\<lambda>_. True) (header l) b \<longrightarrow> a \<noteq> b \<longrightarrow>
      gated (inside_rows (body l) succs) [header l] {} a b \<longrightarrow> precedes order a b"
    and "\<forall>u v. reach (row_edge (inside_rows (body l) succs)) (\<lambda>_. True) (header l) u \<longrightarrow>
      row_edge (inside_rows (body l) succs) u v \<longrightarrow> v \<noteq> header l \<longrightarrow>
      precedes order u v \<or> reach (row_edge (inside_rows (body l) succs)) (\<lambda>w. w \<noteq> header l) v u"
proof -
  let ?rows = "inside_rows (body l) succs" and ?h = "header l"
  have rows: "set (?rows u) \<subseteq> {..<n}" "set (?rows u) \<subseteq> body l" for u
    using bound by (auto simp: inside_rows_def)
  obtain V inner where run: "visit_all True hash_mark ?rows (?rows ?h) ({?h}, []) = Some (V, [] @ inner)" and V: "V = {?h} \<union> set inner"
    and new: "covers ?rows (?rows ?h) {?h} inner" "emits_in_order True ?rows (?rows ?h) {?h} inner"
      and backward: "edges_emitted_back True ?rows {?h} inner"
    using hash_marks.visit_all_ok [where n = n and rows = ?rows and s = "{?h}" and nodes = "?rows ?h" and post = True and order = "[]",
        OF rows(1) TrueI rows(1)] by auto
  let ?post = "inner @ [?h]"
  have around: "around True ?h inner @ [] = ?post"
    by (simp add: around_def)
  have inside: "set (?rows u) \<subseteq> {?h} \<union> set inner" if "u \<in> {?h} \<union> set inner" for u
    using new(1) that by (auto simp: covers_def)
  have new: "covers ?rows [?h] {} ?post" "emits_in_order True ?rows [?h] {} ?post"
    using covers_node [of ?h "{}" ?rows inner "[]" "[]" True] emits_node [of ?h "{}" ?rows inner "[]" "[]" True] new
    unfolding around by (simp_all add: covers_Nil emits_Nil)
  have loop: "rpo_loop (body l) succs {?h} [] [(?h, 0)] = Some (V, ?post)"
    using rpo_loop_visit [OF run, of 0 ?h "[]"] by (simp add: inside_rows_def rpo_loop.simps [of _ _ _ _ "[]"])
  have "set ?post \<subseteq> body l"
  proof
    fix b
    assume "b \<in> set ?post"
    then have "reach (row_edge ?rows) (\<lambda>_. True) ?h b"
      unfolding covers_reached [OF new(1)] by blast
    then show "b \<in> body l"
      by (induction rule: reach_induct) (use head rows(2) in \<open>auto simp: row_edge_def\<close>)
  qed
  moreover have finite: "finite (body l)"
    using finite_subset [OF bound] by simp
  moreover have distinct: "distinct ?post"
    using new(1) by (simp add: covers_def)
  ultimately have all: "length ?post < card (body l) \<or> set ?post = body l"
    using card_mono card_subset_eq distinct_card by (metis linorder_neqE_nat not_le)
  define rest where "rest = (if length ?post < card (body l) then sorted_list_of_set (body l - V) else [])"
  have "blocks_in_rpo l succs = Some (rev (?post @ rest))"
    using loop by (simp add: blocks_in_rpo_def rest_def)
  moreover have "distinct (?post @ rest)" "set (?post @ rest) = body l"
    using distinct finite all V \<open>set ?post \<subseteq> body l\<close> by (auto simp: rest_def)
  moreover have "precedes (rev (?post @ rest)) a b"
    if b: "reach (row_edge ?rows) (\<lambda>_. True) ?h b" "a \<noteq> b" "gated ?rows [?h] {} a b" for a b
  proof -
    have "b \<in> set ?post"
      unfolding covers_reached [OF new(1)] using b(1) by simp
    then have "precedes ?post b a"
      using new(2) b(2,3) unfolding emits_in_order_def by auto
    then show ?thesis
      unfolding precedes_rev by (rule precedes_appendI1)
  qed
  moreover have "precedes (rev (?post @ rest)) u v \<or> reach (row_edge ?rows) (\<lambda>w. w \<noteq> ?h) v u"
    if e: "reach (row_edge ?rows) (\<lambda>_. True) ?h u" "row_edge ?rows u v" "v \<noteq> ?h" for u v
  proof -
    have "u \<in> set ?post"
      unfolding covers_reached [OF new(1)] using e(1) by simp
    then have u: "u = ?h \<or> u \<in> set inner"
      by auto
    then have v: "v \<in> set (?rows u)" "v \<in> set inner"
      using inside [of u] e(2,3) by (auto simp: row_edge_def)
    have "precedes ?post v u \<or> reach (row_edge ?rows) (\<lambda>w. w \<noteq> ?h) v u"
      using u
    proof
      assume "u = ?h"
      then show ?thesis
        using precedes_last [OF v(2)] by simp
    next
      assume "u \<in> set inner"
      then show ?thesis
        using backward v precedes_appendI1 [of inner v u "[?h]"] unfolding edges_emitted_back_def by auto
    qed
    then show ?thesis
      unfolding precedes_rev using precedes_appendI1 [of ?post v u rest] by blast
  qed
  ultimately show thesis
    using that [of "rev (?post @ rest)"] by (simp del: rev_append)
qed

text \<open>A reachable block of a natural loop is reached from the header within the loop, and only through its dominators.\<close>

lemma reached_in_loop:
  assumes T: "\<And>t. t \<in> T \<Longrightarrow> loop_edge E t h" and b: "b \<in> natural_body E h T" "reachable E 0 b"
  shows "reach (\<lambda>u v. E u v \<and> v \<in> natural_body E h T) (\<lambda>_. True) h b"
proof (cases "b = h")
  case False
  let ?N = "\<lambda>u v. E u v \<and> v \<in> natural_body E h T"
  have "\<not> reach E (\<lambda>v. True \<and> v \<noteq> h) 0 b \<or> h = 0"
    using natural_body_dominated [OF T b] by (auto simp: dominates_reach)
  moreover have "reach E (\<lambda>_. True) 0 b"
    using b(2) by (simp add: reachable_reach)
  ultimately have "reach E (\<lambda>v. v \<noteq> h) h b"
    using reach_last_visit [of E "\<lambda>_. True" 0 b "\<lambda>v. v = h"] by auto
  obtain t where t: "t \<in> T" "reach E (\<lambda>v. v \<noteq> h) b t"
    using b(1) False by (auto simp: natural_body_def)
  have "reach ?N (\<lambda>_. True) x b" if "reach E (\<lambda>v. v \<noteq> h) x b" for x
    using that
  proof (induction rule: reach_converse_induct)
    case (step x z)
    have "z \<in> natural_body E h T"
      using reach_trans [OF step(3) t(2)] t(1) step(2) by (auto simp: natural_body_def)
    then have "reach ?N (\<lambda>_. True) x z"
      using reach_step [of ?N _ x x z] step(1) by simp
    from reach_trans [OF this step(4)] show ?case .
  qed simp
  then show ?thesis
    using \<open>reach E (\<lambda>v. v \<noteq> h) h b\<close> by blast
qed simp

lemma gated_in_loop:
  assumes T: "\<And>t. t \<in> T \<Longrightarrow> loop_edge E t h" and b: "b \<in> natural_body E h T" "reachable E 0 b"
    and a: "a \<in> natural_body E h T" "dominates E 0 a b" "a \<noteq> h"
  shows "\<not> reach E (\<lambda>v. v \<noteq> a) h b"
proof
  assume r: "reach E (\<lambda>v. v \<noteq> a) h b"
  have dom: "dominates E 0 h b" "dominates E 0 h a"
    using natural_body_dominated [OF T b] natural_body_dominated [OF T a(1) dominates_reachable [OF a(2) b(2)]] by blast+
  have "\<not> dominates E 0 a h"
    using dominates_antisym [OF _ dom(2)] dominates_reachable [OF dom(1) b(2)] a(3) by blast
  then have "a \<noteq> 0" "reach E (\<lambda>v. v \<noteq> a) 0 h"
    by (auto simp: dominates_reach)
  from this(1) reach_trans [OF this(2) r] show False
    using a(2) by (simp add: dominates_reach)
qed

text \<open>C29: The blocks of a natural loop in reverse postorder are the blocks of its body, each once. A reachable block comes after all blocks of
  the body that dominate it, and an edge inside the body from a reachable block to another block than the header leads forward, unless its target leads back to
  its source inside the body without the header.\<close>
theorem loop_blocks_topological:
  assumes "blocks \<noteq> []"
  shows "\<exists>cfg loops. build_analysis blocks = Some cfg \<and>
    find_merged_natural_loops (num_blocks cfg) (cfg_preds cfg) (cfg_succs cfg) (cfg_idom cfg) = Some loops \<and>
    (\<forall>l \<in> set loops. \<exists>order. blocks_in_rpo l (cfg_succs cfg) = Some order \<and> distinct order \<and> set order = body l \<and>
       (\<forall>a \<in> body l. \<forall>b \<in> body l. a \<noteq> b \<longrightarrow> reachable (function_edge blocks) 0 b \<longrightarrow>
          dominates (function_edge blocks) 0 a b \<longrightarrow> precedes order a b) \<and>
       (\<forall>u \<in> body l. \<forall>v \<in> body l. reachable (function_edge blocks) 0 u \<longrightarrow> function_edge blocks u v \<longrightarrow> v \<noteq> header l \<longrightarrow>
          precedes order u v \<or> reach (function_edge blocks) (\<lambda>w. w \<in> body l \<and> w \<noteq> header l) v u))"
proof (rule function_loops_natural [OF assms], goal_cases)
  case (1 cfg loops)
  let ?E = "function_edge blocks" and ?n = "length blocks"
  have "\<exists>order. blocks_in_rpo l (cfg_succs cfg) = Some order \<and> distinct order \<and> set order = body l \<and>
       (\<forall>a \<in> body l. \<forall>b \<in> body l. a \<noteq> b \<longrightarrow> reachable ?E 0 b \<longrightarrow> dominates ?E 0 a b \<longrightarrow> precedes order a b) \<and>
       (\<forall>u \<in> body l. \<forall>v \<in> body l. reachable ?E 0 u \<longrightarrow> ?E u v \<longrightarrow> v \<noteq> header l \<longrightarrow>
          precedes order u v \<or> reach ?E (\<lambda>w. w \<in> body l \<and> w \<noteq> header l) v u)"
    if l: "l \<in> set loops" for l
  proof -
    let ?rows = "inside_rows (body l) (cfg_succs cfg)" and ?N = "\<lambda>u v. ?E u v \<and> v \<in> body l"
      and ?T = "{t. loop_edge ?E t (header l)}"
    note bound = 1(5) [OF l] and nat = 1(6) [OF l]
    have T: "t \<in> ?T \<Longrightarrow> loop_edge ?E t (header l)" for t
      by simp
    have rows: "set (?rows u) \<subseteq> {..<?n}" for u
      using bound by (auto simp: inside_rows_def)
    have N: "(\<lambda>u v. u < ?n \<and> v \<in> set (?rows u)) = ?N"
      using 1(7,9) by (auto simp: inside_rows_def fun_eq_iff)
    have same: "reach (row_edge ?rows) P x b \<longleftrightarrow> reach ?N P x b" if "x < ?n" for P x b
      using reach_row_edge [of ?n ?rows x P b, OF rows that] N by simp
    have weaken: "reach ?E (\<lambda>w. w \<in> body l \<and> P w) x b" if "reach ?N P x b" for P x b
      using that
    proof (induction rule: reach_induct)
      case (step y z)
      then show ?case
        using reach_step [OF step(4), of z] by simp
    qed simp
    have head: "header l \<in> body l"
      unfolding nat by simp
    obtain order where order: "blocks_in_rpo l (cfg_succs cfg) = Some order" "distinct order" "set order = body l"
        "\<forall>a b. reach (row_edge ?rows) (\<lambda>_. True) (header l) b \<longrightarrow> a \<noteq> b \<longrightarrow> gated ?rows [header l] {} a b \<longrightarrow> precedes order a b"
        "\<forall>u v. reach (row_edge ?rows) (\<lambda>_. True) (header l) u \<longrightarrow> row_edge ?rows u v \<longrightarrow> v \<noteq> header l \<longrightarrow>
           precedes order u v \<or> reach (row_edge ?rows) (\<lambda>w. w \<noteq> header l) v u"
      by (rule blocks_in_rpo_ok [OF bound head])
    have reached: "reach (row_edge ?rows) (\<lambda>_. True) (header l) b" if b: "b \<in> body l" "reachable ?E 0 b" for b
    proof -
      have N: "b \<in> natural_body ?E (header l) ?T"
        using b(1) nat by simp
      show ?thesis
        unfolding same [OF 1(4) [OF l]]
        unfolding nat by (rule reached_in_loop [OF T N b(2)])
    qed
    have "precedes order a b" if ab: "a \<in> body l" "b \<in> body l" "a \<noteq> b" "reachable ?E 0 b" "dominates ?E 0 a b" for a b
    proof (rule order(4) [rule_format, OF reached [OF ab(2,4)] ab(3)])
      have N: "a \<in> natural_body ?E (header l) ?T" "b \<in> natural_body ?E (header l) ?T"
        using ab(1,2) nat by simp_all
      have "\<not> reach ?E (\<lambda>v. v \<noteq> a) (header l) b" if "header l \<noteq> a"
        by (rule gated_in_loop [OF T N(2) ab(4) N(1) ab(5)]) (use that in auto)
      moreover have "reach ?E (\<lambda>v. v \<noteq> a) (header l) b" if "reach ?N (\<lambda>v. v \<noteq> a) (header l) b"
        by (rule reach_mono [OF weaken [OF that]]) simp
      ultimately have "\<not> reach ?N (\<lambda>v. v \<noteq> a) (header l) b" if "header l \<noteq> a"
        using that by satx
      then show "gated ?rows [header l] {} a b"
        by (auto simp: gated_def same [OF 1(4) [OF l]])
    qed
    moreover have "precedes order u v \<or> reach ?E (\<lambda>w. w \<in> body l \<and> w \<noteq> header l) v u"
      if uv: "u \<in> body l" "v \<in> body l" "reachable ?E 0 u" "?E u v" "v \<noteq> header l" for u v
    proof -
      have "u < ?n" "v < ?n"
        using uv(1,2) bound by auto
      moreover have "row_edge ?rows u v"
        using fun_cong [OF fun_cong [OF N], of u v] uv(2,4) by (simp add: row_edge_def)
      ultimately show ?thesis
        using order(5) [rule_format, OF reached [OF uv(1,3)] _ uv(5)] weaken [of "\<lambda>w. w \<noteq> header l" v u] same by blast
    qed
    ultimately show ?thesis
      using order(1-3) by blast
  qed
  then show ?case
    using 1(1,3) by blast
qed

theorem loop_blocks_topological_witness:
  "two_latches \<noteq> [] \<and> (\<exists>cfg loops. build_analysis two_latches = Some cfg \<and>
     find_merged_natural_loops (num_blocks cfg) (cfg_preds cfg) (cfg_succs cfg) (cfg_idom cfg) = Some loops \<and>
     (\<exists>order. blocks_in_rpo \<lparr>header = 1, body = {1, 2, 3}\<rparr> (cfg_succs cfg) = Some order \<and> set order = {1, 2, 3} \<and> precedes order 1 2))"
proof
  show n: "two_latches \<noteq> []"
    by (simp add: two_latches_def)
  have edges: "function_edge two_latches 0 1" "function_edge two_latches 1 2"
    unfolding function_edge_def by code_simp+
  let ?E = "function_edge two_latches"
  have "reachable ?E 0 1"
    by (rule reachable_step [of ?E 0 0 1, OF reachable_entry edges(1)])
  then have r: "reachable ?E 0 2"
    by (rule reachable_step [of ?E 0 1 2, OF _ edges(2)])
  obtain cfg merged where m: "build_analysis two_latches = Some cfg"
      "find_merged_natural_loops (num_blocks cfg) (cfg_preds cfg) (cfg_succs cfg) (cfg_idom cfg) = Some merged"
    and orders: "\<forall>l \<in> set merged. \<exists>order. blocks_in_rpo l (cfg_succs cfg) = Some order \<and> distinct order \<and> set order = body l \<and>
       (\<forall>a \<in> body l. \<forall>b \<in> body l. a \<noteq> b \<longrightarrow> reachable (function_edge two_latches) 0 b \<longrightarrow>
          dominates (function_edge two_latches) 0 a b \<longrightarrow> precedes order a b)"
    using loop_blocks_topological [OF n] by meson
  obtain loops where "find_natural_loops (num_blocks cfg) (cfg_preds cfg) (cfg_succs cfg) (cfg_idom cfg) = Some loops"
    using two_latches_loops m by (auto simp: function_loops_def split: Option.bind_splits)
  then have merged: "merged = [\<lparr>header = 1, body = {1, 2, 3}\<rparr>]"
    using two_latches_found(2) m by blast
  have "dominates (function_edge two_latches) 0 1 2"
  proof (rule function_loops_natural [OF n], goal_cases)
    case (1 cfg' merged')
    have "merged' = merged"
      using 1(1,3) m by simp
    then have "{1, 2, 3} = natural_body (function_edge two_latches) 1 {t. loop_edge (function_edge two_latches) t 1}"
      using 1(6) [of "\<lparr>header = 1, body = {1, 2, 3}\<rparr>"] merged by simp
    then have "2 \<in> natural_body (function_edge two_latches) 1 {t. loop_edge (function_edge two_latches) t 1}"
      by blast
    from natural_body_dominated [OF _ this r] show ?case
      by simp
  qed
  then show "\<exists>cfg loops. build_analysis two_latches = Some cfg \<and>
      find_merged_natural_loops (num_blocks cfg) (cfg_preds cfg) (cfg_succs cfg) (cfg_idom cfg) = Some loops \<and>
      (\<exists>order. blocks_in_rpo \<lparr>header = 1, body = {1, 2, 3}\<rparr> (cfg_succs cfg) = Some order \<and> set order = {1, 2, 3} \<and> precedes order 1 2)"
    using m orders r unfolding merged by auto
qed

subsection \<open>The orders of the loops\<close>

abbreviation nest_roots :: "NaturalLoop list \<Rightarrow> nat list" where
  "nest_roots loops \<equiv> filter (\<lambda>r. smallest_parent loops r = None) [0..<length loops]"

lemma child_row: "p < length loops \<Longrightarrow> set (children_of loops ! p) = {b. b < length loops \<and> smallest_parent loops b = Some p}"
  by (auto simp: children_of_def)

lemma nest_traversal_ok:
  assumes fin: "\<And>i. i < length loops \<Longrightarrow> body (loops ! i) \<subseteq> {..<num}"
  obtains s added where
    "visit_all post mark_visited ((!) (children_of loops)) (nest_roots loops) (replicate (length loops) False, []) = Some (s, added)"
    and "distinct added" and "set added = {..<length loops}"
    and "\<forall>i < length loops. \<forall>j. i \<noteq> j \<longrightarrow> gated ((!) (children_of loops)) (nest_roots loops) {} j i \<longrightarrow>
      (if post then precedes added i j else precedes added j i)"
proof -
  let ?k = "length loops" and ?rows = "(!) (children_of loops)"
  have rows: "set (?rows u) \<subseteq> {..<?k}" if "u < ?k" for u
    using child_row [OF that] by auto
  have empty: "marked (replicate ?k False) = {}"
    by (auto simp: marked_def)
  obtain s added where run: "visit_all post mark_visited ?rows (nest_roots loops) (replicate ?k False, []) = Some (s, [] @ added)"
    and new: "set added \<subseteq> {..<?k}" "covers ?rows (nest_roots loops) {} added" "emits_in_order post ?rows (nest_roots loops) {} added"
    using marks.visit_all_ok [of ?k ?rows "replicate ?k False" "nest_roots loops" post "[]", OF rows] unfolding empty by auto
  have "i \<in> set added" if "i < ?k" for i
    using that
  proof (induction "num - card (body (loops ! i))" arbitrary: i rule: less_induct)
    case less
    show ?case
    proof (cases "smallest_parent loops i")
      case None
      then show ?thesis
        using new(2) less.prems by (auto simp: covers_def)
    next
      case (Some p)
      note P = smallest_parent_Some [OF Some]
      have "card (body (loops ! p)) \<le> num"
        using card_mono [OF _ fin [OF P(1)]] by simp
      then have "p \<in> set added"
        using P(2) by (intro less.hyps [OF _ P(1)]) (auto simp: parent_candidate_def)
      then show ?thesis
        using new(2) child_row [OF P(1)] Some less.prems by (auto simp: covers_def)
    qed
  qed
  then have "set added = {..<?k}"
    using new(1) by blast
  then show thesis
    using that [of s added] run new(2,3) by (auto simp: covers_def emits_in_order_def)
qed

lemma gated_parent:
  assumes "smallest_parent loops i = Some p"
  shows "gated ((!) (children_of loops)) (nest_roots loops) {} p i"
  unfolding gated_def
proof (intro ballI impI notI)
  fix r
  assume r: "r \<in> set (nest_roots loops)" "r \<noteq> p" and way: "reach (row_edge ((!) (children_of loops))) (\<lambda>v. v \<notin> {} \<and> v \<noteq> p) r i"
  have edge: "smallest_parent loops v = Some u" if "u < length loops" "row_edge ((!) (children_of loops)) u v" for u v
    using that child_row by (auto simp: row_edge_def)
  have "x < length loops \<and> x \<noteq> i \<and> x \<noteq> p" if "reach (row_edge ((!) (children_of loops))) (\<lambda>v. v \<notin> {} \<and> v \<noteq> p) r x" for x
    using that
  proof (induction rule: reach_induct)
    case refl
    then show ?case
      using r assms by auto
  next
    case (step y z)
    then have "smallest_parent loops z = Some y" "y \<noteq> p"
      using edge by blast+
    moreover have "z < length loops"
      using step(2,4) child_row by (auto simp: row_edge_def)
    ultimately show ?case
      using assms step(3) by auto
  qed
  from this [OF way] show False
    by simp
qed

lemma gated_enclosing:
  assumes fin: "\<And>i. i < length loops \<Longrightarrow> body (loops ! i) \<subseteq> {..<num}" and chain: "chain_at loops b" and b: "b \<in> body (loops ! i)"
    and j: "j < length loops" "body (loops ! i) \<subset> body (loops ! j)"
  shows "gated ((!) (children_of loops)) (nest_roots loops) {} j i"
  unfolding gated_def
proof (intro ballI impI notI)
  let ?B = "\<lambda>l. body (loops ! l)"
  fix r
  assume r: "r \<in> set (nest_roots loops)" "r \<noteq> j" and way: "reach (row_edge ((!) (children_of loops))) (\<lambda>v. v \<notin> {} \<and> v \<noteq> j) r i"
  have candidate: "parent_candidate loops l j" if "?B l \<subset> ?B j" for l
    using that psubset_card_mono [OF finite_subset [OF fin [OF j(1)]] that] by (auto simp: parent_candidate_def)
  have "x < length loops \<and> x \<noteq> j \<and> \<not> (?B i \<subseteq> ?B x \<and> ?B x \<subset> ?B j)"
    if "reach (row_edge ((!) (children_of loops))) (\<lambda>v. v \<notin> {} \<and> v \<noteq> j) r x" for x
    using that
  proof (induction rule: reach_induct)
    case refl
    have "smallest_parent loops r = None" "r < length loops"
      using r(1) by auto
    then show ?case
      using smallest_parent_None [of loops r j] j(1) candidate [of r] r(2) by blast
  next
    case (step y z)
    then have y: "y < length loops" "y \<noteq> j" "\<not> (?B i \<subseteq> ?B y \<and> ?B y \<subset> ?B j)" and z: "z \<in> set (children_of loops ! y)"
      by (simp_all add: row_edge_def)
    then have parent: "z < length loops" "smallest_parent loops z = Some y"
      using child_row [OF y(1)] by auto
    note P = smallest_parent_Some [OF parent(2)]
    have "False" if z: "?B i \<subseteq> ?B z" "?B z \<subset> ?B j"
    proof -
      have sub: "?B z \<subseteq> ?B y"
        using P(2) by (simp add: parent_candidate_def)
      have "card (?B y) \<le> card (?B j)"
        by (rule P(3) [OF j(1) candidate [OF z(2)]])
      then have "\<not> ?B j \<subset> ?B y"
        using psubset_card_mono [OF finite_subset [OF fin [OF y(1)]], of "?B j"] by auto
      moreover have "b \<in> ?B y" "b \<in> ?B j"
        using b z sub by auto
      ultimately have "?B y \<subset> ?B j"
        using chain [unfolded chain_at_def, rule_format, of y j] y(1,2) j(1) by blast
      then show False
        using y(3) z(1) sub by blast
    qed
    then show ?case
      using parent(1) step(3) by blast
  qed
  from this [OF way] show False
    using j(2) by blast
qed

text \<open>C30: Both orders list every loop of the function once. A loop comes before its parent in the innermost-first order and after it in the
  outermost-first order, and the same holds for every loop around a loop whose header is reachable.\<close>
theorem loop_traversals_ordered:
  assumes "blocks \<noteq> []"
  shows "\<exists>cfg loops nest inner outer. build_analysis blocks = Some cfg \<and>
    find_merged_natural_loops (num_blocks cfg) (cfg_preds cfg) (cfg_succs cfg) (cfg_idom cfg) = Some loops \<and>
    analyze (num_blocks cfg) loops = Some nest \<and> innermost_first nest = Some inner \<and> outermost_first nest = Some outer \<and>
    distinct inner \<and> set inner = {..<length loops} \<and> distinct outer \<and> set outer = {..<length loops} \<and>
    (\<forall>i < length loops. \<forall>j < length loops.
       nest_parent nest ! i = Some j \<or> reachable (function_edge blocks) 0 (header (loops ! i)) \<and> body (loops ! i) \<subset> body (loops ! j) \<longrightarrow>
       precedes inner i j \<and> precedes outer j i)"
proof (rule function_loops_shape [OF assms], goal_cases)
  case (1 cfg loops)
  let ?k = "length loops" and ?E = "function_edge blocks" and ?rows = "(!) (children_of loops)"
  have header: "header l \<in> body l" if "l \<in> set loops" for l
  proof (rule function_loops_natural [OF assms], goal_cases)
    case (1 cfg' loops')
    then have "loops' = loops"
      using \<open>build_analysis blocks = Some cfg\<close> \<open>find_merged_natural_loops _ _ _ _ = Some loops\<close> by simp
    then show ?case
      using 1(6) [of l] that by simp
  qed
  obtain nest where N: "analyze (length blocks) loops = Some nest" "nest_loops nest = loops" "nest_parent nest = parents_of loops"
      "nest_children nest = children_of loops"
    by (rule analyze_ok [OF 1(4)])
  have roots: "loop_roots nest = nest_roots loops"
    unfolding loop_roots_def N by (rule filter_cong) (auto simp: parents_of_def)
  obtain s inner where I: "visit_all True mark_visited ?rows (nest_roots loops) (replicate ?k False, []) = Some (s, inner)"
      "distinct inner" "set inner = {..<?k}"
      "\<forall>i < ?k. \<forall>j. i \<noteq> j \<longrightarrow> gated ?rows (nest_roots loops) {} j i \<longrightarrow> (if True then precedes inner i j else precedes inner j i)"
    by (rule nest_traversal_ok [OF 1(4), of True])
  obtain s' outer where O: "visit_all False mark_visited ?rows (nest_roots loops) (replicate ?k False, []) = Some (s', outer)"
      "distinct outer" "set outer = {..<?k}"
      "\<forall>i < ?k. \<forall>j. i \<noteq> j \<longrightarrow> gated ?rows (nest_roots loops) {} j i \<longrightarrow> (if False then precedes outer i j else precedes outer j i)"
    by (rule nest_traversal_ok [OF 1(4), of False])
  have gate: "gated ?rows (nest_roots loops) {} j i \<and> i \<noteq> j"
    if i: "i < ?k" "j < ?k" and around: "nest_parent nest ! i = Some j \<or> reachable ?E 0 (header (loops ! i)) \<and> body (loops ! i) \<subset> body (loops ! j)"
    for i j
    using around
  proof
    assume "nest_parent nest ! i = Some j"
    then have p: "smallest_parent loops i = Some j"
      using i(1) by (simp add: N parents_of_def)
    then show ?thesis
      using gated_parent [OF p] smallest_parent_Some(2) [OF p] by (auto simp: parent_candidate_def)
  next
    assume "reachable ?E 0 (header (loops ! i)) \<and> body (loops ! i) \<subset> body (loops ! j)"
    then show ?thesis
      using gated_enclosing [OF 1(4) 1(5) header, of i j] i by auto
  qed
  have "innermost_first nest = Some inner" "outermost_first nest = Some outer"
    unfolding innermost_first_def outermost_first_def dfs_post_order_def dfs_pre_order_def roots N I O by simp_all
  moreover have "precedes inner i j \<and> precedes outer j i"
    if "i < ?k" "j < ?k" "nest_parent nest ! i = Some j \<or> reachable ?E 0 (header (loops ! i)) \<and> body (loops ! i) \<subset> body (loops ! j)" for i j
    using I(4) O(4) gate [OF that] that(1) by simp
  ultimately show ?case
    using 1(1-3) N(1) I(2,3) O(2,3) by auto
qed

definition nested_loops :: "unit BasicBlock list" where
  "nested_loops =
     [\<lparr>label = 30, instructions = [], terminator = Branch 31\<rparr>,
      \<lparr>label = 31, instructions = [], terminator = CondBranch (Value 1) 32 33\<rparr>,
      \<lparr>label = 32, instructions = [], terminator = CondBranch (Value 2) 32 31\<rparr>,
      \<lparr>label = 33, instructions = [], terminator = Return None\<rparr>]"

lemma nested_loops_found:
  "do {
     cfg \<leftarrow> build_analysis nested_loops;
     loops \<leftarrow> find_merged_natural_loops (num_blocks cfg) (cfg_preds cfg) (cfg_succs cfg) (cfg_idom cfg);
     nest \<leftarrow> analyze (num_blocks cfg) loops;
     Some (loops, nest_parent nest)
   } = Some ([\<lparr>header = 1, body = {1, 2}\<rparr>, \<lparr>header = 2, body = {2}\<rparr>], [None, Some 0])"
  by code_simp

theorem loop_traversals_ordered_witness:
  "nested_loops \<noteq> [] \<and> (\<exists>cfg loops nest inner outer. build_analysis nested_loops = Some cfg \<and>
     find_merged_natural_loops (num_blocks cfg) (cfg_preds cfg) (cfg_succs cfg) (cfg_idom cfg) = Some loops \<and>
     analyze (num_blocks cfg) loops = Some nest \<and> innermost_first nest = Some inner \<and> outermost_first nest = Some outer \<and>
     length loops = 2 \<and> precedes inner 1 0 \<and> precedes outer 0 1)"
proof
  show n: "nested_loops \<noteq> []"
    by (simp add: nested_loops_def)
  obtain cfg loops nest inner outer where r: "build_analysis nested_loops = Some cfg"
      "find_merged_natural_loops (num_blocks cfg) (cfg_preds cfg) (cfg_succs cfg) (cfg_idom cfg) = Some loops"
      "analyze (num_blocks cfg) loops = Some nest" "innermost_first nest = Some inner" "outermost_first nest = Some outer"
    and order: "\<forall>i < length loops. \<forall>j < length loops.
       nest_parent nest ! i = Some j \<or> reachable (function_edge nested_loops) 0 (header (loops ! i)) \<and> body (loops ! i) \<subset> body (loops ! j) \<longrightarrow>
       precedes inner i j \<and> precedes outer j i"
    using loop_traversals_ordered [OF n] by (elim exE conjE) (rule that)
  have found: "loops = [\<lparr>header = 1, body = {1, 2}\<rparr>, \<lparr>header = 2, body = {2}\<rparr>]" "nest_parent nest = [None, Some 0]"
    using nested_loops_found r(1-3) by simp_all
  have "precedes inner 1 0 \<and> precedes outer 0 1"
    using order [rule_format, of 1 0] by (simp add: found)
  then show "\<exists>cfg loops nest inner outer. build_analysis nested_loops = Some cfg \<and>
      find_merged_natural_loops (num_blocks cfg) (cfg_preds cfg) (cfg_succs cfg) (cfg_idom cfg) = Some loops \<and>
      analyze (num_blocks cfg) loops = Some nest \<and> innermost_first nest = Some inner \<and> outermost_first nest = Some outer \<and>
      length loops = 2 \<and> precedes inner 1 0 \<and> precedes outer 0 1"
    using r found(1) by auto
qed

end
