(* ===== verification/LoopShape.thy ===== *)
theory LoopShape
  imports NaturalLoops "HOL-Library.Product_Lexorder"
begin

text \<open>
  What surrounds a loop, \<^verbatim>\<open>src/src/passes/loop_analysis.rs\<close>: latches, exits, preheaders and the canonical form that the loop
  transformations ask for. Where the code walks a hash set and sorts what it collects, the set is walked in ascending order.
\<close>

subsection \<open>Operations\<close>

definition loop_contains :: "NaturalLoop \<Rightarrow> nat \<Rightarrow> bool" where
  "loop_contains l b \<longleftrightarrow> b \<in> body l"

definition loop_len :: "NaturalLoop \<Rightarrow> nat" where
  "loop_len l = card (body l)"

definition loop_is_empty :: "NaturalLoop \<Rightarrow> bool" where
  "loop_is_empty l \<longleftrightarrow> body l = {}"

definition is_self_loop :: "NaturalLoop \<Rightarrow> bool" where
  "is_self_loop l \<longleftrightarrow> card (body l) = 1 \<and> header l \<in> body l"

definition latches :: "NaturalLoop \<Rightarrow> FlatAdj \<Rightarrow> nat list" where
  "latches l pred_rows = filter (\<lambda>p. p \<in> body l) (row pred_rows (header l))"

definition single_latch :: "NaturalLoop \<Rightarrow> FlatAdj \<Rightarrow> nat option" where
  "single_latch l pred_rows =
     (let ls = latches l pred_rows in if length ls = 1 then Some (ls ! 0) else None)"

definition exiting_blocks :: "NaturalLoop \<Rightarrow> FlatAdj \<Rightarrow> nat list" where
  "exiting_blocks l succs = sort (filter (\<lambda>b. list_ex (\<lambda>s. s \<notin> body l) (row succs b)) (sorted_list_of_set (body l)))"

definition exit_blocks :: "NaturalLoop \<Rightarrow> FlatAdj \<Rightarrow> nat list" where
  "exit_blocks l succs =
     sorted_list_of_set
       (foldl (\<lambda>exits b. foldl (\<lambda>exits s. if s \<notin> body l then insert s exits else exits) exits (row succs b)) {}
         (sorted_list_of_set (body l)))"

definition exit_edges :: "NaturalLoop \<Rightarrow> FlatAdj \<Rightarrow> (nat \<times> nat) list" where
  "exit_edges l succs =
     sort (concat (map (\<lambda>b. map (Pair b) (filter (\<lambda>s. s \<notin> body l) (row succs b))) (sorted_list_of_set (body l))))"

text \<open>The scan for a predecessor outside of the loop; a second one ends it.\<close>

fun outside_pred :: "nat set \<Rightarrow> nat option \<Rightarrow> nat list \<Rightarrow> nat option" where
  "outside_pred inside held [] = held"
| "outside_pred inside held (p # ps) =
     (if p \<notin> inside
      then (if held \<noteq> None then None else outside_pred inside (Some p) ps)
      else outside_pred inside held ps)"

definition find_preheader :: "nat \<Rightarrow> nat set \<Rightarrow> FlatAdj \<Rightarrow> nat option" where
  "find_preheader head inside pred_rows = outside_pred inside None (row pred_rows head)"

definition find_dedicated_preheader :: "nat \<Rightarrow> nat set \<Rightarrow> FlatAdj \<Rightarrow> FlatAdj \<Rightarrow> nat option" where
  "find_dedicated_preheader head inside pred_rows succs =
     do {
       preheader \<leftarrow> find_preheader head inside pred_rows;
       if length (row succs preheader) = 1 \<and> row succs preheader ! 0 = head then Some preheader else None
     }"

definition is_subloop_of :: "NaturalLoop \<Rightarrow> NaturalLoop \<Rightarrow> bool" where
  "is_subloop_of l other \<longleftrightarrow> card (body l) < card (body other) \<and> body l \<subseteq> body other"

definition pred_in_foreign_loop :: "nat \<Rightarrow> nat \<Rightarrow> NaturalLoop list \<Rightarrow> bool" where
  "pred_in_foreign_loop p head loops \<longleftrightarrow> list_ex (\<lambda>m. p \<in> body m \<and> head \<notin> body m) loops"

definition is_canonical :: "NaturalLoop \<Rightarrow> FlatAdj \<Rightarrow> FlatAdj \<Rightarrow> bool" where
  "is_canonical l pred_rows succs \<longleftrightarrow>
     (if find_dedicated_preheader (header l) (body l) pred_rows succs = None then False
      else if single_latch l pred_rows = None then False
      else list_all (\<lambda>e. list_all (\<lambda>p. p \<in> body l) (row pred_rows e)) (exit_blocks l succs))"

subsection \<open>Their meaning on the rows\<close>

lemma outside_pred_None: "outside_pred inside (Some q) ps = (if filter (\<lambda>p. p \<notin> inside) ps = [] then Some q else None)"
  by (induction ps) auto

lemma find_preheader_iff: "find_preheader head inside pred_rows = Some p \<longleftrightarrow> filter (\<lambda>p. p \<notin> inside) (row pred_rows head) = [p]"
proof -
  have "outside_pred inside None ps = Some p \<longleftrightarrow> filter (\<lambda>p. p \<notin> inside) ps = [p]" for ps
    by (induction ps) (auto simp: outside_pred_None)
  then show ?thesis
    by (simp add: find_preheader_def)
qed

lemma singleton_list: "length xs = 1 \<and> xs ! 0 = x \<longleftrightarrow> xs = [x]"
  by (cases xs) auto

lemma find_dedicated_preheader_iff:
  "find_dedicated_preheader head inside pred_rows succs = Some p \<longleftrightarrow>
     filter (\<lambda>p. p \<notin> inside) (row pred_rows head) = [p] \<and> row succs p = [head]"
proof -
  have "find_dedicated_preheader head inside pred_rows succs = Some p \<longleftrightarrow>
      find_preheader head inside pred_rows = Some p \<and> length (row succs p) = 1 \<and> row succs p ! 0 = head"
    by (auto simp: find_dedicated_preheader_def split: Option.bind_splits if_splits)
  then show ?thesis
    by (simp only: find_preheader_iff singleton_list)
qed

lemma single_latch_iff: "single_latch l pred_rows = Some t \<longleftrightarrow> filter (\<lambda>p. p \<in> body l) (row pred_rows (header l)) = [t]"
  by (auto simp: single_latch_def latches_def Let_def singleton_list [symmetric])

lemma foldl_collect: "foldl (\<lambda>S s. if P s then insert s S else S) S xs = S \<union> {s \<in> set xs. P s}"
  by (induction xs arbitrary: S) auto

lemma exit_blocks_eq:
  assumes "finite (body l)"
  shows "exit_blocks l succs = sorted_list_of_set {s. s \<notin> body l \<and> (\<exists>b \<in> body l. s \<in> set (row succs b))}"
proof -
  have "foldl (\<lambda>exits b. foldl (\<lambda>exits s. if s \<notin> body l then insert s exits else exits) exits (row succs b)) S bs =
      S \<union> {s. s \<notin> body l \<and> (\<exists>b \<in> set bs. s \<in> set (row succs b))}" for S bs
    by (induction bs arbitrary: S) (auto simp: foldl_collect)
  then show ?thesis
    using assms by (simp add: exit_blocks_def)
qed

lemma set_exit_blocks:
  assumes "finite (body l)"
  shows "set (exit_blocks l succs) = {s. s \<notin> body l \<and> (\<exists>b \<in> body l. s \<in> set (row succs b))}"
proof -
  have "{s. s \<notin> body l \<and> (\<exists>b \<in> body l. s \<in> set (row succs b))} \<subseteq> (\<Union>b \<in> body l. set (row succs b))"
    by auto
  then have "finite {s. s \<notin> body l \<and> (\<exists>b \<in> body l. s \<in> set (row succs b))}"
    using assms finite_subset by blast
  then show ?thesis
    by (simp add: exit_blocks_eq [OF assms])
qed

lemma exit_edges_iff:
  "finite (body l) \<Longrightarrow> (b, s) \<in> set (exit_edges l succs) \<longleftrightarrow> b \<in> body l \<and> s \<notin> body l \<and> s \<in> set (row succs b)"
  by (auto simp: exit_edges_def)

lemma exiting_blocks_iff:
  "finite (body l) \<Longrightarrow> b \<in> set (exiting_blocks l succs) \<longleftrightarrow> (\<exists>s. (b, s) \<in> set (exit_edges l succs))"
  by (auto simp: exiting_blocks_def exit_edges_iff list_ex_iff)

lemma exits_agree: "finite (body l) \<Longrightarrow> s \<in> set (exit_blocks l succs) \<longleftrightarrow> (\<exists>b. (b, s) \<in> set (exit_edges l succs))"
  by (auto simp: set_exit_blocks exit_edges_iff)

subsection \<open>Canonical loops\<close>

text \<open>C27: A loop of a function that passes the test for the canonical form has one preheader, which leads to the header only and is the
  source of every edge into the loop, one latch, and no edge from outside of the loop into a block that the loop exits to.\<close>
theorem canonical_loop_shape:
  assumes "blocks \<noteq> []"
  shows "\<exists>cfg loops. build_analysis blocks = Some cfg \<and>
    find_merged_natural_loops (num_blocks cfg) (cfg_preds cfg) (cfg_succs cfg) (cfg_idom cfg) = Some loops \<and>
    (\<forall>l \<in> set loops. is_canonical l (cfg_preds cfg) (cfg_succs cfg) \<longrightarrow>
       (\<exists>p. p \<notin> body l \<and> (\<forall>v. function_edge blocks p v \<longleftrightarrow> v = header l) \<and>
          (\<forall>u v. function_edge blocks u v \<longrightarrow> u \<notin> body l \<longrightarrow> v \<in> body l \<longrightarrow> u = p \<and> v = header l)) \<and>
       (\<exists>t. \<forall>u. function_edge blocks u (header l) \<and> u \<in> body l \<longleftrightarrow> u = t) \<and>
       (\<forall>b u v. b \<in> body l \<longrightarrow> function_edge blocks b v \<longrightarrow> v \<notin> body l \<longrightarrow> function_edge blocks u v \<longrightarrow> u \<in> body l))"
proof (rule function_loops_natural [OF assms], goal_cases)
  case (1 cfg loops)
  let ?E = "function_edge blocks"
  have "(\<exists>p. p \<notin> body l \<and> (\<forall>v. ?E p v \<longleftrightarrow> v = header l) \<and>
        (\<forall>u v. ?E u v \<longrightarrow> u \<notin> body l \<longrightarrow> v \<in> body l \<longrightarrow> u = p \<and> v = header l)) \<and>
      (\<exists>t. \<forall>u. ?E u (header l) \<and> u \<in> body l \<longleftrightarrow> u = t) \<and>
      (\<forall>b u v. b \<in> body l \<longrightarrow> ?E b v \<longrightarrow> v \<notin> body l \<longrightarrow> ?E u v \<longrightarrow> u \<in> body l)"
    if l: "l \<in> set loops" and c: "is_canonical l (cfg_preds cfg) (cfg_succs cfg)" for l
  proof -
    note head = 1(4) [OF l]
    have preds: "set (row (cfg_preds cfg) (header l)) = {u. ?E u (header l)}"
      by (rule 1(8) [OF head])
    have finite: "finite (body l)"
      using finite_subset [OF 1(5) [OF l]] by simp
    obtain p t where p: "filter (\<lambda>p. p \<notin> body l) (row (cfg_preds cfg) (header l)) = [p]" "row (cfg_succs cfg) p = [header l]"
      and t: "filter (\<lambda>p. p \<in> body l) (row (cfg_preds cfg) (header l)) = [t]"
      and exits: "\<forall>e \<in> set (exit_blocks l (cfg_succs cfg)). \<forall>q \<in> set (row (cfg_preds cfg) e). q \<in> body l"
      using c by (auto simp: is_canonical_def list_all_iff find_dedicated_preheader_iff single_latch_iff split: if_splits)
    have outside: "?E u (header l) \<and> u \<notin> body l \<longleftrightarrow> u = p" and latch: "?E u (header l) \<and> u \<in> body l \<longleftrightarrow> u = t" for u
      using arg_cong [OF p(1), of set] arg_cong [OF t, of set] unfolding set_filter preds by auto
    have "p < length blocks"
      using outside [of p] 1(9) by blast
    then have only: "?E p v \<longleftrightarrow> v = header l" for v
      using 1(7) [of p] p(2) by auto
    have enter: "u = p \<and> v = header l" if e: "?E u v" "u \<notin> body l" "v \<in> body l" for u v
    proof -
      have "v = header l"
        using natural_body_pred [of v ?E "header l" "{t. loop_edge ?E t (header l)}" u] e 1(6) [OF l] by blast
      then show ?thesis
        using outside e(1,2) by blast
    qed
    have "u \<in> body l" if e: "b \<in> body l" "?E b v" "v \<notin> body l" "?E u v" for b u v
    proof -
      have "b < length blocks" "v < length blocks"
        using 1(9) [OF e(2)] by simp_all
      then have "v \<in> set (exit_blocks l (cfg_succs cfg))" "u \<in> set (row (cfg_preds cfg) v)"
        using e 1(7) [of b] 1(8) [of v] by (auto simp: set_exit_blocks [OF finite])
      then show ?thesis
        using exits by blast
    qed
    then show ?thesis
      using outside only enter latch by blast
  qed
  then show ?case
    using 1(1,3) by blast
qed

definition simple_loop :: "unit BasicBlock list" where
  "simple_loop =
     [\<lparr>label = 40, instructions = [], terminator = Branch 41\<rparr>,
      \<lparr>label = 41, instructions = [], terminator = CondBranch (Value 1) 42 43\<rparr>,
      \<lparr>label = 42, instructions = [], terminator = Branch 41\<rparr>,
      \<lparr>label = 43, instructions = [], terminator = Return None\<rparr>]"

lemma simple_loop_canonical:
  "do {
     cfg \<leftarrow> build_analysis simple_loop;
     loops \<leftarrow> find_merged_natural_loops (num_blocks cfg) (cfg_preds cfg) (cfg_succs cfg) (cfg_idom cfg);
     Some (loops, map (\<lambda>l. is_canonical l (cfg_preds cfg) (cfg_succs cfg)) loops)
   } = Some ([\<lparr>header = 1, body = {1, 2}\<rparr>], [True])"
  by code_simp

theorem canonical_loop_shape_witness:
  "simple_loop \<noteq> [] \<and> (\<exists>cfg l. build_analysis simple_loop = Some cfg \<and>
     find_merged_natural_loops (num_blocks cfg) (cfg_preds cfg) (cfg_succs cfg) (cfg_idom cfg) = Some [l] \<and>
     is_canonical l (cfg_preds cfg) (cfg_succs cfg) \<and> body l = {1, 2} \<and>
     (\<exists>p. p \<notin> body l \<and> (\<forall>v. function_edge simple_loop p v \<longleftrightarrow> v = header l)))"
proof
  show n: "simple_loop \<noteq> []"
    by (simp add: simple_loop_def)
  obtain cfg loops where r: "build_analysis simple_loop = Some cfg"
      "find_merged_natural_loops (num_blocks cfg) (cfg_preds cfg) (cfg_succs cfg) (cfg_idom cfg) = Some loops"
    and every: "\<forall>l \<in> set loops. is_canonical l (cfg_preds cfg) (cfg_succs cfg) \<longrightarrow>
       (\<exists>p. p \<notin> body l \<and> (\<forall>v. function_edge simple_loop p v \<longleftrightarrow> v = header l) \<and>
          (\<forall>u v. function_edge simple_loop u v \<longrightarrow> u \<notin> body l \<longrightarrow> v \<in> body l \<longrightarrow> u = p \<and> v = header l)) \<and>
       (\<exists>t. \<forall>u. function_edge simple_loop u (header l) \<and> u \<in> body l \<longleftrightarrow> u = t) \<and>
       (\<forall>b u v. b \<in> body l \<longrightarrow> function_edge simple_loop b v \<longrightarrow> v \<notin> body l \<longrightarrow> function_edge simple_loop u v \<longrightarrow> u \<in> body l)"
    using canonical_loop_shape [OF n] by (elim exE conjE)
  have shape: "\<exists>p. p \<notin> body l \<and> (\<forall>v. function_edge simple_loop p v \<longleftrightarrow> v = header l)"
    if l: "l \<in> set loops" "is_canonical l (cfg_preds cfg) (cfg_succs cfg)" for l
  proof -
    obtain p where "p \<notin> body l" "\<forall>v. function_edge simple_loop p v \<longleftrightarrow> v = header l"
      using every [rule_format, OF l(1), OF l(2)] by (elim conjE exE)
    then show ?thesis
      by (intro exI [of _ p] conjI)
  qed
  note listed = simple_loop_canonical [unfolded r bind.bind_lunit option.inject prod.inject]
  note found = listed [THEN conjunct1]
  have canonical: "is_canonical \<lparr>header = 1, body = {1, 2}\<rparr> (cfg_preds cfg) (cfg_succs cfg)"
    using listed [THEN conjunct2] unfolding found by simp
  let ?l = "\<lparr>header = 1, body = {1, 2}\<rparr> :: NaturalLoop"
  have "?l \<in> set loops"
    by (simp add: found)
  note entry = shape [OF this canonical]
  show "\<exists>cfg l. build_analysis simple_loop = Some cfg \<and>
      find_merged_natural_loops (num_blocks cfg) (cfg_preds cfg) (cfg_succs cfg) (cfg_idom cfg) = Some [l] \<and>
      is_canonical l (cfg_preds cfg) (cfg_succs cfg) \<and> body l = {1, 2} \<and>
      (\<exists>p. p \<notin> body l \<and> (\<forall>v. function_edge simple_loop p v \<longleftrightarrow> v = header l))"
  proof (rule exI [of _ cfg], rule exI [of _ ?l], intro conjI)
    show "find_merged_natural_loops (num_blocks cfg) (cfg_preds cfg) (cfg_succs cfg) (cfg_idom cfg) = Some [?l]"
      using r(2) unfolding found .
    show "body ?l = {1, 2}"
      by simp
  qed (fact r(1) canonical entry)+
qed

text \<open>A block that branches to the header twice is its only predecessor from outside, yet no preheader is found: the rows of predecessors hold
  a block once for each of its edges.\<close>

definition doubled_entry :: "unit BasicBlock list" where
  "doubled_entry =
     [\<lparr>label = 50, instructions = [], terminator = CondBranch (Value 1) 51 51\<rparr>,
      \<lparr>label = 51, instructions = [], terminator = CondBranch (Value 2) 51 52\<rparr>,
      \<lparr>label = 52, instructions = [], terminator = Return None\<rparr>]"

lemma doubled_entry_has_no_preheader:
  "map_option (\<lambda>cfg. (row (cfg_preds cfg) 1, row (cfg_succs cfg) 0, find_preheader 1 {1} (cfg_preds cfg))) (build_analysis doubled_entry) =
     Some ([0, 0, 1], [1], None)"
  by code_simp

end
