(* ===== verification/Spec2Isabelle.thy ===== *)
theory Spec2Isabelle
  imports Prelude Relr Uleb128 IrTypes IrOps ConstFold LongDouble I686Machine SynthMul MagicDiv DivByConst PpExpr PpGrammar PpConditionals SlotColoring SlotSafety IrConstants PhiCopies PhiParallel PhiEdges EhFrame GcSections GcReach EhCompact PruneFdes EhFrameHdr EhPack Dominance SearchTree CfgGraph DfsNumbering SemiNca Dominators CfgBundle DomQueries DomIntervals BlockSets NaturalLoops LoopNesting Traversal LoopOrder LoopShape
begin

text \<open>
  Verification library of LCCC, an optimising C compiler written in Rust with its own preprocessor, front end, SSA
  intermediate representation, four back ends (x86-64, i686, AArch64, RISC-V), assemblers and linkers. Paths below are
  relative to \<^verbatim>\<open>src/src\<close>.

  \<^bold>\<open>The program and the part modelled here.\<close> A translation unit passes through the preprocessor
  (\<^verbatim>\<open>frontend/preprocessor\<close>), the lexer, parser and semantic analysis (\<^verbatim>\<open>frontend\<close>), lowering to the
  intermediate representation (\<^verbatim>\<open>ir\<close>), the optimisation passes (\<^verbatim>\<open>passes\<close>), stack layout and register
  allocation (\<^verbatim>\<open>backend\<close>), one of the four code generators, its assembler and its linker. The development
  models the places on this path where the compiler computes: values of preprocessor conditions, constants of the
  intermediate representation and of the target's floating-point formats, copies on control-flow edges, arithmetic replaced by
  cheaper code, stack slots shared between values, and at link time which sections and unwind records stay and how they are encoded. Each is modelled with its data types, its operations and all
  their branches, and the theorems are about the operations the rest of the compiler calls.

  \<^bold>\<open>Conventions\<close> (theory \<open>Prelude\<close>). A machine integer is a word of its width, whatever its signedness; \<open>as\<close>
  casts are \<^const>\<open>ucast\<close> and \<^const>\<open>scast\<close>. Plain arithmetic wraps as in the release profile. \<^verbatim>\<open>Result\<close> is
  a sum type, \<^verbatim>\<open>Option\<close> an option, a panic or a failed assertion \<^const>\<open>None\<close>
  (assertions are checked, as in a debug build, and the theorems show where none fails); state that the code mutates
  through a reference is passed and returned. Thread-local configuration is an explicit argument (record
  \<open>target\<close>).

  \<^bold>\<open>Theories.\<close>

  \<^item> \<open>Relr\<close>: \<^verbatim>\<open>backend/linker_common/relr.rs\<close>. The relative relocations of an output are split into packable
    and other ones and packed into address and bitmap words. The loop is defined once over the word size; a locale states
    the geometry of slot and window and is interpreted at both ELF classes. Decoding the packed words gives
    exactly the packable addresses, in order.

  \<^item> \<open>Uleb128\<close>: \<^verbatim>\<open>backend/riscv/linker/uleb128.rs\<close>. A label difference is written into a reserved field
    of unchanged length; it reads back exactly, and every error leaves the field untouched.

  \<^item> \<open>IrTypes\<close>, \<open>IrOps\<close>: \<^verbatim>\<open>IrType\<close> of \<^verbatim>\<open>common/types.rs\<close> and \<^verbatim>\<open>ir/ops.rs\<close>. Sizes,
    signedness and the predicates that allow a cast to be removed are characterised by what the types denote;
    the compile-time evaluators are shown to implement each operation at their container width, to
    refuse exactly the trapping ones, and the negated and swapped predicates to mean what their names say.

  \<^item> \<open>ConstFold\<close>: \<^verbatim>\<open>passes/constant_fold.rs\<close>. Integer folding of binary operations, unary operations and casts
    on constants in a 64-bit container is the operation at exactly the width of the type, for shift counts below the width; the exceptions
    (unsigned operations on signed types narrower than 32 bits) are stated as they are.

  \<^item> \<open>LongDouble\<close>: \<^verbatim>\<open>common/long_double.rs\<close>. Encodings denote extended reals; widening is exact,
    narrowing from binary128 to binary64 and to the x87 format rounds once to nearest even, with gradual underflow and
    overflow, in canonical encoding; conversions to integers truncate below \<open>2 ^ 128\<close> and wrap above.

  \<^item> \<open>I686Machine\<close>, \<open>SynthMul\<close>, \<open>MagicDiv\<close>, \<open>DivByConst\<close>: \<^verbatim>\<open>backend/i686/codegen/alu.rs\<close> and
    \<^verbatim>\<open>backend/i686/codegen/magic_div.rs\<close>. The instructions these emitters use have a semantics on registers. The
    search for a multiplication chain is exhaustive within its budget and returns a best chain, its memo table
    stays consistent with the search, and the emitted chain multiplies. The search for a division multiplier ends
    within the bound the code asserts for every divisor, and the emitted code leaves the exact quotient,
    remainder or both, for every dividend.

  \<^item> \<open>PpExpr\<close>, \<open>PpGrammar\<close>, \<open>PpConditionals\<close>: \<^verbatim>\<open>frontend/preprocessor/conditionals.rs\<close> and the dispatch of
    conditional directives in \<^verbatim>\<open>frontend/preprocessor/pipeline.rs\<close>. The evaluator of \<^verbatim>\<open>#if\<close> conditions
    always returns, and on the tokens of an expression gives the value the code's own rules denote, which is the value under the conversions
    of C when the operands of every conditional operator agree in signedness; processing the lines of nested groups is the meaning of the
    groups, in every dialect, also where \<^verbatim>\<open>#elifdef\<close> is unknown and skipped. What
    a line that is no conditional directive does, and how a condition is turned into tokens, are parameters.

  \<^item> \<open>SlotColoring\<close>, \<open>SlotSafety\<close>: \<^verbatim>\<open>backend/stack_layout/graph_coloring.rs\<close> and the slot allocators that the
    AArch64 and RISC-V back ends pass to it. Two locales state what coloring needs of an interference regime and of an
    allocator; they are interpreted on both regimes and both allocators, and coloring is shown safe
    once: values whose slots share a byte are never live or written at the same point.

  \<^item> \<open>IrConstants\<close>: \<^verbatim>\<open>ir/constants.rs\<close> and the decoding of decimal patterns in \<^verbatim>\<open>common/decimal.rs\<close>. A
    constant of an integer type of at most 32 bits, or of the signed 64-bit type, holds the conversion of its value to its type and serialises its low bytes,
    masks are exact at every width; that the integer serialisation answers zeros for decimal constants is stated as it is.

  \<^item> \<open>PhiCopies\<close>, \<open>PhiParallel\<close>, \<open>PhiEdges\<close>: \<^verbatim>\<open>ir/mem2reg/phi_eliminate.rs\<close>. Copies of phi functions are ordered
    per edge with temporaries for cycles, and placed at the end of the predecessor, in a trampoline block or at the target. A plan is
    sound if its sequential copies and temporaries give the parallel assignment; all three copy orders produce sound plans, and
    what runs on an edge, computed jumps aside, and at its target is the parallel assignment of the phi functions.

  \<^item> \<open>Dominance\<close>, \<open>SearchTree\<close>, \<open>CfgGraph\<close>, \<open>DfsNumbering\<close>, \<open>SemiNca\<close>, \<open>Dominators\<close>, \<open>CfgBundle\<close>, \<open>DomQueries\<close>, \<open>DomIntervals\<close>,
    \<open>Traversal\<close>:
    \<^verbatim>\<open>ir/analysis.rs\<close>. The graph of a function is built from the labels its blocks name; immediate dominators are computed by
    a depth-first numbering, semidominators with path compression, and a climb up the finished tree. Dominance is defined on walks. A locale
    states what a depth-first search promises about its numbers, and the theory of semidominators is developed inside it;
    it is interpreted on the search of the code, and the result is that the array holds exactly the immediate dominators. The chain
    query and the frontiers are shown to be what the definitions on walks say, up to the treatment of the entry and of unreachable blocks.
    The time stamps of a walk through the dominator tree answer the same queries with two comparisons. Recursive traversals are written once over the
    marking of a node and the time at which it is emitted; the reverse postorder lists the reachable blocks topologically up to cycles.

  \<^item> \<open>BlockSets\<close>, \<open>NaturalLoops\<close>, \<open>LoopNesting\<close>, \<open>LoopOrder\<close>, \<open>LoopShape\<close>: \<^verbatim>\<open>passes/loop_analysis.rs\<close>. Sets of blocks are bit sets, shown to implement
    finite sets. The body of a loop is grown backwards from the tails of its back edges; the work list is written once over an insertion
    operation, a locale states what it needs of it, and it is interpreted on hash sets and on bit sets. The loops found are exactly the natural
    loops of the graph, whether merged afterwards or from the start, and their hierarchy gives every reachable block its innermost loop and its depth.
    The blocks of a loop and the loops of a function are visited in the orders the passes rely on, and a loop that passes the test for the canonical form
    has the preheader, latch and exits that the form promises.

  \<^item> \<open>EhFrame\<close>, \<open>EhCompact\<close>, \<open>EhFrameHdr\<close>, \<open>PruneFdes\<close>, \<open>EhPack\<close>: \<^verbatim>\<open>backend/linker_common/eh_frame.rs\<close>. The records of
    an unwind section are scanned by their length fields; removing some of them packs the others without gaps, and
    keeps their bytes and CIE pointers; the search table of \<^verbatim>\<open>.eh_frame_hdr\<close> fits the slot layout reserved and indexes every record whose
    addresses decode; the pointers written after the section merge lead to their recorded targets.

  \<^item> \<open>GcSections\<close>, \<open>GcReach\<close>: \<^verbatim>\<open>backend/linker_common/gc_sections.rs\<close> on the object structures of
    \<^verbatim>\<open>backend/linker_common/types.rs\<close>. Names bind to sections, roots are marked, a work list follows relocations, and
    rounds over the unwind records add what live records depend on. What is discarded is exactly what an inductive reachability relation
    does not reach. \<open>PruneFdes\<close> joins the two parts: what a record that survives pruning refers to survives collection, when the function symbol
    is bound in its own object; a counterexample shows that this condition is needed.

  \<^bold>\<open>Bounds and fuel.\<close> The loops of the multiplier searches carry the iteration bound the code asserts (33 and 32
    rounds); the proofs show that it is never reached. The evaluator of conditions closes its recursion on
    one more than the number of tokens, and the proof that it returns shows that this is enough for every token list.
    The search for a multiplication chain recurses on the code's own budget. The work list of the section collector and its rounds end because
    each marking reduces the number of unmarked candidates; the planner of phi copies ends because each round emits a copy or
    breaks a cycle; the scans of unwind sections advance by the checked length of each record.
    The depth-first search ends because each round numbers a block or moves along a row; following the compressed forest, climbing the
    dominator tree and walking to a frontier are partial functions shown to return, and the rounds of the chain query suffice because the
    number of dominators falls at each step. The work list of a loop body ends because each block enters it once, the walk up the
    hierarchy of loops because a parent is larger. The traversals end because each call marks a new node or moves along a row. All other loops are structural.
    Where the code iterates over a hash set or map and the result could depend on the order, the order is an argument.

  \<^bold>\<open>Not modelled.\<close> The driver, lexer, parser, semantic analysis and lowering; the optimisation passes other than
  constant folding; the construction of SSA form; register allocation; the code generators apart from the emitters above, the
  peephole passes, assemblers and object writers; symbol resolution, layout and relocation of the linkers; profile-guided
  optimisation. They are components of their own, most of them over the whole instruction set of the intermediate representation or of
  a target. Within the modelled files: floating-point folding, which uses the host's arithmetic; the software
  arithmetic and parsing of long doubles; conversions of constants to and from host floating point; tokenising and macro expansion of
  conditions; absorbing self-loop copies and sharing uniform edges in phi elimination, whose edges from indirect branches are excluded;
  debugging output.
\<close>

end
